(* ===== verification/Server_Prelude.thy ===== *)
theory Server_Prelude
  imports Main "HOL-Library.Word"
begin

text \<open>
  Shared vocabulary of the development: the widths of the C++ integer types the
  sources use, the result type in which undefined behaviour, null dereferences and
  thrown exceptions are values, bounds-checked array access, and the lemmas on
  lists, words and invariants that the component theories use.
\<close>

section \<open>Integer widths\<close>

type_synonym u8 = "8 word"
type_synonym u16 = "16 word"
type_synonym u32 = "32 word"
type_synonym u64 = "64 word"

section \<open>Results: a fault or a value\<close>

text \<open>
  A C++ statement of the sources either completes or does something the language
  gives no meaning to (an index outside an array, a null dereference), throws
  (\<^verbatim>\<open>std::bad_function_call\<close>, the \<^verbatim>\<open>std::runtime_error\<close> of \<^verbatim>\<open>LOG_FATAL\<close>), hands the kernel an
  \<^verbatim>\<open>OVERLAPPED\<close> structure that is still in flight or, where a loop or a re-entrant callback has no bound in its
  code, exceeds the bound the model was given. The schedulers add a thread that locks a mutex it already holds, a
  division by zero and an access to a container that another thread is changing; the shutdown a system call on a handle that is not
  open, a call on an object whose destructor has run, and the destructor of a running \<^verbatim>\<open>std::thread\<close>, which calls
  \<^verbatim>\<open>std::terminate\<close>.
\<close>

datatype fault =
    Out_of_bounds
  | Null_deref
  | Bad_function_call
  | Runtime_error
  | Assertion_failed
  | Overlapped_busy
  | Loop_bound
  | Call_depth
  | Mutex_relocked
  | Division_by_zero
  | Data_race
  | Not_open
  | Destroyed_object
  | Terminated

type_synonym 'a res = "fault + 'a"

definition rbind :: "'a res \<Rightarrow> ('a \<Rightarrow> 'b res) \<Rightarrow> 'b res" where
  "rbind m f = (case m of Inl e \<Rightarrow> Inl e | Inr x \<Rightarrow> f x)"

named_theorems res_simps "evaluation of the result monad and of checked array access"
named_theorems res_elims "inversion of successful results"

lemma rbind_Inl [simp, res_simps]: "rbind (Inl e) f = Inl e"
  by (simp add: rbind_def)

lemma rbind_Inr [simp, res_simps]: "rbind (Inr x) f = f x"
  by (simp add: rbind_def)

lemma rbind_eq_Inr_iff [res_elims]:
  "rbind m f = Inr y \<longleftrightarrow> (\<exists>x. m = Inr x \<and> f x = Inr y)"
  by (cases m) auto

lemma rbind_eq_InrE:
  assumes "rbind m f = Inr y"
  obtains x where "m = Inr x" and "f x = Inr y"
  using assms by (auto simp: rbind_eq_Inr_iff)

lemma rbind_cong [fundef_cong]:
  "m = m' \<Longrightarrow> (\<And>x. m' = Inr x \<Longrightarrow> f x = g x) \<Longrightarrow> rbind m f = rbind m' g"
  by (cases m') auto

lemma rbind_assoc: "rbind (rbind m f) g = rbind m (\<lambda>x. rbind (f x) g)"
  by (cases m) auto

section \<open>Evaluation inside the logic\<close>

text \<open>A congruence rule that evaluates a call before its continuation, and intervals unfolded one element at a time.\<close>

lemma rbind_eval: "m = m' \<Longrightarrow> rbind m f = rbind m' f"
  by simp

lemma upt_eval:
  "[i..<numeral k] = (if i < numeral k then i # [Suc i..<numeral k] else [])"
  "[i..<Suc m] = (if i < Suc m then i # [Suc i..<Suc m] else [])"
  by (rule upt_rec)+

section \<open>Checked arrays\<close>

text \<open>Reading or writing outside an array is the fault \<^const>\<open>Out_of_bounds\<close>.\<close>

definition aget :: "'a list \<Rightarrow> nat \<Rightarrow> 'a res" where
  "aget xs i = (if i < length xs then Inr (xs ! i) else Inl Out_of_bounds)"

definition aset :: "'a list \<Rightarrow> nat \<Rightarrow> 'a \<Rightarrow> 'a list res" where
  "aset xs i v = (if i < length xs then Inr (xs[i := v]) else Inl Out_of_bounds)"

lemma aget_in [simp, res_simps]: "i < length xs \<Longrightarrow> aget xs i = Inr (xs ! i)"
  by (simp add: aget_def)

lemma aset_in [simp, res_simps]: "i < length xs \<Longrightarrow> aset xs i v = Inr (xs[i := v])"
  by (simp add: aset_def)

lemma aget_eq_Inr_iff [res_elims]: "aget xs i = Inr x \<longleftrightarrow> i < length xs \<and> xs ! i = x"
  by (auto simp: aget_def)

lemma aset_eq_Inr_iff [res_elims]: "aset xs i v = Inr ys \<longleftrightarrow> i < length xs \<and> ys = xs[i := v]"
  by (auto simp: aset_def)

lemma aget_fault_iff: "aget xs i = Inl e \<longleftrightarrow> \<not> i < length xs \<and> e = Out_of_bounds"
  by (auto simp: aget_def)

section \<open>Words\<close>

lemma unat_minus_one32: "0 < unat (w :: u32) \<Longrightarrow> unat (w - 1) = unat w - 1"
  by (metis neq0_conv unat_0 unat_minus_one)

lemma unat_plus_one32: "unat (w :: u32) + 1 < 2 ^ 32 \<Longrightarrow> unat (w + 1) = unat w + 1"
  by (simp add: unat_word_ariths)

lemma unat_of_nat_u32 [simp]: "n < 2 ^ 32 \<Longrightarrow> unat (word_of_nat n :: u32) = n"
  by (simp add: unat_of_nat take_bit_nat_eq_self)

lemma unat_lt_u32: "unat (w :: u32) < 2 ^ 32"
  using unsigned_less [of w] by simp

lemma unat_lt_u16: "unat (w :: u16) < 65536"
  using unsigned_less [of w] by simp

lemma unat_ucast_u16_u64 [simp]: "unat (ucast (w :: u16) :: u64) = unat w"
  using unat_lt_u16 [of w] by (simp add: unsigned_ucast_eq take_bit_nat_eq_self)

lemma unat_ucast_u64_u32: "unat (w :: u64) < 2 ^ 32 \<Longrightarrow> unat (ucast w :: u32) = unat w"
  by (simp add: unsigned_ucast_eq take_bit_nat_eq_self)

section \<open>Counting\<close>

text \<open>The number of arguments at which a function has a property, after one of its values has changed.\<close>

lemma card_update:
  assumes "finite {x. P (f x)}"
  shows "card {x. P ((f(a := v)) x)} + of_bool (P (f a)) = card {x. P (f x)} + of_bool (P v)"
    and "finite {x. P ((f(a := v)) x)}"
proof -
  have eq: "{x. P ((f(a := v)) x)} = (if P v then insert a {x. P (f x)} else {x. P (f x)} - {a})" by auto
  show "finite {x. P ((f(a := v)) x)}" using assms unfolding eq by simp
  show "card {x. P ((f(a := v)) x)} + of_bool (P (f a)) = card {x. P (f x)} + of_bool (P v)"
  proof (cases "P (f a)")
    case True
    then have "card {x. P (f x)} = Suc (card ({x. P (f x)} - {a}))" using card.remove [OF assms, of a] by simp
    moreover have "insert a {x. P (f x)} = {x. P (f x)}" using True by auto
    ultimately show ?thesis using True unfolding eq by simp
  next
    case False
    then have "{x. P (f x)} - {a} = {x. P (f x)}" by auto
    then show ?thesis using False assms unfolding eq by simp
  qed
qed

section \<open>Invariants of step relations\<close>

text \<open>The states a step relation reaches from its initial states.\<close>

inductive reach :: "('s \<Rightarrow> bool) \<Rightarrow> ('s \<Rightarrow> 's \<Rightarrow> bool) \<Rightarrow> 's \<Rightarrow> bool"
  for init :: "'s \<Rightarrow> bool" and step :: "'s \<Rightarrow> 's \<Rightarrow> bool" where
  reach_init: "init s \<Longrightarrow> reach init step s"
| reach_step: "reach init step s \<Longrightarrow> step s t \<Longrightarrow> reach init step t"

text \<open>The contract of a component whose every step keeps an invariant.\<close>

locale stepwise_invariant =
  fixes init :: "'s \<Rightarrow> bool" and step :: "'s \<Rightarrow> 's \<Rightarrow> bool" and I :: "'s \<Rightarrow> bool"
  assumes init_I: "init s \<Longrightarrow> I s"
    and step_I: "I s \<Longrightarrow> step s t \<Longrightarrow> I t"
begin

lemma reach_I: "reach init step s \<Longrightarrow> I s"
  by (induction rule: reach.induct) (auto intro: init_I step_I)

end

text \<open>
  A program as a deterministic step function on events: an event is the choice of what happens next, \<open>en\<close> says which
  events can happen. A run stops at an event that cannot happen.
\<close>

definition event_trans :: "('e \<Rightarrow> 's \<Rightarrow> bool) \<Rightarrow> ('e \<Rightarrow> 's \<Rightarrow> 's res) \<Rightarrow> 's \<Rightarrow> 's \<Rightarrow> bool" where
  "event_trans en step s t \<longleftrightarrow> (\<exists>e. en e s \<and> step e s = Inr t)"

fun run_events :: "('e \<Rightarrow> 's \<Rightarrow> bool) \<Rightarrow> ('e \<Rightarrow> 's \<Rightarrow> 's res) \<Rightarrow> 'e list \<Rightarrow> 's \<Rightarrow> 's res" where
  "run_events en step [] s = Inr s"
| "run_events en step (e # es) s = (if en e s then rbind (step e s) (run_events en step es) else Inr s)"

text \<open>
  The contract of such a program: no event of a state that satisfies the invariant leaves it. What is proved of all its
  transitions holds of all its runs.
\<close>

locale event_system =
  fixes init :: "'s \<Rightarrow> bool" and en :: "'e \<Rightarrow> 's \<Rightarrow> bool" and step :: "'e \<Rightarrow> 's \<Rightarrow> 's res" and I :: "'s \<Rightarrow> bool"
  assumes init_ok: "init s \<Longrightarrow> I s"
    and event_ok: "I s \<Longrightarrow> en e s \<Longrightarrow> step e s = Inr t \<Longrightarrow> I t"

sublocale event_system \<subseteq> stepwise_invariant init "event_trans en step" I
  by unfold_locales (auto simp: event_trans_def intro: init_ok event_ok)

context event_system
begin

lemma run_reach:
  assumes "reach init (event_trans en step) s" "run_events en step es s = Inr t"
  shows "reach init (event_trans en step) t"
  using assms
proof (induction es arbitrary: s)
  case (Cons e es)
  show ?case
  proof (cases "en e s")
    case True
    then obtain u where u: "step e s = Inr u" "run_events en step es u = Inr t"
      using Cons.prems(2) by (auto elim: rbind_eq_InrE)
    have "event_trans en step s u" using True u(1) by (auto simp: event_trans_def)
    then show ?thesis using Cons.IH [OF reach_step [OF Cons.prems(1)] u(2)] by blast
  qed (use Cons.prems in simp)
qed simp

text \<open>A set of states that the events of a set \<open>E\<close> do not leave.\<close>

lemma run_stays:
  assumes "reach init (event_trans en step) s" "Q s" "set es \<subseteq> E" "run_events en step es s = Inr t"
    and "\<And>s e t. I s \<Longrightarrow> Q s \<Longrightarrow> e \<in> E \<Longrightarrow> en e s \<Longrightarrow> step e s = Inr t \<Longrightarrow> Q t"
  shows "Q t"
  using assms(1-4)
proof (induction es arbitrary: s)
  case (Cons e es)
  show ?case
  proof (cases "en e s")
    case True
    then obtain u where u: "step e s = Inr u" "run_events en step es u = Inr t"
      using Cons.prems(4) by (auto elim: rbind_eq_InrE)
    have "event_trans en step s u" using True u(1) by (auto simp: event_trans_def)
    moreover have "Q u" using assms(5) [OF reach_I [OF Cons.prems(1)] Cons.prems(2) _ True u(1)] Cons.prems(3) by simp
    ultimately show ?thesis using Cons.IH [OF reach_step [OF Cons.prems(1)]] Cons.prems(3) u(2) by simp
  qed (use Cons.prems in simp)
qed simp

end

end
