(* ===== verification/Sparse_Set.thy ===== *)
theory Sparse_Set
  imports Server_Prelude
begin

unbundle bit_operations_syntax

text \<open>
  \<^verbatim>\<open>Network/Common/Pool/SparseSet.hpp\<close>: the generational sparse set from which the
  session pool takes its slots. A slot index \<^verbatim>\<open>who\<close> is in exactly one of
  \<^verbatim>\<open>stateCount\<close> states; \<^verbatim>\<open>dense\<close> is a permutation of the indices in which the
  indices of a state are contiguous, between two neighbouring entries of \<^verbatim>\<open>cursor\<close>.
  A handle is the slot's generation in the upper and its index in the lower 32 bits.
\<close>

section \<open>State and operations\<close>

record sslot =
  slot_where :: u32
  slot_generation :: u32
  slot_state :: nat

text \<open>The template parameters \<^verbatim>\<open>N\<close> and \<^verbatim>\<open>stateCount\<close> are constant fields.\<close>

record sset =
  capacity :: nat
  stateCount :: nat
  sparse :: "sslot list"
  dense :: "u32 list"
  cursor :: "u32 list"

definition kInvalidHandle :: u64 where
  "kInvalidHandle = - 1"

definition kIndexShift :: nat where
  "kIndexShift = 32"

definition who_of :: "u64 \<Rightarrow> nat" where
  "who_of handle = unat (ucast handle :: u32)"

definition generation_of :: "u64 \<Rightarrow> u32" where
  "generation_of handle = ucast (drop_bit kIndexShift handle)"

definition make_handle :: "u32 \<Rightarrow> u32 \<Rightarrow> u64" where
  "make_handle generation who = (push_bit kIndexShift (ucast generation)) OR ucast who"

text \<open>The constructor: slot \<^verbatim>\<open>i\<close> at position \<^verbatim>\<open>i\<close>, all of them in state 0.\<close>

definition SparseSet :: "nat \<Rightarrow> nat \<Rightarrow> sset" where
  "SparseSet N k = \<lparr>
     capacity = N, stateCount = k,
     sparse = map (\<lambda>i. \<lparr>slot_where = word_of_nat i, slot_generation = 0, slot_state = 0\<rparr>) [0..<N],
     dense = map word_of_nat [0..<N],
     cursor = 0 # replicate k (word_of_nat N)\<rparr>"

definition IsValid :: "u64 \<Rightarrow> sset \<Rightarrow> bool" where
  "IsValid handle s \<longleftrightarrow>
     who_of handle < capacity s \<and>
     slot_generation (sparse s ! who_of handle) = generation_of handle"

definition GetHandle :: "u32 \<Rightarrow> sset \<Rightarrow> u64 res" where
  "GetHandle who s =
     rbind (aget (sparse s) (unat who)) (\<lambda>slot.
     Inr (make_handle (slot_generation slot) who))"

text \<open>\<^verbatim>\<open>GetState\<close> answers \<^verbatim>\<open>static_cast<size_t>(-1)\<close> for an invalid handle.\<close>

definition GetState :: "u64 \<Rightarrow> sset \<Rightarrow> nat" where
  "GetState handle s =
     (if \<not> IsValid handle s then 2 ^ 64 - 1
      else slot_state (sparse s ! who_of handle))"

text \<open>
  The exchange of two positions of \<^verbatim>\<open>dense\<close> with the repair of both back pointers,
  shared by \<^verbatim>\<open>IncrementState\<close> and \<^verbatim>\<open>DecrementState\<close>.
\<close>

definition set_where :: "u32 \<Rightarrow> nat \<Rightarrow> sslot list \<Rightarrow> sslot list res" where
  "set_where who pos sp =
     rbind (aget sp (unat who)) (\<lambda>slot.
     aset sp (unat who) (slot\<lparr>slot_where := word_of_nat pos\<rparr>))"

definition swap_positions :: "nat \<Rightarrow> nat \<Rightarrow> sset \<Rightarrow> sset res" where
  "swap_positions pos swapWith s =
     rbind (aget (dense s) pos) (\<lambda>a.
     rbind (aget (dense s) swapWith) (\<lambda>b.
     let d = (dense s)[pos := b, swapWith := a] in
     rbind (set_where (d ! pos) pos (sparse s)) (\<lambda>sp.
     rbind (set_where (d ! swapWith) swapWith sp) (\<lambda>sp'.
     Inr (s\<lparr>dense := d, sparse := sp'\<rparr>)))))"

definition set_state :: "nat \<Rightarrow> nat \<Rightarrow> sset \<Rightarrow> sset res" where
  "set_state who st s =
     rbind (aget (sparse s) who) (\<lambda>slot.
     rbind (aset (sparse s) who (slot\<lparr>slot_state := st\<rparr>)) (\<lambda>sp.
     Inr (s\<lparr>sparse := sp\<rparr>)))"

definition IncrementState :: "u64 \<Rightarrow> sset \<Rightarrow> (bool \<times> sset) res" where
  "IncrementState handle s =
     (let who = who_of handle in
      rbind (aget (sparse s) who) (\<lambda>slot.
      let currentState = slot_state slot in
      if currentState \<ge> stateCount s - 1 then Inr (False, s)
      else
        let nextState = currentState + 1; pos = unat (slot_where slot) in
        rbind (aget (cursor s) nextState) (\<lambda>c.
        let swapWith = unat (c - 1) in
        rbind (swap_positions pos swapWith s) (\<lambda>s.
        rbind (aset (cursor s) nextState (c - 1)) (\<lambda>cu.
        rbind (set_state who nextState (s\<lparr>cursor := cu\<rparr>)) (\<lambda>s.
        Inr (True, s)))))))"

definition DecrementState :: "u64 \<Rightarrow> sset \<Rightarrow> (bool \<times> sset) res" where
  "DecrementState handle s =
     (let who = who_of handle in
      rbind (aget (sparse s) who) (\<lambda>slot.
      let currentState = slot_state slot in
      if currentState = 0 then Inr (False, s)
      else
        let prevState = currentState - 1; pos = unat (slot_where slot) in
        rbind (aget (cursor s) currentState) (\<lambda>c.
        let swapWith = unat c in
        rbind (swap_positions pos swapWith s) (\<lambda>s.
        rbind (aset (cursor s) currentState (c + 1)) (\<lambda>cu.
        rbind (set_state who prevState (s\<lparr>cursor := cu\<rparr>)) (\<lambda>s.
        Inr (True, s)))))))"

lemma set_where_state:
  assumes "set_where w p sp = Inr sp'" "i < length sp"
  shows "slot_state (sp' ! i) = slot_state (sp ! i)"
    and "slot_generation (sp' ! i) = slot_generation (sp ! i)"
    and "length sp' = length sp"
  using assms by (auto simp: set_where_def res_elims nth_list_update)

lemma swap_positions_state:
  assumes "swap_positions p q s = Inr s'" "i < length (sparse s)"
  shows "slot_state (sparse s' ! i) = slot_state (sparse s ! i)"
    and "slot_generation (sparse s' ! i) = slot_generation (sparse s ! i)"
    and "length (sparse s') = length (sparse s)"
    and "cursor s' = cursor s"
  using assms
  by (auto simp: swap_positions_def Let_def rbind_eq_Inr_iff set_where_state)

lemma IncrementState_state:
  assumes "IncrementState h s = Inr (True, s')"
  shows "who_of h < length (sparse s')"
    and "slot_state (sparse s' ! who_of h) = Suc (slot_state (sparse s ! who_of h))"
  using assms
  by (auto simp: IncrementState_def set_state_def Let_def res_elims split: if_splits
      dest: swap_positions_state)

lemma DecrementState_state:
  assumes "DecrementState h s = Inr (True, s')"
  shows "who_of h < length (sparse s')"
    and "Suc (slot_state (sparse s' ! who_of h)) = slot_state (sparse s ! who_of h)"
  using assms
  by (auto simp: DecrementState_def set_state_def Let_def res_elims split: if_splits
      dest: swap_positions_state)

text \<open>
  The two loops of \<^verbatim>\<open>MoveToState\<close>. Each successful iteration moves the slot one state
  closer to the target, which is why the loops end.
\<close>

function raise_loop :: "u64 \<Rightarrow> nat \<Rightarrow> sset \<Rightarrow> (bool \<times> sset) res" where
  "raise_loop handle newState s =
     rbind (aget (sparse s) (who_of handle)) (\<lambda>slot.
     if slot_state slot < newState then
       rbind (IncrementState handle s) (\<lambda>r.
         if fst r then raise_loop handle newState (snd r) else Inr (False, snd r))
     else Inr (True, s))"
  by pat_completeness auto
termination
  by (relation "measure (\<lambda>(h, n, s). n - slot_state (sparse s ! who_of h))")
    (auto simp: res_elims dest!: IncrementState_state(2))

function lower_loop :: "u64 \<Rightarrow> nat \<Rightarrow> sset \<Rightarrow> (bool \<times> sset) res" where
  "lower_loop handle newState s =
     rbind (aget (sparse s) (who_of handle)) (\<lambda>slot.
     if slot_state slot > newState then
       rbind (DecrementState handle s) (\<lambda>r.
         if fst r then lower_loop handle newState (snd r) else Inr (False, snd r))
     else Inr (True, s))"
  by pat_completeness auto
termination
  by (relation "measure (\<lambda>(h, n, s). slot_state (sparse s ! who_of h))")
    (auto simp: res_elims dest!: DecrementState_state(2))

declare raise_loop.simps [simp del] lower_loop.simps [simp del]

definition MoveToState :: "u64 \<Rightarrow> nat \<Rightarrow> sset \<Rightarrow> (bool \<times> sset) res" where
  "MoveToState handle newState s =
     (if newState \<ge> stateCount s then Inr (False, s)
      else if \<not> IsValid handle s then Inr (False, s)
      else
        rbind (raise_loop handle newState s) (\<lambda>(ok, s).
        if \<not> ok then Inr (False, s) else lower_loop handle newState s))"

definition Pop :: "nat \<Rightarrow> sset \<Rightarrow> (u64 \<times> sset) res" where
  "Pop state s =
     (if state \<ge> stateCount s then Inr (kInvalidHandle, s)
      else
        rbind (aget (cursor s) 0) (\<lambda>c0.
        rbind (aget (cursor s) 1) (\<lambda>c1.
        if c0 = c1 then Inr (kInvalidHandle, s)
        else
          rbind (aget (dense s) (unat c0)) (\<lambda>who.
          rbind (GetHandle who s) (\<lambda>handle.
          rbind (MoveToState handle state s) (\<lambda>(_, s).
          Inr (handle, s)))))))"

definition Push :: "u64 \<Rightarrow> sset \<Rightarrow> (bool \<times> sset) res" where
  "Push handle s =
     (if \<not> IsValid handle s then Inr (False, s)
      else
        let who = who_of handle in
        rbind (MoveToState handle 0 s) (\<lambda>(_, s).
        rbind (aget (sparse s) who) (\<lambda>slot.
        rbind (aset (sparse s) who (slot\<lparr>slot_generation := slot_generation slot + 1\<rparr>)) (\<lambda>sp.
        Inr (True, s\<lparr>sparse := sp\<rparr>)))))"

fun handles_at :: "nat list \<Rightarrow> sset \<Rightarrow> u64 list res" where
  "handles_at [] s = Inr []"
| "handles_at (i # is) s =
     rbind (aget (dense s) i) (\<lambda>who.
     rbind (GetHandle who s) (\<lambda>handle.
     rbind (handles_at is s) (\<lambda>rest. Inr (handle # rest))))"

definition GetIndicesInState :: "nat \<Rightarrow> sset \<Rightarrow> u64 list res" where
  "GetIndicesInState state s =
     (if state \<ge> stateCount s then Inr []
      else
        rbind (aget (cursor s) state) (\<lambda>lo.
        rbind (aget (cursor s) (state + 1)) (\<lambda>hi.
        handles_at [unat lo..<unat hi] s)))"

text \<open>
  \<^verbatim>\<open>Tests/Unit/SparseSet.cpp\<close>: the outcomes of the test's expectations, in order.
\<close>

fun pops :: "nat \<Rightarrow> nat \<Rightarrow> sset \<Rightarrow> (u64 list \<times> sset) res" where
  "pops 0 n s = Inr ([], s)"
| "pops (Suc m) n s = rbind (Pop n s) (\<lambda>(h, s). rbind (pops m n s) (\<lambda>(hs, s). Inr (h # hs, s)))"

definition SparseSetV2 :: "bool list res" where
  "SparseSetV2 =
     rbind (Pop 1 (SparseSet 10 3)) (\<lambda>(h1, s).
     rbind (Pop 2 s) (\<lambda>(h2, s).
     rbind (GetIndicesInState 1 s) (\<lambda>a1.
     rbind (GetIndicesInState 2 s) (\<lambda>a2.
     let t1 = [IsValid h1 s, length a1 = 1, length a2 = 1] in
     rbind (MoveToState h1 2 s) (\<lambda>(_, s).
     rbind (GetIndicesInState 1 s) (\<lambda>b1.
     rbind (GetIndicesInState 2 s) (\<lambda>b2.
     let t2 = [b1 = [], length b2 = 2] in
     rbind (Push h1 s) (\<lambda>(_, s).
     let t3 = [\<not> IsValid h1 s] in
     rbind (Pop 2 s) (\<lambda>(h1_new, s).
     let t4 = [h1_new \<noteq> h1] in
     rbind (pops 8 1 s) (\<lambda>(hs, s).
     rbind (Pop 1 s) (\<lambda>(h, s).
     Inr (t1 @ t2 @ t3 @ t4 @ map (\<lambda>h. h \<noteq> kInvalidHandle) hs @ [h = kInvalidHandle]))))))))))))"

text \<open>The size of the vector \<^verbatim>\<open>GetIndicesInState\<close> returns.\<close>

definition count_in_state :: "nat \<Rightarrow> sset \<Rightarrow> nat" where
  "count_in_state n s = (case GetIndicesInState n s of Inl _ \<Rightarrow> 0 | Inr hs \<Rightarrow> length hs)"

section \<open>The layout invariant\<close>

text \<open>
  The invariant is stated over natural numbers: \<open>wh\<close> gives the position of an index,
  \<open>de\<close> the index at a position, \<open>cu\<close> the first position of a state and \<open>st\<close> the
  state of an index.
\<close>

definition layout ::
  "nat \<Rightarrow> nat \<Rightarrow> (nat \<Rightarrow> nat) \<Rightarrow> (nat \<Rightarrow> nat) \<Rightarrow> (nat \<Rightarrow> nat) \<Rightarrow> (nat \<Rightarrow> nat) \<Rightarrow> bool" where
  "layout N k wh de cu st \<longleftrightarrow>
     cu 0 = 0 \<and> cu k = N \<and>
     (\<forall>j<k. cu j \<le> cu (Suc j)) \<and>
     (\<forall>i<N. wh i < N \<and> de (wh i) = i) \<and>
     (\<forall>p<N. de p < N \<and> wh (de p) = p) \<and>
     (\<forall>i<N. st i < k \<and> cu (st i) \<le> wh i \<and> wh i < cu (Suc (st i)))"

definition pos_of :: "sset \<Rightarrow> nat \<Rightarrow> nat" where
  "pos_of s i = unat (slot_where (sparse s ! i))"

definition index_at :: "sset \<Rightarrow> nat \<Rightarrow> nat" where
  "index_at s p = unat (dense s ! p)"

definition first_pos :: "sset \<Rightarrow> nat \<Rightarrow> nat" where
  "first_pos s j = unat (cursor s ! j)"

definition state_of :: "sset \<Rightarrow> nat \<Rightarrow> nat" where
  "state_of s i = slot_state (sparse s ! i)"

definition gen_of :: "sset \<Rightarrow> nat \<Rightarrow> u32" where
  "gen_of s i = slot_generation (sparse s ! i)"

definition sized :: "sset \<Rightarrow> bool" where
  "sized s \<longleftrightarrow>
     capacity s < 2 ^ 32 \<and> 0 < stateCount s \<and>
     length (sparse s) = capacity s \<and> length (dense s) = capacity s \<and>
     length (cursor s) = Suc (stateCount s)"

definition ss_inv :: "sset \<Rightarrow> bool" where
  "ss_inv s \<longleftrightarrow>
     sized s \<and>
     layout (capacity s) (stateCount s) (pos_of s) (index_at s) (first_pos s) (state_of s)"

lemmas view_defs = pos_of_def index_at_def first_pos_def state_of_def gen_of_def

lemma layoutD:
  assumes "layout N k wh de cu st"
  shows "cu 0 = 0" and "cu k = N"
    and "j < k \<Longrightarrow> cu j \<le> cu (Suc j)"
    and "i < N \<Longrightarrow> wh i < N" and "i < N \<Longrightarrow> de (wh i) = i"
    and "p < N \<Longrightarrow> de p < N" and "p < N \<Longrightarrow> wh (de p) = p"
    and "i < N \<Longrightarrow> st i < k" and "i < N \<Longrightarrow> cu (st i) \<le> wh i"
    and "i < N \<Longrightarrow> wh i < cu (Suc (st i))"
  using assms by (auto simp: layout_def)

lemma layout_cong:
  assumes "layout N k wh de cu st"
    and "\<And>i. i < N \<Longrightarrow> wh' i = wh i" and "\<And>p. p < N \<Longrightarrow> de' p = de p"
    and "\<And>j. j \<le> k \<Longrightarrow> cu' j = cu j" and "\<And>i. i < N \<Longrightarrow> st' i = st i"
  shows "layout N k wh' de' cu' st'"
  using assms unfolding layout_def by (auto simp: Suc_le_eq)

lemma layout_cursor_mono:
  assumes "layout N k wh de cu st" "i \<le> j" "j \<le> k"
  shows "cu i \<le> cu j"
  using assms(2,3)
proof (induction rule: dec_induct)
  case (step n)
  then show ?case using layoutD(3) [OF assms(1), of n] by simp
qed simp

text \<open>A position lies in the block of exactly one state, so the block determines the state.\<close>

lemma layout_block_state:
  assumes L: "layout N k wh de cu st" and "i < N" "j < k" "cu j \<le> wh i" "wh i < cu (Suc j)"
  shows "st i = j"
proof (rule ccontr)
  assume "st i \<noteq> j"
  then consider "Suc (st i) \<le> j" | "Suc j \<le> st i" by linarith
  then show False
  proof cases
    case 1
    then have "cu (Suc (st i)) \<le> cu j"
      using layout_cursor_mono [OF L, of "Suc (st i)" j] assms(3) by simp
    then show False using layoutD(10) [OF L \<open>i < N\<close>] assms(4) by linarith
  next
    case 2
    then have "cu (Suc j) \<le> cu (st i)"
      using layout_cursor_mono [OF L, of "Suc j" "st i"] layoutD(8) [OF L \<open>i < N\<close>] by simp
    then show False using layoutD(9) [OF L \<open>i < N\<close>] assms(5) by linarith
  qed
qed

lemma layout_inc:
  assumes L: "layout N k wh de cu st" and i: "i < N" and k: "Suc (st i) < k"
  defines "p \<equiv> wh i" and "q \<equiv> cu (Suc (st i)) - 1"
  defines "j \<equiv> de q"
  shows "layout N k ((wh(j := p))(i := q)) ((de(p := j))(q := i))
           (cu(Suc (st i) := q)) (st(i := Suc (st i)))"
    and "q < N" and "p \<le> q" and "j < N" and "Suc q = cu (Suc (st i))" and "st j = st i"
proof -
  note D = layoutD [OF L]
  have pq: "p \<le> q" and Sq: "Suc q = cu (Suc (st i))" and cup: "cu (st i) \<le> p"
    using D(9,10) [OF i] by (auto simp: p_def q_def)
  have qN: "q < N"
    using layout_cursor_mono [OF L, of "Suc (st i)" k] D(2) k Sq by simp
  have jN: "j < N" and whj: "wh j = q" and pN: "p < N" and dep: "de p = i"
    using D(4-7) qN i by (auto simp: j_def p_def)
  have stj: "st j = st i"
    using layout_block_state [OF L jN, of "st i"] k whj Sq pq cup by simp
  have nxt: "cu (Suc (st i)) \<le> cu (Suc (Suc (st i)))" using D(3) k by simp
  have inj: "wh x = q \<Longrightarrow> x < N \<Longrightarrow> x = j" "wh x = p \<Longrightarrow> x < N \<Longrightarrow> x = i" for x
    using D(5) [of x] dep by (auto simp: j_def)
  have dinj: "de y = i \<Longrightarrow> y < N \<Longrightarrow> y = p" "de y = j \<Longrightarrow> y < N \<Longrightarrow> y = q" for y
    using D(7) [of y] whj by (auto simp: p_def)
  show "layout N k ((wh(j := p))(i := q)) ((de(p := j))(q := i))
           (cu(Suc (st i) := q)) (st(i := Suc (st i)))"
    unfolding layout_def
  proof (intro conjI allI impI)
    show "(cu(Suc (st i) := q)) 0 = 0" "(cu(Suc (st i) := q)) k = N"
      using D(1,2) k by auto
    show "(cu(Suc (st i) := q)) x \<le> (cu(Suc (st i) := q)) (Suc x)" if "x < k" for x
      using D(3) [OF that] Sq pq cup nxt by (auto simp: fun_upd_def)
    fix x assume x: "x < N"
    show "((wh(j := p))(i := q)) x < N" using D(4) x qN pN by auto
    show "((de(p := j))(q := i)) (((wh(j := p))(i := q)) x) = x"
      using D(5) [OF x] inj [of x] x dep by (auto simp: j_def)
    show "((de(p := j))(q := i)) x < N" using D(6) x jN i by auto
    show "((wh(j := p))(i := q)) (((de(p := j))(q := i)) x) = x"
    proof (cases "x = p \<or> x = q")
      case True
      then show ?thesis using whj by (auto simp: p_def)
    next
      case False
      then have "de x \<noteq> i" "de x \<noteq> j" using dinj x by blast+
      with False show ?thesis using D(7) [OF x] by simp
    qed
    show "(st(i := Suc (st i))) x < k" using D(8) x k by auto
    show "(cu(Suc (st i) := q)) ((st(i := Suc (st i))) x) \<le> ((wh(j := p))(i := q)) x"
      using D(9) [OF x] cup stj Sq by (auto simp: fun_upd_def)
    show "((wh(j := p))(i := q)) x < (cu(Suc (st i) := q)) (Suc ((st(i := Suc (st i))) x))"
      using D(10) [OF x] inj [of x] x Sq nxt pq stj whj dep by (fastforce simp: fun_upd_def)
  qed
  show "q < N" "p \<le> q" "j < N" "Suc q = cu (Suc (st i))" "st j = st i"
    by (fact qN pq jN Sq stj)+
qed

lemma layout_dec:
  assumes L: "layout N k wh de cu st" and i: "i < N" and pos: "0 < st i"
  defines "p \<equiv> wh i" and "q \<equiv> cu (st i)"
  defines "j \<equiv> de q"
  shows "layout N k ((wh(j := p))(i := q)) ((de(p := j))(q := i))
           (cu(st i := Suc q)) (st(i := st i - 1))"
    and "q \<le> p" and "p < N" and "j < N" and "q < N"
proof -
  note D = layoutD [OF L]
  obtain m where m: "st i = Suc m" using pos by (cases "st i") auto
  have pq: "q \<le> p" and pc: "p < cu (Suc (st i))" and pN: "p < N"
    using D(4,9,10) [OF i] by (auto simp: p_def q_def)
  have k: "st i < k" using D(8) i by simp
  have qN: "q < N" using pq pN by simp
  have jN: "j < N" and whj: "wh j = q" and dep: "de p = i"
    using D(5-7) qN i by (auto simp: j_def p_def)
  have stj: "st j = st i"
    using layout_block_state [OF L jN, of "st i"] k whj pq pc by (simp add: q_def)
  have prv: "cu m \<le> q" using D(3) [of m] k m by (simp add: q_def)
  have inj: "wh x = q \<Longrightarrow> x < N \<Longrightarrow> x = j" "wh x = p \<Longrightarrow> x < N \<Longrightarrow> x = i" for x
    using D(5) [of x] dep by (auto simp: j_def)
  have dinj: "de y = i \<Longrightarrow> y < N \<Longrightarrow> y = p" "de y = j \<Longrightarrow> y < N \<Longrightarrow> y = q" for y
    using D(7) [of y] whj by (auto simp: p_def)
  show "layout N k ((wh(j := p))(i := q)) ((de(p := j))(q := i))
           (cu(st i := Suc q)) (st(i := st i - 1))"
    unfolding layout_def
  proof (intro conjI allI impI)
    show "(cu(st i := Suc q)) 0 = 0" "(cu(st i := Suc q)) k = N"
      using D(1,2) k pos by auto
    show "(cu(st i := Suc q)) x \<le> (cu(st i := Suc q)) (Suc x)" if "x < k" for x
      using D(3) [OF that] pc pq prv m by (auto simp: fun_upd_def q_def)
    fix x assume x: "x < N"
    show "((wh(j := p))(i := q)) x < N" using D(4) x qN pN by auto
    show "((de(p := j))(q := i)) (((wh(j := p))(i := q)) x) = x"
      using D(5) [OF x] inj [of x] x dep by (auto simp: j_def)
    show "((de(p := j))(q := i)) x < N" using D(6) x jN i by auto
    show "((wh(j := p))(i := q)) (((de(p := j))(q := i)) x) = x"
    proof (cases "x = p \<or> x = q")
      case True
      then show ?thesis using whj by (auto simp: p_def)
    next
      case False
      then have "de x \<noteq> i" "de x \<noteq> j" using dinj x by blast+
      with False show ?thesis using D(7) [OF x] by simp
    qed
    show "(st(i := st i - 1)) x < k" using D(8) [OF x] k by auto
    show "(cu(st i := Suc q)) ((st(i := st i - 1)) x) \<le> ((wh(j := p))(i := q)) x"
      using D(9) [OF x] inj [of x] x pq prv m stj whj dep by (fastforce simp: fun_upd_def q_def)
    show "((wh(j := p))(i := q)) x < (cu(st i := Suc q)) (Suc ((st(i := st i - 1)) x))"
      using D(10) [OF x] pc pq m stj whj x by (auto simp: fun_upd_def q_def)
  qed
  show "q \<le> p" "p < N" "j < N" "q < N" by (fact pq pN jN qN)+
qed

section \<open>One step of a slot between neighbouring states\<close>

text \<open>The exchange of positions, read through the views.\<close>

lemma swap_positions_view:
  assumes "sized s" "p < capacity s" "q < capacity s"
    and i: "index_at s p = i" "i < capacity s" and j: "index_at s q = j" "j < capacity s"
  obtains s' where "swap_positions p q s = Inr s'" and "sized s'"
    and "capacity s' = capacity s" and "stateCount s' = stateCount s" and "cursor s' = cursor s"
    and "\<And>x. x < capacity s \<Longrightarrow> pos_of s' x = ((pos_of s)(j := p, i := q)) x"
    and "\<And>x. x < capacity s \<Longrightarrow> index_at s' x = ((index_at s)(p := j, q := i)) x"
    and "\<And>x. x < capacity s \<Longrightarrow> state_of s' x = state_of s x"
    and "\<And>x. x < capacity s \<Longrightarrow> gen_of s' x = gen_of s x"
proof -
  have sz: "length (sparse s) = capacity s" "length (dense s) = capacity s" "capacity s < 2 ^ 32"
    using assms(1) by (auto simp: sized_def)
  define d where "d = (dense s)[p := dense s ! q, q := dense s ! p]"
  define sp where "sp = (sparse s)[j := (sparse s ! j)\<lparr>slot_where := word_of_nat p\<rparr>]"
  define sp' where "sp' = sp[i := (sp ! i)\<lparr>slot_where := word_of_nat q\<rparr>]"
  have dp: "unat (d ! p) = j" and dq: "unat (d ! q) = i"
    using assms sz by (auto simp: d_def index_at_def nth_list_update)
  have "set_where (d ! p) p (sparse s) = Inr sp" "set_where (d ! q) q sp = Inr sp'"
    using assms sz by (simp_all add: set_where_def dp dq sp_def sp'_def)
  then have "swap_positions p q s = Inr (s\<lparr>dense := d, sparse := sp'\<rparr>)"
    using assms(2,3) sz by (simp add: swap_positions_def Let_def d_def)
  moreover have "sized (s\<lparr>dense := d, sparse := sp'\<rparr>)"
    using assms(1) by (simp add: sized_def d_def sp'_def sp_def)
  ultimately show ?thesis
    using sz assms(2-)
    by (intro that [of "s\<lparr>dense := d, sparse := sp'\<rparr>"])
       (auto simp: view_defs d_def sp'_def sp_def nth_list_update)
qed

text \<open>
  What a client of the set observes of it: the generation and the state of every slot.
  Positions, the permutation and the cursors are the representation.
\<close>

type_synonym view = "(u32 \<times> nat) list"

definition slots_view :: "sset \<Rightarrow> view" where
  "slots_view s = map (\<lambda>sl. (slot_generation sl, slot_state sl)) (sparse s)"

lemma slots_view_simps:
  "length (slots_view s) = length (sparse s)"
  "i < length (sparse s) \<Longrightarrow> slots_view s ! i = (gen_of s i, state_of s i)"
  by (auto simp: slots_view_def view_defs)

lemma slots_view_eqI:
  assumes "length (sparse s') = length v"
    and "\<And>i. i < length v \<Longrightarrow> (gen_of s' i, state_of s' i) = v ! i"
  shows "slots_view s' = v"
  using assms by (intro nth_equalityI) (auto simp: slots_view_simps)

text \<open>The relation in which one operation leaves a set whose slot \<open>i\<close> becomes \<open>x\<close>.\<close>

definition updates :: "sset \<Rightarrow> nat \<Rightarrow> u32 \<times> nat \<Rightarrow> sset \<Rightarrow> bool" where
  "updates s i x s' \<longleftrightarrow>
     ss_inv s' \<and> capacity s' = capacity s \<and> stateCount s' = stateCount s \<and>
     slots_view s' = (slots_view s)[i := x]"

lemma ss_invD:
  assumes "ss_inv s"
  shows "sized s" and "capacity s < 2 ^ 32" and "0 < stateCount s"
    and "length (sparse s) = capacity s" and "length (dense s) = capacity s"
    and "length (cursor s) = Suc (stateCount s)"
    and "layout (capacity s) (stateCount s) (pos_of s) (index_at s) (first_pos s) (state_of s)"
  using assms by (auto simp: ss_inv_def sized_def)

lemma updates_trans:
  "updates s i x s' \<Longrightarrow> updates s' i y s'' \<Longrightarrow> updates s i y s''"
  by (auto simp: updates_def)

lemma updates_length: "updates s i x s' \<Longrightarrow> length (sparse s') = length (sparse s)"
  by (metis length_list_update slots_view_simps(1) updates_def)

lemma updates_state:
  assumes "updates s i x s'" "i < length (sparse s)"
  shows "state_of s' i = snd x" and "gen_of s' i = fst x"
proof -
  have "slots_view s' ! i = x"
    using assms by (simp add: updates_def slots_view_simps)
  then show "state_of s' i = snd x" "gen_of s' i = fst x"
    using assms updates_length [OF assms(1)] by (auto simp: slots_view_simps)
qed

lemma updates_other:
  assumes "updates s i x s'" "j < length (sparse s)" "j \<noteq> i"
  shows "state_of s' j = state_of s j" and "gen_of s' j = gen_of s j"
proof -
  have "slots_view s' ! j = slots_view s ! j"
    using assms by (simp add: updates_def)
  then show "state_of s' j = state_of s j" "gen_of s' j = gen_of s j"
    using assms updates_length [OF assms(1)] by (auto simp: slots_view_simps)
qed

text \<open>Finishing a step: move the cursor and write the new state.\<close>

lemma finish_step:
  assumes "sized s" "i < capacity s" "j \<le> stateCount s"
    and L: "layout (capacity s) (stateCount s) (pos_of s) (index_at s)
              ((first_pos s)(j := unat c)) ((state_of s)(i := n))"
  obtains s' where
    "rbind (aset (cursor s) j c) (\<lambda>cu. rbind (set_state i n (s\<lparr>cursor := cu\<rparr>)) (\<lambda>s. Inr (True, s)))
       = Inr (True, s')"
    and "updates s i (gen_of s i, n) s'"
proof -
  define s' where "s' = s\<lparr>cursor := (cursor s)[j := c],
     sparse := (sparse s)[i := (sparse s ! i)\<lparr>slot_state := n\<rparr>]\<rparr>"
  have sz: "length (sparse s) = capacity s" "length (cursor s) = Suc (stateCount s)"
    using assms(1) by (auto simp: sized_def)
  have "ss_inv s'"
    unfolding ss_inv_def
  proof
    show "sized s'" using assms(1) by (simp add: sized_def s'_def)
    have "layout (capacity s) (stateCount s) (pos_of s') (index_at s') (first_pos s') (state_of s')"
      using sz assms(2,3)
      by (intro layout_cong [OF L]) (auto simp: s'_def view_defs nth_list_update)
    then show "layout (capacity s') (stateCount s') (pos_of s') (index_at s') (first_pos s') (state_of s')"
      by (simp add: s'_def)
  qed
  moreover have "slots_view s' = (slots_view s)[i := (gen_of s i, n)]"
    by (simp add: slots_view_def s'_def map_update gen_of_def)
  ultimately have "updates s i (gen_of s i, n) s'"
    by (simp add: updates_def s'_def)
  moreover have "rbind (aset (cursor s) j c)
      (\<lambda>cu. rbind (set_state i n (s\<lparr>cursor := cu\<rparr>)) (\<lambda>s. Inr (True, s))) = Inr (True, s')"
    using assms sz by (simp add: set_state_def s'_def)
  ultimately show ?thesis by (rule that [rotated])
qed

lemma exchange_step:
  assumes inv: "ss_inv s" and i: "i < capacity s" and q: "q < capacity s" and m: "m \<le> stateCount s"
  defines "p \<equiv> pos_of s i" and "j \<equiv> index_at s q"
  assumes L: "layout (capacity s) (stateCount s) ((pos_of s)(j := p, i := q))
    ((index_at s)(p := j, q := i)) ((first_pos s)(m := unat c)) ((state_of s)(i := n))"
  obtains s' where
    "rbind (swap_positions p q s) (\<lambda>s. rbind (aset (cursor s) m c) (\<lambda>cu.
       rbind (set_state i n (s\<lparr>cursor := cu\<rparr>)) (\<lambda>s. Inr (True, s)))) = Inr (True, s')"
    and "updates s i (gen_of s i, n) s'"
proof -
  note D = ss_invD [OF inv]
  have pN: "p < capacity s" "index_at s p = i" and jN: "j < capacity s"
    using layoutD(4-6) [OF D(7)] i q by (simp_all add: p_def j_def)
  obtain s1 where s1: "swap_positions p q s = Inr s1" "sized s1"
      "capacity s1 = capacity s" "stateCount s1 = stateCount s" "cursor s1 = cursor s"
    and v: "\<And>x. x < capacity s \<Longrightarrow> pos_of s1 x = ((pos_of s)(j := p, i := q)) x"
      "\<And>x. x < capacity s \<Longrightarrow> index_at s1 x = ((index_at s)(p := j, q := i)) x"
      "\<And>x. x < capacity s \<Longrightarrow> state_of s1 x = state_of s x"
      "\<And>x. x < capacity s \<Longrightarrow> gen_of s1 x = gen_of s x"
    using swap_positions_view [OF D(1) pN(1) q pN(2) i _ jN] j_def by metis
  have "layout (capacity s1) (stateCount s1) (pos_of s1) (index_at s1)
      ((first_pos s1)(m := unat c)) ((state_of s1)(i := n))"
    unfolding s1(3,4) by (rule layout_cong [OF L]) (use v s1 in \<open>auto simp: first_pos_def\<close>)
  then obtain s2 where s2: "rbind (aset (cursor s1) m c) (\<lambda>cu.
      rbind (set_state i n (s1\<lparr>cursor := cu\<rparr>)) (\<lambda>s. Inr (True, s))) = Inr (True, s2)"
    and up: "updates s1 i (gen_of s1 i, n) s2"
    using finish_step [OF s1(2), of i m] i m s1(3,4) by auto
  have view: "slots_view s1 = slots_view s"
    using v(3,4) D(4) s1(2,3) by (intro slots_view_eqI) (auto simp: slots_view_simps sized_def)
  show ?thesis
    using s1 s2 up view i v(4) by (intro that [of s2]) (simp_all add: updates_def)
qed

lemma IncrementState_ok:
  assumes inv: "ss_inv s" and i: "who_of h < capacity s"
    and k: "Suc (state_of s (who_of h)) < stateCount s"
  obtains s' where "IncrementState h s = Inr (True, s')"
    and "updates s (who_of h) (gen_of s (who_of h), Suc (state_of s (who_of h))) s'"
proof -
  let ?i = "who_of h" and ?n = "Suc (state_of s (who_of h))"
  let ?c = "cursor s ! ?n"
  note D = ss_invD [OF inv]
  note inc = layout_inc [OF D(7) i k]
  have c: "unat (?c - 1) = first_pos s ?n - 1"
    using inc(5) unat_minus_one32 [of ?c] by (simp add: first_pos_def)
  obtain s' where s': "rbind (swap_positions (pos_of s ?i) (first_pos s ?n - 1) s) (\<lambda>s.
      rbind (aset (cursor s) ?n (?c - 1)) (\<lambda>cu.
      rbind (set_state ?i ?n (s\<lparr>cursor := cu\<rparr>)) (\<lambda>s. Inr (True, s)))) = Inr (True, s')"
    and up: "updates s ?i (gen_of s ?i, ?n) s'"
    using exchange_step [OF inv i inc(2), of ?n "?c - 1" ?n] inc(1) k c by auto
  have "IncrementState h s = Inr (True, s')"
    using i k D(4,6) s' c by (simp add: IncrementState_def Let_def pos_of_def state_of_def)
  then show ?thesis using up by (rule that)
qed

lemma DecrementState_ok:
  assumes inv: "ss_inv s" and i: "who_of h < capacity s" and pos: "0 < state_of s (who_of h)"
  obtains s' where "DecrementState h s = Inr (True, s')"
    and "updates s (who_of h) (gen_of s (who_of h), state_of s (who_of h) - 1) s'"
proof -
  let ?i = "who_of h" and ?m = "state_of s (who_of h)"
  let ?c = "cursor s ! ?m"
  note D = ss_invD [OF inv]
  note dec = layout_dec [OF D(7) i pos]
  have mk: "?m < stateCount s" using layoutD(8) [OF D(7) i] .
  have "unat ?c < capacity s" using dec(5) by (simp add: first_pos_def)
  then have c: "unat (?c + 1) = Suc (first_pos s ?m)"
    using unat_plus_one32 [of ?c] D(2) by (simp add: first_pos_def)
  obtain s' where s': "rbind (swap_positions (pos_of s ?i) (first_pos s ?m) s) (\<lambda>s.
      rbind (aset (cursor s) ?m (?c + 1)) (\<lambda>cu.
      rbind (set_state ?i (?m - 1) (s\<lparr>cursor := cu\<rparr>)) (\<lambda>s. Inr (True, s)))) = Inr (True, s')"
    and up: "updates s ?i (gen_of s ?i, ?m - 1) s'"
    using exchange_step [OF inv i dec(5), of ?m "?c + 1" "?m - 1"] dec(1) mk c by auto
  have "DecrementState h s = Inr (True, s')"
    using i pos mk D(4,6) s'
    by (simp add: DecrementState_def Let_def pos_of_def state_of_def first_pos_def)
  then show ?thesis using up by (rule that)
qed

section \<open>Moving a slot to any state\<close>

lemma updates_refl:
  assumes "ss_inv s" "i < capacity s"
  shows "updates s i (gen_of s i, state_of s i) s"
  using assms ss_invD(4) [of s] by (simp add: updates_def flip: slots_view_simps(2))

lemma raise_loop_ok:
  assumes "ss_inv s" "who_of h < capacity s" "n < stateCount s"
  shows "\<exists>s'. raise_loop h n s = Inr (True, s') \<and>
    updates s (who_of h) (gen_of s (who_of h), max n (state_of s (who_of h))) s'"
  using assms
proof (induction "n - state_of s (who_of h)" arbitrary: s)
  case 0
  have "raise_loop h n s = Inr (True, s)"
    using 0 ss_invD(4) [of s] by (subst raise_loop.simps) (auto simp: state_of_def)
  then show ?case using 0 updates_refl [of s "who_of h"] by (simp add: max_absorb2)
next
  case (Suc d)
  let ?i = "who_of h" and ?m = "state_of s (who_of h)"
  have lt: "?m < n" "Suc ?m < stateCount s" using Suc by linarith+
  obtain s1 where s1: "IncrementState h s = Inr (True, s1)"
    and up: "updates s ?i (gen_of s ?i, Suc ?m) s1"
    using IncrementState_ok Suc.prems(1,2) lt(2) by metis
  have v: "state_of s1 ?i = Suc ?m" "gen_of s1 ?i = gen_of s ?i"
    using updates_state [OF up] Suc.prems ss_invD(4) by auto
  have inv1: "ss_inv s1" "?i < capacity s1" "n < stateCount s1"
    using up Suc.prems by (simp_all add: updates_def)
  have "d = n - state_of s1 ?i" using Suc.hyps(2) v by simp
  from Suc.hyps(1) [OF this inv1] obtain s2 where s2: "raise_loop h n s1 = Inr (True, s2)"
    and up2: "updates s1 ?i (gen_of s1 ?i, max n (state_of s1 ?i)) s2" by blast
  have "raise_loop h n s = Inr (True, s2)"
    using Suc.prems ss_invD(4) [of s] s1 s2 lt
    by (subst raise_loop.simps) (simp add: state_of_def)
  moreover have "updates s ?i (gen_of s ?i, max n ?m) s2"
    using updates_trans [OF up up2] v lt by (simp add: max_absorb1)
  ultimately show ?case by blast
qed

lemma lower_loop_ok:
  assumes "ss_inv s" "who_of h < capacity s"
  shows "\<exists>s'. lower_loop h n s = Inr (True, s') \<and>
    updates s (who_of h) (gen_of s (who_of h), min n (state_of s (who_of h))) s'"
  using assms
proof (induction "state_of s (who_of h)" arbitrary: s)
  case 0
  have "lower_loop h n s = Inr (True, s)"
    using 0 ss_invD(4) [of s] by (subst lower_loop.simps) (auto simp: state_of_def)
  then show ?case using 0 updates_refl [of s "who_of h"] by simp
next
  case (Suc d)
  let ?i = "who_of h" and ?m = "state_of s (who_of h)"
  show ?case
  proof (cases "n < ?m")
    case True
    obtain s1 where s1: "DecrementState h s = Inr (True, s1)"
      and up: "updates s ?i (gen_of s ?i, ?m - 1) s1"
      using DecrementState_ok Suc.prems True by (metis not_less_zero not_gr_zero)
    have v: "state_of s1 ?i = ?m - 1" "gen_of s1 ?i = gen_of s ?i"
      using updates_state [OF up] Suc.prems ss_invD(4) by auto
    have inv1: "ss_inv s1" "?i < capacity s1"
      using up Suc.prems by (simp_all add: updates_def)
    have "d = state_of s1 ?i" using Suc.hyps(2) v by simp
    from Suc.hyps(1) [OF this inv1] obtain s2 where s2: "lower_loop h n s1 = Inr (True, s2)"
      and up2: "updates s1 ?i (gen_of s1 ?i, min n (state_of s1 ?i)) s2" by blast
    have "lower_loop h n s = Inr (True, s2)"
      using Suc.prems ss_invD(4) [of s] s1 s2 True
      by (subst lower_loop.simps) (simp add: state_of_def)
    moreover have "updates s ?i (gen_of s ?i, min n ?m) s2"
      using updates_trans [OF up up2] v True by (simp add: min_absorb1)
    ultimately show ?thesis by blast
  next
    case False
    then have "lower_loop h n s = Inr (True, s)"
      using Suc.prems ss_invD(4) [of s] by (subst lower_loop.simps) (auto simp: state_of_def)
    then show ?thesis using False updates_refl [OF Suc.prems] by (simp add: min_absorb2)
  qed
qed

lemma IsValid_iff: "IsValid h s \<longleftrightarrow> who_of h < capacity s \<and> gen_of s (who_of h) = generation_of h"
  by (simp add: IsValid_def gen_of_def)

lemma MoveToState_ok:
  assumes inv: "ss_inv s" and val: "IsValid h s" and n: "n < stateCount s"
  shows "\<exists>s'. MoveToState h n s = Inr (True, s') \<and>
    updates s (who_of h) (generation_of h, n) s'"
proof -
  let ?i = "who_of h"
  have i: "?i < capacity s" and g: "gen_of s ?i = generation_of h"
    using val by (simp_all add: IsValid_iff)
  obtain s1 where s1: "raise_loop h n s = Inr (True, s1)"
    and up1: "updates s ?i (gen_of s ?i, max n (state_of s ?i)) s1"
    using raise_loop_ok [OF inv i n] by blast
  have inv1: "ss_inv s1" "?i < capacity s1" using up1 i by (simp_all add: updates_def)
  obtain s2 where s2: "lower_loop h n s1 = Inr (True, s2)"
    and up2: "updates s1 ?i (gen_of s1 ?i, min n (state_of s1 ?i)) s2"
    using lower_loop_ok [OF inv1] by blast
  have "updates s ?i (generation_of h, n) s2"
    using updates_trans [OF up1 up2] updates_state [OF up1] i ss_invD(4) [OF inv] g by simp
  then show ?thesis using s1 s2 val n by (simp add: MoveToState_def)
qed

lemma MoveToState_rejects:
  assumes "\<not> IsValid h s \<or> stateCount s \<le> n"
  shows "MoveToState h n s = Inr (False, s)"
  using assms by (auto simp: MoveToState_def)

section \<open>Handles\<close>

lemma who_of_make [simp]: "who_of (make_handle g w) = unat w"
proof -
  have "(ucast (make_handle g w) :: u32) = w"
    by (rule bit_word_eqI)
      (simp add: make_handle_def kIndexShift_def bit_simps)
  then show ?thesis by (simp add: who_of_def)
qed

lemma generation_of_make [simp]: "generation_of (make_handle g w) = g"
  by (rule bit_word_eqI)
    (auto simp: generation_of_def make_handle_def kIndexShift_def bit_simps
      dest: bit_imp_le_length)

lemma make_handle_of [simp]: "make_handle (generation_of h) (word_of_nat (who_of h)) = h"
  by (rule bit_word_eqI)
    (auto simp: generation_of_def make_handle_def who_of_def kIndexShift_def bit_simps)

lemma handle_eqI: "who_of h = who_of h' \<Longrightarrow> generation_of h = generation_of h' \<Longrightarrow> h = h'"
  by (metis make_handle_of)

lemma who_of_kInvalid: "who_of kInvalidHandle = 2 ^ 32 - 1"
proof -
  have "(ucast (- 1 :: u64) :: u32) = - 1"
    by (rule bit_word_eqI) (simp add: bit_simps)
  then show ?thesis
    by (simp add: who_of_def kInvalidHandle_def unsigned_minus_1_eq_mask mask_eq_exp_minus_1)
qed

lemma kInvalid_not_valid: "ss_inv s \<Longrightarrow> \<not> IsValid kInvalidHandle s"
  using ss_invD(2) by (fastforce simp: IsValid_iff who_of_kInvalid)

text \<open>The current handle of a slot.\<close>

definition handle_of :: "sset \<Rightarrow> nat \<Rightarrow> u64" where
  "handle_of s i = make_handle (gen_of s i) (word_of_nat i)"

lemma handle_of_simps:
  assumes "ss_inv s" "i < capacity s"
  shows "who_of (handle_of s i) = i" and "generation_of (handle_of s i) = gen_of s i"
    and "IsValid (handle_of s i) s"
  using assms ss_invD(2) [OF assms(1)] by (simp_all add: handle_of_def IsValid_iff)

lemma IsValid_handle_of: "IsValid h s \<Longrightarrow> handle_of s (who_of h) = h"
  by (metis IsValid_iff handle_of_def make_handle_of)

lemma handle_of_eq_iff: "ss_inv s \<Longrightarrow> i < capacity s \<Longrightarrow> handle_of s i = h \<longleftrightarrow> IsValid h s \<and> who_of h = i"
  using handle_of_simps IsValid_handle_of by blast

lemma GetHandle_ok:
  assumes "ss_inv s" "unat w < capacity s"
  shows "GetHandle w s = Inr (handle_of s (unat w))"
  using assms ss_invD(4) [OF assms(1)] by (simp add: GetHandle_def handle_of_def gen_of_def)

section \<open>Releasing and acquiring slots\<close>

lemma set_generation_updates:
  assumes inv: "ss_inv s" and i: "i < capacity s"
  shows "updates s i (g, state_of s i)
    (s\<lparr>sparse := (sparse s)[i := (sparse s ! i)\<lparr>slot_generation := g\<rparr>]\<rparr>)"
    (is "updates s i _ ?s'")
proof -
  note D = ss_invD [OF inv]
  have "sized ?s'" using D(1) by (simp add: sized_def)
  moreover have "layout (capacity ?s') (stateCount ?s') (pos_of ?s') (index_at ?s') (first_pos ?s') (state_of ?s')"
    using D(4) i by (simp, intro layout_cong [OF D(7)]) (auto simp: view_defs nth_list_update)
  ultimately have "ss_inv ?s'" by (simp add: ss_inv_def)
  then show ?thesis by (simp add: updates_def slots_view_def map_update state_of_def)
qed

lemma Push_ok:
  assumes inv: "ss_inv s" and val: "IsValid h s"
  shows "\<exists>s'. Push h s = Inr (True, s') \<and>
    updates s (who_of h) (generation_of h + 1, 0) s'"
proof -
  let ?i = "who_of h"
  have i: "?i < capacity s" "gen_of s ?i = generation_of h"
    using val by (simp_all add: IsValid_iff)
  obtain s1 where s1: "MoveToState h 0 s = Inr (True, s1)"
    and up: "updates s ?i (generation_of h, 0) s1"
    using MoveToState_ok [OF inv val] ss_invD(3) [OF inv] by blast
  have inv1: "ss_inv s1" "?i < capacity s1" using up i by (simp_all add: updates_def)
  have v: "state_of s1 ?i = 0" "gen_of s1 ?i = generation_of h"
    using updates_state [OF up] i ss_invD(4) [OF inv] by simp_all
  let ?s2 = "s1\<lparr>sparse := (sparse s1)[?i := (sparse s1 ! ?i)\<lparr>slot_generation := generation_of h + 1\<rparr>]\<rparr>"
  have "updates s ?i (generation_of h + 1, 0) ?s2"
    using updates_trans [OF up set_generation_updates [OF inv1]] v by simp
  moreover have "Push h s = Inr (True, ?s2)"
    using val s1 inv1 ss_invD(4) [OF inv1(1)] v(2) by (simp add: Push_def Let_def gen_of_def)
  ultimately show ?thesis by blast
qed

lemma Push_rejects: "\<not> IsValid h s \<Longrightarrow> Push h s = Inr (False, s)"
  by (simp add: Push_def)

definition has_idle :: "sset \<Rightarrow> bool" where
  "has_idle s \<longleftrightarrow> (\<exists>i<capacity s. state_of s i = 0)"

lemma has_idle_cursor:
  assumes inv: "ss_inv s"
  shows "has_idle s \<longleftrightarrow> 0 < first_pos s 1"
proof
  note D = layoutD [OF ss_invD(7) [OF inv]]
  assume "has_idle s"
  then show "0 < first_pos s 1" using D(10) by (fastforce simp: has_idle_def)
next
  note L = ss_invD(7) [OF inv] and D = layoutD [OF ss_invD(7) [OF inv]]
  assume a: "0 < first_pos s 1"
  have "first_pos s 1 \<le> capacity s"
    using layout_cursor_mono [OF L, of 1 "stateCount s"] D(2) ss_invD(3) [OF inv] by simp
  then have N: "0 < capacity s" using a by simp
  have "state_of s (index_at s 0) = 0"
    using layout_block_state [OF L D(6) [OF N], of 0] D(1) D(7) [OF N] a ss_invD(3) [OF inv] by simp
  then show "has_idle s" using D(6) [OF N] by (auto simp: has_idle_def)
qed

lemma Pop_ok:
  assumes inv: "ss_inv s" and n: "n < stateCount s" and idle: "has_idle s"
  shows "\<exists>h s'. Pop n s = Inr (h, s') \<and> IsValid h s \<and> state_of s (who_of h) = 0 \<and>
    updates s (who_of h) (generation_of h, n) s'"
proof -
  note D = ss_invD [OF inv] and L = layoutD [OF ss_invD(7) [OF inv]]
  have c: "cursor s ! 0 = 0" "cursor s ! 1 \<noteq> 0"
    using idle has_idle_cursor [OF inv] L(1) by (auto simp: first_pos_def unsigned_eq_0_iff)
  have N: "0 < capacity s" using idle by (auto simp: has_idle_def)
  let ?i = "index_at s 0"
  have i: "?i < capacity s" using L(6) N by simp
  have st: "state_of s ?i = 0"
    using layout_block_state [OF D(7) i, of 0] L(1) L(7) [OF N] idle has_idle_cursor [OF inv] D(3)
    by simp
  let ?h = "handle_of s ?i"
  note h = handle_of_simps [OF inv i]
  obtain s' where s': "MoveToState ?h n s = Inr (True, s')" "updates s ?i (generation_of ?h, n) s'"
    using MoveToState_ok [OF inv h(3) n] h(1) by auto
  have "Pop n s = Inr (?h, s')"
    using n c D(3,5,6) N s'(1) GetHandle_ok [OF inv i [unfolded index_at_def]]
    by (simp add: Pop_def index_at_def)
  then show ?thesis using h st s'(2) by auto
qed

lemma Pop_exhausted:
  assumes inv: "ss_inv s" and "stateCount s \<le> n \<or> \<not> has_idle s"
  shows "Pop n s = Inr (kInvalidHandle, s)"
proof (cases "stateCount s \<le> n")
  case False
  then have "first_pos s 1 = 0" using assms has_idle_cursor [OF inv] by simp
  then have "cursor s ! 0 = cursor s ! 1"
    using layoutD(1) [OF ss_invD(7) [OF inv]] by (simp add: first_pos_def unsigned_eq_0_iff)
  then show ?thesis using False ss_invD(3,6) [OF inv] by (simp add: Pop_def)
qed (simp add: Pop_def)

section \<open>Enumerating a state\<close>

lemma handles_at_ok:
  assumes inv: "ss_inv s" and "\<forall>p\<in>set ps. p < capacity s"
  shows "handles_at ps s = Inr (map (\<lambda>p. handle_of s (index_at s p)) ps)"
  using assms(2)
proof (induction ps)
  case (Cons p ps)
  have "index_at s p < capacity s"
    using layoutD(6) [OF ss_invD(7) [OF inv]] Cons.prems by simp
  then show ?case
    using Cons GetHandle_ok [OF inv] ss_invD(5) [OF inv] by (simp add: index_at_def)
qed simp

lemma GetIndicesInState_ok:
  assumes inv: "ss_inv s" and n: "n < stateCount s"
  shows "\<exists>hs. GetIndicesInState n s = Inr hs \<and> distinct hs \<and>
    length hs = first_pos s (Suc n) - first_pos s n \<and>
    set hs = {h. IsValid h s \<and> state_of s (who_of h) = n}"
proof -
  note D = ss_invD [OF inv] and L = layoutD [OF ss_invD(7) [OF inv]]
  let ?ps = "[first_pos s n..<first_pos s (Suc n)]"
  let ?hs = "map (\<lambda>p. handle_of s (index_at s p)) ?ps"
  have "first_pos s (Suc n) \<le> capacity s"
    using layout_cursor_mono [OF D(7), of "Suc n" "stateCount s"] n L(2) by simp
  then have ps: "p < capacity s" if "p \<in> set ?ps" for p using that by auto
  have idx: "index_at s p < capacity s" "pos_of s (index_at s p) = p" if "p \<in> set ?ps" for p
    using L(6,7) ps [OF that] by simp_all
  note h = handle_of_simps [OF inv idx(1)]
  have "inj_on (\<lambda>p. handle_of s (index_at s p)) (set ?ps)"
    by (rule inj_onI) (metis h(1) idx(2))
  then have "distinct ?hs" by (simp add: distinct_map)
  moreover have "GetIndicesInState n s = Inr ?hs"
    using n D(6) handles_at_ok [OF inv, of ?ps] ps by (simp add: GetIndicesInState_def first_pos_def)
  moreover have "set ?hs = {h. IsValid h s \<and> state_of s (who_of h) = n}" (is "_ = ?H")
  proof (rule set_eqI, rule iffI)
    fix g assume "g \<in> set ?hs"
    then obtain p where p: "p \<in> set ?ps" "g = handle_of s (index_at s p)" by auto
    have "state_of s (index_at s p) = n"
      using layout_block_state [OF D(7) idx(1) [OF p(1)] n] idx(2) [OF p(1)] p(1) by simp
    then show "g \<in> ?H" using h(1,3) [OF p(1)] p(2) by simp
  next
    fix g assume "g \<in> ?H"
    then have g: "IsValid g s" "state_of s (who_of g) = n" by auto
    then have i: "who_of g < capacity s" by (simp add: IsValid_iff)
    have "pos_of s (who_of g) \<in> set ?ps" using L(9,10) [OF i] g(2) by simp
    moreover have "handle_of s (index_at s (pos_of s (who_of g))) = g"
      using L(5) [OF i] IsValid_handle_of [OF g(1)] by simp
    ultimately show "g \<in> set ?hs" by (force intro!: image_eqI)
  qed
  ultimately show ?thesis by auto
qed

lemma GetState_ok:
  "IsValid h s \<Longrightarrow> GetState h s = state_of s (who_of h)"
  "\<not> IsValid h s \<Longrightarrow> GetState h s = 2 ^ 64 - 1"
  by (simp_all add: GetState_def state_of_def)

section \<open>The constructor\<close>

lemma SparseSet_sizes [simp]:
  "capacity (SparseSet N k) = N" "stateCount (SparseSet N k) = k"
  by (simp_all add: SparseSet_def)

lemma SparseSet_slots [simp]:
  "slots_view (SparseSet N k) = replicate N (0, 0)"
  "i < N \<Longrightarrow> gen_of (SparseSet N k) i = 0" "i < N \<Longrightarrow> state_of (SparseSet N k) i = 0"
  by (auto simp: SparseSet_def slots_view_def view_defs map_replicate_const o_def)

lemma SparseSet_inv:
  assumes "N < 2 ^ 32" "0 < k"
  shows "ss_inv (SparseSet N k)"
proof -
  have "sized (SparseSet N k)" using assms by (simp add: sized_def SparseSet_def)
  moreover have "layout N k id id (\<lambda>j. if j = 0 then 0 else N) (\<lambda>_. 0)"
    using assms by (auto simp: layout_def)
  then have "layout N k (pos_of (SparseSet N k)) (index_at (SparseSet N k))
      (first_pos (SparseSet N k)) (state_of (SparseSet N k))"
    by (rule layout_cong) (use assms in \<open>auto simp: view_defs SparseSet_def nth_Cons'\<close>)
  ultimately show ?thesis by (simp add: ss_inv_def SparseSet_def)
qed

section \<open>Sequences of operations\<close>

datatype ss_op = Do_Pop nat | Do_Push u64 | Do_Move u64 nat

fun ss_exec :: "ss_op \<Rightarrow> sset \<Rightarrow> sset res" where
  "ss_exec (Do_Pop n) s = rbind (Pop n s) (\<lambda>(_, s). Inr s)"
| "ss_exec (Do_Push h) s = rbind (Push h s) (\<lambda>(_, s). Inr s)"
| "ss_exec (Do_Move h n) s = rbind (MoveToState h n s) (\<lambda>(_, s). Inr s)"

fun ss_run :: "ss_op list \<Rightarrow> sset \<Rightarrow> sset res" where
  "ss_run [] s = Inr s"
| "ss_run (x # xs) s = rbind (ss_exec x s) (ss_run xs)"

text \<open>How often a run releases the slot \<open>i\<close>.\<close>

fun releases_of :: "nat \<Rightarrow> ss_op list \<Rightarrow> sset \<Rightarrow> nat" where
  "releases_of i [] s = 0"
| "releases_of i (x # xs) s =
     (case x of Do_Push h \<Rightarrow> (if IsValid h s \<and> who_of h = i then 1 else 0) | _ \<Rightarrow> 0) +
     (case ss_exec x s of Inl _ \<Rightarrow> 0 | Inr s' \<Rightarrow> releases_of i xs s')"

text \<open>
  The contract a client of the set relies on, over what it observes of each slot
  (\<open>obs\<close>: generation and state). The representation does not occur in it.
\<close>

locale generational_set =
  fixes invar :: "'s \<Rightarrow> bool" and cap :: "'s \<Rightarrow> nat" and states :: "'s \<Rightarrow> nat"
    and obs :: "'s \<Rightarrow> nat \<Rightarrow> u32 \<times> nat"
    and valid :: "u64 \<Rightarrow> 's \<Rightarrow> bool"
    and pop :: "nat \<Rightarrow> 's \<Rightarrow> (u64 \<times> 's) res"
    and push :: "u64 \<Rightarrow> 's \<Rightarrow> (bool \<times> 's) res"
    and move :: "u64 \<Rightarrow> nat \<Rightarrow> 's \<Rightarrow> (bool \<times> 's) res"
    and becomes :: "'s \<Rightarrow> nat \<Rightarrow> u32 \<times> nat \<Rightarrow> 's \<Rightarrow> bool"
  assumes becomes_invar: "becomes s i x s' \<Longrightarrow> invar s'"
    and becomes_size: "becomes s i x s' \<Longrightarrow> cap s' = cap s \<and> states s' = states s"
    and becomes_obs: "invar s \<Longrightarrow> becomes s i x s' \<Longrightarrow> i < cap s \<Longrightarrow> j < cap s \<Longrightarrow>
      obs s' j = (if j = i then x else obs s j)"
    and valid_iff: "valid h s \<longleftrightarrow> who_of h < cap s \<and> fst (obs s (who_of h)) = generation_of h"
    and move_valid: "invar s \<Longrightarrow> valid h s \<Longrightarrow> n < states s \<Longrightarrow>
      \<exists>s'. move h n s = Inr (True, s') \<and> becomes s (who_of h) (generation_of h, n) s'"
    and move_invalid: "\<not> valid h s \<or> states s \<le> n \<Longrightarrow> move h n s = Inr (False, s)"
    and push_valid: "invar s \<Longrightarrow> valid h s \<Longrightarrow>
      \<exists>s'. push h s = Inr (True, s') \<and> becomes s (who_of h) (generation_of h + 1, 0) s'"
    and push_invalid: "\<not> valid h s \<Longrightarrow> push h s = Inr (False, s)"
    and pop_idle: "invar s \<Longrightarrow> n < states s \<Longrightarrow> i < cap s \<Longrightarrow> snd (obs s i) = 0 \<Longrightarrow>
      \<exists>h s'. pop n s = Inr (h, s') \<and> valid h s \<and> snd (obs s (who_of h)) = 0 \<and>
        becomes s (who_of h) (generation_of h, n) s'"
    and pop_full: "invar s \<Longrightarrow> states s \<le> n \<or> (\<forall>i<cap s. snd (obs s i) \<noteq> 0) \<Longrightarrow>
      pop n s = Inr (kInvalidHandle, s)"
    and invalid_handle: "invar s \<Longrightarrow> \<not> valid kInvalidHandle s"
begin

text \<open>A released handle is dead: it is not valid and cannot be released again.\<close>

lemma push_kills:
  assumes "invar s" "valid h s"
  obtains s' where "push h s = Inr (True, s')" "invar s'" "\<not> valid h s'"
    "push h s' = Inr (False, s')" "\<And>n. move h n s' = Inr (False, s')"
proof -
  obtain s' where s': "push h s = Inr (True, s')" "becomes s (who_of h) (generation_of h + 1, 0) s'"
    using push_valid assms by blast
  have "obs s' (who_of h) = (generation_of h + 1, 0)"
    using becomes_obs [OF assms(1) s'(2)] assms(2) by (simp add: valid_iff)
  then have "\<not> valid h s'" by (simp add: valid_iff)
  then show ?thesis
    using that [OF s'(1)] becomes_invar [OF s'(2)] push_invalid move_invalid by blast
qed

text \<open>An operation on one handle does not disturb the others.\<close>

lemma becomes_other_valid:
  assumes "invar s" "becomes s i x s'" "i < cap s" "who_of h \<noteq> i"
  shows "valid h s' \<longleftrightarrow> valid h s"
  using becomes_obs [OF assms(1,2,3), of "who_of h"] becomes_size [OF assms(2)] assms(4)
  by (auto simp: valid_iff)

lemma pop_cases:
  assumes "invar s"
  obtains (full) "pop n s = Inr (kInvalidHandle, s)" "states s \<le> n \<or> (\<forall>i<cap s. snd (obs s i) \<noteq> 0)"
  | (got) h s' where "pop n s = Inr (h, s')" "valid h s" "snd (obs s (who_of h)) = 0" "n < states s"
      "becomes s (who_of h) (generation_of h, n) s'" "valid h s'" "h \<noteq> kInvalidHandle"
proof (cases "n < states s \<and> (\<exists>i<cap s. snd (obs s i) = 0)")
  case True
  then obtain h s' where h: "pop n s = Inr (h, s')" "valid h s" "snd (obs s (who_of h)) = 0"
    "becomes s (who_of h) (generation_of h, n) s'"
    using pop_idle assms by blast
  have "valid h s'"
    using becomes_obs [OF assms h(4)] becomes_size [OF h(4)] h(2) by (simp add: valid_iff)
  then show ?thesis using got h True invalid_handle [OF assms] by blast
next
  case False
  then show ?thesis using full pop_full [OF assms] by (meson not_le)
qed

text \<open>A handle in use when a slot is acquired belongs to another slot and stays valid.\<close>

lemma pop_fresh:
  assumes inv: "invar s" and pop: "pop n s = Inr (h, s')" and h: "h \<noteq> kInvalidHandle"
    and g: "valid g s" "0 < snd (obs s (who_of g))"
  shows "who_of g \<noteq> who_of h" and "valid g s'"
proof -
  from inv have *: "who_of g \<noteq> who_of h \<and> valid g s'"
  proof (cases rule: pop_cases [of s n])
    case (got h' s'')
    then have "h' = h" "s'' = s'" using pop by auto
    moreover have "who_of g \<noteq> who_of h'" "who_of h' < cap s"
      using got g by (auto simp: valid_iff)
    ultimately show ?thesis using becomes_other_valid [OF inv got(5)] g(1) by simp
  qed (use pop h in auto)
  then show "who_of g \<noteq> who_of h" and "valid g s'" by auto
qed

end

lemma updates_obs:
  assumes "ss_inv s" "updates s i x s'" "i < capacity s" "j < capacity s"
  shows "(gen_of s' j, state_of s' j) = (if j = i then x else (gen_of s j, state_of s j))"
  using updates_state [OF assms(2)] updates_other [OF assms(2)] ss_invD(4) [OF assms(1)] assms(3,4)
  by auto

interpretation sset: generational_set
  ss_inv capacity stateCount "\<lambda>s i. (gen_of s i, state_of s i)" IsValid Pop Push MoveToState updates
proof
  show "ss_inv s'" if "updates s i x s'" for s i x s'
    using that by (simp add: updates_def)
  show "capacity s' = capacity s \<and> stateCount s' = stateCount s" if "updates s i x s'" for s i x s'
    using that by (simp add: updates_def)
  show "(gen_of s' j, state_of s' j) = (if j = i then x else (gen_of s j, state_of s j))"
    if "ss_inv s" "updates s i x s'" "i < capacity s" "j < capacity s" for s i x s' j
    using updates_obs [OF that] .
  show "IsValid h s \<longleftrightarrow> who_of h < capacity s \<and> fst (gen_of s (who_of h), state_of s (who_of h)) = generation_of h" for h s
    by (simp add: IsValid_iff)
  show "\<exists>h s'. Pop n s = Inr (h, s') \<and> IsValid h s \<and> snd (gen_of s (who_of h), state_of s (who_of h)) = 0 \<and>
      updates s (who_of h) (generation_of h, n) s'"
    if "ss_inv s" "n < stateCount s" "i < capacity s" "snd (gen_of s i, state_of s i) = 0" for s n i
    using Pop_ok [OF that(1,2)] that(3,4) by (auto simp: has_idle_def)
  show "Pop n s = Inr (kInvalidHandle, s)"
    if "ss_inv s" "stateCount s \<le> n \<or> (\<forall>i<capacity s. snd (gen_of s i, state_of s i) \<noteq> 0)" for s n
    using Pop_exhausted [OF that(1)] that(2) by (auto simp: has_idle_def)
qed (use MoveToState_ok MoveToState_rejects Push_ok Push_rejects kInvalid_not_valid in blast)+

lemma updates_gens:
  assumes "ss_inv s" "updates s i (gen_of s i + d, n) s'" "i < capacity s"
  shows "ss_inv s'" "capacity s' = capacity s" "stateCount s' = stateCount s"
    "\<forall>j<capacity s. gen_of s' j = gen_of s j + (if i = j then d else 0)"
  using assms updates_state [OF assms(2)] updates_other [OF assms(2)] ss_invD(4) [OF assms(1)]
  by (auto simp: updates_def)

lemma ss_exec_ok:
  assumes inv: "ss_inv s"
  shows "\<exists>s'. ss_exec x s = Inr s' \<and> ss_inv s' \<and> capacity s' = capacity s \<and> stateCount s' = stateCount s \<and>
    (\<forall>i<capacity s. gen_of s' i = gen_of s i +
       (case x of Do_Push h \<Rightarrow> (if IsValid h s \<and> who_of h = i then 1 else 0) | _ \<Rightarrow> 0))"
proof (cases x)
  case (Do_Pop n)
  from inv show ?thesis
  proof (cases rule: sset.pop_cases [of s n])
    case full
    then show ?thesis using Do_Pop inv by simp
  next
    case (got h s')
    then show ?thesis
      using updates_gens [OF inv, of "who_of h" 0 n s'] Do_Pop by (auto simp: IsValid_iff)
  qed
next
  case (Do_Push h)
  show ?thesis
  proof (cases "IsValid h s")
    case True
    then obtain s' where "Push h s = Inr (True, s')" "updates s (who_of h) (generation_of h + 1, 0) s'"
      using Push_ok [OF inv] by blast
    then show ?thesis
      using updates_gens [OF inv, of "who_of h" 1 0 s'] Do_Push True by (auto simp: IsValid_iff)
  qed (simp add: Do_Push Push_rejects inv)
next
  case (Do_Move h n)
  show ?thesis
  proof (cases "IsValid h s \<and> n < stateCount s")
    case True
    then obtain s' where "MoveToState h n s = Inr (True, s')" "updates s (who_of h) (generation_of h, n) s'"
      using MoveToState_ok [OF inv] by blast
    then show ?thesis
      using updates_gens [OF inv, of "who_of h" 0 n s'] Do_Move True by (auto simp: IsValid_iff)
  qed (use Do_Move MoveToState_rejects [of h s n] inv in auto)
qed

lemma ss_run_ok:
  assumes "ss_inv s"
  shows "\<exists>s'. ss_run ops s = Inr s' \<and> ss_inv s' \<and> capacity s' = capacity s \<and> stateCount s' = stateCount s \<and>
    (\<forall>i<capacity s. gen_of s' i = gen_of s i + of_nat (releases_of i ops s))"
  using assms
proof (induction ops arbitrary: s)
  case (Cons x ops)
  obtain s1 where s1: "ss_exec x s = Inr s1" "ss_inv s1" "capacity s1 = capacity s" "stateCount s1 = stateCount s"
    "\<forall>i<capacity s. gen_of s1 i = gen_of s i +
       (case x of Do_Push h \<Rightarrow> (if IsValid h s \<and> who_of h = i then 1 else 0) | _ \<Rightarrow> 0)"
    using ss_exec_ok [OF Cons.prems] by blast
  show ?case using Cons.IH [OF s1(2)] s1 by (cases x) (auto simp: algebra_simps)
qed simp

text \<open>The model passes the unit test the repository has for the class.\<close>

lemma SparseSetV2_passes: "SparseSetV2 = Inr (replicate 16 True)"
  by code_simp

section \<open>Properties\<close>

text \<open>
  C17: memory safety and the layout invariant. Whatever sequence of \<^verbatim>\<open>Pop\<close>, \<^verbatim>\<open>Push\<close> and
  \<^verbatim>\<open>MoveToState\<close> calls is made on a freshly constructed set, with whatever handles and
  states as arguments, no call indexes an array out of range, every loop ends, and the
  invariant (\<^verbatim>\<open>dense_\<close> is a permutation inverse to \<^verbatim>\<open>where_\<close>, the cursors delimit the
  blocks of the states) holds at the end.
\<close>

theorem ss_run_safe:
  assumes "N < 2 ^ 32" and "0 < k"
  shows "\<exists>s'. ss_run ops (SparseSet N k) = Inr s' \<and> ss_inv s' \<and> capacity s' = N \<and> stateCount s' = k"
  using ss_run_ok [OF SparseSet_inv [OF assms], of ops] by auto

theorem ss_run_safe_witness:
  "(10 :: nat) < 2 ^ 32 \<and> 0 < (3 :: nat) \<and>
   (\<exists>s'. ss_run [Do_Pop 1, Do_Pop 2, Do_Move 0 2, Do_Push 0, Do_Push 77] (SparseSet 10 3) = Inr s' \<and>
      ss_inv s' \<and> capacity s' = 10 \<and> stateCount s' = 3)"
  using ss_run_safe [of 10 3 "[Do_Pop 1, Do_Pop 2, Do_Move 0 2, Do_Push 0, Do_Push 77]"] by simp

text \<open>
  C18: \<^verbatim>\<open>MoveToState\<close>. It answers true exactly for a valid handle and an existing state; then
  the slot is in the new state, with its generation kept, and no other slot changed.
  Otherwise nothing changed.
\<close>

theorem MoveToState_refines:
  assumes "ss_inv s"
  shows "\<exists>s'. MoveToState h n s = Inr (IsValid h s \<and> n < stateCount s, s') \<and> ss_inv s' \<and>
    slots_view s' = (if IsValid h s \<and> n < stateCount s
       then (slots_view s)[who_of h := (generation_of h, n)] else slots_view s)"
  using MoveToState_ok [OF assms, of h n] MoveToState_rejects [of h s n] assms
  by (cases "IsValid h s \<and> n < stateCount s") (auto simp: updates_def)

theorem MoveToState_refines_witness:
  "ss_inv (SparseSet 4 4) \<and>
   (\<exists>s'. MoveToState 2 3 (SparseSet 4 4) = Inr (True, s') \<and> ss_inv s' \<and>
      slots_view s' = [(0, 0), (0, 0), (0, 3), (0, 0)])"
proof -
  have inv: "ss_inv (SparseSet 4 4)" by (rule SparseSet_inv) simp_all
  have h: "who_of 2 = 2" "generation_of 2 = 0"
    by (simp_all add: who_of_def generation_of_def kIndexShift_def drop_bit_eq_div)
  then have "IsValid 2 (SparseSet 4 4)" by (simp add: IsValid_iff)
  with inv MoveToState_refines [OF inv, of 2 3] h show ?thesis by (simp add: numeral_eq_Suc)
qed

text \<open>
  \<^verbatim>\<open>Pop\<close>. If the requested state exists and some slot is idle, it returns the current
  handle of an idle slot and that slot alone changes, to the requested state; the handle is
  not \<^verbatim>\<open>kInvalidHandle\<close>. Otherwise it returns \<^verbatim>\<open>kInvalidHandle\<close> and nothing changes.
\<close>

lemma Pop_refines:
  assumes "ss_inv s"
  shows "\<exists>h s'. Pop n s = Inr (h, s') \<and> ss_inv s' \<and>
    (if n < stateCount s \<and> has_idle s
     then h \<noteq> kInvalidHandle \<and> IsValid h s \<and> state_of s (who_of h) = 0 \<and>
       slots_view s' = (slots_view s)[who_of h := (generation_of h, n)]
     else h = kInvalidHandle \<and> s' = s)"
proof (cases "n < stateCount s \<and> has_idle s")
  case True
  then show ?thesis
    using Pop_ok [OF assms] kInvalid_not_valid [OF assms] by (fastforce simp: updates_def)
next
  case False
  then show ?thesis using Pop_exhausted [OF assms, of n] assms by auto
qed

text \<open>
  C11: stale handles. After a handle has been released, and whatever operations follow, it
  is valid again exactly when the 32-bit generation of its slot has wrapped around: when
  the slot has been released a multiple of \<open>2\<^sup>3\<^sup>2\<close> times since the handle was current. Until
  then every further \<^verbatim>\<open>Push\<close> or \<^verbatim>\<open>MoveToState\<close> with it is refused.
\<close>

theorem stale_handle_iff_wrap:
  assumes "ss_inv s" and "IsValid h s" and "Push h s = Inr (True, s1)" and "ss_run ops s1 = Inr s2"
  shows "IsValid h s2 \<longleftrightarrow> 2 ^ 32 dvd Suc (releases_of (who_of h) ops s1)"
proof -
  have up: "updates s (who_of h) (generation_of h + 1, 0) s1"
    using Push_ok [OF assms(1,2)] assms(3) by auto
  have i: "who_of h < capacity s" using assms(2) by (simp add: IsValid_iff)
  have s1: "ss_inv s1" "capacity s1 = capacity s" "gen_of s1 (who_of h) = generation_of h + 1"
    using up updates_state [OF up] i ss_invD(4) [OF assms(1)] by (auto simp: updates_def)
  have s2: "capacity s2 = capacity s1"
    "gen_of s2 (who_of h) = gen_of s1 (who_of h) + of_nat (releases_of (who_of h) ops s1)"
    using ss_run_ok [OF s1(1), of ops] assms(4) s1(2) i by auto
  have "IsValid h s2 \<longleftrightarrow> (of_nat (Suc (releases_of (who_of h) ops s1)) :: u32) = 0"
    using i s1 s2 by (simp add: IsValid_iff algebra_simps)
  also have "\<dots> \<longleftrightarrow> 2 ^ 32 dvd Suc (releases_of (who_of h) ops s1)"
    by (simp only: word_of_nat_eq_0_iff) simp
  finally show ?thesis .
qed

theorem stale_handle_iff_wrap_witness:
  "\<exists>s1 s2. ss_inv (SparseSet 2 2) \<and> IsValid 0 (SparseSet 2 2) \<and> Push 0 (SparseSet 2 2) = Inr (True, s1) \<and>
     ss_run [Do_Pop 1] s1 = Inr s2 \<and> \<not> IsValid 0 s2"
proof -
  have inv: "ss_inv (SparseSet 2 2)" by (rule SparseSet_inv) simp_all
  have val: "IsValid 0 (SparseSet 2 2)"
    by (simp add: IsValid_iff who_of_def generation_of_def)
  obtain s1 where s1: "Push 0 (SparseSet 2 2) = Inr (True, s1)" "ss_inv s1"
    using Push_ok [OF inv val] by (auto simp: updates_def)
  obtain s2 where s2: "ss_run [Do_Pop 1] s1 = Inr s2"
    using ss_run_ok [OF s1(2), of "[Do_Pop 1]"] by auto
  have "releases_of (who_of 0) [Do_Pop 1] s1 = 0" by (simp split: sum.split)
  then have "\<not> IsValid 0 s2"
    using stale_handle_iff_wrap [OF inv val s1(1) s2] by simp
  then show ?thesis using inv val s1 s2 by blast
qed

text \<open>
  \<^verbatim>\<open>GetIndicesInState\<close>. For an existing state it returns, without repetition, exactly
  the current handles of the slots in that state; for a state out of range it returns
  nothing.
\<close>

lemma GetIndicesInState_exact:
  assumes "ss_inv s"
  shows "\<exists>hs. GetIndicesInState n s = Inr hs \<and> distinct hs \<and>
    set hs = (if n < stateCount s then {h. IsValid h s \<and> state_of s (who_of h) = n} else {})"
proof (cases "n < stateCount s")
  case True
  then show ?thesis using GetIndicesInState_ok [OF assms True] by auto
qed (simp add: GetIndicesInState_def)

text \<open>
  Handles. Packing a generation and an index into a handle and unpacking it are
  inverse to each other, and \<^verbatim>\<open>GetHandle\<close> of the index of a valid handle is that handle, so
  a slot has exactly one valid handle at any time.
\<close>

lemma handle_roundtrip:
  assumes "ss_inv s" and "IsValid h s"
  shows "GetHandle (word_of_nat (who_of h)) s = Inr h \<and>
    who_of (make_handle g w) = unat w \<and> generation_of (make_handle g w) = g \<and>
    make_handle (generation_of x) (word_of_nat (who_of x)) = x"
proof -
  have i: "who_of h < capacity s" "who_of h < 2 ^ 32"
    using assms ss_invD(2) [OF assms(1)] by (auto simp: IsValid_iff)
  then have "GetHandle (word_of_nat (who_of h)) s = Inr h"
    using GetHandle_ok [OF assms(1)] IsValid_handle_of [OF assms(2)] by simp
  then show ?thesis by simp
qed

lemma blocks_cover:
  assumes "layout N k wh de cu st" "m \<le> k"
  shows "(\<Sum>n<m. cu (Suc n) - cu n) = cu m"
  using assms(2)
proof (induction m)
  case (Suc m)
  then show ?case using layoutD(3) [OF assms(1), of m] by simp
qed (use layoutD(1) [OF assms(1)] in simp)

text \<open>
  The state counts add up. The lists of handles over all states have together exactly
  \<^verbatim>\<open>N\<close> entries: no slot is lost or counted twice.
\<close>

lemma states_partition:
  assumes "ss_inv s"
  shows "sum (\<lambda>n. count_in_state n s) {..<stateCount s} = capacity s"
proof -
  have "count_in_state n s = first_pos s (Suc n) - first_pos s n" if "n < stateCount s" for n
    using GetIndicesInState_ok [OF assms that] by (auto simp: count_in_state_def)
  then show ?thesis
    using blocks_cover [OF ss_invD(7) [OF assms], of "stateCount s"]
      layoutD(2) [OF ss_invD(7) [OF assms]] by simp
qed

end
