(* ===== verification/Ref_Pool.thy ===== *)
theory Ref_Pool
  imports Sparse_Set
begin

text \<open>
  \<^verbatim>\<open>Network/Common/Pool/{ISparsePool,ObjectPool,SparsePool,SharedPoolPtr}.hpp\<close>: the pool of
  reference-counted objects and the smart pointer to them. Every \<^verbatim>\<open>SharedPoolPtr\<close> object of the
  program, field, array element or local variable, is a location of one pointer store, so
  that assignments, aliasing and re-entrant callbacks act on the same pointers as in
  the code.
\<close>

section \<open>State\<close>

text \<open>
  \<^verbatim>\<open>pool_\<close> is null or the program's one pool. \<^verbatim>\<open>refCount_\<close> counts the pointer objects of the
  process, so it cannot exceed the address space; a decrement of 0 wraps to
  \<open>2\<^sup>6\<^sup>4 - 1\<close>.
\<close>

record sptr =
  sp_pool :: bool
  sp_handle :: u64

record 'a pslot =
  obj :: 'a
  slot_handle :: u64
  refCount :: nat

record ('a, 'l) pool =
  p_set :: sset
  p_slots :: "'a pslot list"
  p_ptrs :: "'l \<Rightarrow> sptr"

text \<open>
  The two \<^verbatim>\<open>std::function\<close> members: the deleter of \<^verbatim>\<open>ObjectPool\<close>, applied to a slot index, and
  \<^verbatim>\<open>postReleaseFunc_\<close>. They may change the whole state the pool lives in, which extends
  the pool record.
\<close>

record 'w callbacks =
  deleter :: "nat \<Rightarrow> 'w \<Rightarrow> 'w res"
  postReleaseFunc :: "'w \<Rightarrow> 'w res"

abbreviation null_ptr :: sptr where
  "null_ptr \<equiv> \<lparr>sp_pool = False, sp_handle = kInvalidHandle\<rparr>"

abbreviation live_ptr :: "u64 \<Rightarrow> sptr" where
  "live_ptr h \<equiv> \<lparr>sp_pool = True, sp_handle = h\<rparr>"

section \<open>The pool\<close>

text \<open>
  \<^verbatim>\<open>ObjectPool::Get\<close>; \<^verbatim>\<open>ObjectPool::Acquire\<close> of an eager pool whose slot type has no \<^verbatim>\<open>Init\<close>
  (\<^verbatim>\<open>ISparsePool::Slot\<close>) only returns the slot; \<^verbatim>\<open>ObjectPool::Release\<close> calls the deleter,
  which \<^verbatim>\<open>SparsePool\<close> always sets.
\<close>

definition ObjectPool_Get :: "nat \<Rightarrow> ('a, 'l, 'm) pool_scheme \<Rightarrow> 'a pslot res" where
  "ObjectPool_Get idx w = aget (p_slots w) idx"

definition ObjectPool_Acquire :: "nat \<Rightarrow> ('a, 'l, 'm) pool_scheme \<Rightarrow> 'a pslot res" where
  "ObjectPool_Acquire idx w = aget (p_slots w) idx"

definition ObjectPool_Release ::
  "('a, 'l, 'm) pool_scheme callbacks \<Rightarrow> nat \<Rightarrow> ('a, 'l, 'm) pool_scheme \<Rightarrow> ('a, 'l, 'm) pool_scheme res" where
  "ObjectPool_Release cb idx w = deleter cb idx w"

definition Pool_IsValid :: "u64 \<Rightarrow> ('a, 'l, 'm) pool_scheme \<Rightarrow> bool" where
  "Pool_IsValid handle w = IsValid handle (p_set w)"

definition Pool_MoveToState ::
  "u64 \<Rightarrow> nat \<Rightarrow> ('a, 'l, 'm) pool_scheme \<Rightarrow> (bool \<times> ('a, 'l, 'm) pool_scheme) res" where
  "Pool_MoveToState handle newState w =
     rbind (MoveToState handle newState (p_set w)) (\<lambda>(ok, s). Inr (ok, w\<lparr>p_set := s\<rparr>))"

text \<open>\<^verbatim>\<open>GetObj\<close>: the index of the object, or none for \<^verbatim>\<open>nullptr\<close>.\<close>

definition GetObj :: "u64 \<Rightarrow> ('a, 'l, 'm) pool_scheme \<Rightarrow> nat option" where
  "GetObj handle w = (if \<not> Pool_IsValid handle w then None else Some (who_of handle))"

definition put_refCount :: "nat \<Rightarrow> nat \<Rightarrow> ('a, 'l, 'm) pool_scheme \<Rightarrow> ('a, 'l, 'm) pool_scheme res" where
  "put_refCount idx n w =
     rbind (aget (p_slots w) idx) (\<lambda>slot.
     rbind (aset (p_slots w) idx (slot\<lparr>refCount := n\<rparr>)) (\<lambda>sl.
     Inr (w\<lparr>p_slots := sl\<rparr>)))"

definition AddRef :: "u64 \<Rightarrow> ('a, 'l, 'm) pool_scheme \<Rightarrow> (bool \<times> ('a, 'l, 'm) pool_scheme) res" where
  "AddRef handle w =
     (if \<not> Pool_IsValid handle w then Inr (False, w)
      else
        let idx = who_of handle in
        rbind (ObjectPool_Get idx w) (\<lambda>slot.
        rbind (put_refCount idx (refCount slot + 1) w) (\<lambda>w.
        Inr (True, w))))"

definition ReleaseRef ::
  "('a, 'l, 'm) pool_scheme callbacks \<Rightarrow> u64 \<Rightarrow> ('a, 'l, 'm) pool_scheme \<Rightarrow> (bool \<times> ('a, 'l, 'm) pool_scheme) res" where
  "ReleaseRef cb handle w =
     (if \<not> Pool_IsValid handle w then Inr (False, w)
      else
        let idx = who_of handle in
        rbind (ObjectPool_Get idx w) (\<lambda>slot.
        rbind (put_refCount idx (if refCount slot = 0 then 2 ^ 64 - 1 else refCount slot - 1) w) (\<lambda>w.
        if refCount slot = 1 then
          rbind (ObjectPool_Release cb idx w) (\<lambda>w.
          rbind (Push handle (p_set w)) (\<lambda>(_, s).
          rbind (postReleaseFunc cb (w\<lparr>p_set := s\<rparr>)) (\<lambda>w.
          Inr (True, w))))
        else Inr (False, w))))"

section \<open>SharedPoolPtr\<close>

definition set_ptr :: "'l \<Rightarrow> sptr \<Rightarrow> ('a, 'l, 'm) pool_scheme \<Rightarrow> ('a, 'l, 'm) pool_scheme" where
  "set_ptr l p w = w\<lparr>p_ptrs := (p_ptrs w)(l := p)\<rparr>"

definition Ptr_ctor :: "'l \<Rightarrow> u64 \<Rightarrow> ('a, 'l, 'm) pool_scheme \<Rightarrow> ('a, 'l, 'm) pool_scheme res" where
  "Ptr_ctor l handle w =
     rbind (AddRef handle (set_ptr l (live_ptr handle) w)) (\<lambda>(_, w). Inr w)"

definition Ptr_ctor_null :: "'l \<Rightarrow> ('a, 'l, 'm) pool_scheme \<Rightarrow> ('a, 'l, 'm) pool_scheme" where
  "Ptr_ctor_null l w = set_ptr l null_ptr w"

definition Ptr_copy :: "'l \<Rightarrow> 'l \<Rightarrow> ('a, 'l, 'm) pool_scheme \<Rightarrow> ('a, 'l, 'm) pool_scheme res" where
  "Ptr_copy l other w =
     (let p = p_ptrs w other; w = set_ptr l p w in
      if sp_pool p then rbind (AddRef (sp_handle p) w) (\<lambda>(_, w). Inr w) else Inr w)"

definition Ptr_copy_assign ::
  "('a, 'l, 'm) pool_scheme callbacks \<Rightarrow> 'l \<Rightarrow> 'l \<Rightarrow> ('a, 'l, 'm) pool_scheme \<Rightarrow> ('a, 'l, 'm) pool_scheme res" where
  "Ptr_copy_assign cb l other w =
     (if l = other then Inr w
      else
        let current = p_ptrs w l; p = p_ptrs w other; w = set_ptr l p w in
        rbind (if sp_pool p then rbind (AddRef (sp_handle p) w) (\<lambda>(_, w). Inr w) else Inr w) (\<lambda>w.
        if sp_pool current then rbind (ReleaseRef cb (sp_handle current) w) (\<lambda>(_, w). Inr w)
        else Inr w))"

definition Ptr_move :: "'l \<Rightarrow> 'l \<Rightarrow> ('a, 'l, 'm) pool_scheme \<Rightarrow> ('a, 'l, 'm) pool_scheme" where
  "Ptr_move l other w = set_ptr other null_ptr (set_ptr l (p_ptrs w other) w)"

definition Ptr_move_assign ::
  "('a, 'l, 'm) pool_scheme callbacks \<Rightarrow> 'l \<Rightarrow> 'l \<Rightarrow> ('a, 'l, 'm) pool_scheme \<Rightarrow> ('a, 'l, 'm) pool_scheme res" where
  "Ptr_move_assign cb l other w =
     (if l = other then Inr w
      else
        rbind (if sp_pool (p_ptrs w l)
               then rbind (ReleaseRef cb (sp_handle (p_ptrs w l)) w) (\<lambda>(_, w). Inr w) else Inr w) (\<lambda>w.
        Inr (set_ptr other null_ptr (set_ptr l (p_ptrs w other) w))))"

definition Ptr_IsValid :: "'l \<Rightarrow> ('a, 'l, 'm) pool_scheme \<Rightarrow> bool" where
  "Ptr_IsValid l w \<longleftrightarrow> sp_pool (p_ptrs w l) \<and> Pool_IsValid (sp_handle (p_ptrs w l)) w"

text \<open>The destructor; afterwards the storage of the pointer holds nothing.\<close>

definition Ptr_dtor ::
  "('a, 'l, 'm) pool_scheme callbacks \<Rightarrow> 'l \<Rightarrow> ('a, 'l, 'm) pool_scheme \<Rightarrow> ('a, 'l, 'm) pool_scheme res" where
  "Ptr_dtor cb l w =
     rbind (if Ptr_IsValid l w
            then rbind (ReleaseRef cb (sp_handle (p_ptrs w l)) w) (\<lambda>(_, w). Inr w) else Inr w) (\<lambda>w.
     Inr (set_ptr l null_ptr w))"

definition Ptr_Get :: "'l \<Rightarrow> ('a, 'l, 'm) pool_scheme \<Rightarrow> nat option" where
  "Ptr_Get l w = (if Ptr_IsValid l w then GetObj (sp_handle (p_ptrs w l)) w else None)"

text \<open>\<^verbatim>\<open>operator*\<close> and \<^verbatim>\<open>operator->\<close>.\<close>

definition Ptr_deref :: "'l \<Rightarrow> ('a, 'l, 'm) pool_scheme \<Rightarrow> nat res" where
  "Ptr_deref l w = (case Ptr_Get l w of None \<Rightarrow> Inl Null_deref | Some idx \<Rightarrow> Inr idx)"

definition Ptr_Reset ::
  "('a, 'l, 'm) pool_scheme callbacks \<Rightarrow> 'l \<Rightarrow> ('a, 'l, 'm) pool_scheme \<Rightarrow> (bool \<times> ('a, 'l, 'm) pool_scheme) res" where
  "Ptr_Reset cb l w =
     (if Ptr_IsValid l w then
        rbind (ReleaseRef cb (sp_handle (p_ptrs w l)) w) (\<lambda>(released, w).
        if released then Inr (True, w) else Inr (False, set_ptr l null_ptr w))
      else Inr (False, w))"

text \<open>\<^verbatim>\<open>SparsePool::Acquire\<close>; the returned pointer is constructed at \<open>l\<close>.\<close>

definition Pool_Acquire ::
  "nat \<Rightarrow> 'l \<Rightarrow> ('a, 'l, 'm) pool_scheme \<Rightarrow> ('a, 'l, 'm) pool_scheme res" where
  "Pool_Acquire state l w =
     rbind (Pop state (p_set w)) (\<lambda>(handle, s).
     let w = w\<lparr>p_set := s\<rparr> in
     if \<not> Pool_IsValid handle w then Inr (Ptr_ctor_null l w)
     else
       let idx = who_of handle in
       rbind (ObjectPool_Acquire idx w) (\<lambda>slot.
       rbind (aset (p_slots w) idx (slot\<lparr>slot_handle := handle\<rparr>)) (\<lambda>sl.
       Ptr_ctor l handle (w\<lparr>p_slots := sl\<rparr>))))"

section \<open>Counted references\<close>

text \<open>
  \<open>refs w i\<close> are the locations that point to the object slot \<open>i\<close> holds now. In \<open>counted X F w\<close>
  every location outside \<open>X\<close> is null or points to a live object, and a slot's count is the number of these
  locations plus \<open>F i\<close>, the references that are counted and held by no location at the moment. \<open>X\<close>
  holds the locations whose destructor runs. \<open>pinv\<close> adds that exactly the
  slots without references are idle.
\<close>

definition refs :: "('a, 'l, 'm) pool_scheme \<Rightarrow> nat \<Rightarrow> 'l set" where
  "refs w i = {l. p_ptrs w l = live_ptr (handle_of (p_set w) i)}"

definition points :: "sptr \<Rightarrow> ('a, 'l, 'm) pool_scheme \<Rightarrow> nat \<Rightarrow> nat" where
  "points p w i = (if p = live_ptr (handle_of (p_set w) i) then 1 else 0)"

abbreviation cap :: "('a, 'l, 'm) pool_scheme \<Rightarrow> nat" where
  "cap w \<equiv> capacity (p_set w)"

abbreviation count :: "('a, 'l, 'm) pool_scheme \<Rightarrow> nat \<Rightarrow> nat" where
  "count w i \<equiv> refCount (p_slots w ! i)"

definition counted :: "'l set \<Rightarrow> (nat \<Rightarrow> nat) \<Rightarrow> ('a, 'l, 'm) pool_scheme \<Rightarrow> bool" where
  "counted X F w \<longleftrightarrow>
     ss_inv (p_set w) \<and> length (p_slots w) = cap w \<and>
     finite {l. sp_pool (p_ptrs w l)} \<and>
     (\<forall>l. l \<notin> X \<longrightarrow> (if sp_pool (p_ptrs w l) then IsValid (sp_handle (p_ptrs w l)) (p_set w) else p_ptrs w l = null_ptr)) \<and>
     (\<forall>i<cap w. count w i = card (refs w i - X) + F i)"

definition pinv :: "'l set \<Rightarrow> (nat \<Rightarrow> nat) \<Rightarrow> ('a, 'l, 'm) pool_scheme \<Rightarrow> bool" where
  "pinv X F w \<longleftrightarrow> counted X F w \<and> (\<forall>i<cap w. state_of (p_set w) i = 0 \<longleftrightarrow> count w i = 0)"

text \<open>The pool as its clients' other operations leave it.\<close>

definition same_pool :: "('a, 'l, 'm) pool_scheme \<Rightarrow> ('a, 'l, 'm) pool_scheme \<Rightarrow> bool" where
  "same_pool w w' \<longleftrightarrow>
     p_set w' = p_set w \<and> p_ptrs w' = p_ptrs w \<and> map refCount (p_slots w') = map refCount (p_slots w)"

text \<open>What a pointer operation leaves: the pointers \<open>ps\<close> and, the counts apart, the same slots.\<close>

definition repointed :: "('a, 'l, 'm) pool_scheme \<Rightarrow> ('l \<Rightarrow> sptr) \<Rightarrow> ('a, 'l, 'm) pool_scheme \<Rightarrow> bool" where
  "repointed w ps w' \<longleftrightarrow>
     (\<exists>sl. w' = w\<lparr>p_slots := sl, p_ptrs := ps\<rparr> \<and> map obj sl = map obj (p_slots w) \<and>
        map slot_handle sl = map slot_handle (p_slots w))"

definition set_count :: "nat \<Rightarrow> nat \<Rightarrow> ('a, 'l, 'm) pool_scheme \<Rightarrow> ('a, 'l, 'm) pool_scheme" where
  "set_count i n w = w\<lparr>p_slots := (p_slots w)[i := (p_slots w ! i)\<lparr>refCount := n\<rparr>]\<rparr>"

lemma same_poolD:
  assumes "same_pool w w'"
  shows "p_set w' = p_set w" "p_ptrs w' = p_ptrs w" "length (p_slots w') = length (p_slots w)"
    "i < length (p_slots w) \<Longrightarrow> count w' i = count w i"
proof -
  have m: "map refCount (p_slots w') = map refCount (p_slots w)" using assms by (simp add: same_pool_def)
  then show l: "length (p_slots w') = length (p_slots w)" by (rule map_eq_imp_length_eq)
  show "count w' i = count w i" if "i < length (p_slots w)"
    using arg_cong [OF m, of "\<lambda>xs. xs ! i"] that l by simp
qed (use assms in \<open>auto simp: same_pool_def\<close>)

lemma same_pool_refl [simp]: "same_pool w w"
  by (simp add: same_pool_def)

lemma same_pool_trans: "same_pool u v \<Longrightarrow> same_pool v w \<Longrightarrow> same_pool u w"
  by (simp add: same_pool_def)

lemma same_pool_refs: "same_pool w w' \<Longrightarrow> refs w' i = refs w i"
  by (simp add: same_pool_def refs_def)

lemma same_pool_counted: "same_pool w w' \<Longrightarrow> counted X F w \<Longrightarrow> counted X F w'"
  using same_poolD [of w w'] same_pool_refs [of w w'] by (auto simp: counted_def)

lemma same_pool_pinv: "same_pool w w' \<Longrightarrow> pinv X F w \<Longrightarrow> pinv X F w'"
  using same_poolD(1,4) [of w w'] same_pool_counted [of w w' X F] unfolding pinv_def
  by (metis counted_def)

lemma repointedD:
  assumes "repointed w ps w'"
  shows "p_set w' = p_set w" "p_ptrs w' = ps" "map obj (p_slots w') = map obj (p_slots w)"
    "map slot_handle (p_slots w') = map slot_handle (p_slots w)" "pool.more w' = pool.more w"
  using assms by (auto simp: repointed_def)

lemma repointed_trans: "repointed u ps v \<Longrightarrow> repointed v qs w \<Longrightarrow> repointed u qs w"
  by (auto simp: repointed_def)

lemma repointed_set_ptr: "repointed w ((p_ptrs w)(l := p)) (set_ptr l p w)"
  unfolding repointed_def set_ptr_def by (rule exI [of _ "p_slots w"]) simp

lemma map_update_same: "f x = f (xs ! i) \<Longrightarrow> map f (xs[i := x]) = map f xs"
  by (metis list_update_id map_update)

lemma repointed_set_count: "repointed w (p_ptrs w) (set_count i n w)"
  unfolding repointed_def set_count_def
  by (rule exI [of _ "(p_slots w)[i := (p_slots w ! i)\<lparr>refCount := n\<rparr>]"])
    (simp add: map_update_same)

lemma put_refCount_ok: "i < length (p_slots w) \<Longrightarrow> put_refCount i n w = Inr (set_count i n w)"
  by (simp add: put_refCount_def set_count_def)

lemma set_count_simps [simp]:
  "p_set (set_count i n w) = p_set w" "p_ptrs (set_count i n w) = p_ptrs w"
  "length (p_slots (set_count i n w)) = length (p_slots w)" "refs (set_count i n w) = refs w"
  "i < length (p_slots w) \<Longrightarrow> count (set_count i n w) j = (if j = i then n else count w j)"
  by (auto simp: set_count_def refs_def)

lemma set_ptr_simps [simp]:
  "p_set (set_ptr l p w) = p_set w" "p_slots (set_ptr l p w) = p_slots w"
  "p_ptrs (set_ptr l p w) = (p_ptrs w)(l := p)"
  by (simp_all add: set_ptr_def)

lemma points_null [simp]: "points null_ptr w i = 0"
  by (simp add: points_def)

lemma refs_set_ptr: "refs (set_ptr l p w) i = (if points p w i = 1 then insert l (refs w i) else refs w i - {l})"
  by (auto simp: refs_def points_def)

lemma refs_points: "l \<in> refs w i \<longleftrightarrow> points (p_ptrs w l) w i = 1"
  by (simp add: refs_def points_def)

lemma counted_finite: "counted X F w \<Longrightarrow> finite (refs w i)"
  by (rule finite_subset [of _ "{l. sp_pool (p_ptrs w l)}"]) (auto simp: counted_def refs_def)

lemma countedD:
  assumes "counted X F w"
  shows "ss_inv (p_set w)" "length (p_slots w) = cap w"
    "l \<notin> X \<Longrightarrow> sp_pool (p_ptrs w l) \<Longrightarrow> IsValid (sp_handle (p_ptrs w l)) (p_set w)"
    "l \<notin> X \<Longrightarrow> \<not> sp_pool (p_ptrs w l) \<Longrightarrow> p_ptrs w l = null_ptr"
    "i < cap w \<Longrightarrow> count w i = card (refs w i - X) + F i"
  using assms by (simp_all add: counted_def split: if_splits)

lemma counted_cong: "counted X F w \<Longrightarrow> (\<And>i. i < cap w \<Longrightarrow> F i = G i) \<Longrightarrow> counted X G w"
  by (simp add: counted_def)

text \<open>The three bookkeeping moves: a count changes, a pointer changes, a location is taken out.\<close>

lemma counted_set_count:
  assumes c: "counted X F w" and i: "i < cap w" and n: "card (refs w i - X) + k = n"
  shows "counted X (F(i := k)) (set_count i n w)"
proof -
  have l: "i < length (p_slots w)" using countedD(2) [OF c] i by simp
  have "count (set_count i n w) j = card (refs w j - X) + (F(i := k)) j" if "j < cap w" for j
    using countedD(5) [OF c that] l n by simp
  then show ?thesis using c unfolding counted_def by simp
qed

lemma card_insert_drop:
  assumes "finite A"
  shows "card (insert l A) = card (A - {l}) + 1" and "l \<in> A \<Longrightarrow> card A = card (A - {l}) + 1"
  using card.insert_remove [OF assms, of l] card.remove [OF assms, of l] by linarith+

lemma counted_set_ptr:
  assumes c: "counted X F w" and l: "l \<notin> X"
    and p: "if sp_pool p then IsValid (sp_handle p) (p_set w) else p = null_ptr"
    and F: "\<And>i. i < cap w \<Longrightarrow> F' i + points p w i = F i + points (p_ptrs w l) w i"
  shows "counted X F' (set_ptr l p w)"
proof -
  let ?w = "set_ptr l p w"
  have "finite {k. sp_pool (p_ptrs ?w k)}"
    by (rule finite_subset [of _ "insert l {k. sp_pool (p_ptrs w k)}"])
      (use c in \<open>auto simp: counted_def\<close>)
  moreover have "count ?w i = card (refs ?w i - X) + F' i" if i: "i < cap w" for i
  proof -
    let ?A = "refs w i - X"
    have fin: "finite ?A" using counted_finite [OF c] by simp
    have A: "refs ?w i - X = (if points p w i = 1 then insert l ?A else ?A - {l})"
      using l by (auto simp: refs_set_ptr)
    have "count w i = card ?A + F i" using countedD(5) [OF c i] .
    moreover have "card ?A = card (?A - {l}) + points (p_ptrs w l) w i"
      using card_insert_drop(2) [OF fin, of l] l refs_points [of l w i] by (auto simp: points_def)
    moreover have "card (refs ?w i - X) = card (?A - {l}) + points p w i"
      using A card_insert_drop(1) [OF fin, of l] by (simp add: points_def)
    ultimately show ?thesis using F [OF i] by simp
  qed
  ultimately show ?thesis using c p unfolding counted_def by simp
qed

lemma counted_take_out:
  assumes c: "counted X F w" and l: "l \<notin> X"
  shows "counted (insert l X) (\<lambda>i. F i + points (p_ptrs w l) w i) w"
proof -
  have "card (refs w i - X) = card (refs w i - insert l X) + points (p_ptrs w l) w i" for i
  proof -
    let ?A = "refs w i - X"
    have "refs w i - insert l X = ?A - {l}" by auto
    then show ?thesis
      using card_insert_drop(2) [of ?A l] counted_finite [OF c] l refs_points [of l w i]
      by (auto simp: points_def)
  qed
  then show ?thesis using c unfolding counted_def by simp
qed

lemma counted_put_back:
  assumes c: "counted (insert l X) F w" and l: "l \<notin> X"
  shows "counted X F (set_ptr l null_ptr w)"
proof -
  let ?w = "set_ptr l null_ptr w"
  have "finite {k. sp_pool (p_ptrs ?w k)}"
    by (rule finite_subset [of _ "{k. sp_pool (p_ptrs w k)}"]) (use c in \<open>auto simp: counted_def\<close>)
  moreover have "refs ?w i - X = refs w i - insert l X" for i
    by (auto simp: refs_set_ptr)
  ultimately show ?thesis using c unfolding counted_def by auto
qed

lemma points_live:
  assumes "counted X F w" "IsValid h (p_set w)" "i < cap w"
  shows "points (live_ptr h) w i = (if i = who_of h then 1 else 0)"
  using handle_of_eq_iff [OF countedD(1) [OF assms(1)] assms(3), of h] assms(2)
  by (auto simp: points_def)

lemma live_or_null:
  assumes "counted X F w" "l \<notin> X"
  obtains (null) "p_ptrs w l = null_ptr"
  | (live) h where "p_ptrs w l = live_ptr h" "IsValid h (p_set w)" "who_of h < cap w"
proof (cases "sp_pool (p_ptrs w l)")
  case True
  then have "p_ptrs w l = live_ptr (sp_handle (p_ptrs w l))" by (cases "p_ptrs w l") simp
  then show ?thesis
    using live [of "sp_handle (p_ptrs w l)"] countedD(3) [OF assms True] by (simp add: IsValid_iff)
qed (use null countedD(4) [OF assms] in blast)

lemma Ptr_IsValid_counted: "counted X F w \<Longrightarrow> l \<notin> X \<Longrightarrow> Ptr_IsValid l w \<longleftrightarrow> sp_pool (p_ptrs w l)"
  using countedD(3) by (auto simp: Ptr_IsValid_def Pool_IsValid_def)

lemma live_counts:
  assumes c: "counted X F w" and l: "p_ptrs w l = live_ptr h" "l \<notin> X"
  shows "0 < count w (who_of h)" "l \<in> refs w (who_of h)" "who_of h < cap w"
proof -
  have v: "IsValid h (p_set w)" using countedD(3) [OF c l(2)] l(1) by simp
  then show i: "who_of h < cap w" by (simp add: IsValid_iff)
  show r: "l \<in> refs w (who_of h)" using IsValid_handle_of [OF v] l(1) by (simp add: refs_def)
  have "0 < card (refs w (who_of h) - X)"
    using r l(2) counted_finite [OF c, of "who_of h"] by (auto simp: card_gt_0_iff)
  then show "0 < count w (who_of h)" using countedD(5) [OF c i] by simp
qed

lemma AddRef_ok:
  assumes c: "counted X F w" and v: "IsValid h (p_set w)"
  shows "AddRef h w = Inr (True, set_count (who_of h) (count w (who_of h) + 1) w)"
    and "counted X (F(who_of h := F (who_of h) + 1)) (set_count (who_of h) (count w (who_of h) + 1) w)"
proof -
  have i: "who_of h < cap w" using v by (simp add: IsValid_iff)
  then show "AddRef h w = Inr (True, set_count (who_of h) (count w (who_of h) + 1) w)"
    using v countedD(2) [OF c] by (simp add: AddRef_def Pool_IsValid_def ObjectPool_Get_def put_refCount_ok Let_def)
  show "counted X (F(who_of h := F (who_of h) + 1)) (set_count (who_of h) (count w (who_of h) + 1) w)"
    by (rule counted_set_count [OF c i]) (use countedD(5) [OF c i] in simp)
qed

lemma AddRef_set_ptr: "AddRef h (set_ptr l p w) = rbind (AddRef h w) (\<lambda>(b, w). Inr (b, set_ptr l p w))"
  by (cases w) (simp add: AddRef_def Pool_IsValid_def ObjectPool_Get_def put_refCount_def set_ptr_def
      Let_def rbind_assoc)

lemma pinv_recount:
  assumes "pinv X F w" "counted X' F' w'" "p_set w' = p_set w"
    and "\<And>i. i < cap w \<Longrightarrow> count w' i = 0 \<longleftrightarrow> count w i = 0"
  shows "pinv X' F' w'"
  using assms by (simp add: pinv_def)

lemma pinvD: "pinv X F w \<Longrightarrow> counted X F w"
  by (simp add: pinv_def)

text \<open>The references of \<open>i\<close> beyond the one \<open>l\<close> holds keep its object alive.\<close>

definition shared :: "'l \<Rightarrow> ('a, 'l, 'm) pool_scheme \<Rightarrow> bool" where
  "shared l w \<longleftrightarrow> (sp_pool (p_ptrs w l) \<longrightarrow> 2 \<le> count w (who_of (sp_handle (p_ptrs w l))))"

lemma shared_by:
  assumes c: "counted X F w" and "l \<notin> X" "k \<notin> X" "l \<noteq> k" "p_ptrs w k = p_ptrs w l"
  shows "shared l w"
  using c \<open>l \<notin> X\<close>
proof (cases rule: live_or_null)
  case (live h)
  then have r: "{l, k} \<subseteq> refs w (who_of h) - X"
    using live_counts(2) [OF c] assms by fastforce
  have "card {l, k} \<le> card (refs w (who_of h) - X)"
    by (rule card_mono [OF _ r]) (use counted_finite [OF c] in simp)
  then have "2 \<le> count w (who_of h)"
    using countedD(5) [OF c live(3)] \<open>l \<noteq> k\<close> by simp
  then show ?thesis using live(1) by (simp add: shared_def)
qed (simp add: shared_def)

lemma ReleaseRef_shared:
  assumes p: "pinv X F w" and v: "IsValid h (p_set w)" and n: "2 \<le> count w (who_of h)"
    and F: "0 < F (who_of h)"
  shows "ReleaseRef cb h w = Inr (False, set_count (who_of h) (count w (who_of h) - 1) w)"
    and "pinv X (F(who_of h := F (who_of h) - 1)) (set_count (who_of h) (count w (who_of h) - 1) w)"
proof -
  note c = pinvD [OF p]
  have i: "who_of h < cap w" using v by (simp add: IsValid_iff)
  then show "ReleaseRef cb h w = Inr (False, set_count (who_of h) (count w (who_of h) - 1) w)"
    using v n countedD(2) [OF c]
    by (simp add: ReleaseRef_def Pool_IsValid_def ObjectPool_Get_def put_refCount_ok Let_def)
  have "counted X (F(who_of h := F (who_of h) - 1)) (set_count (who_of h) (count w (who_of h) - 1) w)"
    by (rule counted_set_count [OF c i]) (use countedD(5) [OF c i] F in simp)
  then show "pinv X (F(who_of h := F (who_of h) - 1)) (set_count (who_of h) (count w (who_of h) - 1) w)"
    by (rule pinv_recount [OF p]) (use n i countedD(2) [OF c] in auto)
qed

lemma ReleaseRef_dead: "\<not> IsValid h (p_set w) \<Longrightarrow> ReleaseRef cb h w = Inr (False, w)"
  by (simp add: ReleaseRef_def Pool_IsValid_def)

section \<open>Pointer operations\<close>

lemma drop_shared:
  assumes p: "pinv X F w" and l: "l \<notin> X" "p_ptrs w l = live_ptr h" and s: "shared l w"
  defines "w' \<equiv> set_count (who_of h) (count w (who_of h) - 1) w"
  shows "ReleaseRef cb h w = Inr (False, w')"
    and "pinv X F (set_ptr l null_ptr w')" and "repointed w ((p_ptrs w)(l := null_ptr)) (set_ptr l null_ptr w')"
proof -
  note c = pinvD [OF p]
  let ?i = "who_of h" and ?G = "\<lambda>i. F i + points (live_ptr h) w i"
  have v: "IsValid h (p_set w)" using countedD(3) [OF c l(1)] l(2) by simp
  have n: "2 \<le> count w ?i" using s l(2) by (simp add: shared_def)
  have G: "i < cap w \<Longrightarrow> ?G i = (if i = ?i then F i + 1 else F i)" for i
    using points_live [OF c v, of i] by simp
  have i: "?i < cap w" using v by (simp add: IsValid_iff)
  have out: "pinv (insert l X) ?G w"
    using counted_take_out [OF c l(1)] l(2) p by (simp add: pinv_def)
  then have "pinv (insert l X) (?G(?i := ?G ?i - 1)) w'" and "ReleaseRef cb h w = Inr (False, w')"
    using ReleaseRef_shared [OF out v n] G [OF i] by (simp_all add: w'_def)
  then have c': "counted (insert l X) (?G(?i := ?G ?i - 1)) w'" and r: "ReleaseRef cb h w = Inr (False, w')"
    by (simp_all add: pinv_def)
  show "ReleaseRef cb h w = Inr (False, w')" by fact
  have "counted X (?G(?i := ?G ?i - 1)) (set_ptr l null_ptr w')"
    by (rule counted_put_back [OF c' l(1)])
  then have "counted X F (set_ptr l null_ptr w')"
    using G i unfolding counted_def by (auto simp: w'_def)
  then show "pinv X F (set_ptr l null_ptr w')"
    by (rule pinv_recount [OF p]) (use n i countedD(2) [OF c] in \<open>auto simp: w'_def\<close>)
  show "repointed w ((p_ptrs w)(l := null_ptr)) (set_ptr l null_ptr w')"
    using repointed_trans [OF repointed_set_count repointed_set_ptr]
    unfolding w'_def by (metis set_count_simps(2))
qed

lemma repointed_refl: "repointed w (p_ptrs w) w"
  unfolding repointed_def by (rule exI [of _ "p_slots w"]) simp

lemma Ptr_dtor_shared:
  assumes p: "pinv X F w" and l: "l \<notin> X" and s: "shared l w"
  shows "\<exists>w'. Ptr_dtor cb l w = Inr w' \<and> pinv X F w' \<and> repointed w ((p_ptrs w)(l := null_ptr)) w'"
  using pinvD [OF p] l
proof (cases rule: live_or_null)
  case null
  then have "set_ptr l null_ptr w = w" by (simp add: set_ptr_def fun_upd_idem)
  then show ?thesis using null p repointed_refl [of w]
    by (simp add: Ptr_dtor_def Ptr_IsValid_def fun_upd_idem)
next
  case (live h)
  then show ?thesis using drop_shared [OF p l live(1) s]
    by (simp add: Ptr_dtor_def Ptr_IsValid_def Pool_IsValid_def)
qed

lemma Ptr_Reset_shared:
  assumes p: "pinv X F w" and l: "l \<notin> X" and s: "shared l w"
  shows "\<exists>w'. Ptr_Reset cb l w = Inr (False, w') \<and> pinv X F w' \<and> repointed w ((p_ptrs w)(l := null_ptr)) w'"
  using pinvD [OF p] l
proof (cases rule: live_or_null)
  case null
  then show ?thesis using p repointed_refl [of w]
    by (simp add: Ptr_Reset_def Ptr_IsValid_def fun_upd_idem)
next
  case (live h)
  then show ?thesis using drop_shared [OF p l live(1) s]
    by (simp add: Ptr_Reset_def Ptr_IsValid_def Pool_IsValid_def)
qed

text \<open>Copying: the new reference is counted and then held by \<open>l\<close>.\<close>

lemma store_counted:
  assumes c: "counted X F w" and v: "IsValid h (p_set w)" and l: "l \<notin> X" "p_ptrs w l = null_ptr"
  defines "w' \<equiv> set_ptr l (live_ptr h) (set_count (who_of h) (count w (who_of h) + 1) w)"
  shows "rbind (AddRef h (set_ptr l (live_ptr h) w)) (\<lambda>(_, w). Inr w) = Inr w'"
    and "counted X F w'" and "repointed w ((p_ptrs w)(l := live_ptr h)) w'"
proof -
  let ?v = "set_count (who_of h) (count w (who_of h) + 1) w"
  note A = AddRef_ok [OF c v]
  show "rbind (AddRef h (set_ptr l (live_ptr h) w)) (\<lambda>(_, w). Inr w) = Inr w'"
    using A(1) by (simp add: AddRef_set_ptr w'_def)
  have pt: "points (live_ptr h) ?v i = (if i = who_of h then 1 else 0)" if "i < cap w" for i
    using points_live [OF c v that] by (simp add: points_def)
  show "counted X F w'" unfolding w'_def
    by (rule counted_set_ptr [OF A(2) l(1)]) (use v l(2) pt in \<open>auto simp: points_null [simplified]\<close>)
  show "repointed w ((p_ptrs w)(l := live_ptr h)) w'"
    using repointed_trans [OF repointed_set_count repointed_set_ptr]
    unfolding w'_def by (metis set_count_simps(2))
qed

lemma Ptr_copy_ok:
  assumes p: "pinv X F w" and l: "l \<notin> X" "p_ptrs w l = null_ptr" and other: "other \<notin> X"
  shows "\<exists>w'. Ptr_copy l other w = Inr w' \<and> pinv X F w' \<and>
    repointed w ((p_ptrs w)(l := p_ptrs w other)) w'"
  using pinvD [OF p] other
proof (cases rule: live_or_null)
  case null
  then have "set_ptr l null_ptr w = w" using l(2) by (simp add: set_ptr_def fun_upd_idem)
  then show ?thesis using null p l(2) repointed_refl [of w]
    by (simp add: Ptr_copy_def Let_def fun_upd_idem)
next
  case (live h)
  note c = pinvD [OF p]
  note S = store_counted [OF c live(2) l]
  have "pinv X F (set_ptr l (live_ptr h) (set_count (who_of h) (count w (who_of h) + 1) w))"
    by (rule pinv_recount [OF p S(2)])
      (use live_counts(1) [OF c live(1) other] live(3) countedD(2) [OF c] in auto)
  then show ?thesis using S live(1) by (auto simp: Ptr_copy_def Let_def)
qed

lemma counted_move:
  assumes c: "counted X F w" and l: "l \<notin> X" "p_ptrs w l = null_ptr" and other: "other \<notin> X" "l \<noteq> other"
  shows "counted X F (Ptr_move l other w)"
proof -
  let ?p = "p_ptrs w other" and ?w = "set_ptr other null_ptr w"
  have c1: "counted X (\<lambda>i. F i + points ?p w i) ?w"
    by (rule counted_set_ptr [OF c other(1)]) simp_all
  have "counted X F (set_ptr l ?p ?w)"
    by (rule counted_set_ptr [OF c1 l(1)])
      (use countedD(3,4) [OF c other(1)] l(2) other(2) in \<open>auto simp: points_def\<close>)
  moreover have "set_ptr l ?p ?w = Ptr_move l other w"
    using other(2) by (simp add: Ptr_move_def set_ptr_def fun_upd_twist)
  ultimately show ?thesis by simp
qed

lemma Ptr_move_ok:
  assumes p: "pinv X F w" and l: "l \<notin> X" "p_ptrs w l = null_ptr" and other: "other \<notin> X" "l \<noteq> other"
  shows "pinv X F (Ptr_move l other w)"
    and "repointed w ((p_ptrs w)(l := p_ptrs w other, other := null_ptr)) (Ptr_move l other w)"
proof -
  show "pinv X F (Ptr_move l other w)"
    by (intro pinv_recount [OF p] counted_move [OF pinvD [OF p]] l other) (auto simp: Ptr_move_def)
  show "repointed w ((p_ptrs w)(l := p_ptrs w other, other := null_ptr)) (Ptr_move l other w)"
    using repointed_trans [OF repointed_set_ptr repointed_set_ptr] unfolding Ptr_move_def by simp
qed

lemma Ptr_move_assign_ok:
  assumes p: "pinv X F w" and l: "l \<notin> X" and other: "other \<notin> X" "l \<noteq> other" and s: "shared l w"
  shows "\<exists>w'. Ptr_move_assign cb l other w = Inr w' \<and> pinv X F w' \<and>
    repointed w ((p_ptrs w)(l := p_ptrs w other, other := null_ptr)) w'"
  using pinvD [OF p] l
proof (cases rule: live_or_null)
  case null
  then show ?thesis using Ptr_move_ok [OF p l null other] other(2)
    by (simp add: Ptr_move_assign_def Ptr_move_def)
next
  case (live h)
  let ?w = "set_count (who_of h) (count w (who_of h) - 1) w"
  note D = drop_shared [OF p l live(1) s]
  have eq: "Ptr_move l other ?w = Ptr_move l other (set_ptr l null_ptr ?w)"
    using other(2) by (simp add: Ptr_move_def set_ptr_def)
  have M: "pinv X F (Ptr_move l other ?w)"
    "repointed w ((p_ptrs w)(l := p_ptrs w other, other := null_ptr)) (Ptr_move l other ?w)"
    using Ptr_move_ok [OF D(2) l _ other] repointed_trans [OF D(3)] repointedD(2) [OF D(3)] other(2)
    unfolding eq by auto
  then show ?thesis using D(1) [of cb] live(1) other(2)
    by (simp add: Ptr_move_assign_def Ptr_move_def)
qed

text \<open>The first half of a copy assignment: \<open>l\<close>'s old reference is left floating.\<close>

lemma overwrite_counted:
  assumes p: "pinv X F w" and l: "l \<notin> X" and other: "other \<notin> X"
  shows "\<exists>w1. (if sp_pool (p_ptrs w other)
        then rbind (AddRef (sp_handle (p_ptrs w other)) (set_ptr l (p_ptrs w other) w)) (\<lambda>(_, w). Inr w)
        else Inr (set_ptr l (p_ptrs w other) w)) = Inr w1 \<and>
      pinv X (\<lambda>i. F i + points (p_ptrs w l) w i) w1 \<and>
      repointed w ((p_ptrs w)(l := p_ptrs w other)) w1 \<and> (\<forall>i<cap w. count w i \<le> count w1 i)"
  using pinvD [OF p] other
proof (cases rule: live_or_null)
  case null
  let ?p = "p_ptrs w other" and ?G = "\<lambda>i. F i + points (p_ptrs w l) w i"
  have "counted X ?G (set_ptr l ?p w)"
    using null by (intro counted_set_ptr [OF pinvD [OF p] l]) simp_all
  then have "pinv X ?G (set_ptr l ?p w)" by (rule pinv_recount [OF p]) simp_all
  then show ?thesis using null repointed_set_ptr [of w l ?p] by auto
next
  case (live h)
  let ?p = "p_ptrs w other" and ?G = "\<lambda>i. F i + points (p_ptrs w l) w i"
  let ?v = "set_count (who_of h) (count w (who_of h) + 1) w"
  note c = pinvD [OF p]
  note A = AddRef_ok [OF c live(2)]
  have "counted X ?G (set_ptr l ?p ?v)"
    by (rule counted_set_ptr [OF A(2) l])
      (use live points_live [OF c live(2)] in \<open>auto simp: points_def\<close>)
  then have "pinv X ?G (set_ptr l ?p ?v)"
    by (rule pinv_recount [OF p])
      (use live_counts(1) [OF c live(1) other(1)] live(3) countedD(2) [OF c] in auto)
  moreover have "repointed w ((p_ptrs w)(l := ?p)) (set_ptr l ?p ?v)"
    using repointed_trans [OF repointed_set_count repointed_set_ptr] by (metis set_count_simps(2))
  ultimately show ?thesis using A(1) live countedD(2) [OF c]
    by (intro exI [of _ "set_ptr l ?p ?v"]) (auto simp: AddRef_set_ptr)
qed

lemma Ptr_copy_assign_ok:
  assumes p: "pinv X F w" and l: "l \<notin> X" and other: "other \<notin> X" "l \<noteq> other" and s: "shared l w"
  shows "\<exists>w'. Ptr_copy_assign cb l other w = Inr w' \<and> pinv X F w' \<and>
    repointed w ((p_ptrs w)(l := p_ptrs w other)) w'"
proof -
  note c = pinvD [OF p]
  let ?p = "p_ptrs w other" and ?G = "\<lambda>i. F i + points (p_ptrs w l) w i"
  obtain w1 where w1: "(if sp_pool ?p then rbind (AddRef (sp_handle ?p) (set_ptr l ?p w)) (\<lambda>(_, w). Inr w)
      else Inr (set_ptr l ?p w)) = Inr w1" "pinv X ?G w1" "repointed w ((p_ptrs w)(l := ?p)) w1"
      "\<forall>i<cap w. count w i \<le> count w1 i" using overwrite_counted [OF p l other(1)] by blast
  from c l show ?thesis
  proof (cases rule: live_or_null)
    case null
    then show ?thesis using w1 other(2) by (simp add: Ptr_copy_assign_def Let_def)
  next
    case (live h)
    let ?w2 = "set_count (who_of h) (count w1 (who_of h) - 1) w1"
    have set1: "p_set w1 = p_set w" using repointedD(1) [OF w1(3)] .
    have G: "i < cap w \<Longrightarrow> ?G i = (if i = who_of h then F i + 1 else F i)" for i
      using points_live [OF c live(2), of i] live(1) by simp
    have n: "2 \<le> count w1 (who_of h)"
      using s live(1,3) w1(4) le_trans by (fastforce simp: shared_def)
    note R = ReleaseRef_shared [OF w1(2), of h]
    have "pinv X (?G(who_of h := ?G (who_of h) - 1)) ?w2"
      using R(2) n G [OF live(3)] live(2) set1 by simp
    then have "pinv X F ?w2" using G live(3) set1 unfolding pinv_def counted_def by (auto split: if_splits)
    moreover have "repointed w ((p_ptrs w)(l := ?p)) ?w2"
      using repointed_trans [OF w1(3) repointed_set_count] repointedD(2) [OF w1(3)] by metis
    ultimately show ?thesis
      using R(1) n G [OF live(3)] live w1(1) set1 other(2)
      by (auto simp: Ptr_copy_assign_def Let_def)
  qed
qed

section \<open>Acquiring, changing state, and the last release\<close>

lemma updates_handle_of:
  assumes "ss_inv s" "updates s i x s'" "i < capacity s" "j < capacity s" "fst x = gen_of s i \<or> j \<noteq> i"
  shows "handle_of s' j = handle_of s j"
  using updates_obs [OF assms(1-4)] assms(5) by (auto simp: handle_of_def split: if_splits)

lemma updates_IsValid:
  assumes "ss_inv s" "updates s i x s'" "i < capacity s" "fst x = gen_of s i \<or> who_of h \<noteq> i"
  shows "IsValid h s' \<longleftrightarrow> IsValid h s"
  using updates_obs [OF assms(1-3), of "who_of h"] assms(2,4)
  by (auto simp: IsValid_iff updates_def split: if_splits)

lemma counted_new_state:
  assumes c: "counted X F w" and up: "updates (p_set w) i (gen_of (p_set w) i, n) s'" and i: "i < cap w"
  shows "counted X F (w\<lparr>p_set := s'\<rparr>)"
proof -
  note I = countedD(1) [OF c]
  have v: "IsValid h s' \<longleftrightarrow> IsValid h (p_set w)" for h
    using updates_IsValid [OF I up i] by simp
  have "refs (w\<lparr>p_set := s'\<rparr>) j = refs w j" if "j < cap w" for j
    using updates_handle_of [OF I up i that] by (simp add: refs_def)
  then show ?thesis using c up v unfolding counted_def updates_def by auto
qed

lemma Pool_MoveToState_ok:
  assumes p: "pinv X F w" and v: "IsValid h (p_set w)"
    and n: "0 < n" "n < stateCount (p_set w)" and busy: "0 < state_of (p_set w) (who_of h)"
  shows "\<exists>s'. Pool_MoveToState h n w = Inr (True, w\<lparr>p_set := s'\<rparr>) \<and> pinv X F (w\<lparr>p_set := s'\<rparr>) \<and>
    updates (p_set w) (who_of h) (generation_of h, n) s'"
proof -
  note c = pinvD [OF p]
  note I = countedD(1) [OF c]
  have i: "who_of h < cap w" "gen_of (p_set w) (who_of h) = generation_of h"
    using v by (simp_all add: IsValid_iff)
  obtain s' where s': "MoveToState h n (p_set w) = Inr (True, s')"
    "updates (p_set w) (who_of h) (generation_of h, n) s'"
    using MoveToState_ok [OF I v n(2)] by blast
  have "counted X F (w\<lparr>p_set := s'\<rparr>)"
    by (rule counted_new_state [OF c _ i(1)]) (use s'(2) i(2) in auto)
  moreover have "state_of s' j = 0 \<longleftrightarrow> state_of (p_set w) j = 0" if "j < cap w" for j
    using updates_obs [OF I s'(2) i(1) that] n(1) busy by (auto split: if_splits)
  ultimately have "pinv X F (w\<lparr>p_set := s'\<rparr>)"
    using p s'(2) by (auto simp: pinv_def updates_def)
  then show ?thesis using s' by (auto simp: Pool_MoveToState_def)
qed

text \<open>What acquiring the slot of \<open>h\<close> into location \<open>l\<close> leaves.\<close>

definition acquired :: "nat \<Rightarrow> 'l \<Rightarrow> u64 \<Rightarrow> ('a, 'l, 'm) pool_scheme \<Rightarrow> ('a, 'l, 'm) pool_scheme \<Rightarrow> bool" where
  "acquired n l h w w' \<longleftrightarrow>
     IsValid h (p_set w) \<and> state_of (p_set w) (who_of h) = 0 \<and>
     updates (p_set w) (who_of h) (generation_of h, n) (p_set w') \<and>
     p_ptrs w' = (p_ptrs w)(l := live_ptr h) \<and> count w' (who_of h) = 1 \<and>
     map obj (p_slots w') = map obj (p_slots w) \<and> pool.more w' = pool.more w"

lemma Pool_Acquire_ok:
  assumes p: "pinv X F w" and l: "l \<notin> X" "p_ptrs w l = null_ptr"
    and n: "0 < n" "n < stateCount (p_set w)" and idle: "has_idle (p_set w)"
  shows "\<exists>h w'. Pool_Acquire n l w = Inr w' \<and> pinv X F w' \<and> acquired n l h w w'"
proof -
  note c = pinvD [OF p]
  note I = countedD(1) [OF c]
  obtain h s where h: "Pop n (p_set w) = Inr (h, s)" "IsValid h (p_set w)"
    "state_of (p_set w) (who_of h) = 0" and up: "updates (p_set w) (who_of h) (generation_of h, n) s"
    using Pop_ok [OF I n(2) idle] by blast
  let ?i = "who_of h"
  have i: "?i < cap w" "gen_of (p_set w) ?i = generation_of h"
    using h(2) by (simp_all add: IsValid_iff)
  have li: "?i < length (p_slots w)" using countedD(2) [OF c] i(1) by simp
  define w1 where "w1 = w\<lparr>p_set := s\<rparr>"
  have c1: "counted X F w1" unfolding w1_def
    by (rule counted_new_state [OF c _ i(1)]) (use up i(2) in auto)
  define w2 where "w2 = w1\<lparr>p_slots := (p_slots w)[?i := (p_slots w ! ?i)\<lparr>slot_handle := h\<rparr>]\<rparr>"
  have "same_pool w1 w2" by (simp add: same_pool_def w1_def w2_def map_update_same)
  then have c2: "counted X F w2" by (rule same_pool_counted [OF _ c1])
  have v: "IsValid h (p_set w2)"
    using updates_IsValid [OF I up i(1)] i(2) h(2) by (simp add: w1_def w2_def)
  note S = store_counted [OF c2 v l(1)]
  let ?w3 = "set_ptr l (live_ptr h) (set_count ?i (count w2 ?i + 1) w2)"
  have run: "Pool_Acquire n l w = Inr ?w3"
    using h(1) v li S(1) l(2)
    by (simp add: Pool_Acquire_def Pool_IsValid_def ObjectPool_Acquire_def Ptr_ctor_def Let_def w1_def w2_def)
  have z: "count w ?i = 0" using p h(3) i(1) by (simp add: pinv_def)
  have "state_of s j = 0 \<longleftrightarrow> count ?w3 j = 0" if "j < cap w" for j
    using updates_obs [OF I up i(1) that] n(1) li p that by (auto simp: pinv_def w1_def w2_def split: if_splits)
  moreover have "counted X F ?w3" using S(2) l(2) by (simp add: w1_def w2_def)
  ultimately have "pinv X F ?w3" using up by (auto simp: pinv_def w1_def w2_def updates_def)
  moreover have "acquired n l h w ?w3"
    using h up li z by (simp add: acquired_def w1_def w2_def set_count_def set_ptr_def map_update_same)
  ultimately show ?thesis using run by blast
qed

lemma Pool_Acquire_exhausted:
  assumes p: "pinv X F w" and full: "\<not> has_idle (p_set w)" and l: "p_ptrs w l = null_ptr"
  shows "Pool_Acquire n l w = Inr w"
proof -
  note I = countedD(1) [OF pinvD [OF p]]
  have "set_ptr l null_ptr w = w" using l by (simp add: set_ptr_def fun_upd_idem)
  then show ?thesis
    using Pop_exhausted [OF I, of n] full kInvalid_not_valid [OF I]
    by (simp add: Pool_Acquire_def Pool_IsValid_def Ptr_ctor_null_def)
qed

text \<open>A slot no location points to may change its generation.\<close>

lemma counted_retire:
  assumes c: "counted X F w" and none: "refs w i \<subseteq> X" and i: "i < cap w"
    and up: "updates (p_set w) i (gen_of (p_set w) i + 1, n) s"
  shows "counted X F (w\<lparr>p_set := s\<rparr>)"
proof -
  note I = countedD(1) [OF c]
  let ?w = "w\<lparr>p_set := s\<rparr>"
  have I': "ss_inv s" "capacity s = cap w" using up by (simp_all add: updates_def)
  have elsewhere: "who_of h \<noteq> i" if "l \<notin> X" "p_ptrs w l = live_ptr h" for l h
    using live_counts(2) [OF c that(2,1)] none that(1) by auto
  have "if sp_pool (p_ptrs w l) then IsValid (sp_handle (p_ptrs w l)) s else p_ptrs w l = null_ptr"
    if l: "l \<notin> X" for l
    using c l
  proof (cases rule: live_or_null)
    case (live h)
    then show ?thesis using updates_IsValid [OF I up i, of h] elsewhere [OF l] by simp
  qed simp
  moreover have "refs ?w j - X = refs w j - X" if j: "j < cap w" for j
  proof (cases "j = i")
    case True
    have "l \<in> X" if "l \<in> refs ?w i" for l
      using elsewhere [of l "handle_of s i"] handle_of_simps(1) [OF I'(1)] i I'(2) that
      by (auto simp: refs_def)
    then show ?thesis using none True by auto
  next
    case False
    then show ?thesis using updates_handle_of [OF I up i j] by (simp add: refs_def)
  qed
  ultimately show ?thesis using c I' unfolding counted_def by simp
qed

lemma ReleaseRef_last:
  assumes p: "pinv X F w" and v: "IsValid h (p_set w)" and n: "count w (who_of h) = 1" "F (who_of h) = 1"
    and d: "deleter cb (who_of h) (set_count (who_of h) 0 w) = Inr w2"
    and same: "same_pool (set_count (who_of h) 0 w) w2"
  shows "\<exists>s. ReleaseRef cb h w = rbind (postReleaseFunc cb (w2\<lparr>p_set := s\<rparr>)) (\<lambda>w. Inr (True, w)) \<and>
    pinv X (F(who_of h := 0)) (w2\<lparr>p_set := s\<rparr>) \<and> \<not> IsValid h s \<and>
    updates (p_set w) (who_of h) (generation_of h + 1, 0) s"
proof -
  note c = pinvD [OF p]
  note I = countedD(1) [OF c]
  let ?i = "who_of h" and ?v = "set_count (who_of h) 0 w"
  have i: "?i < cap w" "gen_of (p_set w) ?i = generation_of h" "?i < length (p_slots w)"
    using v countedD(2) [OF c] by (simp_all add: IsValid_iff)
  have none: "card (refs w ?i - X) = 0" using countedD(5) [OF c i(1)] n by simp
  then have sub: "refs w ?i \<subseteq> X" using counted_finite [OF c, of ?i] by auto
  have "counted X (F(?i := 0)) ?v" using counted_set_count [OF c i(1), of 0] none by simp
  then have c2: "counted X (F(?i := 0)) w2" by (rule same_pool_counted [OF same])
  note S = same_poolD [OF same]
  obtain s where s: "Push h (p_set w) = Inr (True, s)" and up: "updates (p_set w) ?i (generation_of h + 1, 0) s"
    using Push_ok [OF I v] by blast
  let ?w3 = "w2\<lparr>p_set := s\<rparr>"
  have run: "ReleaseRef cb h w = rbind (postReleaseFunc cb ?w3) (\<lambda>w. Inr (True, w))"
    using v n(1) d s S(1) i(3)
    by (simp add: ReleaseRef_def Pool_IsValid_def ObjectPool_Get_def put_refCount_ok ObjectPool_Release_def Let_def)
  have dead: "\<not> IsValid h s" using updates_obs [OF I up i(1) i(1)] by (simp add: IsValid_iff)
  have "counted X (F(?i := 0)) ?w3"
    by (rule counted_retire [OF c2]) (use sub same_pool_refs [OF same] i S(1) up in auto)
  moreover have "state_of s j = 0 \<longleftrightarrow> count ?w3 j = 0" if j: "j < cap w" for j
    using updates_obs [OF I up i(1) j] p S(4) [of j] i j countedD(2) [OF c]
    by (auto simp: pinv_def split: if_splits)
  ultimately have "pinv X (F(?i := 0)) ?w3" using up by (simp add: pinv_def updates_def)
  then show ?thesis using run dead up by blast
qed

section \<open>The contract of the two callbacks\<close>

text \<open>
  \<open>J w\<close> is what a client of the pool keeps true of its state, and \<open>L\<close> are the locations whose
  destructor may give up a last reference. The deleter runs on a slot without references and may not touch
  the pool; the function called after a release may use the pool. While they run, the locations
  \<open>X\<close> being destroyed still hold the pointers they held.
\<close>

locale pool_client =
  fixes cb :: "('a, 'l, 'm) pool_scheme callbacks"
    and J :: "('a, 'l, 'm) pool_scheme \<Rightarrow> bool" and L :: "'l set"
  assumes deleter_ok: "J w \<Longrightarrow> X \<subseteq> {l \<in> L. sp_pool (p_ptrs w l)} \<Longrightarrow> counted X F w \<Longrightarrow>
      i < cap w \<Longrightarrow> refs w i \<subseteq> X \<Longrightarrow> count w i = 0 \<Longrightarrow>
      \<exists>w'. deleter cb i w = Inr w' \<and> same_pool w w' \<and>
        (\<forall>s. updates (p_set w) i (gen_of (p_set w) i + 1, 0) s \<longrightarrow> J (w'\<lparr>p_set := s\<rparr>))"
    and post_ok: "J w \<Longrightarrow> X \<subseteq> {l \<in> L. sp_pool (p_ptrs w l)} \<Longrightarrow> pinv X F w \<Longrightarrow>
      \<exists>w'. postReleaseFunc cb w = Inr w' \<and> pinv X F w' \<and> J w'"
    and count_ok: "J w \<Longrightarrow> J (set_count i n w)"
    and null_ok: "l \<in> L \<Longrightarrow> J w \<Longrightarrow> J (set_ptr l null_ptr w)"
begin

lemma ReleaseRef_ok:
  assumes p: "pinv X F w" and J: "J w" and X: "X \<subseteq> {l \<in> L. sp_pool (p_ptrs w l)}"
    and v: "IsValid h (p_set w)" and F: "0 < F (who_of h)"
  shows "\<exists>w'. ReleaseRef cb h w = Inr (count w (who_of h) = 1, w') \<and>
    pinv X (F(who_of h := F (who_of h) - 1)) w' \<and> J w'"
proof (cases "count w (who_of h) = 1")
  case True
  note c = pinvD [OF p]
  let ?i = "who_of h" and ?v = "set_count (who_of h) 0 w"
  have i: "?i < cap w" "gen_of (p_set w) ?i = generation_of h" "?i < length (p_slots w)"
    using v countedD(2) [OF c] by (simp_all add: IsValid_iff)
  have n: "card (refs w ?i - X) = 0" "F ?i = 1" using countedD(5) [OF c i(1)] True F by simp_all
  then have none: "refs w ?i \<subseteq> X" using counted_finite [OF c, of ?i] by auto
  have cv: "counted X (F(?i := 0)) ?v" using counted_set_count [OF c i(1), of 0] n(1) by simp
  obtain w2 where w2: "deleter cb ?i ?v = Inr w2" "same_pool ?v w2"
    "\<And>s. updates (p_set w) ?i (generation_of h + 1, 0) s \<Longrightarrow> J (w2\<lparr>p_set := s\<rparr>)"
    using deleter_ok [OF count_ok [OF J] _ cv, of ?i] X i none by auto
  obtain s where s: "ReleaseRef cb h w = rbind (postReleaseFunc cb (w2\<lparr>p_set := s\<rparr>)) (\<lambda>w. Inr (True, w))"
    "pinv X (F(?i := 0)) (w2\<lparr>p_set := s\<rparr>)" "updates (p_set w) ?i (generation_of h + 1, 0) s"
    using ReleaseRef_last [OF p v True n(2) w2(1,2)] by blast
  have "X \<subseteq> {l \<in> L. sp_pool (p_ptrs (w2\<lparr>p_set := s\<rparr>) l)}" using X same_poolD(2) [OF w2(2)] by simp
  then show ?thesis using post_ok [OF w2(3) [OF s(3)] _ s(2)] s(1) True n(2) by auto
next
  case False
  have i: "who_of h < cap w" using v by (simp add: IsValid_iff)
  have "2 \<le> count w (who_of h)"
    using False F countedD(5) [OF pinvD [OF p] i] by linarith
  then show ?thesis using ReleaseRef_shared [OF p v _ F] count_ok [OF J] False by auto
qed

lemma Ptr_dtor_ok:
  assumes p: "pinv X F w" and J: "J w" and X: "X \<subseteq> {l \<in> L. sp_pool (p_ptrs w l)}" and l: "l \<in> L" "l \<notin> X"
  shows "\<exists>w'. Ptr_dtor cb l w = Inr w' \<and> pinv X F w' \<and> J w' \<and> p_ptrs w' l = null_ptr"
  using pinvD [OF p] l(2)
proof (cases rule: live_or_null)
  case null
  then have "set_ptr l null_ptr w = w" by (simp add: set_ptr_def fun_upd_idem)
  then show ?thesis using null p J by (simp add: Ptr_dtor_def Ptr_IsValid_def)
next
  case (live h)
  note c = pinvD [OF p]
  let ?G = "F(who_of h := F (who_of h) + 1)"
  have "pinv (insert l X) ?G w"
    by (rule pinv_recount [OF p counted_cong [OF counted_take_out [OF c l(2)]]])
      (use points_live [OF c live(2)] live(1) in auto)
  then obtain b w' where w': "ReleaseRef cb h w = Inr (b, w')" "pinv (insert l X) F w'" "J w'"
    using ReleaseRef_ok [OF _ J _ live(2), of "insert l X" ?G] X l live(1) by auto
  have "pinv X F (set_ptr l null_ptr w')"
    by (rule pinv_recount [OF w'(2) counted_put_back [OF pinvD [OF w'(2)] l(2)]]) auto
  then show ?thesis using w'(1) null_ok [OF l(1) w'(3)] live
    by (auto simp: Ptr_dtor_def Ptr_IsValid_def Pool_IsValid_def)
qed

end

section \<open>Programs of pointer operations\<close>

text \<open>A pool constructed with its default arguments: no deleter, no \<^verbatim>\<open>postReleaseFunc_\<close>.\<close>

definition SparsePool :: "nat \<Rightarrow> nat \<Rightarrow> 'a \<Rightarrow> ('a, 'l) pool" where
  "SparsePool N k a = \<lparr>
     p_set = SparseSet N k,
     p_slots = replicate N \<lparr>obj = a, slot_handle = kInvalidHandle, refCount = 0\<rparr>,
     p_ptrs = (\<lambda>_. null_ptr)\<rparr>"

definition plain_cb :: "'w callbacks" where
  "plain_cb = \<lparr>deleter = (\<lambda>_ w. Inr w), postReleaseFunc = Inr\<rparr>"

datatype 'l ptr_op =
    Op_Acquire nat 'l
  | Op_Copy 'l 'l
  | Op_Copy_assign 'l 'l
  | Op_Move 'l 'l
  | Op_Move_assign 'l 'l
  | Op_Reset 'l
  | Op_Destroy 'l

fun ptr_exec :: "'l ptr_op \<Rightarrow> ('a, 'l, 'm) pool_scheme \<Rightarrow> ('a, 'l, 'm) pool_scheme res" where
  "ptr_exec (Op_Acquire n l) w = Pool_Acquire n l w"
| "ptr_exec (Op_Copy l k) w = Ptr_copy l k w"
| "ptr_exec (Op_Copy_assign l k) w = Ptr_copy_assign plain_cb l k w"
| "ptr_exec (Op_Move l k) w = Inr (Ptr_move l k w)"
| "ptr_exec (Op_Move_assign l k) w = Ptr_move_assign plain_cb l k w"
| "ptr_exec (Op_Reset l) w = rbind (Ptr_Reset plain_cb l w) (\<lambda>(_, w). Inr w)"
| "ptr_exec (Op_Destroy l) w = Ptr_dtor plain_cb l w"

fun ptr_run :: "'l ptr_op list \<Rightarrow> ('a, 'l, 'm) pool_scheme \<Rightarrow> ('a, 'l, 'm) pool_scheme res" where
  "ptr_run [] w = Inr w"
| "ptr_run (a # as) w = rbind (ptr_exec a w) (ptr_run as)"

text \<open>
  What C++ and the pool ask of a program: a constructor runs on storage that holds no
  pointer, an object is acquired into a busy state, and a last reference is given up by
  the destructor or an assignment, not by \<^verbatim>\<open>Reset\<close>, which would leave the dead pointer in place.
\<close>

fun ptr_ok :: "'l ptr_op \<Rightarrow> ('a, 'l, 'm) pool_scheme \<Rightarrow> bool" where
  "ptr_ok (Op_Acquire n l) w \<longleftrightarrow> p_ptrs w l = null_ptr \<and> 0 < n \<and> n < stateCount (p_set w)"
| "ptr_ok (Op_Copy l k) w \<longleftrightarrow> p_ptrs w l = null_ptr"
| "ptr_ok (Op_Move l k) w \<longleftrightarrow> p_ptrs w l = null_ptr \<and> l \<noteq> k"
| "ptr_ok (Op_Reset l) w \<longleftrightarrow> shared l w"
| "ptr_ok _ w \<longleftrightarrow> True"

fun ptr_legal :: "'l ptr_op list \<Rightarrow> ('a, 'l, 'm) pool_scheme \<Rightarrow> bool" where
  "ptr_legal [] w \<longleftrightarrow> True"
| "ptr_legal (a # as) w \<longleftrightarrow> ptr_ok a w \<and> (case ptr_exec a w of Inl _ \<Rightarrow> True | Inr w' \<Rightarrow> ptr_legal as w')"

lemma SparsePool_pinv:
  assumes "N < 2 ^ 32" "0 < k"
  shows "pinv {} (\<lambda>_. 0) (SparsePool N k a)"
  using SparseSet_inv [OF assms] by (simp add: pinv_def counted_def refs_def SparsePool_def)

interpretation plain: pool_client plain_cb "\<lambda>_. True" UNIV
  by unfold_locales (auto simp: plain_cb_def)

lemma plain_Ptr_move_assign:
  fixes l :: 'l
  assumes p: "pinv {} F w" and ne: "l \<noteq> k" and l0: "l \<notin> {}"
  shows "\<exists>w'. Ptr_move_assign plain_cb l k w = Inr w' \<and> pinv {} F w'"
  using pinvD [OF p] l0
proof (cases rule: live_or_null)
  case null
  then show ?thesis using Ptr_move_ok(1) [OF p _ null _ ne] ne
    by (simp add: Ptr_move_assign_def Ptr_move_def)
next
  case (live h)
  note c = pinvD [OF p]
  let ?G = "F(who_of h := F (who_of h) + 1)"
  have "pinv {l} ?G w"
    by (rule pinv_recount [OF p counted_cong [OF counted_take_out [OF c]]])
      (use points_live [OF c live(2)] live(1) in auto)
  then obtain b w' where w': "ReleaseRef plain_cb h w = Inr (b, w')" "pinv {l} F w'"
    using plain.ReleaseRef_ok [of "{l}" ?G w h] live(1,2) by auto
  have "pinv {} F (set_ptr l null_ptr w')"
    by (rule pinv_recount [OF w'(2) counted_put_back [OF pinvD [OF w'(2)]]]) auto
  then have "pinv {} F (Ptr_move l k (set_ptr l null_ptr w'))"
    by (rule Ptr_move_ok(1)) (use ne in auto)
  moreover have "Ptr_move l k (set_ptr l null_ptr w') = Ptr_move l k w'"
    using ne by (simp add: Ptr_move_def set_ptr_def)
  ultimately show ?thesis using w'(1) live ne
    by (auto simp: Ptr_move_assign_def Ptr_move_def)
qed

lemma plain_Ptr_copy_assign:
  fixes l :: 'l
  assumes p: "pinv {} F w" and l0: "l \<notin> {}"
  shows "\<exists>w'. Ptr_copy_assign plain_cb l k w = Inr w' \<and> pinv {} F w'"
proof (cases "l = k")
  case True
  then show ?thesis using p by (simp add: Ptr_copy_assign_def)
next
  case ne: False
  note c = pinvD [OF p]
  let ?p = "p_ptrs w k"
  obtain w1 where w1: "(if sp_pool ?p then rbind (AddRef (sp_handle ?p) (set_ptr l ?p w)) (\<lambda>(_, w). Inr w)
      else Inr (set_ptr l ?p w)) = Inr w1" "pinv {} (\<lambda>i. F i + points (p_ptrs w l) w i) w1"
      "repointed w ((p_ptrs w)(l := ?p)) w1" using overwrite_counted [OF p] by blast
  from c l0 show ?thesis
  proof (cases rule: live_or_null)
    case null
    then show ?thesis using w1 ne by (simp add: Ptr_copy_assign_def Let_def)
  next
    case (live h)
    let ?G = "F(who_of h := F (who_of h) + 1)"
    have "pinv {} ?G w1"
      by (rule pinv_recount [OF w1(2) counted_cong [OF pinvD [OF w1(2)]]])
        (use points_live [OF c live(2)] live(1) repointedD(1) [OF w1(3)] in auto)
    then obtain b w' where "ReleaseRef plain_cb h w1 = Inr (b, w')" "pinv {} F w'"
      using plain.ReleaseRef_ok [of "{}" ?G w1 h] live(2) repointedD(1) [OF w1(3)] by auto
    then show ?thesis using w1(1) live ne by (auto simp: Ptr_copy_assign_def Let_def)
  qed
qed

lemma ptr_exec_ok:
  assumes p: "pinv {} F w" and ok: "ptr_ok a w"
  shows "\<exists>w'. ptr_exec a w = Inr w' \<and> pinv {} F w'"
proof (cases a)
  case (Op_Acquire n l)
  then show ?thesis
    using Pool_Acquire_ok [OF p, of l n] Pool_Acquire_exhausted [OF p, of l n] p ok
    by (cases "has_idle (p_set w)") auto
next
  case (Op_Move_assign l k)
  then show ?thesis using plain_Ptr_move_assign [OF p, of l k] p
    by (cases "l = k") (auto simp: Ptr_move_assign_def)
next
  case (Op_Reset l)
  then show ?thesis using Ptr_Reset_shared [OF p, of l plain_cb] ok by auto
next
  case (Op_Copy l k)
  then show ?thesis using Ptr_copy_ok [OF p, of l k] ok by auto
next
  case (Op_Destroy l)
  then show ?thesis using plain.Ptr_dtor_ok [OF p, of l] by auto
qed (use Ptr_move_ok(1) [OF p] plain_Ptr_copy_assign [OF p] ok in auto)

lemma ptr_run_ok: "pinv {} F w \<Longrightarrow> ptr_legal as w \<Longrightarrow> \<exists>w'. ptr_run as w = Inr w' \<and> pinv {} F w'"
proof (induction as arbitrary: w)
  case (Cons a as)
  then obtain w1 where "ptr_exec a w = Inr w1" "pinv {} F w1" using ptr_exec_ok by fastforce
  then show ?case using Cons by simp
qed simp

section \<open>Properties\<close>

lemma Ptr_Get_live:
  assumes c: "counted {} F w" and l: "p_ptrs w l = live_ptr h"
  shows "Ptr_Get l w = Some (who_of h)"
  using countedD(3) [OF c, of l] l by (simp add: Ptr_Get_def Ptr_IsValid_def GetObj_def Pool_IsValid_def)

lemma last_pointer_released:
  assumes p: "pinv {} (\<lambda>_. 0) w" and l: "p_ptrs w l = live_ptr h" and last: "refs w (who_of h) = {l}"
  obtains s where "ReleaseRef plain_cb h w = Inr (True, (set_count (who_of h) 0 w)\<lparr>p_set := s\<rparr>)"
    "pinv {l} (\<lambda>_. 0) ((set_count (who_of h) 0 w)\<lparr>p_set := s\<rparr>)" "\<not> IsValid h s"
    "updates (p_set w) (who_of h) (generation_of h + 1, 0) s" "IsValid h (p_set w)" "who_of h < cap w"
proof -
  note c = pinvD [OF p]
  have v: "IsValid h (p_set w)" and i: "who_of h < cap w"
    using countedD(3) [OF c, of l] live_counts(3) [OF c l] l by simp_all
  have n: "count w (who_of h) = 1" using countedD(5) [OF c i] last by simp
  let ?G = "(\<lambda>_. 0 :: nat)(who_of h := 1)"
  have out: "pinv {l} ?G w"
    by (rule pinv_recount [OF p counted_cong [OF counted_take_out [OF c]]])
      (use points_live [OF c v] l in auto)
  have "?G(who_of h := 0) = (\<lambda>_. 0)" by auto
  then show ?thesis
    using ReleaseRef_last [OF out v n, of plain_cb "set_count (who_of h) 0 w"] v i that
    by (auto simp: plain_cb_def)
qed

text \<open>Pools after a few operations, at which the properties are instantiated.\<close>

definition sample_pool :: "nat ptr_op list \<Rightarrow> (unit, nat) pool" where
  "sample_pool ops = projr (ptr_run ops (SparsePool 2 2 ()))"

lemma sample_pool_pinv:
  assumes "ptr_legal ops (SparsePool 2 2 () :: (unit, nat) pool)"
  shows "pinv {} (\<lambda>_. 0) (sample_pool ops)"
proof -
  have "pinv {} (\<lambda>_. 0) (SparsePool 2 2 () :: (unit, nat) pool)" by (rule SparsePool_pinv) simp_all
  from ptr_run_ok [OF this assms] show ?thesis by (auto simp: sample_pool_def)
qed

lemma sample_one:
  "pinv {} (\<lambda>_. 0) (sample_pool [Op_Acquire 1 0])"
  "p_ptrs (sample_pool [Op_Acquire 1 0]) 0 = live_ptr 0" "refs (sample_pool [Op_Acquire 1 0]) (who_of 0) = {0}"
proof -
  let ?w = "sample_pool [Op_Acquire 1 0]"
  show p: "pinv {} (\<lambda>_. 0) ?w" by (rule sample_pool_pinv) code_simp
  show l: "p_ptrs ?w 0 = live_ptr 0" by code_simp
  have "who_of 0 < cap ?w" "count ?w (who_of 0) = 1" by code_simp+
  then have "card (refs ?w (who_of 0)) = 1" using countedD(5) [OF pinvD [OF p]] by simp
  then show "refs ?w (who_of 0) = {0}"
    using live_counts(2) [OF pinvD [OF p] l] by (auto simp: card_1_singleton_iff)
qed

lemma sample_two:
  "pinv {} (\<lambda>_. 0) (sample_pool [Op_Acquire 1 0, Op_Copy 1 0])"
  "p_ptrs (sample_pool [Op_Acquire 1 0, Op_Copy 1 0]) 0 = live_ptr 0"
  "p_ptrs (sample_pool [Op_Acquire 1 0, Op_Copy 1 0]) 1 = live_ptr 0"
  by (rule sample_pool_pinv) code_simp+

text \<open>
  C20: in every program of pointer operations (acquire, copy, move, assign, reset, destroy) on a pool
  of \<open>N\<close> slots no operation faults, and afterwards the count of every slot is exactly the number of
  pointers to its object, a slot is idle exactly when nothing points to it, and every non-null pointer is valid and
  yields its object.
\<close>

theorem pool_counts_exact:
  assumes "N < 2 ^ 32" and "0 < k" and "ptr_legal ops (SparsePool N k a)"
  shows "\<exists>w. ptr_run ops (SparsePool N k a) = Inr w \<and>
    (\<forall>i<cap w. refCount (p_slots w ! i) = card (refs w i) \<and> (state_of (p_set w) i = 0 \<longleftrightarrow> refs w i = {})) \<and>
    (\<forall>l. sp_pool (p_ptrs w l) \<longrightarrow> Ptr_Get l w = Some (who_of (sp_handle (p_ptrs w l))))"
proof -
  obtain w where w: "ptr_run ops (SparsePool N k a) = Inr w" "pinv {} (\<lambda>_. 0) w"
    using ptr_run_ok [OF SparsePool_pinv [OF assms(1,2)] assms(3)] by blast
  note c = pinvD [OF w(2)]
  have "Ptr_Get l w = Some (who_of (sp_handle (p_ptrs w l)))" if "sp_pool (p_ptrs w l)" for l
    using Ptr_Get_live [OF c, of l "sp_handle (p_ptrs w l)"] that by (cases "p_ptrs w l") simp
  then show ?thesis
    using w countedD(5) [OF c] counted_finite [OF c] by (auto simp: pinv_def)
qed

theorem pool_counts_exact_witness:
  "\<exists>w. ptr_run [Op_Acquire 1 (0::nat), Op_Copy 1 0, Op_Acquire 1 2, Op_Move_assign 0 2, Op_Copy_assign 1 0, Op_Reset 1,
      Op_Destroy 0] (SparsePool 2 2 ()) = Inr w \<and>
    (\<forall>i<cap w. refCount (p_slots w ! i) = card (refs w i) \<and> (state_of (p_set w) i = 0 \<longleftrightarrow> refs w i = {})) \<and>
    (\<forall>l. sp_pool (p_ptrs w l) \<longrightarrow> Ptr_Get l w = Some (who_of (sp_handle (p_ptrs w l))))"
  by (rule pool_counts_exact) (simp, simp, code_simp)

text \<open>
  Destroying or resetting one of several pointers to an object runs no callback, and every other pointer
  still yields the same object, whose slot keeps its generation and state.
\<close>

lemma shared_release_keeps:
  assumes p: "pinv {} F w" and "k \<noteq> l" and l: "p_ptrs w l = live_ptr h" and k: "p_ptrs w k = live_ptr h"
  shows "\<exists>w'. Ptr_dtor cb l w = Inr w' \<and> Ptr_Reset cb l w = Inr (False, w') \<and>
    p_set w' = p_set w \<and> p_ptrs w' = (p_ptrs w)(l := null_ptr) \<and> pinv {} F w' \<and>
    Ptr_Get k w' = Some (who_of h)"
proof -
  note c = pinvD [OF p]
  have s: "shared l w" by (rule shared_by [OF c, of l k]) (use assms in auto)
  have v: "IsValid h (p_set w)" using countedD(3) [OF c, of l] l by simp
  note D = drop_shared [OF p _ l s]
  let ?w = "set_ptr l null_ptr (set_count (who_of h) (count w (who_of h) - 1) w)"
  have "Ptr_dtor cb l w = Inr ?w" "Ptr_Reset cb l w = Inr (False, ?w)"
    using D(1) [of cb] l v by (simp_all add: Ptr_dtor_def Ptr_Reset_def Ptr_IsValid_def Pool_IsValid_def)
  moreover have "Ptr_Get k ?w = Some (who_of h)"
    using Ptr_Get_live [OF pinvD [OF D(2)], of k h] k \<open>k \<noteq> l\<close> by simp
  ultimately show ?thesis using D(2) by simp
qed

text \<open>
  Destroying the last pointer to an object returns its slot to the idle state under a new
  generation: the old handle is invalid everywhere, so neither \<^verbatim>\<open>GetObj\<close> nor a pointer can reach the object again.
\<close>

lemma last_release_retires:
  assumes p: "pinv {} (\<lambda>_. 0) w" and l: "p_ptrs w l = live_ptr h" and last: "refs w (who_of h) = {l}"
  shows "\<exists>w'. Ptr_dtor plain_cb l w = Inr w' \<and> pinv {} (\<lambda>_. 0) w' \<and>
    updates (p_set w) (who_of h) (generation_of h + 1, 0) (p_set w') \<and>
    GetObj h w' = None \<and> Pool_MoveToState h n w' = Inr (False, w') \<and> p_ptrs w' = (p_ptrs w)(l := null_ptr)"
proof -
  obtain s where s: "ReleaseRef plain_cb h w = Inr (True, (set_count (who_of h) 0 w)\<lparr>p_set := s\<rparr>)"
    "pinv {l} (\<lambda>_. 0) ((set_count (who_of h) 0 w)\<lparr>p_set := s\<rparr>)" "\<not> IsValid h s"
    "updates (p_set w) (who_of h) (generation_of h + 1, 0) s" and v: "IsValid h (p_set w)"
    using last_pointer_released [OF assms] .
  let ?w = "set_ptr l null_ptr ((set_count (who_of h) 0 w)\<lparr>p_set := s\<rparr>)"
  have "pinv {} (\<lambda>_. 0) ?w"
    by (rule pinv_recount [OF s(2) counted_put_back [OF pinvD [OF s(2)]]]) auto
  moreover have "Ptr_dtor plain_cb l w = Inr ?w"
    using s(1) l v by (simp add: Ptr_dtor_def Ptr_IsValid_def Pool_IsValid_def)
  ultimately show ?thesis using s(3,4) MoveToState_rejects [of h s n]
    by (auto simp: GetObj_def Pool_IsValid_def Pool_MoveToState_def set_ptr_def)
qed

text \<open>
  \<^verbatim>\<open>Reset\<close> of the last pointer returns \<^verbatim>\<open>true\<close>, retires the slot and leaves the pointer's fields as they
  are: the pointer is not null, and from then on it is invalid, yields no object and its destructor does nothing.
\<close>

lemma Reset_last_leaves_dead_pointer:
  assumes p: "pinv {} (\<lambda>_. 0) w" and l: "p_ptrs w l = live_ptr h" and last: "refs w (who_of h) = {l}"
  shows "\<exists>w'. Ptr_Reset plain_cb l w = Inr (True, w') \<and> p_ptrs w' = p_ptrs w \<and> state_of (p_set w') (who_of h) = 0 \<and>
    Ptr_Get l w' = None \<and> Ptr_deref l w' = Inl Null_deref \<and> Ptr_Reset plain_cb l w' = Inr (False, w')"
proof -
  obtain s where s: "ReleaseRef plain_cb h w = Inr (True, (set_count (who_of h) 0 w)\<lparr>p_set := s\<rparr>)"
    "\<not> IsValid h s" "updates (p_set w) (who_of h) (generation_of h + 1, 0) s"
    and v: "IsValid h (p_set w)" and i: "who_of h < cap w"
    using last_pointer_released [OF assms] .
  have "state_of s (who_of h) = 0"
    using updates_obs [OF countedD(1) [OF pinvD [OF p]] s(3) i i] by simp
  then show ?thesis using s l v
    by (simp add: Ptr_Reset_def Ptr_Get_def Ptr_deref_def Ptr_IsValid_def Pool_IsValid_def)
qed

end
