(* ===== verification/Protocol.thy ===== *)
theory Protocol
  imports Server_Prelude
begin

text \<open>
  \<^verbatim>\<open>Network/Common/Config.hpp\<close>, \<^verbatim>\<open>Network/Common/Protocol.hpp\<close> and the severity rule of
  \<^verbatim>\<open>Network/Common/Logger.hpp\<close>: the constants, the packed packet layouts as byte
  sequences (x86-64 is little-endian), and which log call throws.
\<close>

section \<open>Constants\<close>

definition kPort :: u16 where "kPort = 12345"
definition kClientCount :: u32 where "kClientCount = 16"
definition kPoolSize :: u32 where "kPoolSize = 4096"
definition kAcceptCount :: u32 where "kAcceptCount = 1000"
definition kChatPacketSize :: u32 where "kChatPacketSize = 256"
definition kClientBufferSize :: u32 where "kClientBufferSize = 65536"
definition kMagicBufferSize :: u32 where "kMagicBufferSize = 65536"

section \<open>Logging\<close>

datatype LogLevel = kDebug | kInfo | kWarn | kError | kFatal

primrec level_value :: "LogLevel \<Rightarrow> nat" where
  "level_value kDebug = 0"
| "level_value kInfo = 1"
| "level_value kWarn = 2"
| "level_value kError = 3"
| "level_value kFatal = 4"

definition kLogLevel :: LogLevel where
  "kLogLevel = kDebug"

definition escape :: "string \<Rightarrow> string \<Rightarrow> string" where
  "escape colour label = CHR 0x1B # ''['' @ colour @ ''m'' @ label @ CHR 0x1B # ''[0m''"

definition kLevelStrings :: "string list" where
  "kLevelStrings =
     [escape ''36'' ''DEBUG'', escape ''32'' ''INFO '', escape ''33'' ''WARN '', escape ''31'' ''ERROR'', escape ''1;31'' ''FATAL'']"

definition GetLevelStr :: "LogLevel \<Rightarrow> string res" where
  "GetLevelStr level = aget kLevelStrings (level_value level)"

lemma GetLevelStr_in_bounds [simp]: "GetLevelStr level = Inr (kLevelStrings ! level_value level)"
  by (cases level) (simp_all add: GetLevelStr_def kLevelStrings_def)

text \<open>
  The control effect of a log call; of the line it prints only the level string is modelled. \<^verbatim>\<open>LogInfo\<close> always
  returns; \<^verbatim>\<open>LogError\<close> throws \<^verbatim>\<open>std::runtime_error\<close> for a fatal message that is not
  filtered out.
\<close>

definition LogInfo :: "LogLevel \<Rightarrow> unit res" where
  "LogInfo level = (if level_value level < level_value kLogLevel then Inr () else rbind (GetLevelStr level) (\<lambda>_. Inr ()))"

definition LogError :: "LogLevel \<Rightarrow> unit res" where
  "LogError level =
     (if level_value level < level_value kLogLevel then Inr ()
      else rbind (GetLevelStr level) (\<lambda>_. if level = kFatal then Inl Runtime_error else Inr ()))"

lemma LogError_fatal [simp]: "LogError kFatal = Inl Runtime_error"
  by (simp add: LogError_def kLogLevel_def)

lemma LogError_error [simp]: "LogError kError = Inr ()"
  by (simp add: LogError_def)

section \<open>Enumerations\<close>

datatype IO_TYPE = io_None | io_Recv | io_Send | io_Accept | io_Disconnect

datatype C2S_PACKET_ID = c2s_None | c2s_Move | c2s_Chat

datatype S2C_PACKET_ID = s2c_None | s2c_Move | s2c_Chat

primrec c2s_value :: "C2S_PACKET_ID \<Rightarrow> u16" where
  "c2s_value c2s_None = 0"
| "c2s_value c2s_Move = 1"
| "c2s_value c2s_Chat = 2"

primrec s2c_value :: "S2C_PACKET_ID \<Rightarrow> u16" where
  "s2c_value s2c_None = 0"
| "s2c_value s2c_Move = 1"
| "s2c_value s2c_Chat = 2"

text \<open>\<^verbatim>\<open>C2S_PACKET_ID::kCnt\<close>, the size of the handler table.\<close>

definition c2s_count :: nat where "c2s_count = 3"

section \<open>Little-endian integers\<close>

type_synonym byte = u8

fun le_bytes :: "nat \<Rightarrow> nat \<Rightarrow> byte list" where
  "le_bytes 0 v = []"
| "le_bytes (Suc n) v = word_of_nat v # le_bytes n (v div 256)"

fun le_value :: "byte list \<Rightarrow> nat" where
  "le_value [] = 0"
| "le_value (b # bs) = unat b + 256 * le_value bs"

definition u16_bytes :: "u16 \<Rightarrow> byte list" where
  "u16_bytes w = le_bytes 2 (unat w)"

definition u64_bytes :: "u64 \<Rightarrow> byte list" where
  "u64_bytes w = le_bytes 8 (unat w)"

definition u16_at :: "byte list \<Rightarrow> nat \<Rightarrow> u16" where
  "u16_at bs p = word_of_nat (le_value (take 2 (drop p bs)))"

definition u64_at :: "byte list \<Rightarrow> nat \<Rightarrow> u64" where
  "u64_at bs p = word_of_nat (le_value (take 8 (drop p bs)))"

lemma length_le_bytes [simp]: "length (le_bytes n v) = n"
  by (induction n arbitrary: v) auto

lemma length_u16_bytes [simp]: "length (u16_bytes w) = 2"
  by (simp add: u16_bytes_def)

lemma length_u64_bytes [simp]: "length (u64_bytes w) = 8"
  by (simp add: u64_bytes_def)

lemma unat_word_of_nat_u8 [simp]: "unat (word_of_nat v :: u8) = v mod 256"
  by (simp add: unat_of_nat take_bit_eq_mod)

lemma le_value_bytes: "le_value (le_bytes n v) = v mod 256 ^ n"
proof (induction n arbitrary: v)
  case (Suc n)
  then show ?case
    by (simp add: mod_mult2_eq algebra_simps)
qed simp

lemma le_value_less: "le_value bs < 256 ^ length bs"
proof (induction bs)
  case (Cons b bs)
  have "unat b < 256" using unsigned_less [of b] by simp
  with Cons show ?case by simp
qed simp

lemma le_bytes_value: "le_bytes (length bs) (le_value bs) = bs"
proof (induction bs)
  case (Cons b bs)
  have b: "unat b < 256" using unsigned_less [of b] by simp
  have "unat (word_of_nat (unat b + 256 * le_value bs) :: u8) = unat b"
    using b by (simp only: unat_word_of_nat_u8) simp
  then have "(word_of_nat (unat b + 256 * le_value bs) :: u8) = b"
    by (simp only: word_unat_eq_iff)
  with b Cons show ?case by simp
qed simp

lemma u16_at_bytes [simp]: "u16_at (u16_bytes w @ bs) 0 = w"
proof -
  have "unat w < 256 ^ 2" using unsigned_less [of w] by simp
  then show ?thesis by (simp add: u16_at_def u16_bytes_def le_value_bytes)
qed

lemma u64_at_bytes [simp]: "u64_at (u64_bytes w @ bs) 0 = w"
proof -
  have "unat w < 256 ^ 8" using unsigned_less [of w] by simp
  then show ?thesis by (simp add: u64_at_def u64_bytes_def le_value_bytes)
qed

lemma u16_at_shift: "u16_at (xs @ bs) (length xs + p) = u16_at bs p"
  by (simp add: u16_at_def)

lemma u64_at_shift: "u64_at (xs @ bs) (length xs + p) = u64_at bs p"
  by (simp add: u64_at_def)

lemma u16_at_take: "p + 2 \<le> n \<Longrightarrow> u16_at (take n bs) p = u16_at bs p"
  by (simp add: u16_at_def drop_take min_def)

section \<open>Packets\<close>

text \<open>
  \<^verbatim>\<open>PACKET_HEADER\<close> is four bytes, size then id. The structures are packed, so
  a structure is the concatenation of its fields. The two \<^verbatim>\<open>float\<close> coordinates are only
  copied, so they are their four bytes each.
\<close>

definition header_size :: nat where "header_size = 4"

record PACKET_HEADER =
  h_size :: u16
  h_id :: u16

definition header_bytes :: "PACKET_HEADER \<Rightarrow> byte list" where
  "header_bytes h = u16_bytes (h_size h) @ u16_bytes (h_id h)"

definition header_at :: "byte list \<Rightarrow> PACKET_HEADER" where
  "header_at bs = \<lparr>h_size = u16_at bs 0, h_id = u16_at bs 2\<rparr>"

record S2C_MOVE =
  mv_header :: PACKET_HEADER
  mv_sessionHandle :: u64
  mv_x :: "byte list"
  mv_y :: "byte list"

definition S2C_MOVE_bytes :: "S2C_MOVE \<Rightarrow> byte list" where
  "S2C_MOVE_bytes m =
     header_bytes (mv_header m) @ u64_bytes (mv_sessionHandle m) @ mv_x m @ mv_y m"

text \<open>\<^verbatim>\<open>sizeof(S2C_MOVE)\<close>, \<^verbatim>\<open>sizeof(C2S_MOVE)\<close> and \<^verbatim>\<open>sizeof(S2C_CHAT)\<close>.\<close>

definition S2C_MOVE_size :: nat where "S2C_MOVE_size = 4 + 8 + 4 + 4"
definition C2S_MOVE_size :: nat where "C2S_MOVE_size = 4 + 4 + 4"
definition S2C_CHAT_size :: nat where "S2C_CHAT_size = 4 + 8 + 256"

lemma length_header_bytes [simp]: "length (header_bytes h) = 4"
  by (simp add: header_bytes_def)

lemma header_at_bytes [simp]: "header_at (header_bytes h @ bs) = h"
  using u16_at_shift [of "u16_bytes (h_size h)" "u16_bytes (h_id h) @ bs" 0]
  by (simp add: header_at_def header_bytes_def)

lemma header_at_take: "4 \<le> n \<Longrightarrow> header_at (take n bs) = header_at bs"
  by (simp add: header_at_def u16_at_take)

lemma header_at_append: "4 \<le> length bs \<Longrightarrow> header_at (bs @ cs) = header_at bs"
  by (simp add: header_at_def u16_at_def)

end
