(* ===== verification/Magic_Buffer.thy ===== *)
theory Magic_Buffer
  imports Protocol
begin

text \<open>
  \<^verbatim>\<open>Network/Common/MagicBuffer.{hpp,cpp}\<close> and the buffer part of
  \<^verbatim>\<open>Network/Server/OverlappedEx.hpp\<close>. A magic buffer maps the same \<^verbatim>\<open>size_\<close> bytes twice, one
  view directly behind the other, so that a region that runs over the end of the first view
  continues at its beginning. An overlapped structure keeps the window of unread bytes
  between \<^verbatim>\<open>readPos_\<close> and \<^verbatim>\<open>writePos_\<close>.
\<close>

section \<open>The doubly mapped buffer\<close>

record MagicBuffer =
  mb_size :: nat
  mb_mem :: "byte list"

text \<open>
  What the constructor sees of the operating system: the allocation granularity and
  whether the mapping object, the reservation and the two views could be made.
\<close>

record vm_api =
  dwAllocationGranularity :: nat
  CreateFileMapping_ok :: bool
  VirtualAlloc_ok :: bool
  MapView_first_ok :: bool
  MapView_second_ok :: bool

definition MagicBuffer_ctor :: "vm_api \<Rightarrow> nat \<Rightarrow> MagicBuffer res" where
  "MagicBuffer_ctor vm sz =
     rbind (if sz mod dwAllocationGranularity vm \<noteq> 0 then LogError kFatal else Inr ()) (\<lambda>_.
     rbind (if \<not> CreateFileMapping_ok vm then LogError kFatal else Inr ()) (\<lambda>_.
     rbind (if \<not> VirtualAlloc_ok vm then LogError kFatal else Inr ()) (\<lambda>_.
     rbind (if \<not> MapView_first_ok vm then LogError kFatal else Inr ()) (\<lambda>_.
     rbind (if \<not> MapView_second_ok vm then LogError kFatal else Inr ()) (\<lambda>_.
     Inr \<lparr>mb_size = sz, mb_mem = replicate sz 0\<rparr>)))))"

definition GetSize :: "MagicBuffer \<Rightarrow> nat" where
  "GetSize b = mb_size b"

definition MagicBuffer_Clear :: "MagicBuffer \<Rightarrow> MagicBuffer" where
  "MagicBuffer_Clear b = b\<lparr>mb_mem := replicate (mb_size b) 0\<rparr>"

text \<open>
  Reading and writing \<open>n\<close> bytes at an offset from \<^verbatim>\<open>GetBuffer()\<close>. Both views together are
  \<open>2 * size\<close> bytes; the byte at offset \<open>a\<close> is byte \<open>a mod size\<close> of the memory object.
\<close>

definition mb_read :: "nat \<Rightarrow> nat \<Rightarrow> MagicBuffer \<Rightarrow> byte list res" where
  "mb_read a n b =
     (if a + n \<le> 2 * mb_size b
      then Inr (map (\<lambda>i. mb_mem b ! (i mod mb_size b)) [a..<a + n])
      else Inl Out_of_bounds)"

fun put_bytes :: "nat \<Rightarrow> nat \<Rightarrow> byte list \<Rightarrow> byte list \<Rightarrow> byte list" where
  "put_bytes S a [] mem = mem"
| "put_bytes S a (x # xs) mem = put_bytes S (Suc a) xs (mem[a mod S := x])"

definition mb_write :: "nat \<Rightarrow> byte list \<Rightarrow> MagicBuffer \<Rightarrow> MagicBuffer res" where
  "mb_write a xs b =
     (if a + length xs \<le> 2 * mb_size b
      then Inr (b\<lparr>mb_mem := put_bytes (mb_size b) a xs (mb_mem b)\<rparr>)
      else Inl Out_of_bounds)"

definition mb_wf :: "MagicBuffer \<Rightarrow> bool" where
  "mb_wf b \<longleftrightarrow> length (mb_mem b) = mb_size b \<and> 4 \<le> mb_size b \<and> mb_size b < 2 ^ 32"

lemma length_put_bytes [simp]: "length (put_bytes S a xs mem) = length mem"
  by (induction xs arbitrary: a mem) auto

lemma mod_neq_near:
  assumes "0 < d" "d < (S::nat)"
  shows "(a + d) mod S \<noteq> a mod S"
proof
  assume "(a + d) mod S = a mod S"
  then have "S dvd (a + d) - a" by (metis mod_eq_dvd_iff_nat le_add1)
  then show False using assms by (auto dest: dvd_imp_le)
qed

text \<open>A byte is what the last write that covers it stored there; other bytes are unchanged.\<close>

lemma put_bytes_other:
  "(\<And>k. k < length xs \<Longrightarrow> j \<noteq> (a + k) mod S) \<Longrightarrow> put_bytes S a xs mem ! j = mem ! j"
proof (induction xs arbitrary: a mem)
  case (Cons x xs)
  have j: "j \<noteq> a mod S" using Cons.prems [of 0] by simp
  have "j \<noteq> (Suc a + i) mod S" if "i < length xs" for i
    using Cons.prems [of "Suc i"] that by simp
  then show ?case using Cons.IH [of "Suc a" "mem[a mod S := x]"] j by simp
qed simp

lemma put_bytes_nth:
  assumes "length mem = S" "length xs \<le> S" "k < length xs"
  shows "put_bytes S a xs mem ! ((a + k) mod S) = xs ! k"
  using assms
proof (induction xs arbitrary: a mem k)
  case (Cons x xs)
  show ?case
  proof (cases k)
    case 0
    have "(a mod S) \<noteq> (Suc a + i) mod S" if "i < length xs" for i
      using mod_neq_near [of "Suc i" S a] that Cons.prems by simp
    moreover have "a mod S < length mem" using Cons.prems by simp
    ultimately show ?thesis using put_bytes_other [of xs "a mod S" "Suc a" S] 0 by simp
  next
    case (Suc m)
    then show ?thesis using Cons.IH [of "mem[a mod S := x]" m "Suc a"] Cons.prems by simp
  qed
qed simp

section \<open>The overlapped structure and its window\<close>

text \<open>
  The fields of \<^verbatim>\<open>OverlappedEx\<close> that concern the buffer; \<^verbatim>\<open>size_t\<close> positions are 64-bit words,
  \<^verbatim>\<open>wsaBuf_.len\<close> is a 32-bit \<^verbatim>\<open>ULONG\<close> and \<^verbatim>\<open>wsaBuf_.buf\<close> an offset from \<^verbatim>\<open>GetBuffer()\<close>.
  The \<^verbatim>\<open>sessionPtr_\<close> field lives in the pointer store of the pool.
\<close>

record OverlappedEx =
  ioType :: IO_TYPE
  wsa_buf :: u64
  wsa_len :: u32
  ov_buffer :: MagicBuffer
  readPos :: u64
  writePos :: u64

definition ov_size :: "OverlappedEx \<Rightarrow> u64" where
  "ov_size ov = word_of_nat (GetSize (ov_buffer ov))"

definition OverlappedEx_ctor :: "MagicBuffer \<Rightarrow> OverlappedEx" where
  "OverlappedEx_ctor b = \<lparr>ioType = io_None, wsa_buf = 0, wsa_len = 0, ov_buffer = b,
     readPos = 0, writePos = 0\<rparr>"

text \<open>\<^verbatim>\<open>OverlappedEx::Reset\<close>, but for the release of \<^verbatim>\<open>sessionPtr_\<close>.\<close>

definition OverlappedEx_Reset :: "OverlappedEx \<Rightarrow> OverlappedEx" where
  "OverlappedEx_Reset ov = ov\<lparr>ioType := io_None, wsa_buf := 0, wsa_len := 0,
     ov_buffer := MagicBuffer_Clear (ov_buffer ov), readPos := 0, writePos := 0\<rparr>"

text \<open>
  Well-formedness: the window is not longer than the buffer and starts in the first view,
  so it never leaves the two views.
\<close>

definition ov_wf :: "OverlappedEx \<Rightarrow> bool" where
  "ov_wf ov \<longleftrightarrow>
     mb_wf (ov_buffer ov) \<and>
     unat (readPos ov) < mb_size (ov_buffer ov) \<and>
     unat (readPos ov) \<le> unat (writePos ov) \<and>
     unat (writePos ov) \<le> unat (readPos ov) + mb_size (ov_buffer ov)"

text \<open>The unread bytes: what a read of the whole window returns.\<close>

definition window :: "OverlappedEx \<Rightarrow> byte list" where
  "window ov =
     map (\<lambda>i. mb_mem (ov_buffer ov) ! (i mod mb_size (ov_buffer ov)))
       [unat (readPos ov)..<unat (writePos ov)]"

lemma length_window: "length (window ov) = unat (writePos ov) - unat (readPos ov)"
  by (simp add: window_def)

lemma window_nth:
  "k < length (window ov) \<Longrightarrow>
   window ov ! k = mb_mem (ov_buffer ov) ! ((unat (readPos ov) + k) mod mb_size (ov_buffer ov))"
  by (simp add: window_def)

lemma ov_wfD:
  assumes "ov_wf ov"
  shows "mb_wf (ov_buffer ov)" and "length (mb_mem (ov_buffer ov)) = mb_size (ov_buffer ov)"
    and "4 \<le> mb_size (ov_buffer ov)" and "mb_size (ov_buffer ov) < 2 ^ 32"
    and "unat (readPos ov) < mb_size (ov_buffer ov)"
    and "unat (readPos ov) \<le> unat (writePos ov)"
    and "unat (writePos ov) = unat (readPos ov) + length (window ov)"
    and "length (window ov) \<le> mb_size (ov_buffer ov)"
    and "unat (ov_size ov) = mb_size (ov_buffer ov)"
  using assms
  by (auto simp: ov_wf_def mb_wf_def length_window ov_size_def GetSize_def unat_of_nat take_bit_nat_eq_self)

text \<open>The unsigned differences of the code are exact on well-formed structures.\<close>

lemma available_data: "ov_wf ov \<Longrightarrow> unat (writePos ov - readPos ov) = length (window ov)"
  by (simp add: unat_sub word_le_nat_alt ov_wf_def length_window)

lemma unat_plus_small64:
  "unat (a :: u64) + unat b < 2 ^ 64 \<Longrightarrow> unat (a + b) = unat a + unat b"
  by (simp add: unat_word_ariths)

lemma free_space:
  assumes "ov_wf ov"
  shows "unat (ov_size ov - writePos ov + readPos ov) = mb_size (ov_buffer ov) - length (window ov)"
proof -
  note D = ov_wfD [OF assms]
  have le: "writePos ov - readPos ov \<le> ov_size ov"
    using D available_data [OF assms] by (simp add: word_le_nat_alt)
  have eq: "ov_size ov - writePos ov + readPos ov = ov_size ov - (writePos ov - readPos ov)" by simp
  show ?thesis unfolding eq using unat_sub [OF le] D(9) available_data [OF assms] by simp
qed

section \<open>The window as a byte queue\<close>

text \<open>
  Storing bytes behind the window (what \<^verbatim>\<open>memcpy\<close> in \<^verbatim>\<open>SendPacket\<close> does, and the kernel for a
  posted receive) and then advancing \<^verbatim>\<open>writePos_\<close>.
\<close>

definition ov_store :: "byte list \<Rightarrow> OverlappedEx \<Rightarrow> OverlappedEx res" where
  "ov_store xs ov =
     rbind (mb_write (unat (writePos ov)) xs (ov_buffer ov)) (\<lambda>b. Inr (ov\<lparr>ov_buffer := b\<rparr>))"

definition ov_advance_write :: "nat \<Rightarrow> OverlappedEx \<Rightarrow> OverlappedEx" where
  "ov_advance_write n ov = ov\<lparr>writePos := writePos ov + word_of_nat n\<rparr>"

definition ov_advance_read :: "nat \<Rightarrow> OverlappedEx \<Rightarrow> OverlappedEx" where
  "ov_advance_read n ov = ov\<lparr>readPos := readPos ov + word_of_nat n\<rparr>"

text \<open>Moving both positions back by the size once the window starts in the second view.\<close>

definition ov_rewind :: "OverlappedEx \<Rightarrow> OverlappedEx" where
  "ov_rewind ov =
     (if readPos ov \<ge> ov_size ov
      then ov\<lparr>readPos := readPos ov - ov_size ov, writePos := writePos ov - ov_size ov\<rparr>
      else ov)"

lemma unat_of_nat_u64 [simp]: "n < 2 ^ 64 \<Longrightarrow> unat (word_of_nat n :: u64) = n"
  by (simp add: unat_of_nat take_bit_nat_eq_self)

lemma window_store:
  assumes wf: "ov_wf ov" and fits: "length (window ov) + length xs \<le> mb_size (ov_buffer ov)"
  obtains ov' where "ov_store xs ov = Inr ov'" "ov_wf (ov_advance_write (length xs) ov')"
    "window (ov_advance_write (length xs) ov') = window ov @ xs"
    "readPos ov' = readPos ov" "writePos ov' = writePos ov"
    "mb_size (ov_buffer ov') = mb_size (ov_buffer ov)"
    "ioType ov' = ioType ov" "wsa_buf ov' = wsa_buf ov" "wsa_len ov' = wsa_len ov"
proof -
  note D = ov_wfD [OF wf]
  let ?b = "ov_buffer ov" and ?r = "unat (readPos ov)" and ?w = "unat (writePos ov)"
  let ?S = "mb_size ?b" and ?mem = "mb_mem ?b"
  let ?mem' = "put_bytes ?S ?w xs ?mem"
  let ?ov' = "ov\<lparr>ov_buffer := ?b\<lparr>mb_mem := ?mem'\<rparr>\<rparr>"
  let ?ov'' = "ov_advance_write (length xs) ?ov'"
  have S: "0 < ?S" "length xs \<le> ?S" using D fits by linarith+
  have st: "ov_store xs ov = Inr ?ov'"
    using D fits by (simp add: ov_store_def mb_write_def)
  have w: "unat (writePos ?ov'') = ?w + length xs"
    using D fits by (simp add: ov_advance_write_def unat_plus_small64)
  have wf': "ov_wf ?ov''"
    using D fits w by (auto simp: ov_wf_def mb_wf_def ov_advance_write_def)
  have "window ?ov'' = window ov @ xs"
  proof (rule nth_equalityI)
    show len: "length (window ?ov'') = length (window ov @ xs)"
      using length_window [of ?ov''] w D(7) by (simp add: ov_advance_write_def)
    fix k assume kl: "k < length (window ?ov'')"
    then have k: "k < length (window ov) + length xs" using len by simp
    have nth: "window ?ov'' ! k = ?mem' ! ((?r + k) mod ?S)"
      using window_nth [OF kl] by (simp add: ov_advance_write_def)
    show "window ?ov'' ! k = (window ov @ xs) ! k"
    proof (cases "k < length (window ov)")
      case True
      have "(?r + k) mod ?S \<noteq> (?w + i) mod ?S" if "i < length xs" for i
      proof -
        have "?w + i = (?r + k) + (length (window ov) - k + i)" using D(7) True by simp
        moreover have "0 < length (window ov) - k + i" "length (window ov) - k + i < ?S"
          using that True fits by linarith+
        ultimately show ?thesis using mod_neq_near by metis
      qed
      then have "?mem' ! ((?r + k) mod ?S) = ?mem ! ((?r + k) mod ?S)"
        using put_bytes_other by blast
      then show ?thesis using nth True window_nth [OF True] by (simp add: nth_append)
    next
      case False
      then obtain i where i: "k = length (window ov) + i" "i < length xs"
        using k by (metis add_less_cancel_left le_Suc_ex not_less)
      then have "?mem' ! ((?r + k) mod ?S) = xs ! i"
        using put_bytes_nth [OF D(2) S(2) i(2), of ?w] D(7) by (simp add: add.assoc)
      then show ?thesis using nth i by (simp add: nth_append)
    qed
  qed
  then show ?thesis using that [OF st wf'] by simp
qed

text \<open>
  Between the rewinds \<^verbatim>\<open>OnRead\<close> lets \<^verbatim>\<open>readPos_\<close> run into the second view; the invariant of
  that phase is the same but for the bound on \<^verbatim>\<open>readPos_\<close>.
\<close>

definition ov_loose :: "OverlappedEx \<Rightarrow> bool" where
  "ov_loose ov \<longleftrightarrow>
     mb_wf (ov_buffer ov) \<and>
     unat (readPos ov) \<le> unat (writePos ov) \<and>
     unat (writePos ov) < 2 * mb_size (ov_buffer ov) \<and>
     unat (writePos ov) \<le> unat (readPos ov) + mb_size (ov_buffer ov)"

lemma ov_wf_loose: "ov_wf ov \<Longrightarrow> ov_loose ov"
  by (auto simp: ov_wf_def ov_loose_def)

lemma ov_looseD:
  assumes "ov_loose ov"
  shows "length (mb_mem (ov_buffer ov)) = mb_size (ov_buffer ov)"
    and "4 \<le> mb_size (ov_buffer ov)" and "mb_size (ov_buffer ov) < 2 ^ 32"
    and "unat (writePos ov) = unat (readPos ov) + length (window ov)"
    and "unat (writePos ov) < 2 * mb_size (ov_buffer ov)"
    and "length (window ov) \<le> mb_size (ov_buffer ov)"
    and "unat (ov_size ov) = mb_size (ov_buffer ov)"
    and "unat (writePos ov - readPos ov) = length (window ov)"
  using assms
  by (auto simp: ov_loose_def mb_wf_def length_window ov_size_def GetSize_def unat_sub word_le_nat_alt
      unat_of_nat take_bit_nat_eq_self)

lemma loose_advance_read:
  assumes "ov_loose ov" and n: "n \<le> length (window ov)"
  shows "ov_loose (ov_advance_read n ov)"
    and "window (ov_advance_read n ov) = drop n (window ov)"
    and "unat (readPos (ov_advance_read n ov)) = unat (readPos ov) + n"
proof -
  note D = ov_looseD [OF assms(1)]
  show r: "unat (readPos (ov_advance_read n ov)) = unat (readPos ov) + n"
    using D n by (simp add: ov_advance_read_def unat_plus_small64)
  show "ov_loose (ov_advance_read n ov)"
    using assms(1) r D(4) n by (auto simp: ov_loose_def ov_advance_read_def)
  have "drop n [unat (readPos ov)..<unat (writePos ov)] = [unat (readPos ov) + n..<unat (writePos ov)]"
    by (simp add: add.commute)
  then show "window (ov_advance_read n ov) = drop n (window ov)"
    using r by (simp add: window_def drop_map ov_advance_read_def)
qed

lemma rewind_restores:
  assumes "ov_loose ov"
  shows "ov_wf (ov_rewind ov)" and "window (ov_rewind ov) = window ov"
    and "mb_size (ov_buffer (ov_rewind ov)) = mb_size (ov_buffer ov)"
proof -
  note D = ov_looseD [OF assms]
  let ?S = "mb_size (ov_buffer ov)"
  show "mb_size (ov_buffer (ov_rewind ov)) = ?S" by (simp add: ov_rewind_def)
  show "ov_wf (ov_rewind ov) " "window (ov_rewind ov) = window ov"
  proof (atomize (full), cases "ov_size ov \<le> readPos ov")
    case True
    then have le: "?S \<le> unat (readPos ov)" "ov_size ov \<le> writePos ov"
      using D(4,7) by (auto simp: word_le_nat_alt)
    then have u: "unat (readPos ov - ov_size ov) = unat (readPos ov) - ?S"
      "unat (writePos ov - ov_size ov) = unat (writePos ov) - ?S"
      using True D(7) by (simp_all add: unat_sub)
    have "[unat (readPos ov)..<unat (writePos ov)] =
        map (\<lambda>i. i + ?S) [unat (readPos ov) - ?S..<unat (writePos ov) - ?S]"
      using le(1) D(4) by (intro nth_equalityI) simp_all
    then have "window (ov_rewind ov) = window ov"
      using True u by (simp add: window_def ov_rewind_def o_def)
    moreover have "ov_wf (ov_rewind ov)"
      using True u le(1) assms D(4-6)
      by (auto simp: ov_wf_def ov_loose_def ov_rewind_def)
    ultimately show "ov_wf (ov_rewind ov) \<and> window (ov_rewind ov) = window ov" by simp
  next
    case False
    then show "ov_wf (ov_rewind ov) \<and> window (ov_rewind ov) = window ov"
      using assms D(7) by (auto simp: ov_wf_def ov_loose_def ov_rewind_def word_le_nat_alt)
  qed
qed

end
