(* ===== verification/Session_Stream.thy ===== *)
theory Session_Stream
  imports Magic_Buffer
begin

text \<open>
  The byte-stream half of \<^verbatim>\<open>Network/Server/Session.cpp\<close>: how \<^verbatim>\<open>OnRead\<close> cuts the received
  bytes into packets, how \<^verbatim>\<open>SendPacket\<close> and \<^verbatim>\<open>OnWrite\<close> move bytes through the write buffer,
  and which regions \<^verbatim>\<open>RegisterRead\<close> and \<^verbatim>\<open>RegisterWriteInternal\<close> hand to the kernel. The
  handler that is called for each packet is a parameter here; the server instantiates it
  with \<^verbatim>\<open>PacketHandler::Execute\<close>.
\<close>

section \<open>Reading\<close>

text \<open>
  \<open>exec b pos w\<close> handles the packet whose header is at offset \<open>pos\<close> of the buffer \<open>b\<close>.
  Handlers get the session and a reference into its read buffer, and none of them writes
  \<^verbatim>\<open>readOv_\<close>: the structure is threaded beside the state \<open>w\<close> they change. The Boolean is
  false where the code returns false.
\<close>

type_synonym 'w handler = "MagicBuffer \<Rightarrow> nat \<Rightarrow> 'w \<Rightarrow> (bool \<times> 'w) res"

lemma OnRead_decrease:
  assumes "\<not> writePos ov - readPos ov < ucast (n :: u16)" "4 \<le> unat n"
  shows "unat (writePos ov - readPos (ov_advance_read (unat n) ov)) < unat (writePos ov - readPos ov)"
proof -
  let ?d = "writePos ov - readPos ov"
  have le: "(ucast n :: u64) \<le> ?d" using assms(1) by simp
  have un: "unat (ucast n :: u64) = unat n" by simp
  have eq: "writePos ov - readPos (ov_advance_read (unat n) ov) = ?d - ucast n"
    by (simp add: ov_advance_read_def)
  show ?thesis unfolding eq using unat_sub [OF le] un assms(2) le by (simp add: word_le_nat_alt)
qed

function OnRead_loop :: "'w handler \<Rightarrow> OverlappedEx \<Rightarrow> 'w \<Rightarrow> (bool \<times> OverlappedEx \<times> 'w) res" where
  "OnRead_loop exec ov w =
     (let availableData = writePos ov - readPos ov in
      if availableData < word_of_nat header_size then Inr (True, ov, w)
      else
        rbind (mb_read (unat (readPos ov)) header_size (ov_buffer ov)) (\<lambda>hb.
        let n = h_size (header_at hb) in
        if unat n < header_size \<or> unat n \<ge> GetSize (ov_buffer ov) then Inr (False, ov, w)
        else if availableData < ucast n then Inr (True, ov, w)
        else
          rbind (exec (ov_buffer ov) (unat (readPos ov)) w) (\<lambda>r.
          if \<not> fst r then Inr (False, ov, snd r)
          else OnRead_loop exec (ov_advance_read (unat n) ov) (snd r))))"
  by pat_completeness auto
termination
proof (relation "measure (\<lambda>(e, ov, w). unat (writePos ov - readPos ov))")
  fix exec :: "'w handler" and ov :: OverlappedEx and w d hb n r
  assume "d = writePos ov - readPos ov" "n = h_size (header_at hb)"
    "\<not> (unat n < header_size \<or> GetSize (ov_buffer ov) \<le> unat n)" "\<not> d < ucast n"
  then show "((exec, ov_advance_read (unat n) ov, snd r), exec, ov, w) \<in>
      measure (\<lambda>(e, ov, w). unat (writePos ov - readPos ov))"
    using OnRead_decrease [of ov n]
    by (simp add: ov_advance_read_def header_size_def)
qed simp

declare OnRead_loop.simps [simp del]

text \<open>
  \<^verbatim>\<open>OnRead\<close> up to the next \<^verbatim>\<open>RegisterRead\<close>: account for the received bytes, handle the
  complete packets, rewind.
\<close>

definition OnRead_scan :: "'w handler \<Rightarrow> nat \<Rightarrow> OverlappedEx \<Rightarrow> 'w \<Rightarrow> (bool \<times> OverlappedEx \<times> 'w) res" where
  "OnRead_scan exec bytesTransferred ov w =
     rbind (OnRead_loop exec (ov_advance_write bytesTransferred ov) w) (\<lambda>(ok, ov, w).
     Inr (ok, if ok then ov_rewind ov else ov, w))"

text \<open>
  \<^verbatim>\<open>RegisterRead\<close> up to the \<^verbatim>\<open>WSARecv\<close> call: false where the buffer is full.
\<close>

definition RegisterRead_prepare :: "OverlappedEx \<Rightarrow> bool \<times> OverlappedEx" where
  "RegisterRead_prepare ov =
     (let ov = ov\<lparr>wsa_len := ucast (ov_size ov - writePos ov + readPos ov)\<rparr> in
      if wsa_len ov = 0 then (False, ov)
      else (True, ov\<lparr>ioType := io_Recv, wsa_buf := writePos ov\<rparr>))"

section \<open>Writing\<close>

text \<open>
  \<open>obj\<close> is the object \<^verbatim>\<open>header\<close> refers to, of which \<^verbatim>\<open>header.size\<close> bytes are copied; copying
  more bytes than the object has is out of bounds.
\<close>

definition SendPacket_store :: "byte list \<Rightarrow> OverlappedEx \<Rightarrow> (bool \<times> OverlappedEx) res" where
  "SendPacket_store obj ov =
     (if length obj < header_size then Inl Out_of_bounds
      else
        let n = h_size (header_at obj) in
        if writePos ov - readPos ov + ucast n > ov_size ov then Inr (False, ov)
        else if length obj < unat n then Inl Out_of_bounds
        else
          rbind (ov_store (take (unat n) obj) ov) (\<lambda>ov.
          Inr (True, ov_advance_write (unat n) ov)))"

definition RegisterWrite_prepare :: "OverlappedEx \<Rightarrow> OverlappedEx" where
  "RegisterWrite_prepare ov =
     ov\<lparr>ioType := io_Send, wsa_buf := readPos ov, wsa_len := ucast (writePos ov - readPos ov)\<rparr>"

definition OnWrite_advance :: "nat \<Rightarrow> OverlappedEx \<Rightarrow> OverlappedEx" where
  "OnWrite_advance bytesTransferred ov = ov_rewind (ov_advance_read bytesTransferred ov)"

section \<open>The framing specification\<close>

text \<open>
  What a stream of bytes means, independent of buffers: \<open>frames S bs\<close> is the list of
  complete packets at the front of \<open>bs\<close>, the bytes behind them, and false if those start
  with a header whose size field is outside \<open>4 \<le> size < S\<close>.
\<close>

definition packet_size :: "byte list \<Rightarrow> nat" where
  "packet_size bs = unat (h_size (header_at bs))"

function frames :: "nat \<Rightarrow> byte list \<Rightarrow> byte list list \<times> byte list \<times> bool" where
  "frames S bs =
     (if length bs < 4 then ([], bs, True)
      else if packet_size bs < 4 \<or> S \<le> packet_size bs then ([], bs, False)
      else if length bs < packet_size bs then ([], bs, True)
      else case frames S (drop (packet_size bs) bs) of (ps, rest, ok) \<Rightarrow>
        (take (packet_size bs) bs # ps, rest, ok))"
  by pat_completeness auto
termination
  by (relation "measure (\<lambda>(S, bs). length bs)") auto

declare frames.simps [simp del]

text \<open>Handling packets one after the other, at consecutive offsets, until one fails.\<close>

fun handle_all :: "'w handler \<Rightarrow> MagicBuffer \<Rightarrow> nat \<Rightarrow> byte list list \<Rightarrow> 'w \<Rightarrow> (bool \<times> nat \<times> 'w) res" where
  "handle_all exec b pos [] w = Inr (True, pos, w)"
| "handle_all exec b pos (p # ps) w =
     rbind (exec b pos w) (\<lambda>r.
     if fst r then handle_all exec b (pos + length p) ps (snd r) else Inr (False, pos, snd r))"

text \<open>
  The kernel side of a receive: it stores a chunk behind the window and reports its
  length. \<open>deliver\<close> is a sequence of completed receives.
\<close>

definition receive_chunk :: "'w handler \<Rightarrow> byte list \<Rightarrow> OverlappedEx \<Rightarrow> 'w \<Rightarrow> (bool \<times> OverlappedEx \<times> 'w) res" where
  "receive_chunk exec chunk ov w =
     rbind (ov_store chunk ov) (\<lambda>ov. OnRead_scan exec (length chunk) ov w)"

fun deliver :: "'w handler \<Rightarrow> byte list list \<Rightarrow> OverlappedEx \<Rightarrow> 'w \<Rightarrow> (bool \<times> OverlappedEx \<times> 'w) res" where
  "deliver exec [] ov w = Inr (True, ov, w)"
| "deliver exec (c # cs) ov w =
     rbind (receive_chunk exec c ov w) (\<lambda>(ok, ov, w).
     if ok then deliver exec cs ov w else Inr (False, ov, w))"

text \<open>A handler that accepts every packet and records its bytes.\<close>

definition log_packet :: "byte list list handler" where
  "log_packet b pos log =
     rbind (mb_read pos header_size b) (\<lambda>hb.
     rbind (mb_read pos (packet_size hb) b) (\<lambda>p. Inr (True, log @ [p])))"

text \<open>
  The chunks a kernel may deliver: never more bytes than the receive was posted with,
  which is the space \<open>RegisterRead_prepare\<close> computes.
\<close>

fun admissible :: "nat \<Rightarrow> byte list \<Rightarrow> byte list list \<Rightarrow> bool" where
  "admissible S pend [] = True"
| "admissible S pend (c # cs) =
     (length pend + length c \<le> S \<and>
      (case frames S (pend @ c) of (ps, rest, ok) \<Rightarrow> ok \<longrightarrow> admissible S rest cs))"

text \<open>
  The life of a write buffer: packets accepted by \<^verbatim>\<open>SendPacket\<close> and completed writes, of
  which the kernel reports how many of the posted bytes it took. The trace keeps what was
  accepted and what the kernel took.
\<close>

datatype write_event = Packet "byte list" | Written nat

record write_trace =
  wt_ov :: OverlappedEx
  wt_accepted :: "byte list"
  wt_taken :: "byte list"

fun write_step :: "write_event \<Rightarrow> write_trace \<Rightarrow> write_trace res" where
  "write_step (Packet obj) t =
     rbind (SendPacket_store obj (wt_ov t)) (\<lambda>(ok, ov).
     Inr (t\<lparr>wt_ov := ov, wt_accepted := wt_accepted t @ (if ok then take (packet_size obj) obj else [])\<rparr>))"
| "write_step (Written n) t =
     rbind (mb_read (unat (readPos (wt_ov t))) n (ov_buffer (wt_ov t))) (\<lambda>bs.
     Inr (t\<lparr>wt_ov := OnWrite_advance n (wt_ov t), wt_taken := wt_taken t @ bs\<rparr>))"

fun write_run :: "write_event list \<Rightarrow> write_trace \<Rightarrow> write_trace res" where
  "write_run [] t = Inr t"
| "write_run (e # es) t = rbind (write_step e t) (write_run es)"

text \<open>Objects at least as long as their size field says; the kernel takes no more than there is.\<close>

fun write_legal :: "write_event list \<Rightarrow> write_trace \<Rightarrow> bool" where
  "write_legal [] t = True"
| "write_legal (e # es) t =
     ((case e of Packet obj \<Rightarrow> 4 \<le> length obj \<and> packet_size obj \<le> length obj
       | Written n \<Rightarrow> n \<le> length (window (wt_ov t))) \<and>
      (case write_step e t of Inl _ \<Rightarrow> True | Inr t' \<Rightarrow> write_legal es t'))"

section \<open>Laws of framing\<close>

lemma packet_size_append: "4 \<le> length bs \<Longrightarrow> packet_size (bs @ cs) = packet_size bs"
  by (simp add: packet_size_def header_at_append)

lemma packet_size_take: "4 \<le> n \<Longrightarrow> packet_size (take n bs) = packet_size bs"
  by (simp add: packet_size_def header_at_take)

text \<open>Nothing is lost or invented: the packets and the rest are the stream.\<close>

lemma frames_concat: "frames S bs = (ps, rest, ok) \<Longrightarrow> concat ps @ rest = bs"
proof (induction S bs arbitrary: ps rest ok rule: frames.induct)
  case (1 S bs)
  show ?case
  proof (cases "length bs < 4 \<or> packet_size bs < 4 \<or> S \<le> packet_size bs \<or> length bs < packet_size bs")
    case True
    then show ?thesis using "1.prems" by (subst (asm) frames.simps) (auto split: if_splits)
  next
    case False
    obtain qs r k where f: "frames S (drop (packet_size bs) bs) = (qs, r, k)" by (metis prod_cases3)
    then have "concat qs @ r = drop (packet_size bs) bs" using "1.IH" False by auto
    moreover have "ps = take (packet_size bs) bs # qs" "rest = r"
      using "1.prems" False f by (auto simp: frames.simps [of S bs])
    ultimately show ?thesis by simp
  qed
qed

text \<open>Every packet that is handed out is complete and has a legal size.\<close>

lemma frames_packets:
  "frames S bs = (ps, rest, ok) \<Longrightarrow> p \<in> set ps \<Longrightarrow> packet_size p = length p \<and> 4 \<le> length p \<and> length p < S"
proof (induction S bs arbitrary: ps rest ok rule: frames.induct)
  case (1 S bs)
  show ?case
  proof (cases "length bs < 4 \<or> packet_size bs < 4 \<or> S \<le> packet_size bs \<or> length bs < packet_size bs")
    case True
    then show ?thesis using "1.prems" by (subst (asm) frames.simps) (auto split: if_splits)
  next
    case False
    obtain qs r k where f: "frames S (drop (packet_size bs) bs) = (qs, r, k)" by (metis prod_cases3)
    have "ps = take (packet_size bs) bs # qs"
      using "1.prems" False f by (auto simp: frames.simps [of S bs])
    then show ?thesis
      using "1.IH" [of qs r k] False f "1.prems"(2) packet_size_take [of "packet_size bs" bs] by auto
  qed
qed

text \<open>The bytes left over never fill the buffer.\<close>

lemma frames_rest_short:
  "frames S bs = (ps, rest, True) \<Longrightarrow> 4 \<le> S \<Longrightarrow> length rest < S"
proof (induction S bs arbitrary: ps rest rule: frames.induct)
  case (1 S bs)
  show ?case
  proof (cases "length bs < 4 \<or> packet_size bs < 4 \<or> S \<le> packet_size bs \<or> length bs < packet_size bs")
    case True
    then show ?thesis using "1.prems" by (subst (asm) frames.simps) (auto split: if_splits)
  next
    case False
    obtain qs r k where f: "frames S (drop (packet_size bs) bs) = (qs, r, k)" by (metis prod_cases3)
    have "rest = r" "k" using "1.prems" False f by (auto simp: frames.simps [of S bs])
    then show ?thesis using "1.IH" [of qs r] False f "1.prems"(2) by auto
  qed
qed

text \<open>Framing can be interrupted anywhere and resumed with the rest.\<close>

lemma frames_append:
  "frames S (a @ b) =
     (case frames S a of (ps, rest, ok) \<Rightarrow>
        if ok then (case frames S (rest @ b) of (qs, rest', ok') \<Rightarrow> (ps @ qs, rest', ok'))
        else (ps, rest @ b, False))"
proof (induction S a rule: frames.induct)
  case (1 S a)
  let ?n = "packet_size a"
  consider "length a < 4 \<or> (\<not> (?n < 4 \<or> S \<le> ?n) \<and> length a < ?n)"
    | "4 \<le> length a" "?n < 4 \<or> S \<le> ?n"
    | "4 \<le> length a" "\<not> (?n < 4 \<or> S \<le> ?n)" "?n \<le> length a" by linarith
  then show ?case
  proof cases
    case 1
    then have "frames S a = ([], a, True)" by (subst frames.simps) auto
    then show ?thesis by (auto split: prod.splits)
  next
    case 2
    then have "frames S a = ([], a, False)" "frames S (a @ b) = ([], a @ b, False)"
      by (subst frames.simps; simp add: packet_size_append; fail)+
    then show ?thesis by simp
  next
    case 3
    obtain ps rest ok where f: "frames S (drop ?n a) = (ps, rest, ok)" by (metis prod_cases3)
    then have fa: "frames S a = (take ?n a # ps, rest, ok)"
      using 3 by (subst frames.simps) simp
    have fab: "frames S (a @ b) = (case frames S (drop ?n a @ b) of (qs, r, k) \<Rightarrow> (take ?n a # qs, r, k))"
      using 3 by (subst frames.simps) (simp add: packet_size_append)
    show ?thesis
      unfolding fab fa using "1.IH" f 3 by (auto split: prod.splits if_splits)
  qed
qed

text \<open>Framing the concatenation of legal packets gives these packets back.\<close>

lemma frames_of_packets:
  assumes "\<forall>p\<in>set ps. packet_size p = length p \<and> 4 \<le> length p \<and> length p < S"
  shows "frames S (concat ps) = (ps, [], True)"
  using assms
proof (induction ps)
  case Nil
  then show ?case by (simp add: frames.simps)
next
  case (Cons p ps)
  then have "frames S p = ([p], [], True)"
    by (simp add: frames.simps)
  then show ?case using Cons frames_append [of S p "concat ps"] by simp
qed

section \<open>The loop implements the specification\<close>

text \<open>A read inside the window is a slice of it.\<close>

lemma mb_read_window:
  assumes "ov_loose ov" "d + n \<le> length (window ov)"
  shows "mb_read (unat (readPos ov) + d) n (ov_buffer ov) = Inr (take n (drop d (window ov)))"
proof -
  note D = ov_looseD [OF assms(1)]
  have "map (\<lambda>i. mb_mem (ov_buffer ov) ! (i mod mb_size (ov_buffer ov)))
      [unat (readPos ov) + d..<unat (readPos ov) + d + n] = take n (drop d (window ov))"
    using assms(2) by (intro nth_equalityI) (simp_all add: window_nth add.assoc)
  moreover have "unat (readPos ov) + d + n \<le> 2 * mb_size (ov_buffer ov)"
    using D(4,5) assms(2) by linarith
  ultimately show ?thesis by (simp add: mb_read_def)
qed

lemma mb_read_front:
  assumes "ov_loose ov" "n \<le> length (window ov)"
  shows "mb_read (unat (readPos ov)) n (ov_buffer ov) = Inr (take n (window ov))"
  using mb_read_window [OF assms(1), of 0 n] assms(2) by simp

lemma OnRead_loop_refines:
  assumes "ov_loose ov" and "frames (mb_size (ov_buffer ov)) (window ov) = (ps, rest, ok)"
  shows "OnRead_loop exec ov w =
    rbind (handle_all exec (ov_buffer ov) (unat (readPos ov)) ps w) (\<lambda>(handled, pos, w).
      Inr (handled \<and> ok, ov\<lparr>readPos := word_of_nat pos\<rparr>, w))"
  using assms
proof (induction "length (window ov)" arbitrary: ov ps rest w rule: less_induct)
  case less
  note D = ov_looseD [OF less.prems(1)]
  let ?S = "mb_size (ov_buffer ov)" and ?bs = "window ov"
  let ?n = "packet_size ?bs"
  have avail: "writePos ov - readPos ov < word_of_nat m \<longleftrightarrow> length ?bs < m" if "m < 2 ^ 32" for m
    using D(8) that by (simp add: word_less_nat_alt)
  have hb: "mb_read (unat (readPos ov)) header_size (ov_buffer ov) = Inr (take 4 ?bs)"
    "packet_size (take 4 ?bs) = ?n" if "4 \<le> length ?bs"
    using mb_read_front [OF less.prems(1)] that by (simp_all add: header_size_def packet_size_take)
  have size16: "writePos ov - readPos ov < ucast (h_size (header_at (take 4 ?bs))) \<longleftrightarrow> length ?bs < ?n"
    if "4 \<le> length ?bs"
    using D(8) hb(2) [OF that] by (simp add: word_less_nat_alt packet_size_def)
  consider (short) "length ?bs < 4"
    | (bad) "4 \<le> length ?bs" "?n < 4 \<or> ?S \<le> ?n"
    | (partial) "4 \<le> length ?bs" "\<not> (?n < 4 \<or> ?S \<le> ?n)" "length ?bs < ?n"
    | (packet) "4 \<le> length ?bs" "\<not> (?n < 4 \<or> ?S \<le> ?n)" "?n \<le> length ?bs" by linarith
  then show ?case
  proof cases
    case short
    then show ?thesis
      using less.prems(2) avail [of 4] by (simp add: OnRead_loop.simps frames.simps header_size_def)
  next
    case bad
    then show ?thesis
      using less.prems(2) avail [of 4] hb
      by (simp add: OnRead_loop.simps [of exec ov] frames.simps header_size_def packet_size_def GetSize_def Let_def)
  next
    case partial
    then show ?thesis
      using less.prems(2) avail [of 4] hb size16
      by (simp add: OnRead_loop.simps [of exec ov] frames.simps header_size_def packet_size_def GetSize_def Let_def)
  next
    case packet
    let ?ov' = "ov_advance_read ?n ov"
    note adv = loose_advance_read [OF less.prems(1) packet(3)]
    obtain qs r k where f: "frames ?S (drop ?n ?bs) = (qs, r, k)" by (metis prod_cases3)
    have ps: "ps = take ?n ?bs # qs" "ok = k" "rest = r"
      using less.prems(2) packet f by (simp_all add: frames.simps [of ?S ?bs])
    have buf: "ov_buffer ?ov' = ov_buffer ov" and upd: "?ov'\<lparr>readPos := p\<rparr> = ov\<lparr>readPos := p\<rparr>" for p
      by (simp_all add: ov_advance_read_def)
    have IH: "OnRead_loop exec ?ov' w' =
        rbind (handle_all exec (ov_buffer ov) (unat (readPos ov) + ?n) qs w') (\<lambda>(handled, pos, w).
          Inr (handled \<and> ok, ov\<lparr>readPos := word_of_nat pos\<rparr>, w))" for w'
    proof -
      have "0 < ?n" "0 < length ?bs" using packet by linarith+
      then have "length (drop ?n ?bs) < length ?bs" by simp
      then show ?thesis using less.hyps [of ?ov' qs rest w'] adv f ps by (simp add: buf upd)
    qed
    have "OnRead_loop exec ov w =
        rbind (exec (ov_buffer ov) (unat (readPos ov)) w) (\<lambda>r.
          if \<not> fst r then Inr (False, ov, snd r) else OnRead_loop exec ?ov' (snd r))"
      using packet avail [of 4] hb size16
      by (subst OnRead_loop.simps)
        (simp add: header_size_def packet_size_def GetSize_def Let_def cong: if_cong)
    also have "\<dots> = rbind (exec (ov_buffer ov) (unat (readPos ov)) w) (\<lambda>r.
        rbind (if fst r then handle_all exec (ov_buffer ov) (unat (readPos ov) + ?n) qs (snd r)
               else Inr (False, unat (readPos ov), snd r))
          (\<lambda>(handled, pos, w). Inr (handled \<and> ok, ov\<lparr>readPos := word_of_nat pos\<rparr>, w)))"
      by (rule arg_cong [where f = "rbind _"]) (simp add: fun_eq_iff IH)
    finally show ?thesis using packet(3) by (simp add: ps(1) rbind_assoc cong: if_cong)
  qed
qed

lemma handle_all_pos:
  "handle_all exec b pos ps w = Inr (handled, pos', w') \<Longrightarrow> pos' \<le> pos + length (concat ps)"
proof (induction ps arbitrary: pos w)
  case (Cons p ps)
  then obtain r where r: "exec b pos w = Inr r" by (auto simp: rbind_eq_Inr_iff)
  show ?case
  proof (cases "fst r")
    case True
    then show ?thesis using Cons.IH [of "pos + length p" "snd r"] Cons.prems r by simp
  qed (use Cons.prems r in simp)
qed simp

lemma handle_all_complete:
  "handle_all exec b pos ps w = Inr (True, pos', w') \<Longrightarrow> pos' = pos + length (concat ps)"
proof (induction ps arbitrary: pos w)
  case (Cons p ps)
  then obtain r where r: "exec b pos w = Inr r" "fst r" by (auto simp: rbind_eq_Inr_iff split: if_splits)
  then show ?case using Cons.IH [of "pos + length p" "snd r"] Cons.prems by simp
qed simp

text \<open>The recording handler accepts what the specification cuts out of the window.\<close>

lemma handle_all_log:
  assumes "ov_loose ov" "\<forall>p\<in>set ps. packet_size p = length p \<and> 4 \<le> length p"
    "window ov = pre @ concat ps @ rest"
  shows "handle_all log_packet (ov_buffer ov) (unat (readPos ov) + length pre) ps log =
    Inr (True, unat (readPos ov) + length pre + length (concat ps), log @ ps)"
  using assms(2,3)
proof (induction ps arbitrary: pre log)
  case (Cons p ps)
  have len: "length (window ov) = length pre + length p + length (concat ps) + length rest"
    using Cons.prems(2) by simp
  have "mb_read (unat (readPos ov) + length pre) 4 (ov_buffer ov) = Inr (take 4 p)"
    using mb_read_window [OF assms(1), of "length pre" 4] Cons.prems len by simp
  moreover have "mb_read (unat (readPos ov) + length pre) (length p) (ov_buffer ov) = Inr p"
    using mb_read_window [OF assms(1), of "length pre" "length p"] Cons.prems len by simp
  ultimately have "log_packet (ov_buffer ov) (unat (readPos ov) + length pre) log = Inr (True, log @ [p])"
    using Cons.prems(1) by (simp add: log_packet_def header_size_def packet_size_take)
  then show ?case using Cons.IH [of "pre @ p" "log @ [p]"] Cons.prems by (simp add: add.assoc)
qed simp

text \<open>One completed receive, for a handler that handles all its packets.\<close>

lemma receive_chunk_ok:
  assumes wf: "ov_wf ov" and fits: "length (window ov) + length c \<le> mb_size (ov_buffer ov)"
    and f: "frames (mb_size (ov_buffer ov)) (window ov @ c) = (ps, rest, ok)"
  shows "\<exists>ov'. receive_chunk log_packet c ov log = Inr (ok, ov', log @ ps) \<and>
    (ok \<longrightarrow> ov_wf ov' \<and> window ov' = rest \<and> mb_size (ov_buffer ov') = mb_size (ov_buffer ov))"
proof -
  obtain ov1 where st: "ov_store c ov = Inr ov1" and wf1: "ov_wf (ov_advance_write (length c) ov1)"
    and win: "window (ov_advance_write (length c) ov1) = window ov @ c"
    and sz: "mb_size (ov_buffer ov1) = mb_size (ov_buffer ov)"
    using window_store [OF wf fits] by metis
  let ?ov2 = "ov_advance_write (length c) ov1"
  have L: "ov_loose ?ov2" using wf1 by (rule ov_wf_loose)
  have sz2: "mb_size (ov_buffer ?ov2) = mb_size (ov_buffer ov)" using sz by (simp add: ov_advance_write_def)
  have cat: "window ?ov2 = concat ps @ rest" using frames_concat [OF f] win by simp
  let ?p = "unat (readPos ?ov2) + length (concat ps)"
  have h: "handle_all log_packet (ov_buffer ?ov2) (unat (readPos ?ov2)) ps log = Inr (True, ?p, log @ ps)"
    using handle_all_log [OF L, of ps "[]" rest log] frames_packets [OF f] cat by auto
  have "?ov2\<lparr>readPos := word_of_nat ?p\<rparr> = ov_advance_read (length (concat ps)) ?ov2"
    by (simp add: ov_advance_read_def)
  then have loop: "OnRead_loop log_packet ?ov2 log =
      Inr (ok, ov_advance_read (length (concat ps)) ?ov2, log @ ps)"
    using OnRead_loop_refines [OF L, of ps rest ok log_packet log] f win sz2 h by simp
  have "length (concat ps) \<le> length (window ?ov2)" using cat by simp
  note a = loose_advance_read [OF L this]
  have "window (ov_advance_read (length (concat ps)) ?ov2) = rest" using a(2) cat by simp
  then have "ov_wf (ov_rewind (ov_advance_read (length (concat ps)) ?ov2)) \<and>
      window (ov_rewind (ov_advance_read (length (concat ps)) ?ov2)) = rest \<and>
      mb_size (ov_buffer (ov_rewind (ov_advance_read (length (concat ps)) ?ov2))) = mb_size (ov_buffer ov)"
    using rewind_restores [OF a(1)] sz2 by (simp add: ov_advance_read_def)
  then show ?thesis
    using st loop by (simp add: receive_chunk_def OnRead_scan_def)
qed

lemma frames_rest_pending:
  "frames S bs = (ps, rest, True) \<Longrightarrow> frames S rest = ([], rest, True)"
proof (induction S bs arbitrary: ps rest rule: frames.induct)
  case (1 S bs)
  show ?case
  proof (cases "length bs < 4 \<or> packet_size bs < 4 \<or> S \<le> packet_size bs \<or> length bs < packet_size bs")
    case True
    then have "ps = []" "rest = bs" using "1.prems" by (auto simp: frames.simps [of S bs] split: if_splits)
    then show ?thesis using "1.prems" by simp
  next
    case False
    obtain qs r k where f: "frames S (drop (packet_size bs) bs) = (qs, r, k)" by (metis prod_cases3)
    have "rest = r" "k" using "1.prems" False f by (auto simp: frames.simps [of S bs])
    then show ?thesis using "1.IH" [of qs r] False f by auto
  qed
qed

lemma deliver_frames:
  assumes "ov_wf ov" "admissible (mb_size (ov_buffer ov)) (window ov) cs"
    "frames (mb_size (ov_buffer ov)) (window ov) = ([], window ov, True)"
    "frames (mb_size (ov_buffer ov)) (window ov @ concat cs) = (ps, rest, ok)"
  shows "\<exists>ov'. deliver log_packet cs ov log = Inr (ok, ov', log @ ps) \<and>
    (ok \<longrightarrow> ov_wf ov' \<and> window ov' = rest \<and> mb_size (ov_buffer ov') = mb_size (ov_buffer ov))"
  using assms
proof (induction cs arbitrary: ov ps log)
  case Nil
  then show ?case by auto
next
  case (Cons c cs)
  let ?S = "mb_size (ov_buffer ov)"
  obtain ps1 rest1 ok1 where f1: "frames ?S (window ov @ c) = (ps1, rest1, ok1)" by (metis prod_cases3)
  have fits: "length (window ov) + length c \<le> ?S" using Cons.prems(2) by simp
  obtain ov1 where r: "receive_chunk log_packet c ov log = Inr (ok1, ov1, log @ ps1)"
    and ok1: "ok1 \<longrightarrow> ov_wf ov1 \<and> window ov1 = rest1 \<and> mb_size (ov_buffer ov1) = ?S"
    using receive_chunk_ok [OF Cons.prems(1) fits f1] by blast
  note total = frames_append [of ?S "window ov @ c" "concat cs"]
  show ?case
  proof (cases ok1)
    case False
    then have "ok = False" "ps = ps1" using total f1 Cons.prems(4) by auto
    then show ?thesis using r False by simp
  next
    case True
    obtain ps2 rest2 ok2 where f2: "frames ?S (rest1 @ concat cs) = (ps2, rest2, ok2)" by (metis prod_cases3)
    have eq: "ps = ps1 @ ps2" "rest = rest2" "ok = ok2" using total f1 f2 True Cons.prems(4) by auto
    have "frames ?S rest1 = ([], rest1, True)" using frames_rest_pending [of ?S "window ov @ c" ps1 rest1] f1 True by simp
    then show ?thesis
      using Cons.IH [of ov1 ps2 "log @ ps1"] ok1 True f1 f2 eq r Cons.prems(2) by auto
  qed
qed

section \<open>The write buffer is a queue of bytes\<close>

lemma SendPacket_store_ok:
  assumes wf: "ov_wf ov" and hdr: "4 \<le> length obj" and obj: "packet_size obj \<le> length obj"
  shows "SendPacket_store obj ov = Inr (False, ov) \<and>
      mb_size (ov_buffer ov) < length (window ov) + packet_size obj
    \<or> (\<exists>ov'. SendPacket_store obj ov = Inr (True, ov') \<and> ov_wf ov' \<and>
      window ov' = window ov @ take (packet_size obj) obj \<and> readPos ov' = readPos ov \<and>
      mb_size (ov_buffer ov') = mb_size (ov_buffer ov) \<and> ioType ov' = ioType ov \<and>
      wsa_buf ov' = wsa_buf ov \<and> wsa_len ov' = wsa_len ov \<and>
      length (window ov) + packet_size obj \<le> mb_size (ov_buffer ov))"
proof -
  note D = ov_wfD [OF wf]
  let ?n = "h_size (header_at obj)"
  have n: "packet_size obj = unat ?n" by (simp add: packet_size_def)
  have "unat (writePos ov - readPos ov + ucast ?n) = length (window ov) + unat ?n"
    using D available_data [OF wf] unat_lt_u16 [of ?n] by (subst unat_plus_small64) simp_all
  then have full: "ov_size ov < writePos ov - readPos ov + ucast ?n \<longleftrightarrow>
      mb_size (ov_buffer ov) < length (window ov) + packet_size obj"
    using D(9) n by (simp add: word_less_nat_alt)
  show ?thesis
  proof (cases "mb_size (ov_buffer ov) < length (window ov) + packet_size obj")
    case True
    then show ?thesis using full hdr by (simp add: SendPacket_store_def header_size_def Let_def)
  next
    case False
    then have fits: "length (window ov) + length (take (packet_size obj) obj) \<le> mb_size (ov_buffer ov)"
      using obj by simp
    have len: "length (take (packet_size obj) obj) = packet_size obj" using obj by simp
    from window_store [OF wf fits] len obtain ov' where
      "ov_store (take (packet_size obj) obj) ov = Inr ov'"
      "ov_wf (ov_advance_write (packet_size obj) ov')"
      "window (ov_advance_write (packet_size obj) ov') = window ov @ take (packet_size obj) obj"
      "readPos ov' = readPos ov" "mb_size (ov_buffer ov') = mb_size (ov_buffer ov)"
      "ioType ov' = ioType ov" "wsa_buf ov' = wsa_buf ov" "wsa_len ov' = wsa_len ov"
      by metis
    then show ?thesis using False full hdr obj n
      by (auto simp: SendPacket_store_def header_size_def Let_def ov_advance_write_def)
  qed
qed

lemma OnWrite_advance_ok:
  assumes wf: "ov_wf ov" and n: "n \<le> length (window ov)"
  shows "ov_wf (OnWrite_advance n ov)" and "window (OnWrite_advance n ov) = drop n (window ov)"
    and "mb_size (ov_buffer (OnWrite_advance n ov)) = mb_size (ov_buffer ov)"
proof -
  note a = loose_advance_read [OF ov_wf_loose [OF wf] n]
  note r = rewind_restores [OF a(1)]
  show "ov_wf (OnWrite_advance n ov)" "window (OnWrite_advance n ov) = drop n (window ov)"
    "mb_size (ov_buffer (OnWrite_advance n ov)) = mb_size (ov_buffer ov)"
    using r a(2) by (simp_all add: OnWrite_advance_def ov_advance_read_def)
qed

text \<open>The code's test for an empty window.\<close>

lemma window_empty_iff: "ov_wf ov \<Longrightarrow> readPos ov = writePos ov \<longleftrightarrow> window ov = []"
  using ov_wfD(7) [of ov] by (metis add_cancel_right_right length_0_conv word_unat_eq_iff)

text \<open>The interface both directions share: a bounded queue of bytes.\<close>

locale byte_queue =
  fixes invar :: "'q \<Rightarrow> bool" and content :: "'q \<Rightarrow> byte list" and bound :: "'q \<Rightarrow> nat"
    and put :: "byte list \<Rightarrow> 'q \<Rightarrow> 'q res" and take_out :: "nat \<Rightarrow> 'q \<Rightarrow> 'q"
  assumes bounded: "invar q \<Longrightarrow> length (content q) \<le> bound q"
    and put_ok: "invar q \<Longrightarrow> length (content q) + length xs \<le> bound q \<Longrightarrow>
      \<exists>q'. put xs q = Inr q' \<and> invar q' \<and> content q' = content q @ xs \<and> bound q' = bound q"
    and take_ok: "invar q \<Longrightarrow> n \<le> length (content q) \<Longrightarrow>
      invar (take_out n q) \<and> content (take_out n q) = drop n (content q) \<and> bound (take_out n q) = bound q"
begin

text \<open>Bytes come out in the order in which they went in.\<close>

lemma fifo:
  assumes "invar q" "length (content q) + length xs \<le> bound q" "n \<le> length (content q)"
  obtains q' where "put xs q = Inr q'" "invar q'"
    "content (take_out n q') = drop n (content q) @ xs"
    "take n (content q) @ content (take_out n q') = content q @ xs"
proof -
  obtain q' where q': "put xs q = Inr q'" "invar q'" "content q' = content q @ xs"
    using put_ok assms(1,2) by blast
  then have "content (take_out n q') = drop n (content q) @ xs"
    using take_ok [of q' n] assms(3) by simp
  then show ?thesis using that q' by simp
qed

end

interpretation wq: byte_queue ov_wf window "\<lambda>ov. mb_size (ov_buffer ov)"
  "\<lambda>xs ov. rbind (ov_store xs ov) (\<lambda>ov. Inr (ov_advance_write (length xs) ov))" OnWrite_advance
proof
  show "length (window ov) \<le> mb_size (ov_buffer ov)" if "ov_wf ov" for ov
    using ov_wfD(8) [OF that] .
  show "\<exists>q'. rbind (ov_store xs ov) (\<lambda>ov. Inr (ov_advance_write (length xs) ov)) = Inr q' \<and>
      ov_wf q' \<and> window q' = window ov @ xs \<and> mb_size (ov_buffer q') = mb_size (ov_buffer ov)"
    if wf: "ov_wf ov" and fits: "length (window ov) + length xs \<le> mb_size (ov_buffer ov)" for ov xs
  proof -
    obtain ov' where "ov_store xs ov = Inr ov'" "ov_wf (ov_advance_write (length xs) ov')"
      "window (ov_advance_write (length xs) ov') = window ov @ xs"
      "mb_size (ov_buffer ov') = mb_size (ov_buffer ov)"
      using window_store [OF wf fits] by metis
    then show ?thesis by (simp add: ov_advance_write_def)
  qed
qed (simp add: OnWrite_advance_ok)

text \<open>The regions handed to the kernel lie inside the two views.\<close>

lemma RegisterRead_region:
  assumes wf: "ov_wf ov"
  shows "fst (RegisterRead_prepare ov) \<longleftrightarrow> length (window ov) < mb_size (ov_buffer ov)"
    and "unat (wsa_len (snd (RegisterRead_prepare ov))) = mb_size (ov_buffer ov) - length (window ov)"
    and "fst (RegisterRead_prepare ov) \<Longrightarrow> wsa_buf (snd (RegisterRead_prepare ov)) = writePos ov"
proof -
  note D = ov_wfD [OF wf] and f = free_space [OF wf]
  let ?l = "ucast (ov_size ov - writePos ov + readPos ov) :: u32"
  have l: "unat ?l = mb_size (ov_buffer ov) - length (window ov)"
    using f D(4) by (subst unat_ucast_u64_u32) simp_all
  have z: "?l = 0 \<longleftrightarrow> mb_size (ov_buffer ov) = length (window ov)"
    using l D(8) by (metis diff_self_eq_0 diff_is_0_eq le_antisym unat_0 unat_eq_zero)
  then show "fst (RegisterRead_prepare ov) \<longleftrightarrow> length (window ov) < mb_size (ov_buffer ov)"
    using D(8) by (auto simp: RegisterRead_prepare_def Let_def ov_size_def)
  show "unat (wsa_len (snd (RegisterRead_prepare ov))) = mb_size (ov_buffer ov) - length (window ov)"
    using l by (auto simp: RegisterRead_prepare_def Let_def)
  show "fst (RegisterRead_prepare ov) \<Longrightarrow> wsa_buf (snd (RegisterRead_prepare ov)) = writePos ov"
    by (auto simp: RegisterRead_prepare_def Let_def split: if_splits)
qed

lemma write_run_ok:
  assumes "ov_wf (wt_ov t)" "write_legal es t" "wt_taken t @ window (wt_ov t) = wt_accepted t"
  shows "\<exists>t'. write_run es t = Inr t' \<and> ov_wf (wt_ov t') \<and>
    wt_taken t' @ window (wt_ov t') = wt_accepted t'"
  using assms
proof (induction es arbitrary: t)
  case (Cons e es)
  have "\<exists>t1. write_step e t = Inr t1 \<and> ov_wf (wt_ov t1) \<and> wt_taken t1 @ window (wt_ov t1) = wt_accepted t1"
  proof (cases e)
    case (Packet obj)
    then have "4 \<le> length obj" "packet_size obj \<le> length obj" using Cons.prems(2) by auto
    from SendPacket_store_ok [OF Cons.prems(1) this] show ?thesis
      using Packet Cons.prems by auto
  next
    case (Written n)
    then have n: "n \<le> length (window (wt_ov t))" using Cons.prems(2) by simp
    then show ?thesis
      using Written mb_read_front [OF ov_wf_loose [OF Cons.prems(1)] n] OnWrite_advance_ok [OF Cons.prems(1) n]
        Cons.prems(3) by (simp flip: Cons.prems(3))
  qed
  then show ?case using Cons.IH Cons.prems(2) by auto
qed simp

section \<open>Properties\<close>

text \<open>A small empty buffer for the witnesses.\<close>

definition sample_ov :: OverlappedEx where
  "sample_ov = OverlappedEx_ctor \<lparr>mb_size = 8, mb_mem = replicate 8 0\<rparr>"

lemma sample_ov_wf: "ov_wf sample_ov" "window sample_ov = []" "mb_size (ov_buffer sample_ov) = 8"
  by (simp_all add: sample_ov_def OverlappedEx_ctor_def ov_wf_def mb_wf_def window_def)

text \<open>
  C19: reassembly. However the network cuts a stream of bytes into receives (as long as the
  kernel respects the posted lengths), the packets handled are exactly those the
  framing specification finds in the whole stream, in order, and \<^verbatim>\<open>OnRead\<close> reports failure
  exactly when the stream contains a header with an illegal size at a packet boundary. No
  access leaves the double mapping, and what remains in the buffer is the unfinished rest.
\<close>

theorem stream_reassembly:
  assumes "ov_wf ov" and "window ov = []" and "admissible (mb_size (ov_buffer ov)) [] cs"
    and "frames (mb_size (ov_buffer ov)) (concat cs) = (ps, rest, ok)"
  shows "\<exists>ov'. deliver log_packet cs ov [] = Inr (ok, ov', ps) \<and>
    (ok \<longrightarrow> ov_wf ov' \<and> window ov' = rest)"
proof -
  have "frames (mb_size (ov_buffer ov)) [] = ([], [], True)" by (simp add: frames.simps)
  then show ?thesis using deliver_frames [OF assms(1), of cs ps rest ok "[]"] assms(2-4) by auto
qed

theorem stream_reassembly_witness:
  "\<exists>ov'. deliver log_packet [[5, 0, 2], [0, 9, 4, 0], [1, 0, 7]] sample_ov [] =
     Inr (True, ov', [[5, 0, 2, 0, 9], [4, 0, 1, 0]]) \<and> window ov' = [7]"
proof -
  have "admissible 8 [] [[5, 0, 2], [0, 9, 4, 0], [1, 0, 7]]" by code_simp
  moreover have "frames 8 (concat [[5, 0, 2], [0, 9, 4, 0], [1, 0, 7]]) =
      ([[5, 0, 2, 0, 9], [4, 0, 1, 0]], [7], True)" by code_simp
  ultimately show ?thesis
    using stream_reassembly [of sample_ov "[[5, 0, 2], [0, 9, 4, 0], [1, 0, 7]]"] sample_ov_wf by auto
qed

text \<open>
  Fragmentation and sticky packets. If a client sends legal packets and the network
  delivers their bytes in any pieces, the server handles exactly these packets, once each
  and in order, and the buffer is empty afterwards.
\<close>

lemma packets_survive_fragmentation:
  assumes "ov_wf ov" and "window ov = []" and "admissible (mb_size (ov_buffer ov)) [] cs"
    and "\<forall>p\<in>set ps. packet_size p = length p \<and> 4 \<le> length p \<and> length p < mb_size (ov_buffer ov)"
    and "concat cs = concat ps"
  shows "\<exists>ov'. deliver log_packet cs ov [] = Inr (True, ov', ps) \<and> ov_wf ov' \<and> window ov' = []"
proof -
  have f: "frames (mb_size (ov_buffer ov)) (concat cs) = (ps, [], True)"
    using frames_of_packets [OF assms(4)] assms(5) by simp
  have e: "frames (mb_size (ov_buffer ov)) [] = ([], [], True)" by (simp add: frames.simps)
  show ?thesis using deliver_frames [OF assms(1), of cs ps "[]" True "[]"] assms(2,3) f e by auto
qed

text \<open>
  The loop of \<^verbatim>\<open>OnRead\<close> with any handler. It equals cutting the window into packets first
  and then handling them at consecutive offsets until one is refused; \<^verbatim>\<open>readPos_\<close> ends behind
  the last packet that was handled. In particular the loop ends and adds no fault to those
  of the handler.
\<close>

lemma OnRead_loop_spec:
  assumes "ov_wf ov" and "frames (mb_size (ov_buffer ov)) (window ov) = (ps, rest, ok)"
  shows "OnRead_loop exec ov w =
    rbind (handle_all exec (ov_buffer ov) (unat (readPos ov)) ps w) (\<lambda>(handled, pos, w').
      Inr (handled \<and> ok, ov\<lparr>readPos := word_of_nat pos\<rparr>, w'))"
  using OnRead_loop_refines [OF ov_wf_loose [OF assms(1)] assms(2)] .

text \<open>
  The posted receive. After \<^verbatim>\<open>OnRead\<close> has handled a completed receive, the next
  \<^verbatim>\<open>RegisterRead\<close> never finds the buffer full, and the region it posts, behind the window,
  ends inside the two views and is exactly the free space.
\<close>

lemma next_receive_possible:
  assumes "ov_wf ov" and "length (window ov) + length c \<le> mb_size (ov_buffer ov)"
    and "receive_chunk log_packet c ov log = Inr (True, ov', log')"
  shows "fst (RegisterRead_prepare ov') \<and>
    unat (wsa_buf (snd (RegisterRead_prepare ov'))) + unat (wsa_len (snd (RegisterRead_prepare ov')))
      \<le> 2 * mb_size (ov_buffer ov') \<and>
    length (window ov') + unat (wsa_len (snd (RegisterRead_prepare ov'))) = mb_size (ov_buffer ov')"
proof -
  obtain ps rest ok where f: "frames (mb_size (ov_buffer ov)) (window ov @ c) = (ps, rest, ok)"
    by (metis prod_cases3)
  from receive_chunk_ok [OF assms(1,2) f, of log] assms(3)
  have ok: "ok" "ov_wf ov'" "window ov' = rest" "mb_size (ov_buffer ov') = mb_size (ov_buffer ov)" by auto
  have short: "length (window ov') < mb_size (ov_buffer ov')"
    using frames_rest_short [of _ _ ps rest] f ok ov_wfD(3) [OF assms(1)] by auto
  note R = RegisterRead_region [OF ok(2)] and D = ov_wfD [OF ok(2)]
  show ?thesis using R short D(5,7) by simp
qed

text \<open>
  The write path is a queue. For any interleaving of \<^verbatim>\<open>SendPacket\<close> calls and completed
  (also partial) writes, the bytes the kernel has taken followed by the bytes still in the
  buffer are exactly the bytes of the accepted packets, in order; nothing is overwritten,
  duplicated or reordered, and no copy leaves the double mapping.
\<close>

lemma write_path_fifo:
  assumes "ov_wf (wt_ov t)" and "wt_taken t @ window (wt_ov t) = wt_accepted t" and "write_legal es t"
  shows "\<exists>t'. write_run es t = Inr t' \<and> ov_wf (wt_ov t') \<and>
    wt_taken t' @ window (wt_ov t') = wt_accepted t'"
  using write_run_ok [OF assms(1,3,2)] .

end
