(* ===== verification/Server_World.thy ===== *)
theory Server_World
  imports Ref_Pool Session_Stream
begin

text \<open>
  The state of the running server (\<^verbatim>\<open>Network/Server\<close>): the session pool of \<^verbatim>\<open>SessionManager\<close> with all
  pointers to sessions, the sessions themselves, the listener's counter, and the calls made
  to the operating system. Also the parts of \<^verbatim>\<open>SessionManager.cpp\<close> that only use the pool. A completion is
  handled to its end before the next one starts.
\<close>

section \<open>State\<close>

text \<open>
  \<^verbatim>\<open>Session\<close>. \<^verbatim>\<open>sessionManager_\<close> and \<^verbatim>\<open>listener_\<close> are null or the one manager and listener; \<^verbatim>\<open>socket_\<close> is
  created once per slot and never reassigned, so the slot index names it. The \<^verbatim>\<open>sessionPtr_\<close> of an
  \<^verbatim>\<open>OverlappedEx\<close> is a location of the pool's pointer store.
\<close>

record session =
  s_readOv :: OverlappedEx
  s_writeOv :: OverlappedEx
  s_disconnectOv :: OverlappedEx
  s_handle :: u64
  s_sessionManager :: bool
  s_listener :: bool
  s_isSending :: bool

datatype SessionState = kIdle | kPending | kConnected | kDisconnecting

primrec ss_value :: "SessionState \<Rightarrow> nat" where
  "ss_value kIdle = 0"
| "ss_value kPending = 1"
| "ss_value kConnected = 2"
| "ss_value kDisconnecting = 3"

definition ss_count :: nat where "ss_count = 4"

text \<open>Every \<^verbatim>\<open>SharedPoolPtr<Session>\<close> of the server; \<open>Local k\<close> is the \<open>k\<close>-th one on the stack.\<close>

datatype loc = ReadPtr nat | WritePtr nat | DiscPtr nat | MgrPtr nat | Local nat

text \<open>The three \<^verbatim>\<open>OverlappedEx\<close> of the session at an index, and the calls of the Windows interface.\<close>

datatype ov_ref = ReadOv nat | WriteOv nat | DiscOv nat

datatype api_call =
    WSARecv nat u64 u32
  | WSASend nat u64 u32
  | AcceptEx nat
  | DisconnectEx nat
  | UpdateAcceptContext nat
  | TcpNoDelay nat
  | CreateIoCompletionPort nat u64

record world = "(session, loc) pool" +
  depth :: nat
  pendingAccepts :: u64
  in_flight :: "ov_ref \<Rightarrow> bool"
  api_log :: "api_call list"

section \<open>The operating system\<close>

text \<open>
  The operating system is a parameter: \<open>os w c\<close> is the result of call \<open>c\<close> and what \<^verbatim>\<open>WSAGetLastError\<close> says
  afterwards. A call that is accepted, at once or as pending, puts the \<^verbatim>\<open>OVERLAPPED\<close> structure in flight
  until its completion is dequeued. \<^verbatim>\<open>WSARecv\<close> and \<^verbatim>\<open>WSASend\<close> signal failure by \<^verbatim>\<open>SOCKET_ERROR\<close>, \<^verbatim>\<open>AcceptEx\<close>
  and \<^verbatim>\<open>DisconnectEx\<close> by \<^verbatim>\<open>FALSE\<close>. The log is newest first.
\<close>

type_synonym os = "world \<Rightarrow> api_call \<Rightarrow> int \<times> int"

definition SOCKET_ERROR :: int where "SOCKET_ERROR = - 1"
definition WSA_IO_PENDING :: int where "WSA_IO_PENDING = 997"

fun accepted :: "api_call \<Rightarrow> int \<Rightarrow> int \<Rightarrow> bool" where
  "accepted (AcceptEx _) result err \<longleftrightarrow> result \<noteq> 0 \<or> err = WSA_IO_PENDING"
| "accepted (DisconnectEx _) result err \<longleftrightarrow> result \<noteq> 0 \<or> err = WSA_IO_PENDING"
| "accepted _ result err \<longleftrightarrow> result \<noteq> SOCKET_ERROR \<or> err = WSA_IO_PENDING"

definition plain_call :: "os \<Rightarrow> api_call \<Rightarrow> world \<Rightarrow> int \<times> world" where
  "plain_call os c w = (fst (os w c), w\<lparr>api_log := c # api_log w\<rparr>)"

definition overlapped_call :: "os \<Rightarrow> ov_ref \<Rightarrow> api_call \<Rightarrow> world \<Rightarrow> (int \<times> int \<times> world) res" where
  "overlapped_call os r c w =
     (if in_flight w r then Inl Overlapped_busy
      else Inr (fst (os w c), snd (os w c),
        w\<lparr>api_log := c # api_log w,
          in_flight := (in_flight w)(r := accepted c (fst (os w c)) (snd (os w c)))\<rparr>))"

text \<open>
  What the server relies on: \<^verbatim>\<open>AcceptEx\<close> and \<^verbatim>\<open>DisconnectEx\<close> return a \<^verbatim>\<open>BOOL\<close>, and once \<^verbatim>\<open>DisconnectEx\<close> was
  called for a socket, \<^verbatim>\<open>WSARecv\<close> and \<^verbatim>\<open>WSASend\<close> on it are refused until it is accepted on again
  (\<^verbatim>\<open>WSAENOTCONN\<close>).
\<close>

fun closed :: "nat \<Rightarrow> api_call list \<Rightarrow> bool" where
  "closed i [] \<longleftrightarrow> False"
| "closed i (c # cs) \<longleftrightarrow>
     (if c = AcceptEx i then False else if c = DisconnectEx i then True else closed i cs)"

definition os_respects :: "os \<Rightarrow> bool" where
  "os_respects os \<longleftrightarrow>
     (\<forall>w i. fst (os w (AcceptEx i)) \<in> {0, 1} \<and> fst (os w (DisconnectEx i)) \<in> {0, 1}) \<and>
     (\<forall>w i b n. closed i (api_log w) \<longrightarrow>
        \<not> accepted (WSARecv i b n) (fst (os w (WSARecv i b n))) (snd (os w (WSARecv i b n))) \<and>
        \<not> accepted (WSASend i b n) (fst (os w (WSASend i b n))) (snd (os w (WSASend i b n))))"

lemma os_bool:
  assumes "os_respects os"
  shows "fst (os w (DisconnectEx i)) \<noteq> SOCKET_ERROR" "fst (os w (AcceptEx i)) \<noteq> SOCKET_ERROR"
proof -
  have "fst (os w (AcceptEx i)) \<in> {0, 1}" "fst (os w (DisconnectEx i)) \<in> {0, 1}"
    using assms unfolding os_respects_def by blast+
  then show "fst (os w (DisconnectEx i)) \<noteq> SOCKET_ERROR" "fst (os w (AcceptEx i)) \<noteq> SOCKET_ERROR"
    by (auto simp: SOCKET_ERROR_def)
qed

section \<open>Objects, locals and the manager\<close>

definition get_session :: "nat \<Rightarrow> world \<Rightarrow> session res" where
  "get_session i w = rbind (aget (p_slots w) i) (\<lambda>slot. Inr (obj slot))"

definition put_session :: "nat \<Rightarrow> session \<Rightarrow> world \<Rightarrow> world res" where
  "put_session i s w =
     rbind (aget (p_slots w) i) (\<lambda>slot.
     rbind (aset (p_slots w) i (slot\<lparr>obj := s\<rparr>)) (\<lambda>sl. Inr (w\<lparr>p_slots := sl\<rparr>)))"

text \<open>A block with one pointer variable: \<open>f\<close> constructs it, its destructor runs at the end of the block.\<close>

definition scoped ::
  "world callbacks \<Rightarrow> (loc \<Rightarrow> world \<Rightarrow> ('r \<times> world) res) \<Rightarrow> world \<Rightarrow> ('r \<times> world) res" where
  "scoped cb f w =
     (let d = depth w in
      rbind (f (Local d) (w\<lparr>depth := d + 1\<rparr>)) (\<lambda>(r, w).
      rbind (Ptr_dtor cb (Local d) w) (\<lambda>w.
      Inr (r, w\<lparr>depth := d\<rparr>))))"

text \<open>\<^verbatim>\<open>sessionPtrs_[idx]\<close>, an array of the pool's capacity.\<close>

definition sessionPtrs :: "nat \<Rightarrow> world \<Rightarrow> loc res" where
  "sessionPtrs idx w = (if idx < cap w then Inr (MgrPtr idx) else Inl Out_of_bounds)"

text \<open>The returned pointer is constructed at \<open>t\<close>.\<close>

definition SM_GetSession :: "u64 \<Rightarrow> loc \<Rightarrow> world \<Rightarrow> world res" where
  "SM_GetSession handle t w =
     (if \<not> Pool_IsValid handle w then Inr (Ptr_ctor_null t w)
      else rbind (sessionPtrs (who_of handle) w) (\<lambda>p. Ptr_copy t p w))"

definition SM_GetState :: "u64 \<Rightarrow> world \<Rightarrow> nat" where
  "SM_GetState handle w = GetState handle (p_set w) mod 256"

definition SM_SetState :: "u64 \<Rightarrow> SessionState \<Rightarrow> world \<Rightarrow> (bool \<times> world) res" where
  "SM_SetState handle newState w = Pool_MoveToState handle (ss_value newState) w"

definition ConnectSession :: "u64 \<Rightarrow> world \<Rightarrow> (bool \<times> world) res" where
  "ConnectSession handle w = Pool_MoveToState handle (ss_value kConnected) w"

definition DisconnectSession :: "world callbacks \<Rightarrow> u64 \<Rightarrow> world \<Rightarrow> world res" where
  "DisconnectSession cb handle w =
     (if \<not> Pool_IsValid handle w then Inr w
      else
        rbind (sessionPtrs (who_of handle) w) (\<lambda>p.
        rbind (Ptr_Reset cb p w) (\<lambda>(_, w). Inr w)))"

text \<open>\<^verbatim>\<open>CreateSession\<close>; the returned pointer is constructed at \<open>t\<close>. Its body, with the local \<^verbatim>\<open>sessionPtr\<close>, comes first.\<close>

definition CreateSession_body :: "world callbacks \<Rightarrow> loc \<Rightarrow> loc \<Rightarrow> world \<Rightarrow> (unit \<times> world) res" where
  "CreateSession_body cb t sessionPtr w =
     rbind (Pool_Acquire (ss_value kPending) sessionPtr w) (\<lambda>w.
     if \<not> Ptr_IsValid sessionPtr w then Inr ((), Ptr_ctor_null t w)
     else
       let handle = sp_handle (p_ptrs w sessionPtr) in
       rbind (Ptr_deref sessionPtr w) (\<lambda>i.
       rbind (get_session i w) (\<lambda>s.
       rbind (put_session i (s\<lparr>s_sessionManager := True, s_handle := handle\<rparr>) w) (\<lambda>w.
       rbind (sessionPtrs (who_of handle) w) (\<lambda>p.
       rbind (Ptr_move_assign cb p sessionPtr w) (\<lambda>w.
       rbind (Ptr_copy t p w) (\<lambda>w.
       Inr ((), w))))))))"

definition CreateSession :: "world callbacks \<Rightarrow> loc \<Rightarrow> world \<Rightarrow> world res" where
  "CreateSession cb t w = rbind (scoped cb (CreateSession_body cb t) w) (\<lambda>(_, w). Inr w)"

text \<open>\<^verbatim>\<open>ptr_ = sessionManager_->GetSession(handle_)\<close>: a move assignment from a temporary.\<close>

definition assign_session :: "world callbacks \<Rightarrow> loc \<Rightarrow> session \<Rightarrow> world \<Rightarrow> world res" where
  "assign_session cb p s w =
     (if \<not> s_sessionManager s then Inl Null_deref
      else
        rbind (scoped cb (\<lambda>t w.
          rbind (SM_GetSession (s_handle s) t w) (\<lambda>w.
          rbind (Ptr_move_assign cb p t w) (\<lambda>w.
          Inr ((), w)))) w) (\<lambda>(_, w).
        Inr w))"

text \<open>The deleter of the session pool.\<close>

definition session_deleter :: "world callbacks \<Rightarrow> nat \<Rightarrow> world \<Rightarrow> world res" where
  "session_deleter cb i w =
     rbind (get_session i w) (\<lambda>s.
     rbind (put_session i (s\<lparr>s_readOv := OverlappedEx_Reset (s_readOv s)\<rparr>) w) (\<lambda>w.
     rbind (Ptr_Reset cb (ReadPtr i) w) (\<lambda>(_, w).
     rbind (get_session i w) (\<lambda>s.
     rbind (put_session i (s\<lparr>s_writeOv := OverlappedEx_Reset (s_writeOv s)\<rparr>) w) (\<lambda>w.
     rbind (Ptr_Reset cb (WritePtr i) w) (\<lambda>(_, w).
     rbind (get_session i w) (\<lambda>s.
     put_session i (s\<lparr>s_isSending := False, s_handle := kInvalidHandle\<rparr>) w)))))))"

section \<open>What the server observes of a session\<close>

text \<open>
  Everything the server's invariant says about the session of a slot, gathered in one record: the object, the state
  and handle of the slot, the four pointers that belong to it, which of its structures are in flight, and whether its
  socket is closed. The operations below change the record of one slot at a time.
\<close>

record sview =
  v_obj :: session
  v_state :: nat
  v_handle :: u64
  v_read :: sptr
  v_write :: sptr
  v_disc :: sptr
  v_mgr :: sptr
  v_inR :: bool
  v_inW :: bool
  v_inD :: bool
  v_closed :: bool

definition view :: "world \<Rightarrow> nat \<Rightarrow> sview" where
  "view w i = \<lparr>
     v_obj = map obj (p_slots w) ! i,
     v_state = snd (slots_view (p_set w) ! i),
     v_handle = make_handle (fst (slots_view (p_set w) ! i)) (word_of_nat i),
     v_read = p_ptrs w (ReadPtr i), v_write = p_ptrs w (WritePtr i),
     v_disc = p_ptrs w (DiscPtr i), v_mgr = p_ptrs w (MgrPtr i),
     v_inR = in_flight w (ReadOv i), v_inW = in_flight w (WriteOv i), v_inD = in_flight w (DiscOv i),
     v_closed = closed i (api_log w)\<rparr>"

text \<open>The rest of the state: capacity, number of states, stack, counter.\<close>

record env =
  e_cap :: nat
  e_states :: nat
  e_depth :: nat
  e_pending :: u64
  e_local :: "nat \<Rightarrow> sptr"

definition env :: "world \<Rightarrow> env" where
  "env w = \<lparr>e_cap = cap w, e_states = stateCount (p_set w), e_depth = depth w,
     e_pending = pendingAccepts w, e_local = (\<lambda>k. p_ptrs w (Local k))\<rparr>"

lemma env_simps [simp]:
  "e_cap (env w) = cap w" "e_states (env w) = stateCount (p_set w)" "e_depth (env w) = depth w"
  "e_pending (env w) = pendingAccepts w" "e_local (env w) k = p_ptrs w (Local k)"
  by (simp_all add: env_def)

lemma env_eqD:
  assumes "env w' = env w"
  shows "cap w' = cap w" "stateCount (p_set w') = stateCount (p_set w)" "depth w' = depth w"
    "pendingAccepts w' = pendingAccepts w" "p_ptrs w' (Local k) = p_ptrs w (Local k)"
  using assms by (simp_all add: env_def fun_eq_iff)

lemma view_slot:
  assumes "counted X F w" "i < cap w"
  shows "v_obj (view w i) = obj (p_slots w ! i)" "v_state (view w i) = state_of (p_set w) i"
    "v_handle (view w i) = handle_of (p_set w) i"
  using assms countedD(2) [OF assms(1)] ss_invD(4) [OF countedD(1) [OF assms(1)]]
  by (simp_all add: view_def slots_view_simps handle_of_def)

named_theorems view_simps "how elementary operations change the view"

lemma view_fields:
  "v_obj (view w i) = map obj (p_slots w) ! i"
  "v_read (view w i) = p_ptrs w (ReadPtr i)" "v_write (view w i) = p_ptrs w (WritePtr i)"
  "v_disc (view w i) = p_ptrs w (DiscPtr i)" "v_mgr (view w i) = p_ptrs w (MgrPtr i)"
  "v_inR (view w i) = in_flight w (ReadOv i)" "v_inW (view w i) = in_flight w (WriteOv i)"
  "v_inD (view w i) = in_flight w (DiscOv i)" "v_closed (view w i) = closed i (api_log w)"
  by (simp_all add: view_def)

text \<open>The elementary steps.\<close>

lemma get_session_ok: "counted X F w \<Longrightarrow> i < cap w \<Longrightarrow> get_session i w = Inr (v_obj (view w i))"
  by (simp add: get_session_def view_slot countedD(2))

lemma put_session_ok:
  assumes "counted X F w" "i < cap w"
  shows "\<exists>w'. put_session i s w = Inr w' \<and> same_pool w w' \<and> env w' = env w \<and>
    view w' = (view w)(i := (view w i)\<lparr>v_obj := s\<rparr>)"
proof -
  let ?w = "w\<lparr>p_slots := (p_slots w)[i := (p_slots w ! i)\<lparr>obj := s\<rparr>]\<rparr>"
  have i: "i < length (p_slots w)" using assms countedD(2) by fastforce
  then have "put_session i s w = Inr ?w" by (simp add: put_session_def)
  moreover have "same_pool w ?w" by (simp add: same_pool_def map_update_same)
  moreover have "env ?w = env w" by (simp add: env_def)
  moreover have "view ?w = (view w)(i := (view w i)\<lparr>v_obj := s\<rparr>)"
    using i by (auto simp: view_def map_update)
  ultimately show ?thesis by blast
qed

lemma repointed_env:
  assumes "repointed w ps w'" "\<And>k. ps (Local k) = p_ptrs w (Local k)"
  shows "env w' = env w"
  using assms by (auto simp: repointed_def env_def)

lemma repointed_view:
  assumes "repointed w ps w'"
  shows "view w' j = (view w j)\<lparr>v_read := ps (ReadPtr j), v_write := ps (WritePtr j),
    v_disc := ps (DiscPtr j), v_mgr := ps (MgrPtr j)\<rparr>"
  using assms by (auto simp: repointed_def view_def)

lemma view_state_change:
  assumes "updates (p_set w) i (gen_of (p_set w) i, n) s" "i < cap w" "ss_inv (p_set w)"
  shows "view (w\<lparr>p_set := s\<rparr>) = (view w)(i := (view w i)\<lparr>v_state := n\<rparr>)"
    and "env (w\<lparr>p_set := s\<rparr>) = env w"
  using assms ss_invD(4) [OF assms(3)]
  by (auto simp: view_def env_def updates_def slots_view_simps nth_list_update fun_eq_iff)

fun launched :: "ov_ref \<Rightarrow> bool \<Rightarrow> sview \<Rightarrow> sview" where
  "launched (ReadOv _) b v = v\<lparr>v_inR := b\<rparr>"
| "launched (WriteOv _) b v = v\<lparr>v_inW := b\<rparr>"
| "launched (DiscOv _) b v = v\<lparr>v_inD := b\<rparr>"

fun ov_session :: "ov_ref \<Rightarrow> nat" where
  "ov_session (ReadOv i) = i"
| "ov_session (WriteOv i) = i"
| "ov_session (DiscOv i) = i"

definition after_call :: "api_call \<Rightarrow> nat \<Rightarrow> bool \<Rightarrow> bool" where
  "after_call c i b = (if c = AcceptEx i then False else if c = DisconnectEx i then True else b)"

lemma overlapped_call_ok:
  assumes "\<not> in_flight w r" and c: "\<And>j. j \<noteq> ov_session r \<Longrightarrow> c \<noteq> AcceptEx j \<and> c \<noteq> DisconnectEx j"
  shows "\<exists>w'. overlapped_call os r c w = Inr (fst (os w c), snd (os w c), w') \<and> same_pool w w' \<and> env w' = env w \<and>
    view w' = (view w)(ov_session r := launched r (accepted c (fst (os w c)) (snd (os w c)))
      ((view w (ov_session r))\<lparr>v_closed := after_call c (ov_session r) (v_closed (view w (ov_session r)))\<rparr>))"
proof -
  let ?w = "w\<lparr>api_log := c # api_log w,
          in_flight := (in_flight w)(r := accepted c (fst (os w c)) (snd (os w c)))\<rparr>"
  have "overlapped_call os r c w = Inr (fst (os w c), snd (os w c), ?w)"
    using assms(1) by (simp add: overlapped_call_def)
  moreover have "same_pool w ?w" "env ?w = env w" by (simp_all add: same_pool_def env_def)
  moreover have "view ?w = (view w)(ov_session r := launched r (accepted c (fst (os w c)) (snd (os w c)))
      ((view w (ov_session r))\<lparr>v_closed := after_call c (ov_session r) (v_closed (view w (ov_session r)))\<rparr>))"
    using c by (cases r) (auto simp: view_def after_call_def fun_eq_iff)
  ultimately show ?thesis by blast
qed

section \<open>The invariant\<close>

text \<open>
  A session's pointers are null or point to the session itself. A session in use knows its handle and its
  manager; until it is disconnecting the manager holds it, and then its socket is closed. A structure in flight keeps
  its session alive and describes a region the kernel may use. (The read buffer of a session whose stream was
  rejected may be left with its window in the second view; it is not read again before the slot is reset.)
\<close>

definition self_ptr :: "sview \<Rightarrow> sptr \<Rightarrow> bool" where
  "self_ptr v p \<longleftrightarrow> p = null_ptr \<or> p = live_ptr (v_handle v)"

definition read_posted :: "session \<Rightarrow> bool" where
  "read_posted s \<longleftrightarrow>
     ioType (s_readOv s) = io_Accept \<and> s_listener s \<or>
     ioType (s_readOv s) = io_Recv \<and> wsa_buf (s_readOv s) = writePos (s_readOv s) \<and>
       unat (wsa_len (s_readOv s)) + length (window (s_readOv s)) \<le> mb_size (ov_buffer (s_readOv s))"

definition write_posted :: "session \<Rightarrow> bool" where
  "write_posted s \<longleftrightarrow>
     s_isSending s \<and> ioType (s_writeOv s) = io_Send \<and>
     unat (wsa_len (s_writeOv s)) \<le> length (window (s_writeOv s))"

definition session_ok :: "sview \<Rightarrow> bool" where
  "session_ok v \<longleftrightarrow>
     mb_wf (ov_buffer (s_readOv (v_obj v))) \<and> ov_wf (s_writeOv (v_obj v)) \<and>
     (v_inR v \<or> v_state v \<le> 1 \<longrightarrow> ov_wf (s_readOv (v_obj v))) \<and>
     (v_inR v \<and> ioType (s_readOv (v_obj v)) = io_Recv \<longrightarrow> 2 \<le> v_state v) \<and>
     self_ptr v (v_read v) \<and> self_ptr v (v_write v) \<and> self_ptr v (v_disc v) \<and> self_ptr v (v_mgr v) \<and>
     (v_state v \<noteq> 0 \<longrightarrow> s_handle (v_obj v) = v_handle v \<and> s_sessionManager (v_obj v)) \<and>
     (v_state v = 1 \<or> v_state v = 2 \<longrightarrow> v_mgr v = live_ptr (v_handle v)) \<and>
     (v_state v = 3 \<longrightarrow> v_closed v) \<and>
     (v_inR v \<longrightarrow> v_read v = live_ptr (v_handle v) \<and> read_posted (v_obj v)) \<and>
     (v_inW v \<longrightarrow> v_write v = live_ptr (v_handle v) \<and> write_posted (v_obj v)) \<and>
     (v_inD v \<longrightarrow> v_disc v = live_ptr (v_handle v) \<and> ioType (s_disconnectOv (v_obj v)) = io_Disconnect \<and> v_state v = 3)"

lemma session_okD:
  assumes "session_ok v"
  shows "mb_wf (ov_buffer (s_readOv (v_obj v)))" "ov_wf (s_writeOv (v_obj v))"
    "v_inR v \<or> v_state v \<le> 1 \<Longrightarrow> ov_wf (s_readOv (v_obj v))"
    "self_ptr v (v_read v)" "self_ptr v (v_write v)" "self_ptr v (v_disc v)" "self_ptr v (v_mgr v)"
    "v_state v \<noteq> 0 \<Longrightarrow> s_handle (v_obj v) = v_handle v" "v_state v \<noteq> 0 \<Longrightarrow> s_sessionManager (v_obj v)"
    "v_state v = 1 \<or> v_state v = 2 \<Longrightarrow> v_mgr v = live_ptr (v_handle v)" "v_state v = 3 \<Longrightarrow> v_closed v"
    "v_inR v \<Longrightarrow> v_read v = live_ptr (v_handle v)" "v_inR v \<Longrightarrow> read_posted (v_obj v)"
    "v_inW v \<Longrightarrow> v_write v = live_ptr (v_handle v)" "v_inW v \<Longrightarrow> write_posted (v_obj v)"
    "v_inD v \<Longrightarrow> v_disc v = live_ptr (v_handle v)" "v_inD v \<Longrightarrow> ioType (s_disconnectOv (v_obj v)) = io_Disconnect"
    "v_inD v \<Longrightarrow> v_state v = 3" "v_inR v \<Longrightarrow> ioType (s_readOv (v_obj v)) = io_Recv \<Longrightarrow> 2 \<le> v_state v"
  using assms unfolding session_ok_def by simp_all

definition is_accept :: "sview \<Rightarrow> bool" where
  "is_accept v \<longleftrightarrow> v_inR v \<and> ioType (s_readOv (v_obj v)) = io_Accept"

definition accepts :: "world \<Rightarrow> nat set" where
  "accepts w = {i. i < cap w \<and> is_accept (view w i)}"

definition sinv :: "world \<Rightarrow> bool" where
  "sinv w \<longleftrightarrow>
     stateCount (p_set w) = ss_count \<and>
     (\<forall>i<cap w. session_ok (view w i)) \<and>
     (\<forall>i\<ge>cap w. \<not> v_inR (view w i) \<and> \<not> v_inW (view w i) \<and> \<not> v_inD (view w i)) \<and>
     (\<forall>k\<ge>depth w. p_ptrs w (Local k) = null_ptr) \<and>
     card (accepts w) \<le> unat (pendingAccepts w) \<and> unat (pendingAccepts w) \<le> unat kAcceptCount"

definition good :: "loc set \<Rightarrow> (nat \<Rightarrow> nat) \<Rightarrow> world \<Rightarrow> bool" where
  "good X F w \<longleftrightarrow> pinv X F w \<and> sinv w \<and> X \<subseteq> Local ` {..<depth w}"

lemma goodD:
  assumes "good X F w"
  shows "pinv X F w" "counted X F w" "sinv w" "X \<subseteq> Local ` {..<depth w}"
    "i < cap w \<Longrightarrow> session_ok (view w i)" "stateCount (p_set w) = 4"
    "depth w \<le> k \<Longrightarrow> p_ptrs w (Local k) = null_ptr" "depth w \<le> k \<Longrightarrow> Local k \<notin> X"
    "ReadPtr i \<notin> X" "WritePtr i \<notin> X" "DiscPtr i \<notin> X" "MgrPtr i \<notin> X"
  using assms by (auto simp: good_def sinv_def pinv_def ss_count_def)

lemma sinv_change:
  assumes s: "sinv w" and e: "env w' = env w" and v: "view w' = (view w)(i := v)" and i: "i < cap w"
    and ok: "session_ok v" and acc: "is_accept v \<Longrightarrow> is_accept (view w i)"
  shows "sinv w'"
proof -
  note E = env_eqD [OF e]
  have "accepts w' \<subseteq> accepts w" using acc by (auto simp: accepts_def v E split: if_splits)
  then have "card (accepts w') \<le> card (accepts w)"
    by (rule card_mono [rotated]) (simp add: accepts_def)
  then show ?thesis using s i ok by (auto simp: sinv_def v E)
qed

lemma sinv_change_accept:
  assumes s: "sinv w" and e: "env w' = env w" and v: "view w' = (view w)(i := v)" and i: "i < cap w"
    and ok: "session_ok v" and p: "card (accepts w) < unat (pendingAccepts w)"
  shows "sinv w'"
proof -
  note E = env_eqD [OF e]
  have "accepts w' \<subseteq> insert i (accepts w)" by (auto simp: accepts_def v E split: if_splits)
  then have "card (accepts w') \<le> card (insert i (accepts w))"
    by (rule card_mono [rotated]) (simp add: accepts_def)
  also have "\<dots> \<le> Suc (card (accepts w))" by (rule card_insert_le_m1) simp_all
  finally show ?thesis using s i ok p by (auto simp: sinv_def v E)
qed

lemma good_same_pool:
  assumes "good X F w" "same_pool w w'" "sinv w'" "depth w' = depth w"
  shows "good X F w'"
  using assms same_pool_pinv by (auto simp: good_def)

lemma good_env:
  assumes "good X F w" "pinv X F w'" "sinv w'" "env w' = env w"
  shows "good X F w'"
  using assms env_eqD(3) [OF assms(4)] by (simp add: good_def)

text \<open>A pointer of session \<open>i\<close> may be dropped while some other pointer holds the session.\<close>

definition holds :: "loc \<Rightarrow> nat \<Rightarrow> world \<Rightarrow> bool" where
  "holds k i w \<longleftrightarrow> p_ptrs w k = live_ptr (handle_of (p_set w) i)"

lemma shared_held:
  assumes "counted X F w" "holds k i w" "k \<notin> X" "l \<notin> X" "k \<noteq> l"
    and "p_ptrs w l = null_ptr \<or> p_ptrs w l = live_ptr (handle_of (p_set w) i)"
  shows "shared l w"
proof (cases "p_ptrs w l = null_ptr")
  case False
  then show ?thesis
    using assms shared_by [OF assms(1), of l k] by (auto simp: holds_def)
qed (simp add: shared_def)

lemma scoped_rule:
  assumes "f (Local (depth w)) (w\<lparr>depth := depth w + 1\<rparr>) = Inr (r, w1)" "pinv X F w1"
    "Local (depth w) \<notin> X" "shared (Local (depth w)) w1"
  shows "\<exists>w'. scoped cb f w = Inr (r, w') \<and> pinv X F w' \<and>
    repointed (w1\<lparr>depth := depth w\<rparr>) ((p_ptrs w1)(Local (depth w) := null_ptr)) w'"
proof -
  obtain w2 where w2: "Ptr_dtor cb (Local (depth w)) w1 = Inr w2" "pinv X F w2"
    "repointed w1 ((p_ptrs w1)(Local (depth w) := null_ptr)) w2"
    using Ptr_dtor_shared [OF assms(2-4), of cb] by blast
  have "same_pool w2 (w2\<lparr>depth := depth w\<rparr>)" by (simp add: same_pool_def)
  then have "pinv X F (w2\<lparr>depth := depth w\<rparr>)" using w2(2) by (rule same_pool_pinv)
  moreover have "repointed (w1\<lparr>depth := depth w\<rparr>) ((p_ptrs w1)(Local (depth w) := null_ptr)) (w2\<lparr>depth := depth w\<rparr>)"
    using w2(3) by (cases w1) (auto simp: repointed_def)
  ultimately show ?thesis using assms(1) w2(1) by (simp add: scoped_def)
qed

lemma deeper: "same_pool w (w\<lparr>depth := d\<rparr>)" "view (w\<lparr>depth := d\<rparr>) = view w"
  by (simp_all add: same_pool_def view_def fun_eq_iff)

lemma repointed_depth: "repointed (w\<lparr>depth := d\<rparr>) ps w1 \<Longrightarrow> repointed w ps (w1\<lparr>depth := depth w\<rparr>)"
  by (cases w) (auto simp: repointed_def)

text \<open>What an assignment needs of the state; it holds also between the steps of an operation.\<close>

definition based :: "loc set \<Rightarrow> (nat \<Rightarrow> nat) \<Rightarrow> world \<Rightarrow> bool" where
  "based X F w \<longleftrightarrow> pinv X F w \<and> X \<subseteq> Local ` {..<depth w} \<and> (\<forall>k\<ge>depth w. p_ptrs w (Local k) = null_ptr)"

lemma good_based: "good X F w \<Longrightarrow> based X F w"
  by (simp add: good_def based_def sinv_def)

lemma based_env: "based X F w \<Longrightarrow> pinv X F w' \<Longrightarrow> env w' = env w \<Longrightarrow> based X F w'"
  using env_eqD [of w' w] by (simp add: based_def)

lemma assign_session_ok:
  assumes g: "based X F w" and i: "i < cap w" and s: "s_sessionManager s" "s_handle s = handle_of (p_set w) i"
    and p: "p \<in> {ReadPtr i, WritePtr i, DiscPtr i}"
    and drop: "p_ptrs w p = null_ptr \<or> (\<exists>k. k \<notin> X \<and> k \<noteq> p \<and> p_ptrs w k = p_ptrs w p)"
  shows "\<exists>w'. assign_session cb p s w = Inr w' \<and> pinv X F w' \<and> repointed w ((p_ptrs w)(p := p_ptrs w (MgrPtr i))) w'"
proof -
  let ?d = "depth w" and ?t = "Local (depth w)" and ?w0 = "w\<lparr>depth := depth w + 1\<rparr>" and ?m = "p_ptrs w (MgrPtr i)"
  have pw: "pinv X F w" using g by (simp add: based_def)
  note h = handle_of_simps [OF countedD(1) [OF pinvD [OF pw]] i]
  have nX: "?t \<notin> X" "MgrPtr i \<notin> X" "p \<notin> X" "?t \<noteq> p" and null: "p_ptrs w ?t = null_ptr"
    using g p by (auto simp: based_def)
  have p0: "pinv X F ?w0" using same_pool_pinv [OF deeper(1) pw] .
  obtain w1 where w1: "Ptr_copy ?t (MgrPtr i) ?w0 = Inr w1" "pinv X F w1"
    "repointed ?w0 ((p_ptrs w)(?t := ?m)) w1"
    using Ptr_copy_ok [OF p0 nX(1) _ nX(2)] null by auto
  have ps1: "p_ptrs w1 = (p_ptrs w)(?t := ?m)" using repointedD(2) [OF w1(3)] .
  have "shared p w1"
  proof (cases "p_ptrs w p = null_ptr")
    case False
    then obtain k where k: "k \<notin> X" "k \<noteq> p" "p_ptrs w k = p_ptrs w p" using drop by blast
    moreover have "k \<noteq> ?t" using k(3) False null by auto
    ultimately show ?thesis using shared_by [OF pinvD [OF w1(2)] nX(3) k(1)] nX(4) by (simp add: ps1)
  qed (use ps1 nX(4) in \<open>simp add: shared_def\<close>)
  then obtain w2 where w2: "Ptr_move_assign cb p ?t w1 = Inr w2" "pinv X F w2"
    "repointed w1 ((p_ptrs w)(?t := null_ptr, p := ?m)) w2"
    using Ptr_move_assign_ok [OF w1(2) nX(3,1), of cb] nX(4) by (auto simp: ps1 fun_upd_twist)
  let ?f = "\<lambda>t w. rbind (SM_GetSession (s_handle s) t w) (\<lambda>w. rbind (Ptr_move_assign cb p t w) (\<lambda>w. Inr ((), w)))"
  have f: "?f ?t ?w0 = Inr ((), w2)"
    using w1(1) w2(1) h s(2) i by (simp add: SM_GetSession_def Pool_IsValid_def sessionPtrs_def)
  have "shared ?t w2" using repointedD(2) [OF w2(3)] nX(4) by (simp add: shared_def)
  from scoped_rule [where f = ?f, OF f w2(2) nX(1) this, of cb] obtain w' where w':
    "scoped cb ?f w = Inr ((), w')" "pinv X F w'"
    "repointed (w2\<lparr>depth := ?d\<rparr>) ((p_ptrs w2)(?t := null_ptr)) w'" by blast
  have "(p_ptrs w2)(?t := null_ptr) = (p_ptrs w)(p := ?m)"
    using repointedD(2) [OF w2(3)] nX(4) null by (auto simp: fun_eq_iff)
  then have "repointed w ((p_ptrs w)(p := ?m)) w'"
    using repointed_trans [OF repointed_depth [OF repointed_trans [OF w1(3) w2(3)]] w'(3)] by simp
  then show ?thesis using w'(1,2) s(1) by (simp add: assign_session_def)
qed

end
