(* ===== verification/Session_Io.thy ===== *)
theory Session_Io
  imports Server_World
begin

text \<open>
  \<^verbatim>\<open>Network/Server/Session.cpp\<close>: posting receives and sends, and \<^verbatim>\<open>SendPacket\<close>. \<open>i\<close> is the slot of the session
  the member function runs on (\<^verbatim>\<open>this\<close>).
\<close>

section \<open>Definitions\<close>

definition RegisterRead :: "world callbacks \<Rightarrow> os \<Rightarrow> nat \<Rightarrow> world \<Rightarrow> (bool \<times> world) res" where
  "RegisterRead cb os i w =
     rbind (get_session i w) (\<lambda>s.
     let (space, ov) = RegisterRead_prepare (s_readOv s); s = s\<lparr>s_readOv := ov\<rparr> in
     rbind (put_session i s w) (\<lambda>w.
     if \<not> space then Inr (False, w)
     else
       rbind (assign_session cb (ReadPtr i) s w) (\<lambda>w.
       rbind (overlapped_call os (ReadOv i) (WSARecv i (wsa_buf ov) (wsa_len ov)) w) (\<lambda>(result, errorCode, w).
       if result = SOCKET_ERROR then
         if errorCode = WSA_IO_PENDING then Inr (True, w)
         else rbind (Ptr_Reset cb (ReadPtr i) w) (\<lambda>(_, w). Inr (False, w))
       else Inr (True, w)))))"

definition RegisterWriteInternal :: "world callbacks \<Rightarrow> os \<Rightarrow> nat \<Rightarrow> world \<Rightarrow> (bool \<times> world) res" where
  "RegisterWriteInternal cb os i w =
     rbind (get_session i w) (\<lambda>s.
     if \<not> s_isSending s then Inl Assertion_failed
     else
       let ov = RegisterWrite_prepare (s_writeOv s); s = s\<lparr>s_writeOv := ov\<rparr> in
       rbind (put_session i s w) (\<lambda>w.
       rbind (assign_session cb (WritePtr i) s w) (\<lambda>w.
       rbind (overlapped_call os (WriteOv i) (WSASend i (wsa_buf ov) (wsa_len ov)) w) (\<lambda>(result, errorCode, w).
       if result = SOCKET_ERROR then
         if errorCode = WSA_IO_PENDING then Inr (True, w)
         else rbind (Ptr_Reset cb (WritePtr i) w) (\<lambda>(_, w). Inr (False, w))
       else Inr (True, w)))))"

text \<open>\<open>packet\<close> is the object \<^verbatim>\<open>header\<close> refers to.\<close>

definition SendPacket :: "world callbacks \<Rightarrow> os \<Rightarrow> byte list \<Rightarrow> nat \<Rightarrow> world \<Rightarrow> (bool \<times> world) res" where
  "SendPacket cb os packet i w =
     rbind (get_session i w) (\<lambda>s.
     rbind (SendPacket_store packet (s_writeOv s)) (\<lambda>(stored, ov).
     if \<not> stored then Inr (False, w)
     else
       let s = s\<lparr>s_writeOv := ov\<rparr> in
       rbind (put_session i s w) (\<lambda>w.
       if \<not> s_isSending s then
         rbind (put_session i (s\<lparr>s_isSending := True\<rparr>) w) (\<lambda>w.
         RegisterWriteInternal cb os i w)
       else Inr (True, w))))"

section \<open>Posting an operation\<close>

text \<open>The common end of \<^const>\<open>RegisterRead\<close> and \<^const>\<open>RegisterWriteInternal\<close>.\<close>

definition post_io ::
  "world callbacks \<Rightarrow> os \<Rightarrow> ov_ref \<Rightarrow> loc \<Rightarrow> api_call \<Rightarrow> session \<Rightarrow> world \<Rightarrow> (bool \<times> world) res" where
  "post_io cb os r p c s w =
     rbind (assign_session cb p s w) (\<lambda>w.
     rbind (overlapped_call os r c w) (\<lambda>(result, errorCode, w).
     if result = SOCKET_ERROR then
       if errorCode = WSA_IO_PENDING then Inr (True, w)
       else rbind (Ptr_Reset cb p w) (\<lambda>(_, w). Inr (False, w))
     else Inr (True, w)))"

fun pointed :: "ov_ref \<Rightarrow> sptr \<Rightarrow> sview \<Rightarrow> sview" where
  "pointed (ReadOv _) p v = v\<lparr>v_read := p\<rparr>"
| "pointed (WriteOv _) p v = v\<lparr>v_write := p\<rparr>"
| "pointed (DiscOv _) p v = v\<lparr>v_disc := p\<rparr>"

fun ov_ptr :: "ov_ref \<Rightarrow> loc" where
  "ov_ptr (ReadOv i) = ReadPtr i"
| "ov_ptr (WriteOv i) = WritePtr i"
| "ov_ptr (DiscOv i) = DiscPtr i"

lemma pointed_launched:
  "pointed r p (launched r b v) = launched r b (pointed r p v)" "pointed r p (pointed r q v) = pointed r p v"
  by (cases r; cases v; simp)+

lemma repointed_own:
  assumes "repointed w ((p_ptrs w)(ov_ptr r := p)) w'"
  shows "view w' = (view w)(ov_session r := pointed r p (view w (ov_session r)))" "env w' = env w"
proof -
  show "view w' = (view w)(ov_session r := pointed r p (view w (ov_session r)))"
    using repointed_view [OF assms] by (cases r) (auto simp: fun_eq_iff view_fields)
  show "env w' = env w" by (rule repointed_env [OF assms]) (cases r; simp)
qed

lemma state_lt:
  assumes "good X F w" "i < cap w"
  shows "v_state (view w i) < 4"
  using layoutD(8) [OF ss_invD(7) [OF countedD(1) [OF goodD(2) [OF assms(1)]]] assms(2)] goodD(6) [OF assms(1)]
  by (simp add: view_slot [OF goodD(2) [OF assms(1)] assms(2)])

lemma own_ptr:
  assumes "good X F w" "ov_session r < cap w"
  shows "p_ptrs w (ov_ptr r) = null_ptr \<or> p_ptrs w (ov_ptr r) = live_ptr (handle_of (p_set w) (ov_session r))"
    and "ov_ptr r \<notin> X"
  using goodD(5) [OF assms] goodD(9-11) [OF assms(1)] view_slot(3) [OF goodD(2) [OF assms(1)] assms(2)]
  by (cases r; auto simp: session_ok_def self_ptr_def view_fields)+

lemma Reset_own:
  assumes g: "good X F w" and i: "ov_session r < cap w" and h: "holds k (ov_session r) w" "k \<notin> X" "k \<noteq> ov_ptr r"
  shows "\<exists>w'. Ptr_Reset cb (ov_ptr r) w = Inr (False, w') \<and> pinv X F w' \<and> env w' = env w \<and>
    view w' = (view w)(ov_session r := pointed r null_ptr (view w (ov_session r)))"
proof -
  note o = own_ptr [OF g i]
  have "shared (ov_ptr r) w" by (rule shared_held [OF goodD(2) [OF g] h(1,2) o(2) h(3) o(1)])
  from Ptr_Reset_shared [OF goodD(1) [OF g] o(2) this, of cb] show ?thesis
    using repointed_own by blast
qed

lemma post_io_ok:
  assumes g: "good X F w" and os: "os_respects os" and i: "i < cap w" and busy: "v_state (view w i) \<noteq> 0"
    and h: "holds k i w" "k \<notin> X" "k \<noteq> ov_ptr r" and r: "ov_session r = i" "\<not> in_flight w r"
    and c: "c = WSARecv i a n \<or> c = WSASend i a n" and s: "s = v_obj (view w i)"
  shows "\<exists>b w'. post_io cb os r (ov_ptr r) c s w = Inr (b, w') \<and> pinv X F w' \<and> env w' = env w \<and>
    view w' = (view w)(i := launched r b (pointed r (if b then live_ptr (v_handle (view w i)) else null_ptr) (view w i)))"
proof -
  note S = view_slot [OF goodD(2) [OF g] i] and ok = goodD(5) [OF g i]
  note o = own_ptr [OF g, of r, unfolded r(1), OF i]
  have sm: "s_sessionManager s" "s_handle s = handle_of (p_set w) i"
    using ok busy S(3) by (simp_all add: session_ok_def s)
  have p3: "ov_ptr r \<in> {ReadPtr i, WritePtr i, DiscPtr i}" using r(1) by (cases r) auto
  have drop: "p_ptrs w (ov_ptr r) = null_ptr \<or> (\<exists>k. k \<notin> X \<and> k \<noteq> ov_ptr r \<and> p_ptrs w k = p_ptrs w (ov_ptr r))"
    using o(1) h by (auto simp: holds_def)
  obtain w1 where w1: "assign_session cb (ov_ptr r) s w = Inr w1" "pinv X F w1"
    "repointed w ((p_ptrs w)(ov_ptr r := p_ptrs w (MgrPtr i))) w1"
    using assign_session_ok [OF good_based [OF g] i sm p3 drop, of cb] by blast
  note V1 = repointed_own [OF w1(3), unfolded r(1)]
  define m where "m = v_mgr (view w i)"
  have v1: "view w1 = (view w)(i := pointed r m (view w i))" using V1(1) by (simp add: m_def view_fields)
  let ?acc = "accepted c (fst (os w1 c)) (snd (os w1 c))"
  have fl: "in_flight w1 = in_flight w" "p_set w1 = p_set w" "api_log w1 = api_log w"
    "p_ptrs w1 = (p_ptrs w)(ov_ptr r := p_ptrs w (MgrPtr i))" using w1(3) by (auto simp: repointed_def)
  obtain w2 where w2: "overlapped_call os r c w1 = Inr (fst (os w1 c), snd (os w1 c), w2)" "same_pool w1 w2"
    "env w2 = env w1" and v2: "view w2 = (view w1)(i := launched r ?acc (view w1 i))"
    using overlapped_call_ok [of w1 r c os] r fl(1) c by (force simp: after_call_def)
  have p2: "pinv X F w2" by (rule same_pool_pinv [OF w2(2) w1(2)])
  have e2: "env w2 = env w" using w2(3) V1(2) by simp
  have acc_iff: "?acc \<longleftrightarrow> fst (os w1 c) \<noteq> SOCKET_ERROR \<or> snd (os w1 c) = WSA_IO_PENDING" using c by auto
  show ?thesis
  proof (cases ?acc)
    case True
    then have "\<not> closed i (api_log w1)" using os c by (auto simp: os_respects_def)
    then have "v_state (view w i) \<noteq> 3" using ok fl(3) by (auto simp: session_ok_def view_fields)
    then have m: "m = live_ptr (v_handle (view w i))"
      using ok busy state_lt [OF g i] by (auto simp: session_ok_def m_def)
    have "post_io cb os r (ov_ptr r) c s w = Inr (True, w2)"
      using w1(1) w2(1) True acc_iff by (simp add: post_io_def)
    then show ?thesis using p2 e2 v2 v1 True m by (intro exI [of _ True] exI [of _ w2]) simp
  next
    case False
    have d2: "p_set w2 = p_set w" "p_ptrs w2 = (p_ptrs w)(ov_ptr r := p_ptrs w (MgrPtr i))"
      using same_poolD(1,2) [OF w2(2)] fl by simp_all
    have "p_ptrs w2 (ov_ptr r) = null_ptr \<or> p_ptrs w2 (ov_ptr r) = live_ptr (handle_of (p_set w2) i)"
      using ok S(3) d2 by (auto simp: session_ok_def self_ptr_def view_fields)
    then have "shared (ov_ptr r) w2"
      using shared_held [OF pinvD [OF p2] _ h(2) o(2) h(3)] h(1,3) d2 by (auto simp: holds_def)
    from Ptr_Reset_shared [OF p2 o(2) this, of cb] obtain w3 where
      w3: "Ptr_Reset cb (ov_ptr r) w2 = Inr (False, w3)" "pinv X F w3"
      "repointed w2 ((p_ptrs w2)(ov_ptr r := null_ptr)) w3" by blast
    have "view w3 = (view w)(i := launched r False (pointed r null_ptr (view w i)))"
      using repointed_own(1) [OF w3(3)] r(1) v2 v1 False by (simp add: pointed_launched)
    moreover have "post_io cb os r (ov_ptr r) c s w = Inr (False, w3)"
      using w1(1) w2(1) w3(1) False acc_iff by (simp add: post_io_def)
    ultimately show ?thesis using w3(2) repointed_own(2) [OF w3(3)] e2 by auto
  qed
qed

section \<open>Receives and sends keep the invariant\<close>

lemma RegisterRead_prepare_ok:
  assumes wf: "ov_wf ov" and p: "RegisterRead_prepare ov = (space, ov')"
  shows "ov_wf ov'" "window ov' = window ov" "ov_buffer ov' = ov_buffer ov"
    "space \<Longrightarrow> ioType ov' = io_Recv \<and> wsa_buf ov' = writePos ov' \<and>
      unat (wsa_len ov') + length (window ov') \<le> mb_size (ov_buffer ov')"
proof -
  note R = RegisterRead_region [OF wf]
  have eq: "ov' = snd (RegisterRead_prepare ov)" "space = fst (RegisterRead_prepare ov)" using p by simp_all
  have f: "ov_buffer ov' = ov_buffer ov" "readPos ov' = readPos ov" "writePos ov' = writePos ov"
    by (auto simp: eq(1) RegisterRead_prepare_def Let_def)
  then show "ov_wf ov'" "window ov' = window ov" "ov_buffer ov' = ov_buffer ov"
    using wf by (simp_all add: ov_wf_def window_def)
  then show "ioType ov' = io_Recv \<and> wsa_buf ov' = writePos ov' \<and>
      unat (wsa_len ov') + length (window ov') \<le> mb_size (ov_buffer ov')" if sp: space
    using R(1,2) sp by (auto simp: eq RegisterRead_prepare_def Let_def split: if_splits)
qed

lemma RegisterRead_ok:
  assumes g: "good X F w" and os: "os_respects os" and i: "i < cap w" and busy: "2 \<le> v_state (view w i)"
    and wf: "ov_wf (s_readOv (v_obj (view w i)))"
    and h: "holds k i w" "k \<notin> X" "k \<noteq> ReadPtr i" and fl: "\<not> v_inR (view w i)"
  shows "\<exists>b w' ov p f. RegisterRead cb os i w = Inr (b, w') \<and> good X F w' \<and> env w' = env w \<and>
    view w' = (view w)(i := (view w i)\<lparr>v_obj := (v_obj (view w i))\<lparr>s_readOv := ov\<rparr>, v_read := p, v_inR := f\<rparr>)"
proof -
  let ?s = "v_obj (view w i)"
  obtain space ov where pr: "RegisterRead_prepare (s_readOv ?s) = (space, ov)" by force
  note ok = goodD(5) [OF g i]
  note P = RegisterRead_prepare_ok [OF wf pr]
  let ?s1 = "?s\<lparr>s_readOv := ov\<rparr>"
  obtain w1 where w1: "put_session i ?s1 w = Inr w1" "same_pool w w1" "env w1 = env w"
    "view w1 = (view w)(i := (view w i)\<lparr>v_obj := ?s1\<rparr>)"
    using put_session_ok [OF goodD(2) [OF g] i] by blast
  have "sinv w1" by (rule sinv_change [OF goodD(3) [OF g] w1(3,4) i])
      (use ok P(1,3) fl busy in \<open>auto simp: session_ok_def self_ptr_def is_accept_def write_posted_def\<close>)
  then have g1: "good X F w1" using good_same_pool [OF g w1(2)] env_eqD(3) [OF w1(3)] by simp
  note get = get_session_ok [OF goodD(2) [OF g] i]
  show ?thesis
  proof (cases space)
    case False
    then have "RegisterRead cb os i w = Inr (False, w1)" using get pr w1(1) by (simp add: RegisterRead_def)
    moreover have "view w1 = (view w)(i := (view w i)\<lparr>v_obj := ?s1, v_read := v_read (view w i), v_inR := v_inR (view w i)\<rparr>)"
      using w1(4) by simp
    ultimately show ?thesis using g1 w1(3) by blast
  next
    case True
    have i1: "i < cap w1" using i env_eqD(1) [OF w1(3)] by simp
    have h1: "holds k i w1" using h(1) same_poolD(1,2) [OF w1(2)] by (simp add: holds_def)
    have nf: "\<not> in_flight w1 (ReadOv i)" using fl w1(4) view_fields(6) [of w1 i] by simp
    have "\<exists>b w'. post_io cb os (ReadOv i) (ov_ptr (ReadOv i)) (WSARecv i (wsa_buf ov) (wsa_len ov)) ?s1 w1 = Inr (b, w') \<and>
      pinv X F w' \<and> env w' = env w1 \<and> view w' = (view w1)(i := launched (ReadOv i) b
        (pointed (ReadOv i) (if b then live_ptr (v_handle (view w1 i)) else null_ptr) (view w1 i)))"
      by (rule post_io_ok [OF g1 os i1 _ h1 h(2)]) (use busy w1(4) h(3) nf in auto)
    then obtain b w2 where w2: "post_io cb os (ReadOv i) (ReadPtr i) (WSARecv i (wsa_buf ov) (wsa_len ov)) ?s1 w1 = Inr (b, w2)"
      "pinv X F w2" "env w2 = env w1" and v2: "view w2 = (view w)(i := (view w i)\<lparr>v_obj := ?s1,
        v_read := (if b then live_ptr (v_handle (view w i)) else null_ptr), v_inR := b\<rparr>)"
      using w1(4) by auto
    have "sinv w2" by (rule sinv_change [OF goodD(3) [OF g] _ v2 i])
        (use ok P True busy w1(3) w2(3) in \<open>auto simp: session_ok_def self_ptr_def is_accept_def write_posted_def read_posted_def\<close>)
    then have "good X F w2" using good_env [OF g w2(2)] w2(3) w1(3) by simp
    moreover have "RegisterRead cb os i w = Inr (b, w2)"
      using get pr w1(1) w2(1) True by (simp add: RegisterRead_def post_io_def)
    ultimately show ?thesis using w2(3) w1(3) v2 by auto
  qed
qed

lemma RegisterWriteInternal_ok:
  assumes g: "good X F w" and os: "os_respects os" and i: "i < cap w" and busy: "v_state (view w i) \<noteq> 0"
    and h: "holds k i w" "k \<notin> X" "k \<noteq> WritePtr i" and fl: "\<not> v_inW (view w i)" and se: "s_isSending (v_obj (view w i))"
  shows "\<exists>b w' ov p f. RegisterWriteInternal cb os i w = Inr (b, w') \<and> good X F w' \<and> env w' = env w \<and>
    window ov = window (s_writeOv (v_obj (view w i))) \<and>
    mb_size (ov_buffer ov) = mb_size (ov_buffer (s_writeOv (v_obj (view w i)))) \<and>
    view w' = (view w)(i := (view w i)\<lparr>v_obj := (v_obj (view w i))\<lparr>s_writeOv := ov\<rparr>, v_write := p, v_inW := f\<rparr>)"
proof -
  let ?s = "v_obj (view w i)"
  let ?ov = "RegisterWrite_prepare (s_writeOv ?s)"
  note ok = goodD(5) [OF g i]
  have wf0: "ov_wf (s_writeOv ?s)" using ok by (simp add: session_ok_def)
  have P: "ov_wf ?ov" "window ?ov = window (s_writeOv ?s)" "ioType ?ov = io_Send"
    "mb_size (ov_buffer ?ov) = mb_size (ov_buffer (s_writeOv ?s))"
    using wf0 by (simp_all add: RegisterWrite_prepare_def ov_wf_def window_def)
  have "unat (wsa_len ?ov) = length (window (s_writeOv ?s))"
    using available_data [OF wf0] ov_wfD [OF wf0]
    by (simp add: RegisterWrite_prepare_def) (subst unat_ucast_u64_u32; simp)
  then have len: "unat (wsa_len ?ov) \<le> length (window ?ov)" using P(2) by simp
  let ?s1 = "?s\<lparr>s_writeOv := ?ov\<rparr>"
  obtain w1 where w1: "put_session i ?s1 w = Inr w1" "same_pool w w1" "env w1 = env w"
    "view w1 = (view w)(i := (view w i)\<lparr>v_obj := ?s1\<rparr>)"
    using put_session_ok [OF goodD(2) [OF g] i] by blast
  have "sinv w1" by (rule sinv_change [OF goodD(3) [OF g] w1(3,4) i])
      (use ok P(1) fl in \<open>auto simp: session_ok_def self_ptr_def is_accept_def read_posted_def\<close>)
  then have g1: "good X F w1" using good_same_pool [OF g w1(2)] env_eqD(3) [OF w1(3)] by simp
  note get = get_session_ok [OF goodD(2) [OF g] i]
  have i1: "i < cap w1" using i env_eqD(1) [OF w1(3)] by simp
  have h1: "holds k i w1" using h(1) same_poolD(1,2) [OF w1(2)] by (simp add: holds_def)
  have nf: "\<not> in_flight w1 (WriteOv i)" using fl w1(4) view_fields(7) [of w1 i] by simp
  have "\<exists>b w'. post_io cb os (WriteOv i) (ov_ptr (WriteOv i)) (WSASend i (wsa_buf ?ov) (wsa_len ?ov)) ?s1 w1 = Inr (b, w') \<and>
      pinv X F w' \<and> env w' = env w1 \<and> view w' = (view w1)(i := launched (WriteOv i) b
        (pointed (WriteOv i) (if b then live_ptr (v_handle (view w1 i)) else null_ptr) (view w1 i)))"
    by (rule post_io_ok [OF g1 os i1 _ h1 h(2)]) (use busy w1(4) h(3) nf in auto)
  then obtain b w2 where w2: "post_io cb os (WriteOv i) (WritePtr i) (WSASend i (wsa_buf ?ov) (wsa_len ?ov)) ?s1 w1 = Inr (b, w2)"
      "pinv X F w2" "env w2 = env w1" and v2: "view w2 = (view w)(i := (view w i)\<lparr>v_obj := ?s1,
        v_write := (if b then live_ptr (v_handle (view w i)) else null_ptr), v_inW := b\<rparr>)"
    using w1(4) by auto
  have "sinv w2" by (rule sinv_change [OF goodD(3) [OF g] _ v2 i])
      (use ok P len se w1(3) w2(3) in \<open>auto simp: session_ok_def self_ptr_def is_accept_def write_posted_def read_posted_def\<close>)
  then have "good X F w2" using good_env [OF g w2(2)] w2(3) w1(3) by simp
  moreover have "RegisterWriteInternal cb os i w = Inr (b, w2)"
    using get w1(1) w2(1) se by (simp add: RegisterWriteInternal_def post_io_def Let_def)
  ultimately show ?thesis using w2(3) w1(3) v2 P(2,4) by metis
qed

text \<open>
  What \<^const>\<open>SendPacket\<close> does to session \<open>i\<close>: it appends the packet to the bytes waiting to be sent if they fit, and
  nothing otherwise.
\<close>

definition enqueued :: "byte list \<Rightarrow> sview \<Rightarrow> sview \<Rightarrow> bool" where
  "enqueued packet v v' \<longleftrightarrow>
     (\<exists>ov p f sd. v' = v\<lparr>v_obj := (v_obj v)\<lparr>s_writeOv := ov, s_isSending := sd\<rparr>, v_write := p, v_inW := f\<rparr> \<and>
       (if length (window (s_writeOv (v_obj v))) + packet_size packet \<le> mb_size (ov_buffer (s_writeOv (v_obj v)))
        then window ov = window (s_writeOv (v_obj v)) @ take (packet_size packet) packet \<and> sd \<and>
          mb_size (ov_buffer ov) = mb_size (ov_buffer (s_writeOv (v_obj v)))
        else v' = v))"

lemma session_commute: "(s :: session)\<lparr>s_isSending := b, s_writeOv := ov\<rparr> = s\<lparr>s_writeOv := ov, s_isSending := b\<rparr>"
  by (cases s) simp

lemma start_sending:
  assumes g: "good X F w" and os: "os_respects os" and i: "i < cap w" and busy: "v_state (view w i) \<noteq> 0"
    and h: "holds k i w" "k \<notin> X" "k \<noteq> WritePtr i" and idle: "\<not> s_isSending (v_obj (view w i))"
  shows "\<exists>b w' ov p f. rbind (put_session i ((v_obj (view w i))\<lparr>s_isSending := True\<rparr>) w)
      (\<lambda>w. RegisterWriteInternal cb os i w) = Inr (b, w') \<and> good X F w' \<and> env w' = env w \<and>
    window ov = window (s_writeOv (v_obj (view w i))) \<and>
    mb_size (ov_buffer ov) = mb_size (ov_buffer (s_writeOv (v_obj (view w i)))) \<and>
    view w' = (view w)(i := (view w i)\<lparr>v_obj := (v_obj (view w i))\<lparr>s_writeOv := ov, s_isSending := True\<rparr>,
      v_write := p, v_inW := f\<rparr>)"
proof -
  let ?s = "v_obj (view w i)\<lparr>s_isSending := True\<rparr>"
  note ok = goodD(5) [OF g i]
  obtain w2 where w2: "put_session i ?s w = Inr w2" "same_pool w w2" "env w2 = env w"
    "view w2 = (view w)(i := (view w i)\<lparr>v_obj := ?s\<rparr>)"
    using put_session_ok [OF goodD(2) [OF g] i] by blast
  have nw: "\<not> v_inW (view w i)" using ok idle by (auto simp: session_ok_def write_posted_def)
  have "sinv w2" by (rule sinv_change [OF goodD(3) [OF g] w2(3,4) i])
      (use ok nw in \<open>auto simp: session_ok_def self_ptr_def is_accept_def read_posted_def\<close>)
  then have g2: "good X F w2" using good_same_pool [OF g w2(2)] env_eqD(3) [OF w2(3)] by simp
  have h2: "holds k i w2" using h(1) same_poolD(1,2) [OF w2(2)] by (simp add: holds_def)
  have "\<exists>b w' ov' p f. RegisterWriteInternal cb os i w2 = Inr (b, w') \<and> good X F w' \<and> env w' = env w2 \<and>
    window ov' = window (s_writeOv (v_obj (view w2 i))) \<and>
    mb_size (ov_buffer ov') = mb_size (ov_buffer (s_writeOv (v_obj (view w2 i)))) \<and>
    view w' = (view w2)(i := (view w2 i)\<lparr>v_obj := (v_obj (view w2 i))\<lparr>s_writeOv := ov'\<rparr>, v_write := p, v_inW := f\<rparr>)"
    by (rule RegisterWriteInternal_ok [OF g2 os _ _ h2 h(2,3)])
      (use i busy nw w2(4) env_eqD(1) [OF w2(3)] in auto)
  then show ?thesis using w2 by (fastforce simp: session_commute)
qed

lemma SendPacket_ok:
  assumes g: "good X F w" and os: "os_respects os" and i: "i < cap w" and busy: "v_state (view w i) \<noteq> 0"
    and h: "holds k i w" "k \<notin> X" "k \<noteq> WritePtr i"
    and p: "4 \<le> length packet" "packet_size packet \<le> length packet"
  shows "\<exists>b w' v. SendPacket cb os packet i w = Inr (b, w') \<and> good X F w' \<and> env w' = env w \<and>
    view w' = (view w)(i := v) \<and> enqueued packet (view w i) v"
proof -
  let ?s = "v_obj (view w i)"
  note ok = goodD(5) [OF g i] and get = get_session_ok [OF goodD(2) [OF g] i]
  have wf: "ov_wf (s_writeOv ?s)" using ok by (simp add: session_ok_def)
  from SendPacket_store_ok [OF wf p] consider
    (full) "SendPacket_store packet (s_writeOv ?s) = Inr (False, s_writeOv ?s)"
      "mb_size (ov_buffer (s_writeOv ?s)) < length (window (s_writeOv ?s)) + packet_size packet"
    | (stored) ov where "SendPacket_store packet (s_writeOv ?s) = Inr (True, ov)" "ov_wf ov"
      "window ov = window (s_writeOv ?s) @ take (packet_size packet) packet" "ioType ov = ioType (s_writeOv ?s)"
      "wsa_len ov = wsa_len (s_writeOv ?s)"
      "length (window (s_writeOv ?s)) + packet_size packet \<le> mb_size (ov_buffer (s_writeOv ?s))"
      "mb_size (ov_buffer ov) = mb_size (ov_buffer (s_writeOv ?s))" by blast
  then show ?thesis
  proof cases
    case full
    have "enqueued packet (view w i) (view w i)" unfolding enqueued_def
      by (rule exI [of _ "s_writeOv ?s"], rule exI [of _ "v_write (view w i)"], rule exI [of _ "v_inW (view w i)"],
          rule exI [of _ "s_isSending ?s"]) (use full(2) in simp)
    moreover have "SendPacket cb os packet i w = Inr (False, w)" using get full(1) by (simp add: SendPacket_def)
    ultimately show ?thesis using g by (metis fun_upd_triv)
  next
    case stored
    let ?s1 = "?s\<lparr>s_writeOv := ov\<rparr>"
    have post: "write_posted ?s \<Longrightarrow> write_posted ?s1" using stored by (auto simp: write_posted_def)
    obtain w1 where w1: "put_session i ?s1 w = Inr w1" "same_pool w w1" "env w1 = env w"
      "view w1 = (view w)(i := (view w i)\<lparr>v_obj := ?s1\<rparr>)"
      using put_session_ok [OF goodD(2) [OF g] i] by blast
    have "sinv w1" by (rule sinv_change [OF goodD(3) [OF g] w1(3,4) i])
        (use ok stored(2) post in \<open>auto simp: session_ok_def self_ptr_def is_accept_def read_posted_def\<close>)
    then have g1: "good X F w1" using good_same_pool [OF g w1(2)] env_eqD(3) [OF w1(3)] by simp
    show ?thesis
    proof (cases "s_isSending ?s")
      case True
      have "enqueued packet (view w i) ((view w i)\<lparr>v_obj := ?s1\<rparr>)" unfolding enqueued_def
        by (rule exI [of _ ov], rule exI [of _ "v_write (view w i)"], rule exI [of _ "v_inW (view w i)"],
            rule exI [of _ True]) (use stored True in simp)
      moreover have "SendPacket cb os packet i w = Inr (True, w1)"
        using get stored(1) w1(1) True by (simp add: SendPacket_def Let_def)
      ultimately show ?thesis using g1 w1(3,4) by blast
    next
      case False
      have i1: "i < cap w1" using i env_eqD(1) [OF w1(3)] by simp
      have h1: "holds k i w1" using h(1) same_poolD(1,2) [OF w1(2)] by (simp add: holds_def)
      have v1: "view w1 i = (view w i)\<lparr>v_obj := ?s1\<rparr>" using w1(4) by simp
      obtain b w3 ov' q f where w3: "rbind (put_session i (?s1\<lparr>s_isSending := True\<rparr>) w1)
          (\<lambda>w. RegisterWriteInternal cb os i w) = Inr (b, w3)" "good X F w3" "env w3 = env w1" "window ov' = window ov"
          "mb_size (ov_buffer ov') = mb_size (ov_buffer ov)"
        and v3: "view w3 = (view w)(i := (view w i)\<lparr>v_obj := ?s\<lparr>s_writeOv := ov', s_isSending := True\<rparr>,
          v_write := q, v_inW := f\<rparr>)"
        using start_sending [OF g1 os i1 _ h1 h(2,3), of cb] busy False w1(4) unfolding v1 by force
      have "enqueued packet (view w i) ((view w i)\<lparr>v_obj := ?s\<lparr>s_writeOv := ov', s_isSending := True\<rparr>,
          v_write := q, v_inW := f\<rparr>)" unfolding enqueued_def
        by (rule exI [of _ ov'], rule exI [of _ q], rule exI [of _ f], rule exI [of _ True]) (use stored w3(4,5) in simp)
      moreover have "SendPacket cb os packet i w = Inr (b, w3)"
        using get stored(1) w1(1) w3(1) False by (simp add: SendPacket_def Let_def)
      ultimately show ?thesis using w3(2,3) v3 w1(3) by auto
    qed
  qed
qed

end
