(* ===== verification/Packet_Handler.thy ===== *)
theory Packet_Handler
  imports Session_Io
begin

text \<open>
  \<^verbatim>\<open>SessionManager::Broadcast\<close> and \<^verbatim>\<open>Network/Server/PacketHandler.{hpp,cpp}\<close>: the two packet handlers and the
  table they are registered in.
\<close>

section \<open>Definitions\<close>

fun Broadcast_loop ::
  "world callbacks \<Rightarrow> os \<Rightarrow> byte list \<Rightarrow> u64 \<Rightarrow> u64 list \<Rightarrow> world \<Rightarrow> world res" where
  "Broadcast_loop cb os packet sessionHandle [] w = Inr w"
| "Broadcast_loop cb os packet sessionHandle (handle # handles) w =
     (if handle = sessionHandle then Broadcast_loop cb os packet sessionHandle handles w
      else
        rbind (sessionPtrs (who_of handle) w) (\<lambda>p.
        rbind (if Ptr_IsValid p w then
                 rbind (Ptr_deref p w) (\<lambda>i.
                 rbind (SendPacket cb os packet i w) (\<lambda>(_, w). Inr w))
               else Inr w) (\<lambda>w.
        Broadcast_loop cb os packet sessionHandle handles w)))"

definition Broadcast ::
  "world callbacks \<Rightarrow> os \<Rightarrow> byte list \<Rightarrow> u64 \<Rightarrow> world \<Rightarrow> (bool \<times> world) res" where
  "Broadcast cb os packet sessionHandle w =
     rbind (GetIndicesInState (ss_value kConnected) (p_set w)) (\<lambda>handles.
     rbind (Broadcast_loop cb os packet sessionHandle handles w) (\<lambda>w.
     Inr (True, w)))"

text \<open>
  A handler gets the packet's position in the read buffer. The fields of \<^verbatim>\<open>C2S_MOVE\<close> are read without
  looking at the size in the header.
\<close>

definition HandleC2S_MOVE :: "world callbacks \<Rightarrow> os \<Rightarrow> nat \<Rightarrow> world handler" where
  "HandleC2S_MOVE cb os i b pos w =
     rbind (get_session i w) (\<lambda>s.
     if \<not> s_sessionManager s then Inl Null_deref
     else
       rbind (mb_read pos C2S_MOVE_size b) (\<lambda>moveData.
       let movePacket = \<lparr>
             mv_header = \<lparr>h_size = word_of_nat S2C_MOVE_size, h_id = s2c_value s2c_Move\<rparr>,
             mv_sessionHandle = s_handle s,
             mv_x = take 4 (drop 4 moveData), mv_y = take 4 (drop 8 moveData)\<rparr> in
       Broadcast cb os (S2C_MOVE_bytes movePacket) (s_handle s) w))"

text \<open>
  The vector of \<^verbatim>\<open>header.size + 8\<close> bytes; its size field is a \<^verbatim>\<open>uint16_t\<close>. A size below that of the header
  would make the length of the copy wrap.
\<close>

definition HandleC2S_CHAT :: "world callbacks \<Rightarrow> os \<Rightarrow> nat \<Rightarrow> world handler" where
  "HandleC2S_CHAT cb os i b pos w =
     rbind (get_session i w) (\<lambda>s.
     if \<not> s_sessionManager s then Inl Null_deref
     else
       rbind (mb_read pos header_size b) (\<lambda>hb.
       let n = h_size (header_at hb) in
       if unat n < header_size then Inl Out_of_bounds
       else
         rbind (mb_read (pos + header_size) (unat n - header_size) b) (\<lambda>message.
         let chatPacket =
               header_bytes \<lparr>h_size = n + 8, h_id = s2c_value s2c_Chat\<rparr> @ u64_bytes (s_handle s) @ message in
         Broadcast cb os chatPacket (s_handle s) w)))"

text \<open>\<^verbatim>\<open>handlers\<close> as the two registrations leave it: the entry of \<^verbatim>\<open>kNone\<close> is an empty \<^verbatim>\<open>std::function\<close>.\<close>

definition handlers :: "world callbacks \<Rightarrow> os \<Rightarrow> nat \<Rightarrow> world handler option list" where
  "handlers cb os i =
     (replicate c2s_count None)
       [unat (c2s_value c2s_Move) := Some (HandleC2S_MOVE cb os i),
        unat (c2s_value c2s_Chat) := Some (HandleC2S_CHAT cb os i)]"

definition Execute :: "world callbacks \<Rightarrow> os \<Rightarrow> nat \<Rightarrow> world handler" where
  "Execute cb os i b pos w =
     rbind (mb_read pos header_size b) (\<lambda>hb.
     rbind (aget (handlers cb os i) (unat (h_id (header_at hb)))) (\<lambda>h.
     case h of None \<Rightarrow> Inl Bad_function_call | Some f \<Rightarrow> f b pos w))"

section \<open>Broadcasting\<close>

lemma Ptr_deref_live:
  assumes "counted X F w" "l \<notin> X" "p_ptrs w l = live_ptr h"
  shows "Ptr_deref l w = Inr (who_of h)" "Ptr_IsValid l w"
  using countedD(3) [OF assms(1,2)] assms(3)
  by (simp_all add: Ptr_deref_def Ptr_Get_def Ptr_IsValid_def GetObj_def Pool_IsValid_def)

text \<open>\<open>connected h w\<close>: \<open>h\<close> is the handle of a session in the connected state.\<close>

definition connected :: "u64 \<Rightarrow> world \<Rightarrow> bool" where
  "connected h w \<longleftrightarrow> who_of h < cap w \<and> v_handle (view w (who_of h)) = h \<and> v_state (view w (who_of h)) = ss_value kConnected"

text \<open>The states in which the packet is in the outgoing bytes of the sessions \<open>I\<close> and nothing else happened.\<close>

definition delivered :: "byte list \<Rightarrow> nat set \<Rightarrow> world \<Rightarrow> world \<Rightarrow> bool" where
  "delivered packet I w w' \<longleftrightarrow>
     env w' = env w \<and> (\<forall>j. if j \<in> I then enqueued packet (view w j) (view w' j) else view w' j = view w j)"

lemma enqueued_keeps:
  assumes "enqueued packet v v'"
  shows "v_state v' = v_state v" "v_handle v' = v_handle v" "v_mgr v' = v_mgr v" "v_read v' = v_read v"
    "v_disc v' = v_disc v" "v_inR v' = v_inR v" "v_inD v' = v_inD v" "v_closed v' = v_closed v"
    "s_readOv (v_obj v') = s_readOv (v_obj v)" "s_disconnectOv (v_obj v') = s_disconnectOv (v_obj v)"
    "s_handle (v_obj v') = s_handle (v_obj v)" "s_sessionManager (v_obj v') = s_sessionManager (v_obj v)"
    "s_listener (v_obj v') = s_listener (v_obj v)"
  using assms by (auto simp: enqueued_def split: if_splits)

lemma delivered_step:
  assumes "delivered packet I w1 w2" "env w1 = env w" "view w1 = (view w)(j := v)" "enqueued packet (view w j) v" "j \<notin> I"
  shows "delivered packet (insert j I) w w2"
  unfolding delivered_def
proof (intro conjI allI)
  show "env w2 = env w" using assms(1,2) by (simp add: delivered_def)
  show "if k \<in> insert j I then enqueued packet (view w k) (view w2 k) else view w2 k = view w k" for k
    using assms(1,3-5) unfolding delivered_def by (cases "k = j") (auto split: if_splits dest: spec [of _ k])
qed

lemma Broadcast_loop_ok:
  assumes "good X F w" and os: "os_respects os" and p: "4 \<le> length packet" "packet_size packet \<le> length packet"
    and "distinct hs" and "\<forall>h\<in>set hs. connected h w"
  shows "\<exists>w'. Broadcast_loop cb os packet self hs w = Inr w' \<and> good X F w' \<and>
    delivered packet (who_of ` (set hs - {self})) w w'"
  using assms(1,5,6)
proof (induction hs arbitrary: w)
  case Nil
  then show ?case by (simp add: delivered_def)
next
  case (Cons h hs)
  show ?case
  proof (cases "h = self")
    case True
    then show ?thesis using Cons by simp
  next
    case False
    let ?j = "who_of h"
    note g = Cons.prems(1)
    have c: "?j < cap w" "v_handle (view w ?j) = h" "v_state (view w ?j) = 2"
      using Cons.prems(3) by (simp_all add: connected_def)
    have m: "p_ptrs w (MgrPtr ?j) = live_ptr h"
      using goodD(5) [OF g c(1)] c(2,3) by (simp add: session_ok_def view_fields)
    have hd: "holds (MgrPtr ?j) ?j w" using m view_slot(3) [OF goodD(2) [OF g] c(1)] c(2) by (simp add: holds_def)
    note P = Ptr_deref_live [OF goodD(2) [OF g] goodD(12) [OF g] m]
    obtain b w1 v where w1: "SendPacket cb os packet ?j w = Inr (b, w1)" "good X F w1" "env w1 = env w"
      "view w1 = (view w)(?j := v)" "enqueued packet (view w ?j) v"
      using SendPacket_ok [OF g os c(1) _ hd goodD(12) [OF g] _ p, of cb] c(3) by auto
    have ne: "who_of h' \<noteq> ?j" if "h' \<in> set hs" for h'
    proof
      assume eq: "who_of h' = ?j"
      have "connected h' w" using Cons.prems(3) that by simp
      then have "h' = h" using c(2) eq by (metis connected_def)
      then show False using Cons.prems(2) that by simp
    qed
    have "\<forall>h'\<in>set hs. connected h' w1"
      using Cons.prems(3) ne env_eqD(1) [OF w1(3)] by (simp add: connected_def w1(4))
    then obtain w2 where w2: "Broadcast_loop cb os packet self hs w1 = Inr w2" "good X F w2"
      "delivered packet (who_of ` (set hs - {self})) w1 w2"
      using Cons.IH [OF w1(2)] Cons.prems(2) by auto
    have "?j \<notin> who_of ` (set hs - {self})" using ne by force
    note delivered_step [OF w2(3) w1(3-5) this]
    moreover have "insert ?j (who_of ` (set hs - {self})) = who_of ` (set (h # hs) - {self})" using False by auto
    ultimately have "delivered packet (who_of ` (set (h # hs) - {self})) w w2" by simp
    moreover have "Broadcast_loop cb os packet self (h # hs) w = Inr w2"
      using False P w1(1) w2(1) c(1) by (simp add: sessionPtrs_def)
    ultimately show ?thesis using w2(2) by blast
  qed
qed

text \<open>The recipients of a packet: every connected session but the sender.\<close>

definition recipients :: "u64 \<Rightarrow> world \<Rightarrow> nat set" where
  "recipients self w = {j. j < cap w \<and> v_state (view w j) = ss_value kConnected \<and> v_handle (view w j) \<noteq> self}"

lemma Broadcast_ok:
  assumes g: "good X F w" and os: "os_respects os" and p: "4 \<le> length packet" "packet_size packet \<le> length packet"
  shows "\<exists>w'. Broadcast cb os packet self w = Inr (True, w') \<and> good X F w' \<and> delivered packet (recipients self w) w w'"
proof -
  note c = goodD(2) [OF g]
  obtain hs where hs: "GetIndicesInState 2 (p_set w) = Inr hs" "distinct hs"
    "set hs = {h. IsValid h (p_set w) \<and> state_of (p_set w) (who_of h) = 2}"
    using GetIndicesInState_ok [OF countedD(1) [OF c], of 2] goodD(6) [OF g] by auto
  have con: "IsValid h (p_set w) \<and> state_of (p_set w) (who_of h) = 2 \<longleftrightarrow> connected h w" for h
    using view_slot [OF c, of "who_of h"] IsValid_handle_of [of h "p_set w"]
      handle_of_simps(3) [OF countedD(1) [OF c], of "who_of h"]
    by (auto simp: connected_def IsValid_iff)
  have "who_of ` (set hs - {self}) = recipients self w"
  proof (rule set_eqI, rule iffI)
    fix j assume "j \<in> who_of ` (set hs - {self})"
    then show "j \<in> recipients self w" by (auto simp: hs(3) con connected_def recipients_def)
  next
    fix j assume j: "j \<in> recipients self w"
    then have "who_of (v_handle (view w j)) = j"
      using view_slot(3) [OF c, of j] handle_of_simps(1) [OF countedD(1) [OF c], of j] by (simp add: recipients_def)
    then show "j \<in> who_of ` (set hs - {self})" using j
      by (intro image_eqI [of _ _ "v_handle (view w j)"]) (auto simp: hs(3) con connected_def recipients_def)
  qed
  then show ?thesis
    using Broadcast_loop_ok [OF g os p hs(2), of cb self] hs(1,3) con by (auto simp: Broadcast_def)
qed

section \<open>The handlers\<close>

text \<open>
  The packets the handlers are written for, and what they broadcast for one from the session with handle \<open>h\<close>.
\<close>

definition packet_ok :: "byte list \<Rightarrow> bool" where
  "packet_ok p \<longleftrightarrow>
     h_id (header_at p) = c2s_value c2s_Move \<and> C2S_MOVE_size \<le> length p \<or>
     h_id (header_at p) = c2s_value c2s_Chat"

definition reply :: "u64 \<Rightarrow> byte list \<Rightarrow> byte list" where
  "reply h p =
     (if h_id (header_at p) = c2s_value c2s_Move then
        S2C_MOVE_bytes \<lparr>mv_header = \<lparr>h_size = word_of_nat S2C_MOVE_size, h_id = s2c_value s2c_Move\<rparr>,
          mv_sessionHandle = h, mv_x = take 4 (drop 4 p), mv_y = take 4 (drop 8 p)\<rparr>
      else
        header_bytes \<lparr>h_size = h_size (header_at p) + 8, h_id = s2c_value s2c_Chat\<rparr> @ u64_bytes h @ drop 4 p)"

lemma mb_read_part:
  assumes "mb_read pos n b = Inr p" "d + m \<le> n"
  shows "mb_read (pos + d) m b = Inr (take m (drop d p))"
proof -
  have le: "pos + n \<le> 2 * mb_size b" and p: "p = map (\<lambda>i. mb_mem b ! (i mod mb_size b)) [pos..<pos + n]"
    using assms(1) by (auto simp: mb_read_def split: if_splits)
  have "map (\<lambda>i. mb_mem b ! (i mod mb_size b)) [pos + d..<pos + d + m] = take m (drop d p)"
    using assms(2) by (intro nth_equalityI) (simp_all add: p add.assoc)
  then show ?thesis using le assms(2) by (simp add: mb_read_def)
qed

lemmas mb_read_prefix = mb_read_part [where d = 0, simplified]

lemma reply_wf:
  assumes "packet_ok p" "packet_size p = length p" "4 \<le> length p"
  shows "4 \<le> length (reply h p)" "packet_size (reply h p) \<le> length (reply h p)"
proof (atomize (full), cases "h_id (header_at p) = c2s_value c2s_Move")
  case True
  then have "12 \<le> length p" using assms(1) by (auto simp: packet_ok_def C2S_MOVE_size_def)
  moreover have "unat (word_of_nat 20 :: u16) = 20" by simp
  ultimately show "4 \<le> length (reply h p) \<and> packet_size (reply h p) \<le> length (reply h p)"
    using True by (simp add: reply_def S2C_MOVE_bytes_def packet_size_def S2C_MOVE_size_def)
next
  case False
  let ?n = "h_size (header_at p)"
  have "unat (?n + 8) \<le> unat ?n + unat (8 :: u16)" using unat_plus_if' [of ?n 8] by (simp split: if_splits)
  then have "unat (?n + 8) \<le> length p + 8" using assms(2) by (simp add: packet_size_def)
  then show "4 \<le> length (reply h p) \<and> packet_size (reply h p) \<le> length (reply h p)"
    using False assms(3) by (simp add: reply_def packet_size_def)
qed

lemma Execute_broadcasts:
  assumes s: "get_session i w = Inr s" "s_sessionManager s"
    and p: "mb_read pos (length p) b = Inr p" "packet_ok p" "packet_size p = length p" "4 \<le> length p"
  shows "Execute cb os i b pos w = Broadcast cb os (reply (s_handle s) p) (s_handle s) w"
proof -
  have hb: "mb_read pos 4 b = Inr (take 4 p)" using mb_read_prefix [OF p(1,4)] .
  have hd: "header_at (take 4 p) = header_at p" by (simp add: header_at_take)
  show ?thesis
  proof (cases "h_id (header_at p) = c2s_value c2s_Move")
    case True
    then have len: "12 \<le> length p" using p(2) by (auto simp: packet_ok_def C2S_MOVE_size_def)
    have "mb_read pos 12 b = Inr (take 12 p)" using mb_read_prefix [OF p(1) len] .
    moreover have "take 4 (drop 4 (take 12 p)) = take 4 (drop 4 p)" "take 4 (drop 8 (take 12 p)) = take 4 (drop 8 p)"
      by (simp_all add: drop_take)
    moreover have "unat (1 :: u16) = 1" "unat (2 :: u16) = 2" by simp_all
    ultimately show ?thesis using True hb hd s
      by (simp add: Execute_def handlers_def HandleC2S_MOVE_def reply_def header_size_def C2S_MOVE_size_def
          c2s_count_def Let_def numeral_eq_Suc)
  next
    case False
    then have id: "h_id (header_at p) = 2" using p(2) by (auto simp: packet_ok_def)
    have n: "unat (h_size (header_at p)) = length p" using p(3) by (simp add: packet_size_def)
    have "mb_read (pos + 4) (length p - 4) b = Inr (drop 4 p)"
      using mb_read_part [OF p(1), of 4 "length p - 4"] p(4) by simp
    moreover have "unat (1 :: u16) = 1" "unat (2 :: u16) = 2" by simp_all
    ultimately show ?thesis using id n hb hd s p(4)
      by (simp add: Execute_def handlers_def HandleC2S_CHAT_def reply_def header_size_def c2s_count_def Let_def)
  qed
qed

text \<open>A sequence of packets from one session, handled one after the other.\<close>

fun relayed :: "u64 \<Rightarrow> byte list list \<Rightarrow> world \<Rightarrow> world \<Rightarrow> bool" where
  "relayed h [] w w' \<longleftrightarrow> w' = w"
| "relayed h (p # ps) w w' \<longleftrightarrow> (\<exists>w1. delivered (reply h p) (recipients h w) w w1 \<and> relayed h ps w1 w')"

lemma delivered_view:
  assumes "delivered packet I w w'"
  shows "view w' j = view w j \<or> enqueued packet (view w j) (view w' j)" "env w' = env w"
  using assms by (auto simp: delivered_def split: if_splits dest: spec [of _ j])

text \<open>What relaying leaves alone, of every session.\<close>

definition only_writes :: "sview \<Rightarrow> sview \<Rightarrow> bool" where
  "only_writes v v' \<longleftrightarrow>
     (\<exists>ov sd p f. v' = v\<lparr>v_obj := (v_obj v)\<lparr>s_writeOv := ov, s_isSending := sd\<rparr>, v_write := p, v_inW := f\<rparr>)"

lemma only_writes_refl: "only_writes v v"
  unfolding only_writes_def
  by (rule exI [of _ "s_writeOv (v_obj v)"], rule exI [of _ "s_isSending (v_obj v)"], rule exI [of _ "v_write v"],
      rule exI [of _ "v_inW v"]) simp

lemma only_writes_trans: "only_writes u v \<Longrightarrow> only_writes v x \<Longrightarrow> only_writes u x"
  unfolding only_writes_def by (elim exE) (auto 0 0 intro!: exI simp: session_commute)

lemma only_writesD:
  assumes "only_writes v v'"
  shows "v_state v' = v_state v" "v_handle v' = v_handle v" "v_mgr v' = v_mgr v" "v_read v' = v_read v"
    "v_inR v' = v_inR v" "s_readOv (v_obj v') = s_readOv (v_obj v)" "s_handle (v_obj v') = s_handle (v_obj v)"
    "s_sessionManager (v_obj v') = s_sessionManager (v_obj v)" "s_listener (v_obj v') = s_listener (v_obj v)"
  using assms by (auto simp: only_writes_def)

lemma relayed_only_writes: "relayed h ps w w' \<Longrightarrow> only_writes (view w j) (view w' j) \<and> env w' = env w"
proof (induction ps arbitrary: w)
  case Nil
  then show ?case by (simp add: only_writes_refl)
next
  case (Cons p ps)
  then obtain w1 where w1: "delivered (reply h p) (recipients h w) w w1" "relayed h ps w1 w'" by auto
  have "only_writes (view w j) (view w1 j)"
    using delivered_view(1) [OF w1(1), of j] only_writes_refl
    by (auto simp: enqueued_def only_writes_def split: if_splits)
  then show ?case using Cons.IH [OF w1(2)] only_writes_trans delivered_view(2) [OF w1(1)] by auto
qed

end
