(* ===== verification/Session_Life.thy ===== *)
theory Session_Life
  imports Packet_Handler
begin

text \<open>
  \<^verbatim>\<open>Network/Server/Session.cpp\<close>: completed receives and sends, and the session's way from an accepted
  connection to its release.
\<close>

section \<open>Definitions\<close>

text \<open>\<^verbatim>\<open>OnRead\<close>: the handlers never write \<^verbatim>\<open>readOv_\<close>, which is stored back when the loop ends.\<close>

definition OnRead :: "world callbacks \<Rightarrow> os \<Rightarrow> nat \<Rightarrow> nat \<Rightarrow> world \<Rightarrow> (bool \<times> world) res" where
  "OnRead cb os bytesTransferred i w =
     rbind (get_session i w) (\<lambda>s.
     rbind (OnRead_scan (Execute cb os i) bytesTransferred (s_readOv s) w) (\<lambda>(ok, ov, w).
     rbind (get_session i w) (\<lambda>s.
     rbind (put_session i (s\<lparr>s_readOv := ov\<rparr>) w) (\<lambda>w.
     if \<not> ok then Inr (False, w) else RegisterRead cb os i w))))"

definition OnWrite :: "world callbacks \<Rightarrow> os \<Rightarrow> nat \<Rightarrow> nat \<Rightarrow> world \<Rightarrow> (bool \<times> world) res" where
  "OnWrite cb os bytesTransferred i w =
     rbind (get_session i w) (\<lambda>s.
     if \<not> s_isSending s then Inl Assertion_failed
     else
       let ov = OnWrite_advance bytesTransferred (s_writeOv s); s = s\<lparr>s_writeOv := ov\<rparr> in
       if readPos ov = writePos ov then
         rbind (put_session i (s\<lparr>s_isSending := False\<rparr>) w) (\<lambda>w. Inr (True, w))
       else
         rbind (put_session i s w) (\<lambda>w. RegisterWriteInternal cb os i w))"

definition HandleIO :: "world callbacks \<Rightarrow> os \<Rightarrow> IO_TYPE \<Rightarrow> nat \<Rightarrow> nat \<Rightarrow> world \<Rightarrow> (bool \<times> world) res" where
  "HandleIO cb os t bytesTransferred i w =
     (case t of
        io_Recv \<Rightarrow> OnRead cb os bytesTransferred i w
      | io_Send \<Rightarrow> OnWrite cb os bytesTransferred i w
      | _ \<Rightarrow> Inr (False, w))"

text \<open>\<^verbatim>\<open>sprintf("%lld")\<close> of a 64-bit value, with the terminating zero it writes.\<close>

fun decimal :: "nat \<Rightarrow> byte list" where
  "decimal n = (if n < 10 then [word_of_nat (48 + n)] else decimal (n div 10) @ [word_of_nat (48 + n mod 10)])"

declare decimal.simps [simp del]

definition lld :: "u64 \<Rightarrow> byte list" where
  "lld h = (if sint h < 0 then 45 # decimal (nat (- sint h)) else decimal (nat (sint h)))"

text \<open>
  The welcome packet: a zeroed \<^verbatim>\<open>S2C_CHAT\<close> with the handle printed into \<^verbatim>\<open>message\<close>, and a size that counts the
  header and the message but not \<^verbatim>\<open>sessionHandle\<close>.
\<close>

definition welcomePacket :: "u64 \<Rightarrow> byte list" where
  "welcomePacket handle =
     header_bytes \<lparr>h_size = word_of_nat (header_size + length (lld handle) + 1), h_id = s2c_value s2c_Chat\<rparr> @
     u64_bytes 0 @ lld handle @ replicate (unat kChatPacketSize - length (lld handle)) 0"

definition Connect :: "world callbacks \<Rightarrow> os \<Rightarrow> nat \<Rightarrow> world \<Rightarrow> (bool \<times> world) res" where
  "Connect cb os i w =
     rbind (get_session i w) (\<lambda>s.
     if \<not> s_sessionManager s then Inl Null_deref
     else if SM_GetState (s_handle s) w \<noteq> ss_value kPending then Inr (False, w)
     else
       rbind (ConnectSession (s_handle s) w) (\<lambda>(ok, w).
       if \<not> ok then Inr (False, w)
       else
         rbind (SendPacket cb os (welcomePacket (s_handle s)) i w) (\<lambda>(ok, w).
         if \<not> ok then Inr (False, w)
         else RegisterRead cb os i w)))"

definition Disconnect :: "world callbacks \<Rightarrow> os \<Rightarrow> nat \<Rightarrow> world \<Rightarrow> (bool \<times> world) res" where
  "Disconnect cb os i w =
     rbind (get_session i w) (\<lambda>s.
     if \<not> s_sessionManager s then Inl Null_deref
     else
       let state = SM_GetState (s_handle s) w in
       if state = ss_value kPending \<or> state = ss_value kConnected then
         rbind (SM_SetState (s_handle s) kDisconnecting w) (\<lambda>(ok, w).
         if \<not> ok then Inr (False, w)
         else
           let s = s\<lparr>s_disconnectOv := (s_disconnectOv s)\<lparr>ioType := io_Disconnect\<rparr>\<rparr> in
           rbind (put_session i s w) (\<lambda>w.
           rbind (assign_session cb (DiscPtr i) s w) (\<lambda>w.
           rbind (overlapped_call os (DiscOv i) (DisconnectEx i) w) (\<lambda>(result, errorCode, w).
           if result = SOCKET_ERROR then
             if errorCode = WSA_IO_PENDING then Inr (True, w) else Inr (False, w)
           else Inr (True, w)))))
       else if state = ss_value kDisconnecting then Inr (True, w)
       else Inr (False, w))"

definition Clear :: "world callbacks \<Rightarrow> nat \<Rightarrow> world \<Rightarrow> (bool \<times> world) res" where
  "Clear cb i w =
     rbind (get_session i w) (\<lambda>s.
     if \<not> s_sessionManager s then Inl Null_deref
     else rbind (DisconnectSession cb (s_handle s) w) (\<lambda>w. Inr (True, w)))"

section \<open>Holding a session over an operation\<close>

text \<open>The operations of this theory keep the stack and the handles, so a local pointer keeps its session.\<close>

definition steady :: "world \<Rightarrow> world \<Rightarrow> bool" where
  "steady w w' \<longleftrightarrow> env w' = env w \<and> (\<forall>j. v_handle (view w' j) = v_handle (view w j))"

lemma steady_refl: "steady w w" by (simp add: steady_def)

lemma steady_trans: "steady u v \<Longrightarrow> steady v w \<Longrightarrow> steady u w"
  by (simp add: steady_def)

lemma steady_change: "env w' = env w \<Longrightarrow> view w' = (view w)(i := v) \<Longrightarrow> v_handle v = v_handle (view w i) \<Longrightarrow> steady w w'"
  by (simp add: steady_def)

lemma holds_view: "counted X F w \<Longrightarrow> i < cap w \<Longrightarrow> holds k i w \<longleftrightarrow> p_ptrs w k = live_ptr (v_handle (view w i))"
  by (simp add: holds_def view_slot)

lemma holds_steady:
  assumes "steady w w'" "counted X F w" "counted X' F' w'" "i < cap w" "holds (Local k) i w"
  shows "holds (Local k) i w'"
  using assms env_eqD [of w' w] holds_view by (simp add: steady_def)

text \<open>The situation in which a completion is processed: the session is busy and a local pointer holds it.\<close>

definition active :: "loc set \<Rightarrow> (nat \<Rightarrow> nat) \<Rightarrow> nat \<Rightarrow> nat \<Rightarrow> world \<Rightarrow> bool" where
  "active X F k i w \<longleftrightarrow> good X F w \<and> i < cap w \<and> v_state (view w i) \<noteq> 0 \<and> holds (Local k) i w \<and> Local k \<notin> X"

lemma holder_busy:
  assumes "good X F w" "i < cap w" "holds k i w" "k \<notin> X"
  shows "v_state (view w i) \<noteq> 0"
proof -
  note c = goodD(2) [OF assms(1)]
  have "0 < count w (who_of (handle_of (p_set w) i))"
    using live_counts(1) [OF c _ assms(4)] assms(3) by (simp add: holds_def)
  then show ?thesis
    using goodD(1) [OF assms(1)] handle_of_simps(1) [OF countedD(1) [OF c] assms(2)] assms(2) view_slot(2) [OF c assms(2)]
    by (simp add: pinv_def)
qed

lemma active_steady:
  assumes a: "active X F k i w" and g: "good X F w'" and s: "steady w w'"
  shows "active X F k i w'"
proof -
  have "i < cap w'" "Local k \<notin> X" using a s env_eqD(1) [of w' w] by (auto simp: active_def steady_def)
  moreover have "holds (Local k) i w'"
    using holds_steady [OF s goodD(2) goodD(2) [OF g]] a unfolding active_def by blast
  ultimately show ?thesis using g holder_busy by (simp add: active_def)
qed

section \<open>Completed receives and sends\<close>

lemma handle_all_server:
  assumes os: "os_respects os" and "active X F k i w"
    and "mb_read pos (length (concat ps)) b = Inr (concat ps)"
    and "\<forall>p\<in>set ps. packet_ok p \<and> packet_size p = length p \<and> 4 \<le> length p"
  shows "\<exists>w'. handle_all (Execute cb os i) b pos ps w = Inr (True, pos + length (concat ps), w') \<and> good X F w' \<and>
    relayed (v_handle (view w i)) ps w w'"
  using assms(2-4)
proof (induction ps arbitrary: pos w)
  case Nil
  then show ?case by (auto simp: active_def)
next
  case (Cons p ps)
  let ?h = "v_handle (view w i)" and ?s = "v_obj (view w i)"
  have g: "good X F w" and i: "i < cap w" and busy: "v_state (view w i) \<noteq> 0"
    using Cons.prems(1) by (auto simp: active_def)
  note get = get_session_ok [OF goodD(2) [OF g] i]
  have s: "s_sessionManager ?s" "s_handle ?s = ?h" using goodD(5) [OF g i] busy by (auto simp: session_ok_def)
  have p: "packet_ok p" "packet_size p = length p" "4 \<le> length p" using Cons.prems(3) by auto
  have rd: "mb_read pos (length p) b = Inr p" "mb_read (pos + length p) (length (concat ps)) b = Inr (concat ps)"
    using mb_read_prefix [OF Cons.prems(2), of "length p"] mb_read_part [OF Cons.prems(2), of "length p" "length (concat ps)"]
    by simp_all
  obtain w1 where w1: "Broadcast cb os (reply ?h p) ?h w = Inr (True, w1)" "good X F w1"
    "delivered (reply ?h p) (recipients ?h w) w w1"
    using Broadcast_ok [OF g os reply_wf [OF p]] by blast
  have ex: "Execute cb os i b pos w = Inr (True, w1)"
    using Execute_broadcasts [OF get s(1) rd(1) p] w1(1) s(2) by simp
  have st: "steady w w1"
    using delivered_view [OF w1(3)] enqueued_keeps(2) unfolding steady_def by metis
  have a1: "active X F k i w1" by (rule active_steady [OF Cons.prems(1) w1(2) st])
  obtain w2 where "handle_all (Execute cb os i) b (pos + length p) ps w1 = Inr (True, pos + length p + length (concat ps), w2)"
    "good X F w2" "relayed (v_handle (view w1 i)) ps w1 w2"
    using Cons.IH [OF a1 rd(2)] Cons.prems(3) by auto
  then show ?case using ex w1(3) st by (auto simp: steady_def add.assoc)
qed

lemma OnRead_scan_server:
  fixes ov :: OverlappedEx
  assumes os: "os_respects os" and a: "active X F k i w" and wf: "ov_wf (ov_advance_write n ov)"
    and fr: "frames (mb_size (ov_buffer ov)) (window (ov_advance_write n ov)) = (ps, rest, ok)"
    and ps: "\<forall>p\<in>set ps. packet_ok p"
  shows "\<exists>w1 ov2. OnRead_scan (Execute cb os i) n ov w = Inr (ok, ov2, w1) \<and> good X F w1 \<and>
    relayed (v_handle (view w i)) ps w w1 \<and> mb_wf (ov_buffer ov2) \<and> (ok \<longrightarrow> ov_wf ov2 \<and> window ov2 = rest)"
proof -
  let ?ov = "ov_advance_write n ov"
  have L: "ov_loose ?ov" using wf by (rule ov_wf_loose)
  have buf: "ov_buffer ?ov = ov_buffer ov" by (simp add: ov_advance_write_def)
  have cat: "window ?ov = concat ps @ rest" using frames_concat [OF fr] by simp
  let ?pos = "unat (readPos ?ov)"
  have rd: "mb_read ?pos (length (concat ps)) (ov_buffer ?ov) = Inr (concat ps)"
    using mb_read_front [OF L, of "length (concat ps)"] cat by simp
  obtain w1 where w1: "handle_all (Execute cb os i) (ov_buffer ?ov) ?pos ps w = Inr (True, ?pos + length (concat ps), w1)"
    "good X F w1" "relayed (v_handle (view w i)) ps w w1"
    using handle_all_server [OF os a rd, of cb] ps frames_packets [OF fr] by auto
  let ?ov1 = "ov_advance_read (length (concat ps)) ?ov"
  have eq1: "?ov\<lparr>readPos := word_of_nat (?pos + length (concat ps))\<rparr> = ?ov1" by (simp add: ov_advance_read_def)
  have "OnRead_loop (Execute cb os i) ?ov w = Inr (ok, ?ov1, w1)"
    using OnRead_loop_refines [OF L, of ps rest ok "Execute cb os i" w] fr buf w1(1) eq1 by simp
  then have scan: "OnRead_scan (Execute cb os i) n ov w = Inr (ok, if ok then ov_rewind ?ov1 else ?ov1, w1)"
    by (simp add: OnRead_scan_def)
  have "length (concat ps) \<le> length (window ?ov)" using cat by simp
  note adv = loose_advance_read [OF L this]
  note R = rewind_restores [OF adv(1)]
  have "mb_wf (ov_buffer (if ok then ov_rewind ?ov1 else ?ov1))"
    using adv(1) R(1) by (auto simp: ov_loose_def ov_wf_def)
  then show ?thesis using scan w1(2,3) R(1,2) adv(2) cat by auto
qed

lemma OnRead_ok:
  assumes os: "os_respects os" and a: "active X F k i w" and st: "2 \<le> v_state (view w i)"
    and fl: "\<not> v_inR (view w i)" and wf: "ov_wf (ov_advance_write n (s_readOv (v_obj (view w i))))"
    and fr: "frames (mb_size (ov_buffer (s_readOv (v_obj (view w i)))))
      (window (ov_advance_write n (s_readOv (v_obj (view w i))))) = (ps, rest, ok)"
    and ps: "\<forall>p\<in>set ps. packet_ok p"
  shows "\<exists>b w1 w' ov p f. OnRead cb os n i w = Inr (b, w') \<and> good X F w' \<and> steady w w' \<and>
    relayed (v_handle (view w i)) ps w w1 \<and> (b \<longrightarrow> ok) \<and>
    view w' = (view w1)(i := (view w1 i)\<lparr>v_obj := (v_obj (view w1 i))\<lparr>s_readOv := ov\<rparr>, v_read := p, v_inR := f\<rparr>)"
proof -
  let ?s = "v_obj (view w i)"
  have g: "good X F w" and i: "i < cap w" using a by (auto simp: active_def)
  obtain w1 ov2 where w1: "OnRead_scan (Execute cb os i) n (s_readOv ?s) w = Inr (ok, ov2, w1)" "good X F w1"
    "relayed (v_handle (view w i)) ps w w1" and wf2: "mb_wf (ov_buffer ov2)" "ok \<longrightarrow> ov_wf ov2"
    using OnRead_scan_server [OF os a wf fr ps] by blast
  have ow: "only_writes (view w j) (view w1 j)" "env w1 = env w" for j
    using relayed_only_writes [OF w1(3)] by auto
  have st1: "steady w w1" using ow only_writesD(2) unfolding steady_def by metis
  have a1: "active X F k i w1" by (rule active_steady [OF a w1(2) st1])
  have i1: "i < cap w1" using a1 by (simp add: active_def)
  let ?s2 = "(v_obj (view w1 i))\<lparr>s_readOv := ov2\<rparr>"
  obtain w2 where w2: "put_session i ?s2 w1 = Inr w2" "same_pool w1 w2" "env w2 = env w1"
    "view w2 = (view w1)(i := (view w1 i)\<lparr>v_obj := ?s2\<rparr>)"
    using put_session_ok [OF goodD(2) [OF w1(2)] i1] by blast
  have nf: "\<not> v_inR (view w1 i)" "2 \<le> v_state (view w1 i)" using only_writesD(1,5) [OF ow(1)] fl st by simp_all
  have "sinv w2" by (rule sinv_change [OF goodD(3) [OF w1(2)] w2(3,4) i1])
      (use goodD(5) [OF w1(2) i1] wf2(1) nf in \<open>auto simp: session_ok_def self_ptr_def is_accept_def write_posted_def\<close>)
  then have g2: "good X F w2" using good_same_pool [OF w1(2) w2(2)] env_eqD(3) [OF w2(3)] by simp
  have st2: "steady w w2" by (rule steady_trans [OF st1 steady_change [OF w2(3,4)]]) simp
  have run: "OnRead cb os n i w = (if \<not> ok then Inr (False, w2) else RegisterRead cb os i w2)"
    using get_session_ok [OF goodD(2) [OF g] i] get_session_ok [OF goodD(2) [OF w1(2)] i1] w1(1) w2(1)
    by (simp add: OnRead_def)
  show ?thesis
  proof (cases ok)
    case False
    have "view w2 = (view w1)(i := (view w1 i)\<lparr>v_obj := ?s2, v_read := v_read (view w1 i), v_inR := v_inR (view w1 i)\<rparr>)"
      using w2(4) by simp
    then show ?thesis using run False g2 st2 w1(3) by (metis (full_types))
  next
    case True
    have a2: "active X F k i w2" by (rule active_steady [OF a g2 st2])
    then have i2: "i < cap w2" "holds (Local k) i w2" "Local k \<notin> X" by (auto simp: active_def)
    have "\<exists>b w' ov p f. RegisterRead cb os i w2 = Inr (b, w') \<and> good X F w' \<and> env w' = env w2 \<and>
      view w' = (view w2)(i := (view w2 i)\<lparr>v_obj := (v_obj (view w2 i))\<lparr>s_readOv := ov\<rparr>, v_read := p, v_inR := f\<rparr>)"
      by (rule RegisterRead_ok [OF g2 os i2(1) _ _ i2(2,3)]) (use nf w2(4) wf2(2) True in auto)
    then obtain b w3 ov p f where w3: "RegisterRead cb os i w2 = Inr (b, w3)" "good X F w3" "env w3 = env w2"
      "view w3 = (view w2)(i := (view w2 i)\<lparr>v_obj := (v_obj (view w2 i))\<lparr>s_readOv := ov\<rparr>, v_read := p, v_inR := f\<rparr>)"
      by blast
    have st3: "steady w w3" by (rule steady_trans [OF st2 steady_change [OF w3(3,4)]]) simp
    have "view w3 = (view w1)(i := (view w1 i)\<lparr>v_obj := (v_obj (view w1 i))\<lparr>s_readOv := ov\<rparr>, v_read := p, v_inR := f\<rparr>)"
      using w3(4) w2(4) by simp
    then show ?thesis using run True w3(1,2) st3 w1(3) by (metis (full_types))
  qed
qed

lemma OnWrite_ok:
  assumes os: "os_respects os" and a: "active X F k i w" and fl: "\<not> v_inW (view w i)"
    and se: "s_isSending (v_obj (view w i))" and n: "n \<le> length (window (s_writeOv (v_obj (view w i))))"
  shows "\<exists>b w' ov sd p f. OnWrite cb os n i w = Inr (b, w') \<and> good X F w' \<and> steady w w' \<and>
    window ov = drop n (window (s_writeOv (v_obj (view w i)))) \<and> (sd \<longleftrightarrow> window ov \<noteq> []) \<and>
    view w' = (view w)(i := (view w i)\<lparr>v_obj := (v_obj (view w i))\<lparr>s_writeOv := ov, s_isSending := sd\<rparr>,
      v_write := p, v_inW := f\<rparr>)"
proof -
  let ?s = "v_obj (view w i)"
  let ?ov = "OnWrite_advance n (s_writeOv ?s)"
  have g: "good X F w" and i: "i < cap w" and h: "holds (Local k) i w" "Local k \<notin> X" and busy: "v_state (view w i) \<noteq> 0"
    using a by (auto simp: active_def)
  note ok = goodD(5) [OF g i] and get = get_session_ok [OF goodD(2) [OF g] i]
  have wf: "ov_wf (s_writeOv ?s)" using ok by (simp add: session_ok_def)
  note A = OnWrite_advance_ok [OF wf n]
  define empty where "empty = (window ?ov = [])"
  have cond: "readPos ?ov = writePos ?ov \<longleftrightarrow> empty" using window_empty_iff [OF A(1)] by (simp add: empty_def)
  let ?s1 = "?s\<lparr>s_writeOv := ?ov, s_isSending := \<not> empty\<rparr>"
  obtain w1 where w1: "put_session i ?s1 w = Inr w1" "same_pool w w1" "env w1 = env w"
    "view w1 = (view w)(i := (view w i)\<lparr>v_obj := ?s1\<rparr>)"
    using put_session_ok [OF goodD(2) [OF g] i] by blast
  have "sinv w1" by (rule sinv_change [OF goodD(3) [OF g] w1(3,4) i])
      (use ok A(1) fl in \<open>auto simp: session_ok_def self_ptr_def is_accept_def read_posted_def\<close>)
  then have g1: "good X F w1" using good_same_pool [OF g w1(2)] env_eqD(3) [OF w1(3)] by simp
  have st1: "steady w w1" by (rule steady_change [OF w1(3,4)]) simp
  show ?thesis
  proof (cases "empty")
    case True
    then have "OnWrite cb os n i w = Inr (True, w1)"
      using get se cond w1(1) by (simp add: OnWrite_def Let_def)
    moreover have "view w1 = (view w)(i := (view w i)\<lparr>v_obj := ?s\<lparr>s_writeOv := ?ov, s_isSending := False\<rparr>,
        v_write := v_write (view w i), v_inW := v_inW (view w i)\<rparr>)" using w1(4) True by simp
    ultimately show ?thesis using g1 st1 A(2) True unfolding empty_def
      by (intro exI [of _ True] exI [of _ w1] exI [of _ ?ov] exI [of _ False] exI [of _ "v_write (view w i)"]
          exI [of _ "v_inW (view w i)"]) simp
  next
    case False
    have eq: "?s1 = ?s\<lparr>s_writeOv := ?ov\<rparr>" using se False by simp
    have a1: "active X F k i w1" by (rule active_steady [OF a g1 st1])
    then have i1: "i < cap w1" "holds (Local k) i w1" by (auto simp: active_def)
    have "\<exists>b w' ov p f. RegisterWriteInternal cb os i w1 = Inr (b, w') \<and> good X F w' \<and> env w' = env w1 \<and>
      window ov = window (s_writeOv (v_obj (view w1 i))) \<and>
      mb_size (ov_buffer ov) = mb_size (ov_buffer (s_writeOv (v_obj (view w1 i)))) \<and>
      view w' = (view w1)(i := (view w1 i)\<lparr>v_obj := (v_obj (view w1 i))\<lparr>s_writeOv := ov\<rparr>, v_write := p, v_inW := f\<rparr>)"
      by (rule RegisterWriteInternal_ok [OF g1 os i1(1) _ i1(2) h(2)]) (use busy fl False w1(4) in auto)
    then obtain b w2 ov p f where w2: "RegisterWriteInternal cb os i w1 = Inr (b, w2)" "good X F w2" "env w2 = env w1"
      "window ov = window ?ov" and v2: "view w2 = (view w)(i := (view w i)\<lparr>v_obj := ?s\<lparr>s_writeOv := ov, s_isSending := True\<rparr>,
        v_write := p, v_inW := f\<rparr>)"
      using w1(4) False by (fastforce simp: session_commute)
    have "steady w w2" by (rule steady_change [OF _ v2]) (use w2(3) w1(3) in auto)
    moreover have "OnWrite cb os n i w = Inr (b, w2)"
      using get se cond False w1(1) w2(1) unfolding eq by (simp add: OnWrite_def Let_def)
    ultimately show ?thesis using w2(2,4) v2 A(2) False unfolding empty_def
      by (intro exI [of _ b] exI [of _ w2] exI [of _ ov] exI [of _ True] exI [of _ p] exI [of _ f]) simp
  qed
qed

section \<open>Connecting and disconnecting\<close>

lemma length_decimal: "n < 10 ^ Suc k \<Longrightarrow> length (decimal n) \<le> Suc k"
proof (induction k arbitrary: n)
  case (Suc k)
  show ?case
  proof (cases "n < 10")
    case False
    have "n div 10 < 10 ^ Suc k" using Suc.prems by (simp add: less_mult_imp_div_less)
    then show ?thesis using Suc.IH [of "n div 10"] False by (simp add: decimal.simps [of n])
  qed (simp add: decimal.simps [of n])
qed (simp add: decimal.simps)

lemma length_lld: "length (lld h) \<le> 20"
proof -
  have "sint h < 2 ^ 63" "- (2 ^ 63) \<le> sint h" using sint_lt [of h] sint_ge [of h] by simp_all
  then have "nat (sint h) < 10 ^ Suc 18" "nat (- sint h) < 10 ^ Suc 18" by simp_all
  from this [THEN length_decimal] show ?thesis by (simp add: lld_def)
qed

lemma welcomePacket_wf:
  "4 \<le> length (welcomePacket h)" "packet_size (welcomePacket h) = 5 + length (lld h)"
  "packet_size (welcomePacket h) \<le> length (welcomePacket h)"
proof -
  have "unat (word_of_nat (Suc (4 + length (lld h))) :: u16) = Suc (4 + length (lld h))"
    using length_lld [of h] by (subst unat_of_nat) (simp add: take_bit_nat_eq_self)
  then show p: "packet_size (welcomePacket h) = 5 + length (lld h)"
    by (simp add: packet_size_def welcomePacket_def header_size_def)
  show "4 \<le> length (welcomePacket h)" by (simp add: welcomePacket_def)
  have "unat kChatPacketSize = 256" by (simp add: kChatPacketSize_def)
  then show "packet_size (welcomePacket h) \<le> length (welcomePacket h)"
    using length_lld [of h] unfolding p by (simp add: welcomePacket_def)
qed

lemma GetState_view:
  assumes "good X F w" "i < cap w"
  shows "SM_GetState (v_handle (view w i)) w = v_state (view w i)"
proof -
  note c = goodD(2) [OF assms(1)]
  note h = handle_of_simps [OF countedD(1) [OF c] assms(2)]
  show ?thesis
    using GetState_ok(1) [OF h(3)] h(1) view_slot [OF c assms(2)] state_lt [OF assms]
    by (simp add: SM_GetState_def)
qed

lemma MoveToState_view:
  assumes g: "good X F w" and i: "i < cap w" and n: "0 < n" "n < 4" and busy: "v_state (view w i) \<noteq> 0"
  shows "\<exists>w'. Pool_MoveToState (v_handle (view w i)) n w = Inr (True, w') \<and> pinv X F w' \<and> env w' = env w \<and>
    view w' = (view w)(i := (view w i)\<lparr>v_state := n\<rparr>) \<and> p_ptrs w' = p_ptrs w \<and> (\<forall>j<cap w. handle_of (p_set w') j = handle_of (p_set w) j)"
proof -
  note c = goodD(2) [OF g]
  note I = countedD(1) [OF c]
  note h = handle_of_simps [OF I i] and S = view_slot [OF c i]
  obtain s where s: "Pool_MoveToState (handle_of (p_set w) i) n w = Inr (True, w\<lparr>p_set := s\<rparr>)" "pinv X F (w\<lparr>p_set := s\<rparr>)"
    "updates (p_set w) i (gen_of (p_set w) i, n) s"
    using Pool_MoveToState_ok [OF goodD(1) [OF g] h(3) n(1)] n(2) goodD(6) [OF g] busy S(2) h(1,2) by auto
  show ?thesis
    using s view_state_change [OF s(3) i I] S(3) updates_handle_of [OF I s(3) i] by auto
qed

lemma Connect_ok:
  assumes os: "os_respects os" and a: "active X F k i w" and fl: "\<not> v_inR (view w i)"
  shows "\<exists>b w'. Connect cb os i w = Inr (b, w') \<and> good X F w' \<and> steady w w' \<and>
    (if v_state (view w i) = ss_value kPending then v_state (view w' i) = ss_value kConnected else \<not> b \<and> w' = w)"
proof -
  let ?s = "v_obj (view w i)" and ?h = "v_handle (view w i)"
  have g: "good X F w" and i: "i < cap w" and busy: "v_state (view w i) \<noteq> 0" using a by (auto simp: active_def)
  note ok = goodD(5) [OF g i] and get = get_session_ok [OF goodD(2) [OF g] i] and gs = GetState_view [OF g i]
  have s: "s_sessionManager ?s" "s_handle ?s = ?h" using ok busy by (auto simp: session_ok_def)
  show ?thesis
  proof (cases "v_state (view w i) = 1")
    case False
    then have "Connect cb os i w = Inr (False, w)" using get s gs by (simp add: Connect_def)
    then show ?thesis using False g steady_refl by auto
  next
    case True
    obtain w1 where w1: "Pool_MoveToState ?h 2 w = Inr (True, w1)" "pinv X F w1" "env w1 = env w"
      "view w1 = (view w)(i := (view w i)\<lparr>v_state := 2\<rparr>)"
      using MoveToState_view [OF g i, of 2] True by auto
    have "sinv w1" by (rule sinv_change [OF goodD(3) [OF g] w1(3,4) i])
        (use ok fl True in \<open>auto simp: session_ok_def self_ptr_def is_accept_def\<close>)
    then have g1: "good X F w1" using good_env [OF g w1(2) _ w1(3)] by simp
    have st1: "steady w w1" by (rule steady_change [OF w1(3,4)]) simp
    have a1: "active X F k i w1" by (rule active_steady [OF a g1 st1])
    then have i1: "i < cap w1" "holds (Local k) i w1" "Local k \<notin> X" by (auto simp: active_def)
    obtain b w2 v where w2: "SendPacket cb os (welcomePacket ?h) i w1 = Inr (b, w2)" "good X F w2" "env w2 = env w1"
      "view w2 = (view w1)(i := v)" "enqueued (welcomePacket ?h) (view w1 i) v"
      using SendPacket_ok [OF g1 os i1(1) _ i1(2,3) _ welcomePacket_wf(1,3)] w1(4) by fastforce
    note E = enqueued_keeps [OF w2(5)]
    have st2: "steady w w2" by (rule steady_trans [OF st1 steady_change [OF w2(3,4)]]) (rule E(2))
    have a2: "active X F k i w2" by (rule active_steady [OF a w2(2) st2])
    then have i2: "i < cap w2" "holds (Local k) i w2" by (auto simp: active_def)
    have v2: "v_state (view w2 i) = 2" "\<not> v_inR (view w2 i)" "ov_wf (s_readOv (v_obj (view w2 i)))"
      using w2(4) w1(4) E(1,6,9) fl ok True by (auto simp: session_ok_def)
    obtain b' w3 where w3: "RegisterRead cb os i w2 = Inr (b', w3)" "good X F w3" "env w3 = env w2"
      "steady w2 w3" "v_state (view w3 i) = 2"
      using RegisterRead_ok [OF w2(2) os i2(1) _ v2(3) i2(2) i1(3), of cb] v2 by (fastforce simp: steady_def)
    have run: "Connect cb os i w = (if b then Inr (b', w3) else Inr (False, w2))"
      using get s gs True w1(1) w2(1) w3(1) by (simp add: Connect_def ConnectSession_def)
    show ?thesis using run w2(2) w3(2) st2 steady_trans [OF st2 w3(4)] v2(1) w3(5) True
      by (cases b) auto
  qed
qed

lemma close_socket:
  assumes g: "good X F w" and i: "i < cap w" and h: "holds k i w" "k \<notin> X" "k \<noteq> DiscPtr i"
    and st: "v_state (view w i) = 1 \<or> v_state (view w i) = 2"
    and w1: "pinv X F w1" "env w1 = env w" "view w1 = (view w)(i := (view w i)\<lparr>v_state := 3\<rparr>)"
      "p_ptrs w1 = p_ptrs w" "handle_of (p_set w1) i = handle_of (p_set w) i"
  defines "s \<equiv> (v_obj (view w i))\<lparr>s_disconnectOv := (s_disconnectOv (v_obj (view w i)))\<lparr>ioType := io_Disconnect\<rparr>\<rparr>"
  shows "\<exists>w2 w3 w4. put_session i s w1 = Inr w2 \<and> assign_session cb (DiscPtr i) s w2 = Inr w3 \<and>
    overlapped_call os (DiscOv i) (DisconnectEx i) w3 =
      Inr (fst (os w3 (DisconnectEx i)), snd (os w3 (DisconnectEx i)), w4) \<and> pinv X F w4 \<and> env w4 = env w \<and>
    view w4 = (view w)(i := (view w i)\<lparr>v_state := 3, v_obj := s, v_disc := live_ptr (v_handle (view w i)), v_closed := True,
      v_inD := accepted (DisconnectEx i) (fst (os w3 (DisconnectEx i))) (snd (os w3 (DisconnectEx i)))\<rparr>)"
proof -
  let ?h = "v_handle (view w i)"
  note ok = goodD(5) [OF g i]
  have m: "v_mgr (view w i) = live_ptr ?h" and nD: "\<not> v_inD (view w i)"
    and sm: "s_sessionManager (v_obj (view w i))" "s_handle (v_obj (view w i)) = ?h"
    and d: "p_ptrs w (DiscPtr i) = null_ptr \<or> p_ptrs w (DiscPtr i) = live_ptr ?h"
    using session_okD(6,8-10,18) [OF ok] st unfolding self_ptr_def view_fields by auto
  have i1: "i < cap w1" using i env_eqD(1) [OF w1(2)] by simp
  obtain w2 where w2: "put_session i s w1 = Inr w2" "same_pool w1 w2" "env w2 = env w1"
    "view w2 = (view w1)(i := (view w1 i)\<lparr>v_obj := s\<rparr>)"
    using put_session_ok [OF pinvD [OF w1(1)] i1] by blast
  have p2: "pinv X F w2" by (rule same_pool_pinv [OF w2(2) w1(1)])
  have b2: "based X F w2" by (rule based_env [OF good_based [OF g] p2]) (simp add: w2(3) w1(2))
  have i2: "i < cap w2" using i1 env_eqD(1) [OF w2(3)] by simp
  have pt2: "p_ptrs w2 = p_ptrs w" "handle_of (p_set w2) i = ?h"
    using same_poolD(1,2) [OF w2(2)] w1(4,5) view_slot(3) [OF goodD(2) [OF g] i] by simp_all
  have l: "p_ptrs w k = live_ptr ?h" using h(1) holds_view [OF goodD(2) [OF g] i] by simp
  then have drop: "p_ptrs w2 (DiscPtr i) = null_ptr \<or> (\<exists>l. l \<notin> X \<and> l \<noteq> DiscPtr i \<and> p_ptrs w2 l = p_ptrs w2 (DiscPtr i))"
    using d h(2,3) unfolding pt2(1) by metis
  obtain w3 where w3: "assign_session cb (DiscPtr i) s w2 = Inr w3" "pinv X F w3"
    "repointed w2 ((p_ptrs w2)(ov_ptr (DiscOv i) := p_ptrs w2 (MgrPtr i))) w3"
    using assign_session_ok [OF b2 i2 _ _ _ drop, of s cb] sm pt2(2) by (auto simp: s_def)
  note V3 = repointed_own [OF w3(3)]
  have nf: "\<not> in_flight w3 (DiscOv i)"
    using nD V3(1) w2(4) w1(3) view_fields(8) [of w3 i] by simp
  obtain w4 where w4: "overlapped_call os (DiscOv i) (DisconnectEx i) w3 =
      Inr (fst (os w3 (DisconnectEx i)), snd (os w3 (DisconnectEx i)), w4)" "same_pool w3 w4" "env w4 = env w3"
    and v4: "view w4 = (view w)(i := (view w i)\<lparr>v_state := 3, v_obj := s, v_disc := live_ptr ?h, v_closed := True,
      v_inD := accepted (DisconnectEx i) (fst (os w3 (DisconnectEx i))) (snd (os w3 (DisconnectEx i)))\<rparr>)"
    using overlapped_call_ok [OF nf, of "DisconnectEx i" os] V3(1) w2(4) w1(3) m pt2(1)
    by (auto simp: after_call_def view_fields)
  have "env w4 = env w" using w4(3) V3(2) w2(3) w1(2) by simp
  then show ?thesis using w2(1) w3(1) w4(1) same_pool_pinv [OF w4(2) w3(2)] v4 by blast
qed

text \<open>
  \<^const>\<open>Disconnect\<close> moves a pending or connected session to the disconnecting state and calls \<^verbatim>\<open>DisconnectEx\<close> once;
  a session that is already disconnecting is left alone.
\<close>

lemma Disconnect_ok:
  assumes os: "os_respects os" and a: "active X F k i w"
  shows "\<exists>w' v. Disconnect cb os i w = Inr (True, w') \<and> good X F w' \<and> steady w w' \<and> view w' = (view w)(i := v) \<and>
    v_state v = ss_value kDisconnecting \<and> v_closed v \<and> v_inR v = v_inR (view w i) \<and> v_inW v = v_inW (view w i) \<and>
    (v_state (view w i) = ss_value kDisconnecting \<longrightarrow> w' = w)"
proof -
  let ?s = "v_obj (view w i)" and ?h = "v_handle (view w i)"
  have g: "good X F w" and i: "i < cap w" and busy: "v_state (view w i) \<noteq> 0" and h: "holds (Local k) i w" "Local k \<notin> X"
    using a by (auto simp: active_def)
  note ok = goodD(5) [OF g i] and get = get_session_ok [OF goodD(2) [OF g] i] and gs = GetState_view [OF g i]
  have s: "s_sessionManager ?s" "s_handle ?s = ?h" using ok busy by (auto simp: session_ok_def)
  show ?thesis
  proof (cases "v_state (view w i) = 3")
    case True
    then have "Disconnect cb os i w = Inr (True, w)" using get s gs by (simp add: Disconnect_def)
    moreover have "v_closed (view w i)" using ok True by (simp add: session_ok_def)
    ultimately show ?thesis using g True steady_refl
      by (intro exI [of _ w] exI [of _ "view w i"]) simp
  next
    case False
    then have st: "v_state (view w i) = 1 \<or> v_state (view w i) = 2" using state_lt [OF g i] busy by linarith
    obtain w1 where w1: "Pool_MoveToState ?h 3 w = Inr (True, w1)" "pinv X F w1" "env w1 = env w"
      "view w1 = (view w)(i := (view w i)\<lparr>v_state := 3\<rparr>)" "p_ptrs w1 = p_ptrs w"
      "handle_of (p_set w1) i = handle_of (p_set w) i"
      using MoveToState_view [OF g i, of 3] busy i by auto
    let ?s1 = "?s\<lparr>s_disconnectOv := (s_disconnectOv ?s)\<lparr>ioType := io_Disconnect\<rparr>\<rparr>"
    obtain w2 w3 w4 where w4: "put_session i ?s1 w1 = Inr w2" "assign_session cb (DiscPtr i) ?s1 w2 = Inr w3"
      "overlapped_call os (DiscOv i) (DisconnectEx i) w3 =
        Inr (fst (os w3 (DisconnectEx i)), snd (os w3 (DisconnectEx i)), w4)" "pinv X F w4" and e4: "env w4 = env w"
      and v4: "view w4 = (view w)(i := (view w i)\<lparr>v_state := 3, v_obj := ?s1, v_disc := live_ptr ?h, v_closed := True,
        v_inD := accepted (DisconnectEx i) (fst (os w3 (DisconnectEx i))) (snd (os w3 (DisconnectEx i)))\<rparr>)"
      using close_socket [OF g i h _ st w1(2-6)] by blast
    have "sinv w4"
      by (rule sinv_change [OF goodD(3) [OF g] e4 v4 i], unfold session_ok_def)
        (use session_okD(1-5,7,12-15) [OF ok] s in \<open>simp_all add: self_ptr_def is_accept_def read_posted_def write_posted_def\<close>)
    then have g4: "good X F w4" using good_env [OF g w4(4) _ e4] by simp
    have "Disconnect cb os i w = Inr (True, w4)"
      using get s gs st w1(1) w4(1-3) os_bool(1) [OF os] by (auto simp: Disconnect_def SM_SetState_def Let_def)
    moreover have "steady w w4" by (rule steady_change [OF e4 v4]) simp
    ultimately show ?thesis using g4 v4 False by auto
  qed
qed

lemma Clear_ok:
  assumes a: "active X F k i w" and st: "v_state (view w i) = ss_value kDisconnecting"
  shows "\<exists>w'. Clear cb i w = Inr (True, w') \<and> good X F w' \<and> steady w w' \<and>
    view w' = (view w)(i := (view w i)\<lparr>v_mgr := null_ptr\<rparr>)"
proof -
  let ?s = "v_obj (view w i)" and ?h = "v_handle (view w i)"
  have g: "good X F w" and i: "i < cap w" and busy: "v_state (view w i) \<noteq> 0" and h: "holds (Local k) i w" "Local k \<notin> X"
    using a by (auto simp: active_def)
  note c = goodD(2) [OF g]
  note ok = goodD(5) [OF g i] and get = get_session_ok [OF c i] and H = handle_of_simps [OF countedD(1) [OF c] i]
  have s: "s_sessionManager ?s" "s_handle ?s = ?h" using ok busy by (auto simp: session_ok_def)
  have "shared (MgrPtr i) w"
    by (rule shared_held [OF c h(1,2) goodD(12) [OF g]])
      (use ok view_slot(3) [OF c i] in \<open>auto simp: session_ok_def self_ptr_def view_fields\<close>)
  from Ptr_Reset_shared [OF goodD(1) [OF g] goodD(12) [OF g] this, of cb] obtain w1 where
    w1: "Ptr_Reset cb (MgrPtr i) w = Inr (False, w1)" "pinv X F w1"
    "repointed w ((p_ptrs w)(MgrPtr i := null_ptr)) w1" by blast
  have e: "env w1 = env w" by (rule repointed_env [OF w1(3)]) simp
  have v: "view w1 = (view w)(i := (view w i)\<lparr>v_mgr := null_ptr\<rparr>)"
    using repointed_view [OF w1(3)] by (auto simp: fun_eq_iff view_fields)
  have "sinv w1" by (rule sinv_change [OF goodD(3) [OF g] e v i])
      (use ok st in \<open>auto simp: session_ok_def self_ptr_def is_accept_def\<close>)
  then have "good X F w1" using good_env [OF g w1(2) _ e] by simp
  moreover have "Clear cb i w = Inr (True, w1)"
    using get s w1(1) H view_slot(3) [OF c i] i
    by (simp add: Clear_def DisconnectSession_def Pool_IsValid_def sessionPtrs_def)
  ultimately show ?thesis using v steady_change [OF e v] by auto
qed

end
