(* ===== verification/Listener.thy ===== *)
theory Listener
  imports Session_Life
begin

text \<open>
  \<^verbatim>\<open>Network/Server/Listener.cpp\<close>: keeping \<^verbatim>\<open>kAcceptCount\<close> accepts posted, and what happens when one completes.
\<close>

section \<open>Definitions\<close>

text \<open>
  \<^verbatim>\<open>RegisterAccept\<close> gets a reference to the pointer at \<open>l\<close>. The result of \<^verbatim>\<open>AcceptEx\<close> is compared with
  \<^verbatim>\<open>SOCKET_ERROR\<close> although it is a \<^verbatim>\<open>BOOL\<close>.
\<close>

definition RegisterAccept :: "world callbacks \<Rightarrow> os \<Rightarrow> loc \<Rightarrow> world \<Rightarrow> (bool \<times> world) res" where
  "RegisterAccept cb os l w =
     rbind (Ptr_deref l w) (\<lambda>i.
     rbind (get_session i w) (\<lambda>s.
     let ov = (s_readOv s)\<lparr>ioType := io_Accept, wsa_buf := 0,
                wsa_len := word_of_nat (GetSize (ov_buffer (s_readOv s)))\<rparr> in
     rbind (put_session i (s\<lparr>s_readOv := ov\<rparr>) w) (\<lambda>w.
     rbind (Ptr_copy_assign cb (ReadPtr i) l w) (\<lambda>w.
     rbind (overlapped_call os (ReadOv i) (AcceptEx i) w) (\<lambda>(result, errorCode, w).
     if result = SOCKET_ERROR then
       if errorCode = WSA_IO_PENDING then Inr (True, w)
       else rbind (Ptr_deref l w) (\<lambda>_. Inr (False, w))
     else Inr (True, w))))))"

text \<open>
  One iteration of the loop of \<^verbatim>\<open>PostAccept\<close>; it answers whether the loop goes on. Without other threads the
  compare-and-exchange succeeds. \<open>PostAccept_scope\<close> is the scope of the local \<^verbatim>\<open>sessionPtr\<close>.
\<close>

datatype post_result = Again | Returned bool

definition PostAccept_scope :: "world callbacks \<Rightarrow> os \<Rightarrow> loc \<Rightarrow> world \<Rightarrow> (post_result \<times> world) res" where
  "PostAccept_scope cb os sessionPtr w =
     rbind (CreateSession cb sessionPtr w) (\<lambda>w.
     if \<not> Ptr_IsValid sessionPtr w then
       Inr (Returned False, w\<lparr>pendingAccepts := pendingAccepts w - 1\<rparr>)
     else
       rbind (RegisterAccept cb os sessionPtr w) (\<lambda>(ok, w).
       if \<not> ok then
         let w = w\<lparr>pendingAccepts := pendingAccepts w - 1\<rparr> in
         rbind (Ptr_deref sessionPtr w) (\<lambda>i.
         rbind (Disconnect cb os i w) (\<lambda>(_, w).
         Inr (Returned False, w)))
       else
         rbind (Ptr_deref sessionPtr w) (\<lambda>i.
         rbind (get_session i w) (\<lambda>s.
         rbind (put_session i (s\<lparr>s_listener := True\<rparr>) w) (\<lambda>w.
         Inr (Again, w))))))"

definition PostAccept_body :: "world callbacks \<Rightarrow> os \<Rightarrow> world \<Rightarrow> (post_result \<times> world) res" where
  "PostAccept_body cb os w =
     (let current = pendingAccepts w in
      if current \<ge> ucast kAcceptCount then Inr (Returned True, w)
      else scoped cb (PostAccept_scope cb os) (w\<lparr>pendingAccepts := current + 1\<rparr>))"

text \<open>Each iteration that goes on raises the counter, so \<open>kAcceptCount + 1\<close> iterations are enough.\<close>

fun PostAccept_loop :: "nat \<Rightarrow> world callbacks \<Rightarrow> os \<Rightarrow> world \<Rightarrow> (bool \<times> world) res" where
  "PostAccept_loop 0 cb os w = Inl Loop_bound"
| "PostAccept_loop (Suc n) cb os w =
     rbind (PostAccept_body cb os w) (\<lambda>(r, w).
     case r of Returned b \<Rightarrow> Inr (b, w) | Again \<Rightarrow> PostAccept_loop n cb os w)"

definition PostAccept :: "world callbacks \<Rightarrow> os \<Rightarrow> world \<Rightarrow> (bool \<times> world) res" where
  "PostAccept cb os w = PostAccept_loop (unat kAcceptCount + 1) cb os w"

definition HandleAccept :: "world callbacks \<Rightarrow> os \<Rightarrow> loc \<Rightarrow> world \<Rightarrow> (bool \<times> world) res" where
  "HandleAccept cb os l w =
     rbind (Ptr_deref l w) (\<lambda>i.
     let (result, w) = plain_call os (UpdateAcceptContext i) w in
     if result = SOCKET_ERROR then Inr (False, w)
     else
       let (result, w) = plain_call os (TcpNoDelay i) w in
       if result = SOCKET_ERROR then Inr (False, w)
       else Connect cb os i w)"

definition DecrementPendingAccepts :: "world callbacks \<Rightarrow> os \<Rightarrow> world \<Rightarrow> world res" where
  "DecrementPendingAccepts cb os w =
     rbind (PostAccept cb os (w\<lparr>pendingAccepts := pendingAccepts w - 1\<rparr>)) (\<lambda>(_, w). Inr w)"

section \<open>Creating a session\<close>

lemma sinv_gen:
  assumes s: "sinv w" and e: "cap w' = cap w" "stateCount (p_set w') = stateCount (p_set w)"
      "pendingAccepts w' = pendingAccepts w" "\<And>k. depth w' \<le> k \<Longrightarrow> p_ptrs w' (Local k) = null_ptr"
    and v: "view w' = (view w)(i := v)" and i: "i < cap w"
    and ok: "session_ok v" and acc: "is_accept v \<Longrightarrow> is_accept (view w i)"
  shows "sinv w'"
proof -
  have "accepts w' \<subseteq> accepts w" using acc by (auto simp: accepts_def v e split: if_splits)
  then have "card (accepts w') \<le> card (accepts w)"
    by (rule card_mono [rotated]) (simp add: accepts_def)
  then show ?thesis using s i ok e(4) by (auto simp: sinv_def v e(1-3))
qed

lemma sinv_same_view:
  assumes s: "sinv w" and e: "cap w' = cap w" "stateCount (p_set w') = stateCount (p_set w)"
      "\<And>k. depth w' \<le> k \<Longrightarrow> p_ptrs w' (Local k) = null_ptr"
    and p: "card (accepts w) \<le> unat (pendingAccepts w')" "unat (pendingAccepts w') \<le> unat kAcceptCount"
    and v: "view w' = view w"
  shows "sinv w'"
  using s e p by (auto simp: sinv_def v accepts_def)

text \<open>An idle session has no pointers and nothing in flight.\<close>

lemma idle_session:
  assumes g: "good X F w" and i: "i < cap w" and z: "v_state (view w i) = 0"
  shows "v_read (view w i) = null_ptr" "v_write (view w i) = null_ptr" "v_disc (view w i) = null_ptr"
    "v_mgr (view w i) = null_ptr" "\<not> v_inR (view w i)" "\<not> v_inW (view w i)" "\<not> v_inD (view w i)"
proof -
  have no: "\<not> holds l i w" if "l \<notin> X" for l using holder_busy [OF g i _ that] z by blast
  note ok = session_okD [OF goodD(5) [OF g i]] and H = holds_view [OF goodD(2) [OF g] i]
  show n: "v_read (view w i) = null_ptr" "v_write (view w i) = null_ptr" "v_disc (view w i) = null_ptr"
    "v_mgr (view w i) = null_ptr"
    using no [OF goodD(9) [OF g]] no [OF goodD(10) [OF g]] no [OF goodD(11) [OF g]] no [OF goodD(12) [OF g]] ok(4-7)
    by (auto simp: H self_ptr_def view_fields)
  show "\<not> v_inR (view w i)" "\<not> v_inW (view w i)" "\<not> v_inD (view w i)"
    using ok(12,14,16) n by auto
qed

lemma acquired_view:
  assumes a: "acquired n (Local m) h w w'" and c: "counted X F w"
  shows "view w' = (view w)(who_of h := (view w (who_of h))\<lparr>v_state := n\<rparr>)"
    "env w' = (env w)\<lparr>e_local := (e_local (env w))(m := live_ptr h)\<rparr>"
    "who_of h < cap w" "v_handle (view w (who_of h)) = h" "v_state (view w (who_of h)) = 0"
proof -
  let ?i = "who_of h"
  note I = countedD(1) [OF c]
  have up: "updates (p_set w) ?i (generation_of h, n) (p_set w')" and v: "IsValid h (p_set w)"
    and st: "state_of (p_set w) ?i = 0"
    and p: "p_ptrs w' = (p_ptrs w)(Local m := live_ptr h)" "map obj (p_slots w') = map obj (p_slots w)"
      "pool.more w' = pool.more w" using a by (auto simp: acquired_def)
  have m: "depth w' = depth w" "pendingAccepts w' = pendingAccepts w" "in_flight w' = in_flight w" "api_log w' = api_log w"
    using p(3) by (cases w; cases w'; simp)+
  show i: "?i < cap w" using v by (simp add: IsValid_iff)
  have gen: "gen_of (p_set w) ?i = generation_of h" using v by (simp add: IsValid_iff)
  note S = view_slot [OF c i]
  show "v_handle (view w ?i) = h" "v_state (view w ?i) = 0" using S IsValid_handle_of [OF v] st by simp_all
  show "env w' = (env w)\<lparr>e_local := (e_local (env w))(m := live_ptr h)\<rparr>"
    using up p m by (auto simp: env_def updates_def fun_eq_iff)
  show "view w' = (view w)(?i := (view w ?i)\<lparr>v_state := n\<rparr>)"
    using up p m gen i ss_invD(4) [OF I]
    by (auto simp: view_def updates_def slots_view_simps nth_list_update fun_eq_iff)
qed

lemma repointed_local:
  assumes "repointed w ps w'" "\<And>j. ps (ReadPtr j) = p_ptrs w (ReadPtr j)" "\<And>j. ps (WritePtr j) = p_ptrs w (WritePtr j)"
    "\<And>j. ps (DiscPtr j) = p_ptrs w (DiscPtr j)" "\<And>j. ps (MgrPtr j) = p_ptrs w (MgrPtr j)"
  shows "view w' = view w"
  using repointed_view [OF assms(1)] assms(2-5) by (auto simp: fun_eq_iff view_fields)

lemma fill_session:
  assumes p1: "pinv X F w1" and i: "i < cap w1" and l: "p_ptrs w1 (Local d) = live_ptr h" "Local d \<notin> X"
    and t: "p_ptrs w1 (Local m) = null_ptr" "Local m \<notin> X" "m \<noteq> d"
    and M: "p_ptrs w1 (MgrPtr i) = null_ptr" "MgrPtr i \<notin> X" and s: "s = (v_obj (view w1 i))\<lparr>s_sessionManager := True, s_handle := h\<rparr>"
  shows "\<exists>w2 w3 w4. put_session i s w1 = Inr w2 \<and> cap w2 = cap w1 \<and> Ptr_move_assign cb (MgrPtr i) (Local d) w2 = Inr w3 \<and>
    Ptr_copy (Local m) (MgrPtr i) w3 = Inr w4 \<and> pinv X F w4 \<and>
    p_ptrs w4 = (p_ptrs w1)(MgrPtr i := live_ptr h, Local d := null_ptr, Local m := live_ptr h) \<and>
    env w4 = (env w1)\<lparr>e_local := (e_local (env w1))(d := null_ptr, m := live_ptr h)\<rparr> \<and>
    view w4 = (view w1)(i := (view w1 i)\<lparr>v_obj := s, v_mgr := live_ptr h\<rparr>)"
proof -
  obtain w2 where w2: "put_session i s w1 = Inr w2" "same_pool w1 w2" "env w2 = env w1"
    "view w2 = (view w1)(i := (view w1 i)\<lparr>v_obj := s\<rparr>)"
    using put_session_ok [OF pinvD [OF p1] i] by blast
  have p2: "pinv X F w2" by (rule same_pool_pinv [OF w2(2) p1])
  have pt2: "p_ptrs w2 = p_ptrs w1" using same_poolD(2) [OF w2(2)] .
  have "shared (MgrPtr i) w2" using M(1) pt2 by (simp add: shared_def)
  then obtain w3 where w3: "Ptr_move_assign cb (MgrPtr i) (Local d) w2 = Inr w3" "pinv X F w3"
    "repointed w2 ((p_ptrs w1)(MgrPtr i := live_ptr h, Local d := null_ptr)) w3"
    using Ptr_move_assign_ok [OF p2 M(2) l(2), of cb] l(1) pt2 by auto
  have pt3: "p_ptrs w3 = (p_ptrs w1)(MgrPtr i := live_ptr h, Local d := null_ptr)" using repointedD(2) [OF w3(3)] .
  obtain w4 where w4: "Ptr_copy (Local m) (MgrPtr i) w3 = Inr w4" "pinv X F w4"
    "repointed w3 ((p_ptrs w3)(Local m := live_ptr h)) w4"
    using Ptr_copy_ok [OF w3(2) t(2) _ M(2)] t(1,3) by (auto simp: pt3)
  have v3: "view w3 = (view w2)(i := (view w2 i)\<lparr>v_mgr := live_ptr h\<rparr>)"
    using repointed_view [OF w3(3)] pt2 by (auto simp: fun_eq_iff view_fields)
  have v4: "view w4 = view w3" by (rule repointed_local [OF w4(3)]) simp_all
  have "env w4 = (env w1)\<lparr>e_local := (e_local (env w1))(d := null_ptr, m := live_ptr h)\<rparr>"
    using w3(3) w4(3) w2(3) pt2 by (auto simp: repointed_def env_def fun_eq_iff)
  moreover have "cap w2 = cap w1" using env_eqD(1) [OF w2(3)] .
  ultimately show ?thesis using w2 w3(1) w4(1,2) repointedD(2) [OF w4(3)] pt3 v3 v4 by auto
qed

lemma CreateSession_exhausted:
  assumes g: "good X F w" and full: "\<not> has_idle (p_set w)" and t: "p_ptrs w t = null_ptr"
  shows "\<exists>w'. CreateSession cb t w = Inr w' \<and> good X F w' \<and> env w' = env w \<and> view w' = view w"
proof -
  let ?d = "depth w" and ?w0 = "w\<lparr>depth := depth w + 1\<rparr>"
  let ?l = "Local ?d"
  have l: "p_ptrs w ?l = null_ptr" "?l \<notin> X" using goodD(7,8) [OF g] by simp_all
  have p0: "pinv X F ?w0" using same_pool_pinv [OF deeper(1) goodD(1) [OF g]] .
  have acq: "Pool_Acquire 1 ?l ?w0 = Inr ?w0" by (rule Pool_Acquire_exhausted [OF p0]) (use full l(1) in simp_all)
  have nul: "Ptr_ctor_null t ?w0 = ?w0" using t by (simp add: Ptr_ctor_null_def set_ptr_def fun_upd_idem)
  have f: "CreateSession_body cb t ?l ?w0 = Inr ((), ?w0)"
    using acq nul l(1) by (simp add: CreateSession_body_def Ptr_IsValid_def)
  from scoped_rule [where f = "CreateSession_body cb t" and cb = cb, OF f p0 l(2)] obtain w' where
    w': "scoped cb (CreateSession_body cb t) w = Inr ((), w')" "pinv X F w'" "repointed (?w0\<lparr>depth := ?d\<rparr>) ((p_ptrs ?w0)(?l := null_ptr)) w'"
    using l(1) by (auto simp: shared_def)
  have r: "repointed w (p_ptrs w) w'" using w'(3) l(1) by (simp add: fun_upd_idem)
  have e: "env w' = env w" by (rule repointed_env [OF r]) simp
  have v: "view w' = view w" by (rule repointed_local [OF r]) simp_all
  have "sinv w'"
    by (rule sinv_same_view [OF goodD(3) [OF g] _ _ _ _ _ v])
      (use goodD(3) [OF g] env_eqD [OF e] in \<open>auto simp: sinv_def\<close>)
  then have "good X F w'" by (rule good_env [OF g w'(2) _ e])
  then show ?thesis using w'(1) e v by (simp add: CreateSession_def)
qed

lemma CreateSession_acquired:
  assumes g: "good X F w" and idle: "has_idle (p_set w)" and t: "p_ptrs w (Local m) = null_ptr" "Local m \<notin> X" "m < depth w"
  shows "\<exists>w' i. CreateSession cb (Local m) w = Inr w' \<and> good X F w' \<and> i < cap w \<and> v_state (view w i) = 0 \<and>
    env w' = (env w)\<lparr>e_local := (e_local (env w))(m := live_ptr (v_handle (view w i)))\<rparr> \<and>
    view w' = (view w)(i := (view w i)\<lparr>v_state := 1,
      v_obj := (v_obj (view w i))\<lparr>s_sessionManager := True, s_handle := v_handle (view w i)\<rparr>,
      v_mgr := live_ptr (v_handle (view w i))\<rparr>)"
proof -
  let ?d = "depth w" and ?w0 = "w\<lparr>depth := depth w + 1\<rparr>"
  let ?l = "Local ?d"
  have l: "p_ptrs w ?l = null_ptr" "?l \<notin> X" using goodD(7,8) [OF g] by simp_all
  have p0: "pinv X F ?w0" using same_pool_pinv [OF deeper(1) goodD(1) [OF g]] .
  obtain h w1 where w1: "Pool_Acquire 1 ?l ?w0 = Inr w1" "pinv X F w1" "acquired 1 ?l h ?w0 w1"
    using Pool_Acquire_ok [OF p0 l(2), of 1] l(1) idle goodD(6) [OF g] by auto
  let ?i = "who_of h" and ?s = "v_obj (view w (who_of h))\<lparr>s_sessionManager := True, s_handle := h\<rparr>"
  note A = acquired_view [OF w1(3) pinvD [OF p0], unfolded deeper(2)]
  have i: "?i < cap w" "v_handle (view w ?i) = h" "v_state (view w ?i) = 0" using A(3-5) by simp_all
  note Z = idle_session [OF g i(1,3)]
  have pt1: "p_ptrs w1 = (p_ptrs w)(?l := live_ptr h)" using w1(3) by (simp add: acquired_def)
  have i1: "?i < cap w1" using i(1) w1(3) by (simp add: acquired_def updates_def)
  have D: "Ptr_deref ?l w1 = Inr ?i" "Ptr_IsValid ?l w1"
    by (rule Ptr_deref_live [OF pinvD [OF w1(2)] l(2)], simp add: pt1)+
  have o1: "v_obj (view w1 ?i) = v_obj (view w ?i)" using A(1) by simp
  obtain w2 w3 w4 where w4: "put_session ?i ?s w1 = Inr w2" "cap w2 = cap w1" "Ptr_move_assign cb (MgrPtr ?i) ?l w2 = Inr w3"
    "Ptr_copy (Local m) (MgrPtr ?i) w3 = Inr w4" "pinv X F w4"
    "p_ptrs w4 = (p_ptrs w1)(MgrPtr ?i := live_ptr h, ?l := null_ptr, Local m := live_ptr h)"
    "env w4 = (env w1)\<lparr>e_local := (e_local (env w1))(?d := null_ptr, m := live_ptr h)\<rparr>"
    "view w4 = (view w1)(?i := (view w1 ?i)\<lparr>v_obj := ?s, v_mgr := live_ptr h\<rparr>)"
    using fill_session [OF w1(2) i1 _ l(2) _ t(2) _ _ goodD(12) [OF g], of h ?s cb] t(1,3) Z(4) o1
    by (auto simp: pt1 view_fields)
  have f: "CreateSession_body cb (Local m) ?l ?w0 = Inr ((), w4)"
    using w1(1) D get_session_ok [OF pinvD [OF w1(2)] i1] o1 w4(1-4) i1
    by (simp add: CreateSession_body_def pt1 sessionPtrs_def Let_def)
  from scoped_rule [where f = "CreateSession_body cb (Local m)" and cb = cb, OF f w4(5) l(2)] obtain w' where
    w': "scoped cb (CreateSession_body cb (Local m)) w = Inr ((), w')" "pinv X F w'" "repointed (w4\<lparr>depth := ?d\<rparr>) ((p_ptrs w4)(?l := null_ptr)) w'"
    using w4(6) t(3) by (auto simp: shared_def)
  have v': "view w' = (view w)(?i := (view w ?i)\<lparr>v_state := 1, v_obj := ?s, v_mgr := live_ptr h\<rparr>)"
    using repointed_local [OF w'(3)] w4(8) A(1) by (simp add: deeper(2))
  have e': "env w' = (env w)\<lparr>e_local := (e_local (env w))(m := live_ptr h)\<rparr>"
    using w'(3) w4(6,7) A(2) l(1) t(3) by (auto simp: repointed_def env_def fun_eq_iff pt1)
  have E: "cap w' = cap w" "stateCount (p_set w') = stateCount (p_set w)" "pendingAccepts w' = pendingAccepts w"
    "depth w' = depth w" "p_ptrs w' (Local k) = (if k = m then live_ptr h else p_ptrs w (Local k))" for k
    using e' by (simp_all add: env_def fun_eq_iff split: if_splits)
  have "sinv w'"
    by (rule sinv_gen [OF goodD(3) [OF g] E(1-3) _ v' i(1)], unfold session_ok_def)
      (use goodD(7) [OF g] t(3) session_okD [OF goodD(5) [OF g i(1)]] Z i in \<open>auto simp: E self_ptr_def is_accept_def\<close>)
  then have "good X F w'" using w'(2) goodD(4) [OF g] E(4) by (simp add: good_def)
  then show ?thesis using w'(1) e' v' i by (auto simp: CreateSession_def)
qed

section \<open>Posting accepts\<close>

lemma RegisterAccept_view:
  assumes g: "good X F w" and os: "os_respects os" and i: "i < cap w" and l: "holds (Local m) i w" "Local m \<notin> X"
    and r: "v_read (view w i) = null_ptr" "\<not> v_inR (view w i)" and wf: "ov_wf (s_readOv (v_obj (view w i)))"
  shows "\<exists>w' ov acc. RegisterAccept cb os (Local m) w = Inr (True, w') \<and> pinv X F w' \<and> env w' = env w \<and>
    ioType ov = io_Accept \<and> ov_wf ov \<and>
    view w' = (view w)(i := (view w i)\<lparr>v_obj := (v_obj (view w i))\<lparr>s_readOv := ov\<rparr>,
      v_read := live_ptr (v_handle (view w i)), v_inR := acc, v_closed := False\<rparr>)"
proof -
  let ?s = "v_obj (view w i)" and ?h = "v_handle (view w i)"
  let ?ov = "(s_readOv ?s)\<lparr>ioType := io_Accept, wsa_buf := 0, wsa_len := word_of_nat (GetSize (ov_buffer (s_readOv ?s)))\<rparr>"
  note c = goodD(2) [OF g]
  have pl: "p_ptrs w (Local m) = live_ptr ?h" using l(1) holds_view [OF c i] by simp
  have D: "Ptr_deref (Local m) w = Inr i"
    using Ptr_deref_live(1) [OF c l(2) pl] handle_of_simps(1) [OF countedD(1) [OF c] i] view_slot(3) [OF c i] by simp
  let ?s1 = "?s\<lparr>s_readOv := ?ov\<rparr>"
  obtain w1 where w1: "put_session i ?s1 w = Inr w1" "same_pool w w1" "env w1 = env w"
    "view w1 = (view w)(i := (view w i)\<lparr>v_obj := ?s1\<rparr>)"
    using put_session_ok [OF c i] by blast
  have p1: "pinv X F w1" by (rule same_pool_pinv [OF w1(2) goodD(1) [OF g]])
  have pt1: "p_ptrs w1 = p_ptrs w" using same_poolD(2) [OF w1(2)] .
  have "shared (ReadPtr i) w1" using r(1) by (simp add: shared_def pt1 view_fields)
  then obtain w2 where w2: "Ptr_copy_assign cb (ReadPtr i) (Local m) w1 = Inr w2" "pinv X F w2"
    "repointed w1 ((p_ptrs w1)(ov_ptr (ReadOv i) := live_ptr ?h)) w2"
    using Ptr_copy_assign_ok [OF p1 goodD(9) [OF g] l(2), of i cb] pl by (auto simp: pt1)
  note V2 = repointed_own [OF w2(3)]
  have nf: "\<not> in_flight w2 (ReadOv i)" using r(2) V2(1) w1(4) view_fields(6) [of w2 i] by simp
  obtain w3 where w3: "overlapped_call os (ReadOv i) (AcceptEx i) w2 =
      Inr (fst (os w2 (AcceptEx i)), snd (os w2 (AcceptEx i)), w3)" "same_pool w2 w3" "env w3 = env w2"
    "view w3 = (view w2)(i := (view w2 i)\<lparr>v_closed := False,
      v_inR := accepted (AcceptEx i) (fst (os w2 (AcceptEx i))) (snd (os w2 (AcceptEx i)))\<rparr>)"
    using overlapped_call_ok [OF nf, of "AcceptEx i" os] by (auto simp: after_call_def)
  have "RegisterAccept cb os (Local m) w = Inr (True, w3)"
    using D get_session_ok [OF c i] w1(1) w2(1) w3(1) os_bool(2) [OF os] by (simp add: RegisterAccept_def Let_def)
  moreover have "ov_wf ?ov" using wf by (simp add: ov_wf_def)
  moreover obtain a where "view w3 = (view w)(i := (view w i)\<lparr>v_obj := ?s1, v_read := live_ptr ?h, v_inR := a, v_closed := False\<rparr>)"
    using w3(4) V2(1) w1(4) by (cases "view w i") auto
  moreover have "env w3 = env w" using w3(3) V2(2) w1(3) by simp
  ultimately show ?thesis using same_pool_pinv [OF w3(2) w2(2)]
    by (intro exI [of _ w3] exI [of _ ?ov] exI [of _ a]) simp
qed

text \<open>What posting an accept leaves alone: the stack below it, all handles, and every session in use.\<close>

definition undisturbed :: "nat set \<Rightarrow> world \<Rightarrow> world \<Rightarrow> bool" where
  "undisturbed K w w' \<longleftrightarrow>
     cap w' = cap w \<and> stateCount (p_set w') = stateCount (p_set w) \<and> depth w' = depth w \<and>
     (\<forall>k. k \<notin> K \<longrightarrow> p_ptrs w' (Local k) = p_ptrs w (Local k)) \<and>
     (\<forall>j. v_handle (view w' j) = v_handle (view w j)) \<and>
     (\<forall>j. v_state (view w j) \<noteq> 0 \<longrightarrow> view w' j = view w j)"

lemma undisturbed_trans: "undisturbed K u v \<Longrightarrow> undisturbed K v w \<Longrightarrow> undisturbed K u w"
  by (simp add: undisturbed_def)

text \<open>No session is idle.\<close>

definition all_busy :: "world \<Rightarrow> bool" where
  "all_busy w \<longleftrightarrow> (\<forall>j<cap w. v_state (view w j) \<noteq> 0)"

lemma PostAccept_scope_exhausted:
  assumes g: "good X F w" and os: "os_respects os" and m: "m < depth w" "p_ptrs w (Local m) = null_ptr" "Local m \<notin> X"
    and idle: "\<not> has_idle (p_set w)" and room: "card (accepts w) < unat (pendingAccepts w)"
  shows "\<exists>r w'. PostAccept_scope cb os (Local m) w = Inr (r, w') \<and> good X F w' \<and> undisturbed {m} w w' \<and> shared (Local m) w' \<and>
    (case r of Again \<Rightarrow> pendingAccepts w' = pendingAccepts w
     | Returned b \<Rightarrow> pendingAccepts w' = pendingAccepts w - 1 \<and> \<not> b \<and> all_busy w')"
proof -
  obtain w1 where w1: "CreateSession cb (Local m) w = Inr w1" "good X F w1" "env w1 = env w" "view w1 = view w"
    using CreateSession_exhausted [OF g idle m(2)] by blast
  let ?w2 = "w1\<lparr>pendingAccepts := pendingAccepts w1 - 1\<rparr>"
  note E = env_eqD [OF w1(3)]
  have v2: "view ?w2 = view w" using w1(4) by (simp add: view_def fun_eq_iff)
  have u: "unat (pendingAccepts w - 1) = unat (pendingAccepts w) - 1"
    using room by (metis gr_implies_not0 unat_0 unat_minus_one)
  have acc: "accepts w1 = accepts w" using E(1) w1(4) by (simp add: accepts_def)
  have "sinv ?w2"
    by (rule sinv_same_view [OF goodD(3) [OF w1(2)]])
      (use goodD(3,7) [OF w1(2)] v2 w1(4) E u room acc in \<open>auto simp: sinv_def\<close>)
  moreover have "pinv X F ?w2" by (rule same_pool_pinv [OF _ goodD(1) [OF w1(2)]]) (simp add: same_pool_def)
  ultimately have "good X F ?w2" using goodD(4) [OF w1(2)] by (simp add: good_def)
  moreover have "PostAccept_scope cb os (Local m) w = Inr (Returned False, ?w2)"
    using w1(1) m(2) E(5) [of m] by (simp add: PostAccept_scope_def Ptr_IsValid_def)
  moreover have "undisturbed {m} w ?w2" using E v2 by (simp add: undisturbed_def)
  moreover have "shared (Local m) ?w2" using E(5) [of m] m(2) by (simp add: shared_def)
  moreover have "all_busy ?w2"
    using idle view_slot(2) [OF goodD(2) [OF g]] E(1) v2 by (auto simp: all_busy_def has_idle_def)
  ultimately show ?thesis using E(4) by (intro exI [of _ "Returned False"] exI [of _ ?w2]) simp
qed

lemma PostAccept_scope_acquired:
  assumes g: "good X F w" and os: "os_respects os" and m: "m < depth w" "p_ptrs w (Local m) = null_ptr" "Local m \<notin> X"
    and idle: "has_idle (p_set w)" and room: "card (accepts w) < unat (pendingAccepts w)"
  shows "\<exists>r w'. PostAccept_scope cb os (Local m) w = Inr (r, w') \<and> good X F w' \<and> undisturbed {m} w w' \<and> shared (Local m) w' \<and>
    (case r of Again \<Rightarrow> pendingAccepts w' = pendingAccepts w
     | Returned b \<Rightarrow> pendingAccepts w' = pendingAccepts w - 1 \<and> \<not> b \<and> all_busy w')"
proof -
  obtain w1 i where w1: "CreateSession cb (Local m) w = Inr w1" "good X F w1"
    and i: "i < cap w" "v_state (view w i) = 0"
    and e1: "env w1 = (env w)\<lparr>e_local := (e_local (env w))(m := live_ptr (v_handle (view w i)))\<rparr>"
    and v1: "view w1 = (view w)(i := (view w i)\<lparr>v_state := 1,
      v_obj := (v_obj (view w i))\<lparr>s_sessionManager := True, s_handle := v_handle (view w i)\<rparr>,
      v_mgr := live_ptr (v_handle (view w i))\<rparr>)"
    using CreateSession_acquired [OF g idle m(2,3,1)] by blast
  let ?h = "v_handle (view w i)"
  note Z = idle_session [OF g i]
  have E: "cap w1 = cap w" "stateCount (p_set w1) = stateCount (p_set w)" "pendingAccepts w1 = pendingAccepts w"
    "depth w1 = depth w" "p_ptrs w1 (Local k) = (if k = m then live_ptr ?h else p_ptrs w (Local k))" for k
    using e1 by (simp_all add: env_def fun_eq_iff split: if_splits)
  have i1: "i < cap w1" using i(1) E(1) by simp
  have hl: "holds (Local m) i w1" using holds_view [OF goodD(2) [OF w1(2)] i1] E(5) v1 by simp
  have rd: "v_read (view w1 i) = null_ptr" "\<not> v_inR (view w1 i)" "ov_wf (s_readOv (v_obj (view w1 i)))"
    using v1 Z session_okD(3) [OF goodD(5) [OF g i(1)]] i(2) by simp_all
  obtain w2 ov acc where w2: "RegisterAccept cb os (Local m) w1 = Inr (True, w2)" "pinv X F w2" "env w2 = env w1"
    and ov: "ioType ov = io_Accept" "ov_wf ov"
    and v2: "view w2 = (view w1)(i := (view w1 i)\<lparr>v_obj := (v_obj (view w1 i))\<lparr>s_readOv := ov\<rparr>,
      v_read := live_ptr (v_handle (view w1 i)), v_inR := acc, v_closed := False\<rparr>)"
    using RegisterAccept_view [OF w1(2) os i1 hl m(3) rd] by blast
  have i2: "i < cap w2" using i1 env_eqD(1) [OF w2(3)] by simp
  have val: "Ptr_IsValid (Local m) w1"
    using Ptr_IsValid_counted [OF goodD(2) [OF w1(2)] m(3)] E(5) [of m] by simp
  have hh: "v_handle (view w2 i) = ?h" using v2 v1 by simp
  have D2: "Ptr_deref (Local m) w2 = Inr i"
    using Ptr_deref_live(1) [OF pinvD [OF w2(2)] m(3), of ?h] env_eqD(5) [OF w2(3), of m] E(5) [of m]
      handle_of_simps(1) [OF countedD(1) [OF pinvD [OF w2(2)]] i2] view_slot(3) [OF pinvD [OF w2(2)] i2] hh by simp
  let ?s = "(v_obj (view w2 i))\<lparr>s_listener := True\<rparr>"
  obtain w3 where w3: "put_session i ?s w2 = Inr w3" "same_pool w2 w3" "env w3 = env w2"
    "view w3 = (view w2)(i := (view w2 i)\<lparr>v_obj := ?s\<rparr>)"
    using put_session_ok [OF pinvD [OF w2(2)] i2] by blast
  let ?v = "(view w2 i)\<lparr>v_obj := ?s\<rparr>"
  have v3: "view w3 = (view w1)(i := ?v)" using w3(4) v2 by simp
  have e3: "env w3 = env w1" using w3(3) w2(3) by simp
  have so: "session_ok ?v" unfolding session_ok_def
    using v2 v1 ov Z session_okD [OF goodD(5) [OF w1(2) i1]] by (simp add: self_ptr_def read_posted_def ov_wf_def)
  have "accepts w1 = accepts w" using E(1) Z(5) by (auto simp: accepts_def v1 is_accept_def split: if_splits)
  then have "sinv w3" using sinv_change_accept [OF goodD(3) [OF w1(2)] e3 v3 i1 so] room E(3) by simp
  then have g3: "good X F w3" using good_env [OF w1(2) same_pool_pinv [OF w3(2) w2(2)] _ e3] by simp
  note E3 = env_eqD [OF e3]
  have i3: "i < cap w3" using i1 E3(1) by simp
  have pm: "p_ptrs w3 (Local m) = live_ptr ?h" using E3(5) [of m] E(5) [of m] by simp
  have "v_mgr (view w3 i) = live_ptr (v_handle (view w3 i))" "v_handle (view w3 i) = ?h" using v3 v2 v1 by simp_all
  then have "holds (MgrPtr i) i w3" "p_ptrs w3 (Local m) = live_ptr (handle_of (p_set w3) i)"
    using holds_view [OF goodD(2) [OF g3] i3] view_slot(3) [OF goodD(2) [OF g3] i3] pm by (simp_all add: view_fields)
  then have "shared (Local m) w3"
    by (intro shared_held [OF goodD(2) [OF g3] _ goodD(12) [OF g3] m(3)]) simp_all
  moreover have "PostAccept_scope cb os (Local m) w = Inr (Again, w3)"
    using w1(1) val w2(1) D2 get_session_ok [OF pinvD [OF w2(2)] i2] w3(1) by (simp add: PostAccept_scope_def)
  moreover have "undisturbed {m} w w3" using E E3 v3 v2 v1 i(2) by (simp add: undisturbed_def)
  ultimately show ?thesis using g3 E3(4) E(3) by (intro exI [of _ Again] exI [of _ w3]) simp
qed

lemma PostAccept_scope_ok:
  assumes g: "good X F w" and os: "os_respects os" and m: "m < depth w" "p_ptrs w (Local m) = null_ptr" "Local m \<notin> X"
    and room: "card (accepts w) < unat (pendingAccepts w)"
  shows "\<exists>r w'. PostAccept_scope cb os (Local m) w = Inr (r, w') \<and> good X F w' \<and> undisturbed {m} w w' \<and> shared (Local m) w' \<and>
    (case r of Again \<Rightarrow> pendingAccepts w' = pendingAccepts w
     | Returned b \<Rightarrow> pendingAccepts w' = pendingAccepts w - 1 \<and> \<not> b \<and> all_busy w')"
  using PostAccept_scope_exhausted [OF g os m] PostAccept_scope_acquired [OF g os m] room by blast

lemma unat_kAcceptCount: "unat kAcceptCount = 1000" "unat (ucast kAcceptCount :: u64) = 1000"
  by (simp_all add: kAcceptCount_def)

lemma PostAccept_body_ok:
  assumes g: "good X F w" and os: "os_respects os"
  shows "\<exists>r w'. PostAccept_body cb os w = Inr (r, w') \<and> good X F w' \<and> undisturbed {} w w' \<and>
    (case r of Again \<Rightarrow> unat (pendingAccepts w') = unat (pendingAccepts w) + 1
     | Returned b \<Rightarrow> if b then 1000 \<le> unat (pendingAccepts w') else all_busy w')"
proof (cases "ucast kAcceptCount \<le> pendingAccepts w")
  case True
  then have "1000 \<le> unat (pendingAccepts w)" by (simp add: word_le_nat_alt unat_kAcceptCount)
  then show ?thesis using True g
    by (intro exI [of _ "Returned True"] exI [of _ w]) (simp add: PostAccept_body_def undisturbed_def Let_def)
next
  case False
  then have lt: "unat (pendingAccepts w) < 1000" by (simp add: word_le_nat_alt unat_kAcceptCount)
  let ?d = "depth w"
  let ?m = "Local ?d" and ?w0 = "w\<lparr>pendingAccepts := pendingAccepts w + 1\<rparr>"
  let ?w1 = "?w0\<lparr>depth := ?d + 1\<rparr>"
  have u: "unat (pendingAccepts w + 1) = unat (pendingAccepts w) + 1" using lt by (simp add: unat_plus_small64)
  have v1: "view ?w1 = view w" by (simp add: view_def fun_eq_iff)
  have s1: "sinv ?w1"
    by (rule sinv_same_view [OF goodD(3) [OF g] _ _ _ _ _ v1])
      (use goodD(3,7) [OF g] u lt in \<open>auto simp: sinv_def unat_kAcceptCount\<close>)
  have p1: "pinv X F ?w1" by (rule same_pool_pinv [OF _ goodD(1) [OF g]]) (simp add: same_pool_def)
  have X1: "X \<subseteq> Local ` {..<depth ?w1}" using goodD(4) [OF g] by (auto simp: less_Suc_eq)
  have g1: "good X F ?w1" using s1 p1 X1 by (simp add: good_def)
  have acc: "card (accepts ?w1) < unat (pendingAccepts ?w1)"
    using goodD(3) [OF g] u v1 by (simp add: sinv_def accepts_def)
  have mX: "?m \<notin> X" using goodD(8) [OF g] by simp
  obtain r w2 where w2: "PostAccept_scope cb os ?m ?w1 = Inr (r, w2)" "good X F w2" "undisturbed {?d} ?w1 w2" "shared ?m w2"
    and pend: "case r of Again \<Rightarrow> pendingAccepts w2 = pendingAccepts ?w1
      | Returned b \<Rightarrow> pendingAccepts w2 = pendingAccepts ?w1 - 1 \<and> \<not> b \<and> all_busy w2"
    using PostAccept_scope_ok [OF g1 os _ _ mX acc, of cb] goodD(7) [OF g] by auto
  have f: "PostAccept_scope cb os (Local (depth ?w0)) (?w0\<lparr>depth := depth ?w0 + 1\<rparr>) = Inr (r, w2)" using w2(1) by simp
  obtain w' where w': "scoped cb (PostAccept_scope cb os) ?w0 = Inr (r, w')" "pinv X F w'"
    "repointed (w2\<lparr>depth := ?d\<rparr>) ((p_ptrs w2)(?m := null_ptr)) w'"
    using scoped_rule [where f = "PostAccept_scope cb os", OF f goodD(1) [OF w2(2)]] mX w2(4) by auto
  have v': "view w' = view w2" using repointed_local [OF w'(3)] by (simp add: deeper(2))
  have E: "cap w' = cap w2" "stateCount (p_set w') = stateCount (p_set w2)" "depth w' = ?d"
    "pendingAccepts w' = pendingAccepts w2" "p_ptrs w' = (p_ptrs w2)(?m := null_ptr)"
    using w'(3) by (auto simp: repointed_def)
  have d2: "depth w2 = ?d + 1" using w2(3) by (simp add: undisturbed_def)
  have loc: "p_ptrs w' (Local k) = null_ptr" if "?d \<le> k" for k
    using that goodD(7) [OF w2(2), of k] d2 E(5) by (cases "k = ?d") auto
  have "sinv w'"
    by (rule sinv_same_view [OF goodD(3) [OF w2(2)] E(1,2) _ _ _ v'])
      (use goodD(3) [OF w2(2)] E loc in \<open>auto simp: sinv_def\<close>)
  then have "good X F w'" using w'(2) goodD(4) [OF g] E(3) by (simp add: good_def)
  moreover have "undisturbed {} w w'"
    using w2(3) E v' v1 loc goodD(7) [OF g] by (auto simp: undisturbed_def)
  moreover have "PostAccept_body cb os w = Inr (r, w')"
    using False w'(1) by (simp add: PostAccept_body_def Let_def)
  moreover have "case r of Again \<Rightarrow> unat (pendingAccepts w') = unat (pendingAccepts w) + 1
      | Returned b \<Rightarrow> if b then 1000 \<le> unat (pendingAccepts w') else all_busy w'"
    using pend E(1,4) u v' by (cases r) (simp_all add: all_busy_def)
  ultimately show ?thesis by blast
qed

lemma PostAccept_loop_ok:
  assumes "good X F w" and os: "os_respects os" and "unat kAcceptCount < unat (pendingAccepts w) + n"
  shows "\<exists>b w'. PostAccept_loop n cb os w = Inr (b, w') \<and> good X F w' \<and> undisturbed {} w w' \<and>
    (if b then 1000 \<le> unat (pendingAccepts w') else all_busy w')"
  using assms(1,3)
proof (induction n arbitrary: w)
  case 0
  then show ?case using goodD(3) [OF 0(1)] by (simp add: sinv_def)
next
  case (Suc n)
  obtain r w1 where w1: "PostAccept_body cb os w = Inr (r, w1)" "good X F w1" "undisturbed {} w w1"
    "case r of Again \<Rightarrow> unat (pendingAccepts w1) = unat (pendingAccepts w) + 1
     | Returned b \<Rightarrow> if b then 1000 \<le> unat (pendingAccepts w1) else all_busy w1"
    using PostAccept_body_ok [OF Suc.prems(1) os] by blast
  show ?case
  proof (cases r)
    case Again
    then obtain b w2 where "PostAccept_loop n cb os w1 = Inr (b, w2)" "good X F w2" "undisturbed {} w1 w2"
      "if b then 1000 \<le> unat (pendingAccepts w2) else all_busy w2"
      using Suc.IH [OF w1(2)] w1(4) Suc.prems(2) by auto
    then show ?thesis using w1(1,3) Again undisturbed_trans [OF w1(3)] by (intro exI [of _ b] exI [of _ w2]) simp
  next
    case (Returned b)
    then show ?thesis using w1 by (intro exI [of _ b] exI [of _ w1]) simp
  qed
qed

lemma PostAccept_result:
  assumes "good X F w" "os_respects os"
  shows "\<exists>b w'. PostAccept cb os w = Inr (b, w') \<and> good X F w' \<and> undisturbed {} w w' \<and>
    (if b then 1000 \<le> unat (pendingAccepts w') else all_busy w')"
  unfolding PostAccept_def by (rule PostAccept_loop_ok [OF assms]) simp

lemma PostAccept_ok:
  assumes "good X F w" "os_respects os"
  shows "\<exists>b w'. PostAccept cb os w = Inr (b, w') \<and> good X F w' \<and> undisturbed {} w w'"
  using PostAccept_result [OF assms] by blast

text \<open>A session in use stays in use while accepts are posted.\<close>

lemma active_undisturbed:
  assumes a: "active X F k i w" and g: "good X F w'" and u: "undisturbed {} w w'"
  shows "active X F k i w'" "view w' i = view w i"
proof -
  have i: "i < cap w" "i < cap w'" "v_state (view w i) \<noteq> 0" "holds (Local k) i w" "good X F w"
    using a u by (auto simp: active_def undisturbed_def)
  show v: "view w' i = view w i" using u i(3) by (simp add: undisturbed_def)
  have "holds (Local k) i w'"
    using holds_view [OF goodD(2) [OF g] i(2)] holds_view [OF goodD(2) [OF i(5)] i(1)] i(4) v u by (simp add: undisturbed_def)
  then show "active X F k i w'" using a i v g by (simp add: active_def)
qed

lemma plain_call_ok:
  assumes "c = UpdateAcceptContext j \<or> c = TcpNoDelay j"
  shows "view (snd (plain_call os c w)) = view w" "env (snd (plain_call os c w)) = env w" "same_pool w (snd (plain_call os c w))"
  using assms by (auto simp: plain_call_def view_def env_def same_pool_def fun_eq_iff)

lemma plain_call_active:
  assumes a: "active X F k i w" and c: "c = UpdateAcceptContext j \<or> c = TcpNoDelay j"
  shows "active X F k i (snd (plain_call os c w))" "steady w (snd (plain_call os c w))"
proof -
  let ?w = "snd (plain_call os c w)"
  note P = plain_call_ok [where os = os and w = w, OF c]
  have g: "good X F w" using a by (simp add: active_def)
  have "sinv ?w"
    by (rule sinv_same_view [OF goodD(3) [OF g] _ _ _ _ _ P(1)])
      (use goodD(3,7) [OF g] env_eqD [OF P(2)] in \<open>auto simp: sinv_def\<close>)
  then have "good X F ?w" using good_env [OF g same_pool_pinv [OF P(3) goodD(1) [OF g]] _ P(2)] by simp
  moreover show "steady w ?w" using P(1,2) by (simp add: steady_def)
  ultimately show "active X F k i ?w" by (rule active_steady [OF a])
qed

lemma HandleAccept_ok:
  assumes os: "os_respects os" and a: "active X F k i w" and fl: "\<not> v_inR (view w i)"
  shows "\<exists>b w'. HandleAccept cb os (Local k) w = Inr (b, w') \<and> good X F w' \<and> steady w w'"
proof -
  have g: "good X F w" and i: "i < cap w" and kX: "Local k \<notin> X" and pl: "p_ptrs w (Local k) = live_ptr (handle_of (p_set w) i)"
    using a by (auto simp: active_def holds_def)
  have D: "Ptr_deref (Local k) w = Inr i"
    using Ptr_deref_live(1) [OF goodD(2) [OF g] kX pl] handle_of_simps(1) [OF countedD(1) [OF goodD(2) [OF g]] i] by simp
  let ?c1 = "UpdateAcceptContext i" and ?c2 = "TcpNoDelay i"
  let ?w1 = "snd (plain_call os ?c1 w)"
  let ?w2 = "snd (plain_call os ?c2 ?w1)"
  have a1: "active X F k i ?w1" "steady w ?w1" using plain_call_active [OF a, of ?c1] by simp_all
  have a2: "active X F k i ?w2" "steady ?w1 ?w2" using plain_call_active [OF a1(1), of ?c2] by simp_all
  have v2: "view ?w2 = view w" using plain_call_ok(1) [where c = ?c1 and os = os and w = w] plain_call_ok(1) [where c = ?c2 and os = os and w = ?w1] by simp
  obtain b w3 where w3: "Connect cb os i ?w2 = Inr (b, w3)" "good X F w3" "steady ?w2 w3"
    using Connect_ok [OF os a2(1), of cb] fl v2 by auto
  have run: "HandleAccept cb os (Local k) w =
      (if fst (plain_call os ?c1 w) = SOCKET_ERROR then Inr (False, ?w1)
       else if fst (plain_call os ?c2 ?w1) = SOCKET_ERROR then Inr (False, ?w2) else Inr (b, w3))"
    using D w3(1) by (simp add: HandleAccept_def case_prod_unfold Let_def)
  show ?thesis
    using run a1 a2 w3(2,3) steady_trans [OF a1(2) a2(2)] steady_trans [OF steady_trans [OF a1(2) a2(2)] w3(3)]
    by (auto simp: active_def)
qed

end
