(* ===== verification/Iocp_Core.thy ===== *)
theory Iocp_Core
  imports Listener
begin

text \<open>
  \<^verbatim>\<open>Network/Server/IocpCore.cpp\<close>, \<^verbatim>\<open>SessionManager::Init\<close> and \<^verbatim>\<open>ServerService.hpp\<close>: the worker loop that takes
  completions from the port, and the start of the server.
\<close>

section \<open>Definitions\<close>

fun ov_of :: "ov_ref \<Rightarrow> session \<Rightarrow> OverlappedEx" where
  "ov_of (ReadOv i) s = s_readOv s"
| "ov_of (WriteOv i) s = s_writeOv s"
| "ov_of (DiscOv i) s = s_disconnectOv s"

definition ov_ioType :: "ov_ref \<Rightarrow> world \<Rightarrow> IO_TYPE res" where
  "ov_ioType r w = rbind (get_session (ov_session r) w) (\<lambda>s. Inr (ioType (ov_of r s)))"

text \<open>For each function with a local \<^verbatim>\<open>sessionPtr\<close>, the scope of that variable comes first.\<close>

definition HandleError_scope :: "world callbacks \<Rightarrow> os \<Rightarrow> ov_ref \<Rightarrow> loc \<Rightarrow> world \<Rightarrow> (unit \<times> world) res" where
  "HandleError_scope cb os r sessionPtr w =
     rbind (Ptr_copy sessionPtr (ov_ptr r) w) (\<lambda>w.
     rbind (ov_ioType r w) (\<lambda>t.
     rbind (if t = io_Disconnect then
              rbind (Ptr_deref sessionPtr w) (\<lambda>i. Clear cb i w)
            else
              rbind (Ptr_Reset cb (ov_ptr r) w) (\<lambda>(_, w).
              rbind (Ptr_deref sessionPtr w) (\<lambda>i. Disconnect cb os i w))) (\<lambda>(_, w).
     rbind (Ptr_deref sessionPtr w) (\<lambda>_. Inr ((), w)))))"

definition HandleError :: "world callbacks \<Rightarrow> os \<Rightarrow> ov_ref \<Rightarrow> world \<Rightarrow> world res" where
  "HandleError cb os r w = rbind (scoped cb (HandleError_scope cb os r) w) (\<lambda>(_, w). Inr w)"

definition Dispatch_switch ::
  "world callbacks \<Rightarrow> os \<Rightarrow> IO_TYPE \<Rightarrow> nat \<Rightarrow> nat \<Rightarrow> session \<Rightarrow> loc \<Rightarrow> world \<Rightarrow> (unit \<times> world) res" where
  "Dispatch_switch cb os t bytesTransferred i s sessionPtr w =
     (case t of
        io_Accept \<Rightarrow>
          if \<not> s_listener s then Inl Null_deref
          else
            rbind (HandleAccept cb os sessionPtr w) (\<lambda>(ok, w).
            rbind (Ptr_deref sessionPtr w) (\<lambda>i.
            if ok then Inr ((), w)
            else rbind (Disconnect cb os i w) (\<lambda>(_, w). Inr ((), w))))
      | io_Disconnect \<Rightarrow> rbind (Clear cb i w) (\<lambda>(_, w). Inr ((), w))
      | io_None \<Rightarrow> rbind (Disconnect cb os i w) (\<lambda>(_, w). Inr ((), w))
      | _ \<Rightarrow>
          if bytesTransferred = 0 then rbind (Disconnect cb os i w) (\<lambda>(_, w). Inr ((), w))
          else
            rbind (HandleIO cb os t bytesTransferred i w) (\<lambda>(ok, w).
            if ok then Inr ((), w)
            else
              rbind (Ptr_deref sessionPtr w) (\<lambda>i.
              rbind (Disconnect cb os i w) (\<lambda>(_, w). Inr ((), w)))))"

definition Dispatch_scope :: "world callbacks \<Rightarrow> os \<Rightarrow> ov_ref \<Rightarrow> nat \<Rightarrow> loc \<Rightarrow> world \<Rightarrow> (unit \<times> world) res" where
  "Dispatch_scope cb os r bytesTransferred sessionPtr w =
     rbind (Ptr_copy sessionPtr (ov_ptr r) w) (\<lambda>w.
     rbind (Ptr_Reset cb (ov_ptr r) w) (\<lambda>(_, w).
     rbind (ov_ioType r w) (\<lambda>t.
     rbind (Ptr_deref sessionPtr w) (\<lambda>i.
     rbind (get_session i w) (\<lambda>s.
     Dispatch_switch cb os t bytesTransferred i s sessionPtr w)))))"

definition Dispatch :: "world callbacks \<Rightarrow> os \<Rightarrow> ov_ref \<Rightarrow> nat \<Rightarrow> world \<Rightarrow> world res" where
  "Dispatch cb os r bytesTransferred w =
     rbind (scoped cb (Dispatch_scope cb os r bytesTransferred) w) (\<lambda>(_, w). Inr w)"

text \<open>
  What \<^verbatim>\<open>GetQueuedCompletionStatus\<close> reports: an overlapped structure with the result and the number of
  bytes, a packet without a structure (the shutdown signal), or a failure of the call itself.
\<close>

datatype completion =
    Completed ov_ref bool nat
  | Shutdown
  | Failed

text \<open>One iteration of the worker loop; it answers whether the thread goes on.\<close>

definition WorkerThread_scope :: "world callbacks \<Rightarrow> os \<Rightarrow> ov_ref \<Rightarrow> bool \<Rightarrow> nat \<Rightarrow> loc \<Rightarrow> world \<Rightarrow> (bool \<times> world) res" where
  "WorkerThread_scope cb os r result bytesTransferred sessionPtr w =
     rbind (Ptr_copy sessionPtr (ov_ptr r) w) (\<lambda>w.
     rbind (ov_ioType r w) (\<lambda>t.
     rbind (if t = io_Accept then
              rbind (Ptr_deref sessionPtr w) (\<lambda>i.
              rbind (get_session i w) (\<lambda>s.
              if \<not> s_listener s then Inl Null_deref
              else DecrementPendingAccepts cb os w))
            else Inr w) (\<lambda>w.
     if \<not> result then rbind (HandleError cb os r w) (\<lambda>w. Inr (True, w))
     else
       rbind (Ptr_deref sessionPtr w) (\<lambda>_.
       rbind (Dispatch cb os r bytesTransferred w) (\<lambda>w. Inr (True, w))))))"

definition WorkerThread_body :: "world callbacks \<Rightarrow> os \<Rightarrow> completion \<Rightarrow> world \<Rightarrow> (bool \<times> world) res" where
  "WorkerThread_body cb os c w =
     (case c of
        Shutdown \<Rightarrow> Inr (False, w)
      | Failed \<Rightarrow> rbind (LogError kFatal) (\<lambda>_. Inr (False, w))
      | Completed r result bytesTransferred \<Rightarrow>
          scoped cb (WorkerThread_scope cb os r result bytesTransferred) w)"

text \<open>
  The callbacks \<^verbatim>\<open>SessionManager\<close> gives its pool. \<^verbatim>\<open>PostAccept\<close> itself destroys pointers, so it could call them
  again; no such nested call happens, and the model lets it fault.
\<close>

definition nested_cb :: "world callbacks" where
  "nested_cb = \<lparr>deleter = (\<lambda>_ _. Inl Call_depth), postReleaseFunc = (\<lambda>_. Inl Call_depth)\<rparr>"

definition server_cb :: "os \<Rightarrow> world callbacks" where
  "server_cb os = \<lparr>
     deleter = session_deleter nested_cb,
     postReleaseFunc = (\<lambda>w. rbind (PostAccept nested_cb os w) (\<lambda>(_, w). Inr w))\<rparr>"

text \<open>
  The kernel's side of a completion: the structure is no longer in flight, and the bytes of a
  successful receive are in the buffer the call was given.
\<close>

definition kernel_completes :: "ov_ref \<Rightarrow> bool \<Rightarrow> byte list \<Rightarrow> world \<Rightarrow> world res" where
  "kernel_completes r result chunk w =
     (let w = w\<lparr>in_flight := (in_flight w)(r := False)\<rparr> in
      rbind (ov_ioType r w) (\<lambda>t.
      if t = io_Recv \<and> result then
        rbind (get_session (ov_session r) w) (\<lambda>s.
        rbind (mb_write (unat (wsa_buf (s_readOv s))) chunk (ov_buffer (s_readOv s))) (\<lambda>b.
        put_session (ov_session r) (s\<lparr>s_readOv := (s_readOv s)\<lparr>ov_buffer := b\<rparr>\<rparr>) w))
      else Inr w))"

text \<open>An event: the completed structure, its result, and the bytes received or the number of bytes sent.\<close>

datatype event = Event ov_ref bool "byte list" nat

fun server_step :: "os \<Rightarrow> event \<Rightarrow> world \<Rightarrow> world res" where
  "server_step os (Event r result chunk n) w =
     rbind (kernel_completes r result chunk w) (\<lambda>w.
     rbind (WorkerThread_body (server_cb os) os (Completed r result n) w) (\<lambda>(_, w). Inr w))"

fun server_run :: "os \<Rightarrow> event list \<Rightarrow> world \<Rightarrow> world res" where
  "server_run os [] w = Inr w"
| "server_run os (e # es) w = rbind (server_step os e w) (server_run os es)"

text \<open>\<^verbatim>\<open>SessionManager::Init\<close>: every session's socket is associated with the port under its handle.\<close>

definition RegisterSession :: "os \<Rightarrow> u64 \<Rightarrow> world \<Rightarrow> (bool \<times> world) res" where
  "RegisterSession os handle w =
     (case GetObj handle w of
        None \<Rightarrow> Inl Null_deref
      | Some i \<Rightarrow> let (result, w) = plain_call os (CreateIoCompletionPort i handle) w in Inr (result \<noteq> 0, w))"

fun SM_Init_loop :: "os \<Rightarrow> u64 list \<Rightarrow> world \<Rightarrow> (bool \<times> world) res" where
  "SM_Init_loop os [] w = Inr (True, w)"
| "SM_Init_loop os (handle # handles) w =
     rbind (RegisterSession os handle w) (\<lambda>(ok, w). if ok then SM_Init_loop os handles w else Inr (False, w))"

definition SM_Init :: "os \<Rightarrow> world \<Rightarrow> (bool \<times> world) res" where
  "SM_Init os w =
     rbind (GetIndicesInState (ss_value kIdle) (p_set w)) (\<lambda>handles. SM_Init_loop os handles w)"

text \<open>The sessions as their constructors leave them, with read and write buffers of \<open>S\<close> bytes.\<close>

definition new_ov :: "nat \<Rightarrow> OverlappedEx" where
  "new_ov S = OverlappedEx_ctor \<lparr>mb_size = S, mb_mem = replicate S 0\<rparr>"

definition new_session :: "nat \<Rightarrow> session" where
  "new_session S = \<lparr>s_readOv = new_ov S, s_writeOv = new_ov S, s_disconnectOv = new_ov S,
     s_handle = kInvalidHandle, s_sessionManager = False, s_listener = False, s_isSending = False\<rparr>"

definition new_world :: "nat \<Rightarrow> nat \<Rightarrow> world" where
  "new_world N S = \<lparr>
     p_set = SparseSet N ss_count,
     p_slots = replicate N \<lparr>obj = new_session S, slot_handle = kInvalidHandle, refCount = 0\<rparr>,
     p_ptrs = (\<lambda>_. null_ptr),
     depth = 0, pendingAccepts = 0, in_flight = (\<lambda>_. False), api_log = []\<rparr>"

text \<open>\<^verbatim>\<open>ServerService::Start\<close>; the threads it starts run \<^const>\<open>WorkerThread_body\<close>.\<close>

definition ServerService_Start :: "os \<Rightarrow> world \<Rightarrow> (bool \<times> world) res" where
  "ServerService_Start os w =
     rbind (SM_Init os w) (\<lambda>(_, w). PostAccept (server_cb os) os w)"

section \<open>Scopes of a local pointer\<close>

lemma enter_scope:
  assumes g: "good X F w" and i: "i < cap w" and p: "p_ptrs w p = live_ptr (v_handle (view w i))" "p \<notin> X"
  shows "\<exists>w1. Ptr_copy (Local (depth w)) p (w\<lparr>depth := depth w + 1\<rparr>) = Inr w1 \<and> active X F (depth w) i w1 \<and>
    view w1 = view w \<and> pendingAccepts w1 = pendingAccepts w \<and>
    env w1 = (env w)\<lparr>e_depth := depth w + 1, e_local := (e_local (env w))(depth w := live_ptr (v_handle (view w i)))\<rparr>"
proof -
  let ?d = "depth w" and ?w0 = "w\<lparr>depth := depth w + 1\<rparr>" and ?h = "v_handle (view w i)"
  have l: "p_ptrs w (Local ?d) = null_ptr" "Local ?d \<notin> X" using goodD(7,8) [OF g] by simp_all
  have p0: "pinv X F ?w0" using same_pool_pinv [OF deeper(1) goodD(1) [OF g]] .
  obtain w1 where w1: "Ptr_copy (Local ?d) p ?w0 = Inr w1" "pinv X F w1"
    "repointed ?w0 ((p_ptrs w)(Local ?d := live_ptr ?h)) w1"
    using Ptr_copy_ok [OF p0 l(2) _ p(2)] l(1) p(1) by auto
  have v: "view w1 = view w" using repointed_local [OF w1(3)] by (simp add: deeper(2))
  have e: "env w1 = (env w)\<lparr>e_depth := ?d + 1, e_local := (e_local (env w))(?d := live_ptr ?h)\<rparr>"
    using w1(3) by (auto simp: repointed_def env_def fun_eq_iff)
  have E: "cap w1 = cap w" "stateCount (p_set w1) = stateCount (p_set w)" "depth w1 = ?d + 1"
    "pendingAccepts w1 = pendingAccepts w" "p_ptrs w1 = (p_ptrs w)(Local ?d := live_ptr ?h)"
    using w1(3) by (auto simp: repointed_def)
  have "sinv w1"
    by (rule sinv_same_view [OF goodD(3) [OF g] E(1,2) _ _ _ v])
      (use goodD(3,7) [OF g] E in \<open>auto simp: sinv_def\<close>)
  moreover have "X \<subseteq> Local ` {..<depth w1}" using goodD(4) [OF g] E(3) by (auto simp: less_Suc_eq)
  ultimately have g1: "good X F w1" using w1(2) by (simp add: good_def)
  have i1: "i < cap w1" using i E(1) by simp
  have "holds (Local ?d) i w1" using holds_view [OF goodD(2) [OF g1] i1] E(5) v by simp
  then have "active X F ?d i w1" using g1 i1 l(2) holder_busy [OF g1 i1] by (simp add: active_def)
  then show ?thesis using w1(1) v e E(4) by blast
qed

lemma leave_scope:
  assumes f: "f (Local d) (w\<lparr>depth := d + 1\<rparr>) = Inr (r, w2)" and d: "d = depth w" and g: "good X F w2"
    and dp: "depth w2 = d + 1" and dX: "Local d \<notin> X" "X \<subseteq> Local ` {..<d}" and s: "shared (Local d) w2"
  shows "\<exists>w'. scoped cb f w = Inr (r, w') \<and> good X F w' \<and> view w' = view w2 \<and>
    env w' = (env w2)\<lparr>e_depth := d, e_local := (e_local (env w2))(d := null_ptr)\<rparr>"
proof -
  obtain w' where w': "scoped cb f w = Inr (r, w')" "pinv X F w'"
    "repointed (w2\<lparr>depth := d\<rparr>) ((p_ptrs w2)(Local d := null_ptr)) w'"
    using scoped_rule [where f = f, OF f [unfolded d] goodD(1) [OF g]] dX(1) s d by blast
  have v: "view w' = view w2" using repointed_local [OF w'(3)] by (simp add: deeper(2))
  have e: "env w' = (env w2)\<lparr>e_depth := d, e_local := (e_local (env w2))(d := null_ptr)\<rparr>"
    using w'(3) by (auto simp: repointed_def env_def fun_eq_iff)
  have E: "cap w' = cap w2" "stateCount (p_set w') = stateCount (p_set w2)" "depth w' = d"
    "pendingAccepts w' = pendingAccepts w2" "p_ptrs w' = (p_ptrs w2)(Local d := null_ptr)"
    using w'(3) by (auto simp: repointed_def)
  have loc: "p_ptrs w' (Local k) = null_ptr" if "d \<le> k" for k
    using that goodD(7) [OF g, of k] dp E(5) by (cases "k = d") auto
  have "sinv w'"
    by (rule sinv_same_view [OF goodD(3) [OF g] E(1,2) _ _ _ v])
      (use goodD(3) [OF g] E loc in \<open>auto simp: sinv_def\<close>)
  then have "good X F w'" using w'(2) dX(2) E(3) by (simp add: good_def)
  then show ?thesis using w'(1) v e by blast
qed

text \<open>
  A function with a local copy of the pointer of a structure, called while another local (\<open>k\<close>) holds the session:
  whatever steady work the scope does, the copy's destructor is not the last.
\<close>

lemma steadyD:
  assumes "steady w w'"
  shows "env w' = env w" "v_handle (view w' j) = v_handle (view w j)" "cap w' = cap w" "depth w' = depth w"
    "p_ptrs w' (Local k) = p_ptrs w (Local k)"
  using assms env_eqD [of w' w] by (auto simp: steady_def)

lemma scoped_session_view:
  assumes a: "active X F k i w" and p: "p_ptrs w p = live_ptr (v_handle (view w i))" "p \<notin> X"
    and f: "\<And>l w0. f l w0 = rbind (Ptr_copy l p w0) (body l)"
    and body: "\<And>w1. active X F (depth w) i w1 \<Longrightarrow> active X F k i w1 \<Longrightarrow> view w1 = view w \<Longrightarrow> cap w1 = cap w \<Longrightarrow>
      \<exists>r w2. body (Local (depth w)) w1 = Inr (r, w2) \<and> good X F w2 \<and> steady w1 w2 \<and> Q (view w2)"
  shows "\<exists>r w'. scoped cb f w = Inr (r, w') \<and> good X F w' \<and> steady w w' \<and> Q (view w')"
proof -
  let ?d = "depth w" and ?h = "v_handle (view w i)"
  have g: "good X F w" and i: "i < cap w" and h: "holds (Local k) i w" "Local k \<notin> X" using a by (auto simp: active_def)
  note c = goodD(2) [OF g]
  have pk: "p_ptrs w (Local k) = live_ptr ?h" using h(1) holds_view [OF c i] by simp
  then have kd: "k < ?d" using goodD(7) [OF g, of k] by (metis leI live_or_null sptr.ext_inject)
  obtain w1 where w1: "Ptr_copy (Local ?d) p (w\<lparr>depth := ?d + 1\<rparr>) = Inr w1" "active X F ?d i w1" "view w1 = view w"
    and e1: "env w1 = (env w)\<lparr>e_depth := ?d + 1, e_local := (e_local (env w))(?d := live_ptr ?h)\<rparr>"
    using enter_scope [OF g i p] by blast
  have E1: "cap w1 = cap w" "depth w1 = ?d + 1" "p_ptrs w1 (Local j) = (if j = ?d then live_ptr ?h else p_ptrs w (Local j))" for j
    using e1 by (simp_all add: env_def fun_eq_iff split: if_splits)
  have g1: "good X F w1" and i1: "i < cap w1" using w1(2) by (auto simp: active_def)
  have "holds (Local k) i w1" using holds_view [OF goodD(2) [OF g1] i1] pk kd w1(3) E1(3) by simp
  then have ak: "active X F k i w1" using w1(2) h(2) by (simp add: active_def)
  obtain r w2 where w2: "body (Local ?d) w1 = Inr (r, w2)" "good X F w2" "steady w1 w2" "Q (view w2)"
    using body [OF w1(2) ak w1(3) E1(1)] by blast
  have a2: "active X F k i w2" "active X F ?d i w2" using active_steady [OF _ w2(2,3)] ak w1(2) by blast+
  have s: "shared (Local ?d) w2"
    by (rule shared_held [OF goodD(2) [OF w2(2)], of "Local k" i]) (use a2 kd in \<open>auto simp: active_def holds_def\<close>)
  have f2: "f (Local ?d) (w\<lparr>depth := ?d + 1\<rparr>) = Inr (r, w2)" using f w1(1) w2(1) by simp
  obtain w' where w': "scoped cb f w = Inr (r, w')" "good X F w'" "view w' = view w2"
    and e': "env w' = (env w2)\<lparr>e_depth := ?d, e_local := (e_local (env w2))(?d := null_ptr)\<rparr>"
    using leave_scope [where f = f, OF f2 refl w2(2) _ goodD(8) [OF g] goodD(4) [OF g] s, of cb] steadyD(4) [OF w2(3)] E1(2) by auto
  have "env w' = env w"
    using e' steadyD(1) [OF w2(3)] e1 goodD(7) [OF g, of ?d] by (simp add: env_def fun_eq_iff)
  then have "steady w w'" using w'(3) steadyD(2) [OF w2(3)] w1(3) by (simp add: steady_def)
  then show ?thesis using w'(1-3) w2(4) by auto
qed

lemma scoped_session:
  assumes "active X F k i w" "p_ptrs w p = live_ptr (v_handle (view w i))" "p \<notin> X"
    and "\<And>l w0. f l w0 = rbind (Ptr_copy l p w0) (body l)"
    and "\<And>w1. active X F (depth w) i w1 \<Longrightarrow> active X F k i w1 \<Longrightarrow> view w1 = view w \<Longrightarrow>
      \<exists>r w2. body (Local (depth w)) w1 = Inr (r, w2) \<and> good X F w2 \<and> steady w1 w2"
  shows "\<exists>r w'. scoped cb f w = Inr (r, w') \<and> good X F w' \<and> steady w w'"
  using scoped_session_view [where Q = "\<lambda>_. True", OF assms(1-4)] assms(5) by simp

section \<open>Completions\<close>

lemma not_in_flight: "\<not> in_flight w r \<longleftrightarrow>
    (case r of ReadOv i \<Rightarrow> \<not> v_inR (view w i) | WriteOv i \<Rightarrow> \<not> v_inW (view w i) | DiscOv i \<Rightarrow> \<not> v_inD (view w i))"
  by (cases r) (simp_all add: view_fields)

lemma Reset_active:
  assumes a: "active X F k (ov_session r) w" and nf: "\<not> in_flight w r"
  shows "\<exists>w'. Ptr_Reset cb (ov_ptr r) w = Inr (False, w') \<and> good X F w' \<and> steady w w' \<and>
    view w' = (view w)(ov_session r := pointed r null_ptr (view w (ov_session r)))"
proof -
  let ?i = "ov_session r"
  have g: "good X F w" and i: "?i < cap w" and h: "holds (Local k) ?i w" "Local k \<notin> X" using a by (auto simp: active_def)
  obtain w' where w': "Ptr_Reset cb (ov_ptr r) w = Inr (False, w')" "pinv X F w'" "env w' = env w"
    and v: "view w' = (view w)(?i := pointed r null_ptr (view w ?i))"
    using Reset_own [OF g i h, of cb] by (cases r) auto
  have "session_ok (pointed r null_ptr (view w ?i))" unfolding session_ok_def
    using session_okD [OF goodD(5) [OF g i]] nf by (cases r) (simp_all add: self_ptr_def view_fields)
  then have "sinv w'"
    by (rule sinv_change [OF goodD(3) [OF g] w'(3) v i]) (cases r; simp add: is_accept_def)
  then have "good X F w'" using good_env [OF g w'(2) _ w'(3)] by simp
  moreover have "steady w w'" by (rule steady_change [OF w'(3) v]) (cases r; simp)
  ultimately show ?thesis using w'(1) v by blast
qed

text \<open>What the handling of a completion may assume: the structure is no longer in flight and was posted properly.\<close>

fun ready :: "ov_ref \<Rightarrow> nat \<Rightarrow> sview \<Rightarrow> bool" where
  "ready (ReadOv _) n v \<longleftrightarrow> \<not> v_inR v \<and>
     (ioType (s_readOv (v_obj v)) = io_Accept \<and> s_listener (v_obj v) \<or>
      ioType (s_readOv (v_obj v)) = io_Recv \<and> 2 \<le> v_state v \<and>
        (n = 0 \<or> ov_wf (ov_advance_write n (s_readOv (v_obj v))) \<and>
          (\<forall>p\<in>set (fst (frames (mb_size (ov_buffer (s_readOv (v_obj v))))
            (window (ov_advance_write n (s_readOv (v_obj v)))))). packet_ok p)))"
| "ready (WriteOv _) n v \<longleftrightarrow> \<not> v_inW v \<and> s_isSending (v_obj v) \<and> ioType (s_writeOv (v_obj v)) = io_Send \<and>
     n \<le> length (window (s_writeOv (v_obj v)))"
| "ready (DiscOv _) n v \<longleftrightarrow> \<not> v_inD v \<and> ioType (s_disconnectOv (v_obj v)) = io_Disconnect \<and> v_state v = ss_value kDisconnecting"

lemma ready_not_in_flight: "ready r n (view w (ov_session r)) \<Longrightarrow> \<not> in_flight w r"
  by (cases r) (auto simp: view_fields)

lemma ov_ioType_ok:
  assumes "counted X F w" "ov_session r < cap w"
  shows "ov_ioType r w = Inr (ioType (ov_of r (v_obj (view w (ov_session r)))))"
  using get_session_ok [OF assms] by (simp add: ov_ioType_def)

lemma deref_active: "active X F k i w \<Longrightarrow> Ptr_deref (Local k) w = Inr i"
  using Ptr_deref_live(1) [OF goodD(2), of X F w "Local k"] handle_of_simps(1) [OF countedD(1) [OF goodD(2)], of X F w i]
  by (auto simp: active_def holds_def)

lemma HandleError_ok:
  assumes os: "os_respects os" and a: "active X F k (ov_session r) w" and rd: "ready r n (view w (ov_session r))"
    and p: "p_ptrs w (ov_ptr r) = live_ptr (v_handle (view w (ov_session r)))"
  shows "\<exists>w'. HandleError cb os r w = Inr w' \<and> good X F w' \<and> steady w w'"
proof -
  let ?i = "ov_session r"
  have g: "good X F w" and i: "?i < cap w" using a by (auto simp: active_def)
  have "\<exists>u w'. scoped cb (HandleError_scope cb os r) w = Inr (u, w') \<and> good X F w' \<and> steady w w'"
  proof (rule scoped_session [OF a p own_ptr(2) [OF g i]])
    fix w1 assume l: "active X F (depth w) ?i w1" and k: "active X F k ?i w1" and v1: "view w1 = view w"
    let ?l = "Local (depth w)" and ?t = "ioType (ov_of r (v_obj (view w ?i)))"
    have T: "ov_ioType r w1 = Inr ?t"
      using ov_ioType_ok [of X F w1 r] l v1 goodD(2) by (fastforce simp: active_def)
    let ?step = "if ?t = io_Disconnect then rbind (Ptr_deref ?l w1) (\<lambda>i. Clear cb i w1)
        else rbind (Ptr_Reset cb (ov_ptr r) w1) (\<lambda>(_, w). rbind (Ptr_deref ?l w) (\<lambda>i. Disconnect cb os i w))"
    have "\<exists>b w2. ?step = Inr (b, w2) \<and> good X F w2 \<and> steady w1 w2"
    proof (cases "?t = io_Disconnect")
      case True
      then have "v_state (view w1 ?i) = ss_value kDisconnecting" using rd v1 by (cases r) auto
      from Clear_ok [OF l this, of cb] show ?thesis using True deref_active [OF l] by auto
    next
      case False
      have "\<not> in_flight w1 r" using ready_not_in_flight [of r n w1] rd v1 by simp
      from Reset_active [OF l this, of cb] obtain w2 where
        w2: "Ptr_Reset cb (ov_ptr r) w1 = Inr (False, w2)" "good X F w2" "steady w1 w2" by blast
      have l2: "active X F (depth w) ?i w2" by (rule active_steady [OF l w2(2,3)])
      obtain w3 where "Disconnect cb os ?i w2 = Inr (True, w3)" "good X F w3" "steady w2 w3"
        using Disconnect_ok [OF os l2] by blast
      then show ?thesis using False w2 deref_active [OF l2] steady_trans by auto
    qed
    then obtain b w2 where w2: "?step = Inr (b, w2)" "good X F w2" "steady w1 w2" by blast
    have "active X F (depth w) ?i w2" by (rule active_steady [OF l w2(2,3)])
    then show "\<exists>u w2. rbind (ov_ioType r w1) (\<lambda>t.
        rbind (if t = io_Disconnect then rbind (Ptr_deref ?l w1) (\<lambda>i. Clear cb i w1)
            else rbind (Ptr_Reset cb (ov_ptr r) w1) (\<lambda>(_, w). rbind (Ptr_deref ?l w) (\<lambda>i. Disconnect cb os i w))) (\<lambda>(_, w).
        rbind (Ptr_deref ?l w) (\<lambda>_. Inr ((), w)))) = Inr (u, w2) \<and> good X F w2 \<and> steady w1 w2"
      using T w2 deref_active by (auto cong: if_cong)
  qed (rule HandleError_scope_def)
  then show ?thesis by (auto simp: HandleError_def)
qed

lemma ready_pointed: "ready r n (pointed r p v) \<longleftrightarrow> ready r n v" "ov_of r (v_obj (pointed r p v)) = ov_of r (v_obj v)"
  by (cases r; simp)+

lemma Disconnect_active:
  assumes "os_respects os" "active X F k i w"
  shows "\<exists>w'. Disconnect cb os i w = Inr (True, w') \<and> good X F w' \<and> steady w w'"
  using Disconnect_ok [OF assms] by blast

lemma HandleIO_ok:
  assumes os: "os_respects os" and a: "active X F k (ov_session r) w" and rd: "ready r n (view w (ov_session r))"
    and n: "n \<noteq> 0" and t: "ioType (ov_of r (v_obj (view w (ov_session r)))) = t" "t = io_Recv \<or> t = io_Send"
  shows "\<exists>b w'. HandleIO cb os t n (ov_session r) w = Inr (b, w') \<and> good X F w' \<and> steady w w'"
proof (cases r)
  case (ReadOv i)
  let ?ov = "s_readOv (v_obj (view w i))"
  have T: "t = io_Recv" using rd t ReadOv by auto
  obtain ps rest ok where fr: "frames (mb_size (ov_buffer ?ov)) (window (ov_advance_write n ?ov)) = (ps, rest, ok)"
    by (metis prod_cases3)
  have "2 \<le> v_state (view w i)" "\<not> v_inR (view w i)" "ov_wf (ov_advance_write n ?ov)" "\<forall>p\<in>set ps. packet_ok p"
    using rd n t T ReadOv fr by auto
  from OnRead_ok [OF os _ this(1-3) fr this(4), of X F k cb] show ?thesis
    using a ReadOv T by (auto simp: HandleIO_def)
next
  case (WriteOv i)
  have T: "t = io_Send" using rd t WriteOv by auto
  have "\<exists>b w' ov sd p f. OnWrite cb os n i w = Inr (b, w') \<and> good X F w' \<and> steady w w' \<and>
    window ov = drop n (window (s_writeOv (v_obj (view w i)))) \<and> (sd \<longleftrightarrow> window ov \<noteq> []) \<and>
    view w' = (view w)(i := (view w i)\<lparr>v_obj := (v_obj (view w i))\<lparr>s_writeOv := ov, s_isSending := sd\<rparr>,
      v_write := p, v_inW := f\<rparr>)"
    by (rule OnWrite_ok [OF os]) (use a rd WriteOv in auto)
  then show ?thesis using T WriteOv by (auto simp: HandleIO_def)
next
  case (DiscOv i)
  then show ?thesis using rd t by auto
qed

text \<open>The work of \<^const>\<open>Dispatch\<close> once the structure's own pointer is reset.\<close>

lemma Dispatch_work:
  assumes os: "os_respects os" and a: "active X F k (ov_session r) w" and rd: "ready r n (view w (ov_session r))"
    and s: "s = v_obj (view w (ov_session r))" and i: "i = ov_session r" and t: "t = ioType (ov_of r s)"
  shows "\<exists>w'. Dispatch_switch cb os t n i s (Local k) w = Inr ((), w') \<and> good X F w' \<and> steady w w'"
proof -
  have ai: "active X F k i w" using a i by simp
  have disc: "\<exists>w'. rbind (Disconnect cb os i u) (\<lambda>(_, w). Inr ((), w)) = Inr ((), w') \<and> good X F w' \<and> steady w w'"
    if u: "good X F u" "steady w u" for u
    using Disconnect_active [OF os active_steady [OF ai u], of cb] steady_trans [OF u(2)] by auto
  note deref = deref_active [OF active_steady [OF ai]] and sw = Dispatch_switch_def
  have now: "good X F w" "steady w w" using a steady_refl by (auto simp: active_def)
  show ?thesis
  proof (cases t)
    case io_Accept
    then obtain j where r: "r = ReadOv j" using rd t s by (cases r) auto
    then have L: "s_listener s" "\<not> v_inR (view w i)" using rd io_Accept t s i by auto
    obtain b w1 where w1: "HandleAccept cb os (Local k) w = Inr (b, w1)" "good X F w1" "steady w w1"
      using HandleAccept_ok [OF os ai L(2)] by blast
    show ?thesis using io_Accept L(1) w1 deref [OF w1(2,3)] disc [OF w1(2,3)] by (cases b) (auto simp: sw)
  next
    case io_Disconnect
    then have "v_state (view w i) = ss_value kDisconnecting" using rd t s i by (cases r) auto
    from Clear_ok [OF ai this, of cb] show ?thesis using io_Disconnect by (auto simp: sw)
  next
    case io_None
    then show ?thesis using disc [OF now] by (simp add: sw)
  next
    case io_Recv
    show ?thesis
    proof (cases "n = 0")
      case False
      obtain b w1 where w1: "HandleIO cb os t n i w = Inr (b, w1)" "good X F w1" "steady w w1"
        using HandleIO_ok [OF os a rd False, of t cb] t s i io_Recv by auto
      then show ?thesis using io_Recv False deref [OF w1(2,3)] disc [OF w1(2,3)] by (cases b) (auto simp: sw)
    qed (use io_Recv disc [OF now] in \<open>simp add: sw\<close>)
  next
    case io_Send
    show ?thesis
    proof (cases "n = 0")
      case False
      obtain b w1 where w1: "HandleIO cb os t n i w = Inr (b, w1)" "good X F w1" "steady w w1"
        using HandleIO_ok [OF os a rd False, of t cb] t s i io_Send by auto
      then show ?thesis using io_Send False deref [OF w1(2,3)] disc [OF w1(2,3)] by (cases b) (auto simp: sw)
    qed (use io_Send disc [OF now] in \<open>simp add: sw\<close>)
  qed
qed

lemma Dispatch_ok:
  assumes os: "os_respects os" and a: "active X F k (ov_session r) w" and rd: "ready r n (view w (ov_session r))"
    and p: "p_ptrs w (ov_ptr r) = live_ptr (v_handle (view w (ov_session r)))"
  shows "\<exists>w'. Dispatch cb os r n w = Inr w' \<and> good X F w' \<and> steady w w'"
proof -
  let ?i = "ov_session r"
  have g: "good X F w" and i: "?i < cap w" using a by (auto simp: active_def)
  have "\<exists>u w'. scoped cb (Dispatch_scope cb os r n) w = Inr (u, w') \<and> good X F w' \<and> steady w w'"
  proof (rule scoped_session [OF a p own_ptr(2) [OF g i] Dispatch_scope_def])
    fix w1 assume l: "active X F (depth w) ?i w1" and v1: "view w1 = view w"
    have "\<not> in_flight w1 r" using ready_not_in_flight [of r n w1] rd v1 by simp
    from Reset_active [OF l this, of cb] obtain w2 where
      w2: "Ptr_Reset cb (ov_ptr r) w1 = Inr (False, w2)" "good X F w2" "steady w1 w2"
      and v2: "view w2 ?i = pointed r null_ptr (view w ?i)" using v1 by auto
    have l2: "active X F (depth w) ?i w2" by (rule active_steady [OF l w2(2,3)])
    then have i2: "?i < cap w2" by (simp add: active_def)
    have rd2: "ready r n (view w2 ?i)" using rd v2 ready_pointed(1) by simp
    let ?s = "v_obj (view w2 ?i)"
    note steps = ov_ioType_ok [OF goodD(2) [OF w2(2)] i2] deref_active [OF l2] get_session_ok [OF goodD(2) [OF w2(2)] i2]
    show "\<exists>u w3. rbind (Ptr_Reset cb (ov_ptr r) w1) (\<lambda>(_, w'). rbind (ov_ioType r w') (\<lambda>t.
        rbind (Ptr_deref (Local (depth w)) w') (\<lambda>i. rbind (get_session i w') (\<lambda>s.
        Dispatch_switch cb os t n i s (Local (depth w)) w')))) = Inr (u, w3) \<and> good X F w3 \<and> steady w1 w3"
      using Dispatch_work [OF os l2 rd2 refl refl refl, of cb] steady_trans [OF w2(3)]
      unfolding w2(1) rbind_Inr case_prod_conv steps by blast
  qed
  then show ?thesis by (auto simp: Dispatch_def)
qed

lemma DecrementPendingAccepts_ok:
  assumes os: "os_respects os" and g: "good X F w" and room: "card (accepts w) < unat (pendingAccepts w)"
  shows "\<exists>w'. DecrementPendingAccepts cb os w = Inr w' \<and> good X F w' \<and> undisturbed {} w w'"
proof -
  let ?w = "w\<lparr>pendingAccepts := pendingAccepts w - 1\<rparr>"
  have u: "unat (pendingAccepts w - 1) = unat (pendingAccepts w) - 1"
    using room by (metis gr_implies_not0 unat_0 unat_minus_one)
  have v: "view ?w = view w" by (simp add: view_def fun_eq_iff)
  have "sinv ?w"
    by (rule sinv_same_view [OF goodD(3) [OF g] _ _ _ _ _ v]) (use goodD(3,7) [OF g] u room in \<open>auto simp: sinv_def\<close>)
  moreover have "pinv X F ?w" by (rule same_pool_pinv [OF _ goodD(1) [OF g]]) (simp add: same_pool_def)
  ultimately have "good X F ?w" using goodD(4) [OF g] by (simp add: good_def)
  from PostAccept_ok [OF this os, of cb] obtain b w' where
    "PostAccept cb os ?w = Inr (b, w')" "good X F w'" "undisturbed {} ?w w'" by blast
  moreover have "undisturbed {} w ?w" using v by (simp add: undisturbed_def)
  ultimately show ?thesis using undisturbed_trans by (auto simp: DecrementPendingAccepts_def)
qed

lemma own_ptr_view:
  "p_ptrs w (ov_ptr r) = (case r of ReadOv i \<Rightarrow> v_read (view w i) | WriteOv i \<Rightarrow> v_write (view w i) | DiscOv i \<Rightarrow> v_disc (view w i))"
  by (cases r) (simp_all add: view_fields)

lemma own_ptr_cong: "view w' (ov_session r) = view w (ov_session r) \<Longrightarrow> p_ptrs w' (ov_ptr r) = p_ptrs w (ov_ptr r)"
  unfolding own_ptr_view by (cases r) simp_all

lemma completion_work:
  assumes os: "os_respects os" and a: "active X F k (ov_session r) w" and rd: "ready r n (view w (ov_session r))"
    and p: "p_ptrs w (ov_ptr r) = live_ptr (v_handle (view w (ov_session r)))"
  shows "\<exists>b w'. (if \<not> result then rbind (HandleError cb os r w) (\<lambda>w. Inr (True, w))
     else rbind (Ptr_deref (Local k) w) (\<lambda>_. rbind (Dispatch cb os r n w) (\<lambda>w. Inr (True, w)))) = Inr (b, w') \<and>
    good X F w' \<and> depth w' = depth w"
  using HandleError_ok [OF os a rd p, of cb] Dispatch_ok [OF os a rd p, of cb] deref_active [OF a] steadyD(4)
  by (cases result) fastforce+

lemma WorkerThread_scope_ok:
  assumes os: "os_respects os" and g: "good X F w" and i: "ov_session r < cap w" and rd: "ready r n (view w (ov_session r))"
    and p: "p_ptrs w (ov_ptr r) = live_ptr (v_handle (view w (ov_session r)))"
    and room: "ioType (ov_of r (v_obj (view w (ov_session r)))) = io_Accept \<Longrightarrow> card (accepts w) < unat (pendingAccepts w)"
  shows "\<exists>b w'. WorkerThread_scope cb os r result n (Local (depth w)) (w\<lparr>depth := depth w + 1\<rparr>) = Inr (b, w') \<and>
    good X F w' \<and> depth w' = depth w + 1"
proof -
  let ?i = "ov_session r" and ?d = "depth w"
  let ?t = "ioType (ov_of r (v_obj (view w ?i)))"
  obtain w1 where w1: "Ptr_copy (Local ?d) (ov_ptr r) (w\<lparr>depth := ?d + 1\<rparr>) = Inr w1" "active X F ?d ?i w1" "view w1 = view w"
    "pendingAccepts w1 = pendingAccepts w" and e1: "env w1 = (env w)\<lparr>e_depth := ?d + 1,
      e_local := (e_local (env w))(?d := live_ptr (v_handle (view w ?i)))\<rparr>"
    using enter_scope [OF g i p own_ptr(2) [OF g i]] by blast
  have E: "cap w1 = cap w" "depth w1 = ?d + 1" using e1 by (simp_all add: env_def)
  have g1: "good X F w1" and i1: "?i < cap w1" using w1(2) by (auto simp: active_def)
  note T = ov_ioType_ok [OF goodD(2) [OF g1] i1]
  let ?pre = "if ?t = io_Accept then
              rbind (Ptr_deref (Local ?d) w1) (\<lambda>i.
              rbind (get_session i w1) (\<lambda>s.
              if \<not> s_listener s then Inl Null_deref
              else DecrementPendingAccepts cb os w1))
            else Inr w1"
  have "\<exists>w2. ?pre = Inr w2 \<and> active X F ?d ?i w2 \<and> view w2 ?i = view w ?i \<and> depth w2 = ?d + 1"
  proof (cases "?t = io_Accept")
    case True
    then have L: "s_listener (v_obj (view w1 ?i))" using rd w1(3) by (cases r) auto
    have "card (accepts w1) < unat (pendingAccepts w1)" using room [OF True] w1(3,4) E(1) by (simp add: accepts_def)
    from DecrementPendingAccepts_ok [OF os g1 this, of cb] obtain w2 where
      w2: "DecrementPendingAccepts cb os w1 = Inr w2" "good X F w2" "undisturbed {} w1 w2" by blast
    then show ?thesis
      using True L deref_active [OF w1(2)] get_session_ok [OF goodD(2) [OF g1] i1] active_undisturbed [OF w1(2) w2(2,3)] w1(3) E(2)
      by (auto simp: undisturbed_def)
  qed (use w1 E in auto)
  then obtain w2 where w2: "?pre = Inr w2" "active X F ?d ?i w2" "view w2 ?i = view w ?i" "depth w2 = ?d + 1" by blast
  have "ready r n (view w2 ?i)" "p_ptrs w2 (ov_ptr r) = live_ptr (v_handle (view w2 ?i))"
    using rd p w2(3) own_ptr_cong [OF w2(3)] by simp_all
  from completion_work [OF os w2(2) this, of result cb] show ?thesis
    using w1(1) T w2(1,4) w1(3) by (simp add: WorkerThread_scope_def cong: if_cong)
qed

section \<open>The server's callbacks honour the pool's contract\<close>

text \<open>What stays true while callbacks run: the invariant, and the number of locals on the stack.\<close>

definition serving :: "os \<Rightarrow> nat \<Rightarrow> world \<Rightarrow> bool" where
  "serving os d w \<longleftrightarrow> os_respects os \<and> sinv w \<and> depth w = d"

lemma serving_good:
  assumes J: "serving os d w" and X: "X \<subseteq> {l \<in> range Local. sp_pool (p_ptrs w l)}" and p: "pinv X F w"
  shows "good X F w"
proof -
  have "X \<subseteq> Local ` {..<depth w}"
  proof
    fix l assume "l \<in> X"
    then obtain k where k: "l = Local k" "sp_pool (p_ptrs w (Local k))" using X by auto
    then have "\<not> depth w \<le> k" using J by (auto simp: serving_def sinv_def)
    then show "l \<in> Local ` {..<depth w}" using k(1) by simp
  qed
  then show ?thesis using J p by (simp add: good_def serving_def)
qed

lemma Ptr_Reset_null: "p_ptrs w l = null_ptr \<Longrightarrow> Ptr_Reset cb l w = Inr (False, w)"
  by (simp add: Ptr_Reset_def Ptr_IsValid_def)

lemma session_deleter_ok:
  assumes c: "counted X F w" and i: "i < cap w" and n: "v_read (view w i) = null_ptr" "v_write (view w i) = null_ptr"
  shows "\<exists>w'. session_deleter cb i w = Inr w' \<and> same_pool w w' \<and> env w' = env w \<and>
    view w' = (view w)(i := (view w i)\<lparr>v_obj := (v_obj (view w i))\<lparr>s_readOv := OverlappedEx_Reset (s_readOv (v_obj (view w i))),
      s_writeOv := OverlappedEx_Reset (s_writeOv (v_obj (view w i))), s_isSending := False, s_handle := kInvalidHandle\<rparr>\<rparr>)"
proof -
  let ?s0 = "v_obj (view w i)"
  let ?s1 = "?s0\<lparr>s_readOv := OverlappedEx_Reset (s_readOv ?s0)\<rparr>"
  let ?s2 = "?s1\<lparr>s_writeOv := OverlappedEx_Reset (s_writeOv ?s0)\<rparr>"
  let ?s3 = "?s2\<lparr>s_isSending := False, s_handle := kInvalidHandle\<rparr>"
  obtain w1 where w1: "put_session i ?s1 w = Inr w1" "same_pool w w1" "env w1 = env w"
    "view w1 = (view w)(i := (view w i)\<lparr>v_obj := ?s1\<rparr>)" using put_session_ok [OF c i] by blast
  have c1: "counted X F w1" "i < cap w1" using same_pool_counted [OF w1(2) c] env_eqD(1) [OF w1(3)] i by simp_all
  obtain w2 where w2: "put_session i ?s2 w1 = Inr w2" "same_pool w1 w2" "env w2 = env w1"
    "view w2 = (view w1)(i := (view w1 i)\<lparr>v_obj := ?s2\<rparr>)" using put_session_ok [OF c1] by blast
  have c2: "counted X F w2" "i < cap w2" using same_pool_counted [OF w2(2) c1(1)] env_eqD(1) [OF w2(3)] c1(2) by simp_all
  obtain w3 where w3: "put_session i ?s3 w2 = Inr w3" "same_pool w2 w3" "env w3 = env w2"
    "view w3 = (view w2)(i := (view w2 i)\<lparr>v_obj := ?s3\<rparr>)" using put_session_ok [OF c2] by blast
  have r: "Ptr_Reset cb (ReadPtr i) w1 = Inr (False, w1)" "Ptr_Reset cb (WritePtr i) w2 = Inr (False, w2)"
    using n same_poolD(2) [OF w1(2)] same_poolD(2) [OF w2(2)] by (auto intro!: Ptr_Reset_null simp: view_fields)
  have "session_deleter cb i w = Inr w3"
    using get_session_ok [OF c i] get_session_ok [OF c1] get_session_ok [OF c2] w1(1,4) w2(1,4) w3(1) r
    by (simp add: session_deleter_def)
  moreover have "same_pool w w3" using w1(2) w2(2) w3(2) same_pool_trans by blast
  ultimately show ?thesis using w1(3,4) w2(3,4) w3(3,4) by auto
qed

lemma OverlappedEx_Reset_wf: "mb_wf (ov_buffer ov) \<Longrightarrow> ov_wf (OverlappedEx_Reset ov)"
  by (auto simp: OverlappedEx_Reset_def ov_wf_def mb_wf_def MagicBuffer_Clear_def)

lemma view_retired:
  assumes "updates (p_set w) i (g, 0) s" "i < cap w" "ss_inv (p_set w)"
  shows "view (w\<lparr>p_set := s\<rparr>) = (view w)(i := (view w i)\<lparr>v_state := 0, v_handle := make_handle g (word_of_nat i)\<rparr>)"
    and "env (w\<lparr>p_set := s\<rparr>) = env w"
  using assms ss_invD(4) [OF assms(3)]
  by (auto simp: view_def env_def updates_def slots_view_simps nth_list_update fun_eq_iff)

lemma server_deleter:
  assumes J: "serving os d w" and X: "X \<subseteq> range Local" and c: "counted X F w" and i: "i < cap w" and none: "refs w i \<subseteq> X"
  shows "\<exists>w'. deleter (server_cb os) i w = Inr w' \<and> same_pool w w' \<and>
    (\<forall>s. updates (p_set w) i (gen_of (p_set w) i + 1, 0) s \<longrightarrow> serving os d (w'\<lparr>p_set := s\<rparr>) \<and>
       env (w'\<lparr>p_set := s\<rparr>) = env w \<and> (\<forall>j. j \<noteq> i \<longrightarrow> view (w'\<lparr>p_set := s\<rparr>) j = view w j))"
proof -
  have s: "sinv w" and ok: "session_ok (view w i)" using J i by (auto simp: serving_def sinv_def)
  have no: "p_ptrs w l \<noteq> live_ptr (v_handle (view w i))" if "l \<notin> range Local" for l
    using none X that view_slot(3) [OF c i] by (auto simp: refs_def)
  have n: "v_read (view w i) = null_ptr" "v_write (view w i) = null_ptr" "v_disc (view w i) = null_ptr" "v_mgr (view w i) = null_ptr"
    using session_okD(4-7) [OF ok] no [of "ReadPtr i"] no [of "WritePtr i"] no [of "DiscPtr i"] no [of "MgrPtr i"]
    by (auto simp: self_ptr_def view_fields)
  have fl: "\<not> v_inR (view w i)" "\<not> v_inW (view w i)" "\<not> v_inD (view w i)" using session_okD(12,14,16) [OF ok] n by auto
  let ?old = "v_obj (view w i)"
  let ?s = "?old\<lparr>s_readOv := OverlappedEx_Reset (s_readOv ?old), s_writeOv := OverlappedEx_Reset (s_writeOv ?old),
    s_isSending := False, s_handle := kInvalidHandle\<rparr>"
  obtain w' where w': "session_deleter nested_cb i w = Inr w'" "same_pool w w'" "env w' = env w"
    "view w' = (view w)(i := (view w i)\<lparr>v_obj := ?s\<rparr>)" using session_deleter_ok [OF c i n(1,2)] by blast
  have "serving os d (w'\<lparr>p_set := s'\<rparr>) \<and> env (w'\<lparr>p_set := s'\<rparr>) = env w \<and>
      (\<forall>j. j \<noteq> i \<longrightarrow> view (w'\<lparr>p_set := s'\<rparr>) j = view w j)"
    if up: "updates (p_set w) i (gen_of (p_set w) i + 1, 0) s'" for s'
  proof -
    have ps: "p_set w' = p_set w" using same_poolD(1) [OF w'(2)] .
    let ?v = "(view w i)\<lparr>v_obj := ?s, v_state := 0, v_handle := make_handle (gen_of (p_set w) i + 1) (word_of_nat i)\<rparr>"
    have v: "view (w'\<lparr>p_set := s'\<rparr>) = (view w)(i := ?v)" and e: "env (w'\<lparr>p_set := s'\<rparr>) = env w"
      using view_retired [of w' i _ s'] up i countedD(1) [OF c] w'(3,4) ps by simp_all
    have "mb_wf (ov_buffer (s_writeOv ?old))" using session_okD(2) [OF ok] by (simp add: ov_wf_def)
    then have W: "ov_wf (OverlappedEx_Reset (s_readOv ?old))" "ov_wf (OverlappedEx_Reset (s_writeOv ?old))"
      using OverlappedEx_Reset_wf session_okD(1) [OF ok] by simp_all
    then have "mb_wf (ov_buffer (OverlappedEx_Reset (s_readOv ?old)))" by (simp add: ov_wf_def)
    then have "session_ok ?v" unfolding session_ok_def using n fl W by (simp add: self_ptr_def)
    then have "sinv (w'\<lparr>p_set := s'\<rparr>)" by (rule sinv_change [OF s e v i]) (simp add: is_accept_def fl)
    then show ?thesis using J env_eqD(3) [OF e] e v by (simp add: serving_def)
  qed
  then show ?thesis using w'(1,2) by (auto simp: server_cb_def)
qed

lemma sinv_cong: "env w' = env w \<Longrightarrow> view w' = view w \<Longrightarrow> sinv w' \<longleftrightarrow> sinv w"
  using env_eqD [of w' w] by (simp add: sinv_def accepts_def)

interpretation srv: pool_client "server_cb os" "serving os d" "range Local" for os d
proof
  fix w :: world and X :: "loc set" and F i
  assume J: "serving os d w" and X: "X \<subseteq> {l \<in> range Local. sp_pool (p_ptrs w l)}"
  show "\<exists>w'. deleter (server_cb os) i w = Inr w' \<and> same_pool w w' \<and>
      (\<forall>s. updates (p_set w) i (gen_of (p_set w) i + 1, 0) s \<longrightarrow> serving os d (w'\<lparr>p_set := s\<rparr>))"
    if "counted X F w" "i < cap w" "refs w i \<subseteq> X"
    using server_deleter [OF J _ that] X by blast
  show "\<exists>w'. postReleaseFunc (server_cb os) w = Inr w' \<and> pinv X F w' \<and> serving os d w'" if p: "pinv X F w"
  proof -
    from PostAccept_ok [OF serving_good [OF J X p], of os nested_cb] show ?thesis
      using J by (auto simp: server_cb_def serving_def good_def undisturbed_def)
  qed
next
  fix w :: world and i n
  assume "serving os d w"
  then show "serving os d (set_count i n w)"
    using sinv_cong [OF repointed_env [OF repointed_set_count] repointed_local [OF repointed_set_count], of w i n]
    by (simp add: serving_def) (simp add: set_count_def)
next
  fix w :: world and l
  assume l: "l \<in> range Local" and J: "serving os d w"
  then obtain k where k: "l = Local k" by auto
  let ?w = "set_ptr l null_ptr w"
  have v: "view ?w = view w" by (rule repointed_local [OF repointed_set_ptr]) (simp_all add: k)
  have "sinv ?w"
    by (rule sinv_same_view [OF _ _ _ _ _ _ v]) (use J k in \<open>auto simp: serving_def sinv_def set_ptr_def\<close>)
  then show "serving os d ?w" using J by (simp add: serving_def set_ptr_def)
qed

section \<open>Events\<close>

text \<open>
  The kernel's contract: it completes what is in flight, stores no more bytes than the receive was posted with
  and reports their number, and reports no more bytes sent than were posted.
\<close>

fun kernel_ok :: "event \<Rightarrow> world \<Rightarrow> bool" where
  "kernel_ok (Event r result chunk n) w \<longleftrightarrow> in_flight w r \<and>
     (let s = obj (p_slots w ! ov_session r) in
      result \<longrightarrow>
        (ioType (ov_of r s) = io_Recv \<longrightarrow> n = length chunk \<and> n \<le> unat (wsa_len (s_readOv s))) \<and>
        (ioType (ov_of r s) = io_Send \<longrightarrow> n \<le> unat (wsa_len (s_writeOv s))))"

text \<open>What the handlers rely on: each packet the bytes complete is one the handlers are written for.\<close>

fun client_ok :: "event \<Rightarrow> world \<Rightarrow> bool" where
  "client_ok (Event r result chunk n) w \<longleftrightarrow>
     (let ov = s_readOv (obj (p_slots w ! ov_session r)) in
      result \<and> ioType ov = io_Recv \<longrightarrow>
        list_all packet_ok (fst (frames (mb_size (ov_buffer ov)) (window ov @ chunk))))"

lemma in_flight_view: "in_flight w r \<longleftrightarrow>
    (case r of ReadOv i \<Rightarrow> v_inR (view w i) | WriteOv i \<Rightarrow> v_inW (view w i) | DiscOv i \<Rightarrow> v_inD (view w i))"
  by (cases r) (simp_all add: view_fields)

lemma in_flight_session:
  assumes g: "good X F w" and fl: "in_flight w r"
  shows "ov_session r < cap w" "p_ptrs w (ov_ptr r) = live_ptr (v_handle (view w (ov_session r)))"
proof -
  show i: "ov_session r < cap w"
    using goodD(3) [OF g] fl unfolding in_flight_view sinv_def by (cases r) (auto simp: not_le [symmetric])
  show "p_ptrs w (ov_ptr r) = live_ptr (v_handle (view w (ov_session r)))"
    using session_okD(12,14,16) [OF goodD(5) [OF g i]] fl unfolding in_flight_view own_ptr_view by (cases r) simp_all
qed

lemma landed_view: "view (w\<lparr>in_flight := (in_flight w)(r := False)\<rparr>) =
    (view w)(ov_session r := launched r False (view w (ov_session r)))"
  "env (w\<lparr>in_flight := f\<rparr>) = env w" "same_pool w (w\<lparr>in_flight := f\<rparr>)"
  by (cases r; auto simp: view_def env_def same_pool_def fun_eq_iff)+

lemma landed_ok: "session_ok v \<Longrightarrow> session_ok (launched r False v)" "is_accept (launched r False v) \<Longrightarrow> is_accept v"
  by (cases r; auto simp: session_ok_def self_ptr_def is_accept_def)+

text \<open>The state in which a completion is dequeued.\<close>

definition dequeued :: "loc set \<Rightarrow> (nat \<Rightarrow> nat) \<Rightarrow> ov_ref \<Rightarrow> nat \<Rightarrow> world \<Rightarrow> world \<Rightarrow> bool" where
  "dequeued X F r n w w' \<longleftrightarrow>
     good X F w' \<and> depth w' = depth w \<and> ov_session r < cap w' \<and> ready r n (view w' (ov_session r)) \<and>
     p_ptrs w' (ov_ptr r) = live_ptr (v_handle (view w' (ov_session r))) \<and>
     (ioType (ov_of r (v_obj (view w' (ov_session r)))) = io_Accept \<longrightarrow> card (accepts w') < unat (pendingAccepts w'))"

lemma landed_good:
  assumes g: "good X F w" and fl: "in_flight w r"
  shows "good X F (w\<lparr>in_flight := (in_flight w)(r := False)\<rparr>)"
  by (rule good_env [OF g same_pool_pinv [OF landed_view(3) goodD(1) [OF g]] _ landed_view(2)],
      rule sinv_change [OF goodD(3) [OF g] landed_view(2,1) in_flight_session(1) [OF g fl]])
    (use landed_ok goodD(5) [OF g in_flight_session(1) [OF g fl]] in auto)

lemma completes_plain:
  assumes g: "good X F w" and fl: "in_flight w r" and n: "\<And>i. r = WriteOv i \<Longrightarrow> n \<le> unat (wsa_len (s_writeOv (v_obj (view w i))))"
    and t: "ioType (ov_of r (v_obj (view w (ov_session r)))) = io_Recv \<longrightarrow> n = 0"
  shows "dequeued X F r n w (w\<lparr>in_flight := (in_flight w)(r := False)\<rparr>)"
proof -
  let ?i = "ov_session r" and ?w = "w\<lparr>in_flight := (in_flight w)(r := False)\<rparr>"
  let ?s = "v_obj (view w ?i)"
  note I = in_flight_session [OF g fl]
  note ok = session_okD [OF goodD(5) [OF g I(1)]]
  have v: "view ?w ?i = launched r False (view w ?i)" by (simp add: landed_view(1))
  have o1: "v_obj (launched r False u) = v_obj u" "v_handle (launched r False u) = v_handle u" for u by (cases r; simp)+
  have "ready r n (launched r False (view w ?i))"
  proof (cases r)
    case (ReadOv j)
    then have "read_posted ?s" using ok(13) fl by (simp add: view_fields)
    then show ?thesis using t ReadOv ok(19) fl by (auto simp: read_posted_def view_fields)
  next
    case (WriteOv j)
    then have "write_posted ?s" using ok(15) fl by (simp add: view_fields)
    then show ?thesis using WriteOv n [OF WriteOv] by (auto simp: write_posted_def)
  next
    case (DiscOv j)
    then show ?thesis using ok(17,18) fl by (simp add: view_fields)
  qed
  moreover have "card (accepts ?w) < unat (pendingAccepts ?w)" if acc: "ioType (ov_of r ?s) = io_Accept"
  proof -
    obtain j where r: "r = ReadOv j" using acc ok(15,17) fl by (cases r) (auto simp: view_fields write_posted_def)
    then have "j \<in> accepts w" using acc fl I(1) by (simp add: accepts_def is_accept_def view_fields)
    moreover have "accepts ?w = accepts w - {j}"
      using r by (auto simp: accepts_def landed_view(1) is_accept_def split: if_splits)
    moreover have "finite (accepts w)" by (simp add: accepts_def)
    ultimately have "card (accepts ?w) < card (accepts w)" by (metis card_Diff1_less)
    then show ?thesis using goodD(3) [OF g] by (simp add: sinv_def)
  qed
  ultimately show ?thesis using landed_good [OF g fl] I v o1 by (simp add: dequeued_def)
qed

lemma completes_recv:
  assumes g: "good X F w" and fl: "in_flight w (ReadOv i)" and t: "ioType (s_readOv (v_obj (view w i))) = io_Recv"
    and n: "length chunk \<le> unat (wsa_len (s_readOv (v_obj (view w i))))"
    and ps: "list_all packet_ok (fst (frames (mb_size (ov_buffer (s_readOv (v_obj (view w i))))) (window (s_readOv (v_obj (view w i))) @ chunk)))"
  shows "\<exists>w' ov'. kernel_completes (ReadOv i) True chunk w = Inr w' \<and> dequeued X F (ReadOv i) (length chunk) w w' \<and>
    env w' = env w \<and> view w' = (view w)(i := (view w i)\<lparr>v_inR := False, v_obj := (v_obj (view w i))\<lparr>s_readOv := ov'\<rparr>\<rparr>) \<and>
    window (ov_advance_write (length chunk) ov') = window (s_readOv (v_obj (view w i))) @ chunk \<and>
    mb_size (ov_buffer ov') = mb_size (ov_buffer (s_readOv (v_obj (view w i)))) \<and> ioType ov' = io_Recv"
proof -
  let ?w1 = "w\<lparr>in_flight := (in_flight w)(ReadOv i := False)\<rparr>" and ?s = "v_obj (view w i)"
  let ?ov = "s_readOv ?s"
  have i: "i < cap w" and rp: "p_ptrs w (ReadPtr i) = live_ptr (v_handle (view w i))"
    using in_flight_session [OF g fl] by simp_all
  note ok = session_okD [OF goodD(5) [OF g i]]
  have inR: "v_inR (view w i)" using fl by (simp add: view_fields)
  have post: "wsa_buf ?ov = writePos ?ov" "unat (wsa_len ?ov) + length (window ?ov) \<le> mb_size (ov_buffer ?ov)"
    and wf: "ov_wf ?ov" and st: "2 \<le> v_state (view w i)"
    using ok(13,3,19) inR t by (auto simp: read_posted_def)
  have fits: "length (window ?ov) + length chunk \<le> mb_size (ov_buffer ?ov)" using n post(2) by linarith
  obtain ov' where sto: "ov_store chunk ?ov = Inr ov'" and wf': "ov_wf (ov_advance_write (length chunk) ov')"
    and win: "window (ov_advance_write (length chunk) ov') = window ?ov @ chunk"
    and sz: "mb_size (ov_buffer ov') = mb_size (ov_buffer ?ov)"
    using window_store [OF wf fits] by metis
  then obtain b where b: "mb_write (unat (wsa_buf ?ov)) chunk (ov_buffer ?ov) = Inr b" "ov' = ?ov\<lparr>ov_buffer := b\<rparr>"
    using post(1) by (auto simp: ov_store_def rbind_eq_Inr_iff)
  have g1: "good X F ?w1" by (rule landed_good [OF g fl])
  have i1: "i < cap ?w1" using i by simp
  have v1: "view ?w1 = (view w)(i := (view w i)\<lparr>v_inR := False\<rparr>)" using landed_view(1) [of w "ReadOv i"] by simp
  let ?s2 = "?s\<lparr>s_readOv := ov'\<rparr>"
  obtain w2 where w2: "put_session i ?s2 ?w1 = Inr w2" "same_pool ?w1 w2" "env w2 = env ?w1"
    "view w2 = (view ?w1)(i := (view ?w1 i)\<lparr>v_obj := ?s2\<rparr>)"
    using put_session_ok [OF goodD(2) [OF g1] i1] by blast
  have mb: "mb_wf (ov_buffer ov')" using wf' by (simp add: ov_wf_def ov_advance_write_def)
  have "session_ok ((view ?w1 i)\<lparr>v_obj := ?s2\<rparr>)" unfolding session_ok_def
    using session_okD [OF goodD(5) [OF g1 i1]] mb st by (simp add: v1 self_ptr_def write_posted_def)
  then have "sinv w2"
    by (rule sinv_change [OF goodD(3) [OF g1] w2(3,4) i1]) (simp add: is_accept_def v1)
  then have g2: "good X F w2" using good_same_pool [OF g1 w2(2)] env_eqD(3) [OF w2(3)] by simp
  have run: "kernel_completes (ReadOv i) True chunk w = Inr w2"
    using ov_ioType_ok [OF goodD(2) [OF g1], of "ReadOv i"] get_session_ok [OF goodD(2) [OF g1] i1] i b w2(1) t
    by (simp add: kernel_completes_def v1)
  have "dequeued X F (ReadOv i) (length chunk) w w2"
    using g2 env_eqD(1,3) [OF w2(3)] i w2(4) v1 st wf' win ps sz t rp same_poolD(2) [OF w2(2)] b(2)
    by (simp add: dequeued_def list_all_iff)
  moreover have "env w2 = env w" using w2(3) by (simp add: env_def)
  moreover have "view w2 = (view w)(i := (view w i)\<lparr>v_inR := False, v_obj := ?s2\<rparr>)" using w2(4) v1 by simp
  ultimately show ?thesis using run win sz b(2) t by (intro exI [of _ w2] exI [of _ ov']) simp
qed

lemma kernel_completes_ok:
  assumes g: "good X F w" and k: "kernel_ok (Event r result chunk n) w" and c: "client_ok (Event r result chunk n) w"
  shows "\<exists>w'. kernel_completes r result chunk w = Inr w' \<and> dequeued X F r (if result then n else 0) w w'"
proof -
  have fl: "in_flight w r" using k by simp
  note I = in_flight_session [OF g fl]
  note S = view_slot [OF goodD(2) [OF g] I(1)] and g1 = landed_good [OF g fl]
  show ?thesis
  proof (cases "ioType (ov_of r (v_obj (view w (ov_session r)))) = io_Recv \<and> result")
    case True
    then obtain i where r: "r = ReadOv i"
      using session_okD(15,17) [OF goodD(5) [OF g I(1)]] fl by (cases r) (auto simp: view_fields write_posted_def)
    then show ?thesis using completes_recv [OF g, of i chunk] fl True k c S(1) by (auto simp: Let_def)
  next
    case False
    let ?w = "w\<lparr>in_flight := (in_flight w)(r := False)\<rparr>"
    have ob: "v_obj (view ?w (ov_session r)) = v_obj (view w (ov_session r))" by (cases r) (simp_all add: landed_view(1))
    have "kernel_completes r result chunk w = Inr ?w"
      using ov_ioType_ok [OF goodD(2) [OF g1], of r] I(1) ob False by (auto simp: kernel_completes_def Let_def)
    moreover have "dequeued X F r (if result then n else 0) w ?w"
    proof (rule completes_plain [OF g fl])
      fix i assume r: "r = WriteOv i"
      then have "ioType (s_writeOv (v_obj (view w i))) = io_Send"
        using session_okD(15) [OF goodD(5) [OF g I(1)]] fl by (auto simp: view_fields write_posted_def)
      then show "(if result then n else 0) \<le> unat (wsa_len (s_writeOv (v_obj (view w i))))"
        using k r S(1) by (auto simp: Let_def)
    qed (use False in auto)
    ultimately show ?thesis by blast
  qed
qed

lemma WorkerThread_scope_fail: "WorkerThread_scope cb os r False n = WorkerThread_scope cb os r False 0"
  by (simp add: WorkerThread_scope_def fun_eq_iff)

text \<open>The last local is gone.\<close>

lemma serving_pop:
  assumes p: "pinv {} F w" and J: "serving os (d + 1) w" and l: "p_ptrs w (Local d) = null_ptr"
  shows "good {} F (w\<lparr>depth := d\<rparr>)"
proof -
  have "p_ptrs w (Local j) = null_ptr" if "d \<le> j" for j
    using that J l by (cases "j = d") (auto simp: serving_def sinv_def)
  then have "sinv (w\<lparr>depth := d\<rparr>)"
    by (intro sinv_same_view [OF _ _ _ _ _ _ deeper(2)]) (use J in \<open>auto simp: serving_def sinv_def\<close>)
  then show ?thesis using same_pool_pinv [OF deeper(1) p] by (simp add: good_def)
qed

lemma server_step_ok:
  assumes os: "os_respects os" and g: "good {} F w" and k: "kernel_ok e w" and c: "client_ok e w"
  shows "\<exists>w'. server_step os e w = Inr w' \<and> good {} F w' \<and> depth w' = depth w"
proof (cases e)
  case (Event r result chunk n)
  let ?n = "if result then n else 0"
  obtain w1 where w1: "kernel_completes r result chunk w = Inr w1" and dq: "dequeued {} F r ?n w w1"
    using kernel_completes_ok [OF g] k c Event by blast
  have D: "good {} F w1" "depth w1 = depth w" "ov_session r < cap w1" "ready r ?n (view w1 (ov_session r))"
    "p_ptrs w1 (ov_ptr r) = live_ptr (v_handle (view w1 (ov_session r)))"
    "ioType (ov_of r (v_obj (view w1 (ov_session r)))) = io_Accept \<Longrightarrow> card (accepts w1) < unat (pendingAccepts w1)"
    using dq by (simp_all add: dequeued_def)
  let ?cb = "server_cb os" and ?d = "depth w1"
  have "WorkerThread_scope ?cb os r result n = WorkerThread_scope ?cb os r result ?n"
    using WorkerThread_scope_fail by (cases result) simp_all
  then obtain b w2 where w2: "WorkerThread_scope ?cb os r result n (Local ?d) (w1\<lparr>depth := ?d + 1\<rparr>) = Inr (b, w2)"
    "good {} F w2" "depth w2 = ?d + 1"
    using WorkerThread_scope_ok [OF os D(1,3-6), of ?cb result] by auto
  have "serving os (?d + 1) w2" using os w2(2,3) by (simp add: serving_def good_def)
  from srv.Ptr_dtor_ok [OF goodD(1) [OF w2(2)] this, of "Local ?d"] obtain w3 where
    w3: "Ptr_dtor ?cb (Local ?d) w2 = Inr w3" "pinv {} F w3" "serving os (?d + 1) w3" "p_ptrs w3 (Local ?d) = null_ptr" by auto
  let ?w4 = "w3\<lparr>depth := ?d\<rparr>"
  have "good {} F ?w4" by (rule serving_pop [OF w3(2-4)])
  moreover have "server_step os e w = Inr ?w4"
    using Event w1 w2(1) w3(1) by (simp add: WorkerThread_body_def scoped_def)
  ultimately show ?thesis using D(2) by auto
qed

end
