(* ===== verification/Server_Run.thy ===== *)
theory Server_Run
  imports Iocp_Core
begin

text \<open>
  The whole server: \<^verbatim>\<open>ServerService::Start\<close> followed by any sequence of completions. The states reached keep the
  server's invariant, so no event of a well-behaved kernel and client makes the server fault.
\<close>

section \<open>The transition system\<close>

text \<open>What the server is started with: an operating system that keeps its contract, a pool and buffers that fit.\<close>

definition sane :: "os \<Rightarrow> nat \<Rightarrow> nat \<Rightarrow> bool" where
  "sane os N S \<longleftrightarrow> os_respects os \<and> N < 2 ^ 32 \<and> 4 \<le> S \<and> S < 2 ^ 32"

inductive server_init :: "os \<Rightarrow> nat \<Rightarrow> nat \<Rightarrow> world \<Rightarrow> bool" for os N S where
  started: "ServerService_Start os (new_world N S) = Inr (b, w) \<Longrightarrow> server_init os N S w"

inductive server_trans :: "os \<Rightarrow> world \<Rightarrow> world \<Rightarrow> bool" for os where
  handled: "kernel_ok e w \<Longrightarrow> client_ok e w \<Longrightarrow> server_step os e w = Inr w' \<Longrightarrow> server_trans os w w'"

inductive_cases server_initE: "server_init os N S w"
inductive_cases server_transE: "server_trans os w w'"

text \<open>The invariant between events: no local pointer exists, and every count is the number of pointers.\<close>

definition idle_ok :: "world \<Rightarrow> bool" where
  "idle_ok w \<longleftrightarrow> good {} (\<lambda>_. 0) w \<and> depth w = 0"

section \<open>Starting\<close>

lemma new_world_view:
  assumes "i < N"
  shows "view (new_world N S) i = \<lparr>v_obj = new_session S, v_state = 0, v_handle = make_handle 0 (word_of_nat i),
    v_read = null_ptr, v_write = null_ptr, v_disc = null_ptr, v_mgr = null_ptr,
    v_inR = False, v_inW = False, v_inD = False, v_closed = False\<rparr>"
  using assms by (simp add: view_def new_world_def)

lemma new_world_good:
  assumes "N < 2 ^ 32" "4 \<le> S" "S < 2 ^ 32"
  shows "good {} (\<lambda>_. 0) (new_world N S)"
proof -
  let ?w = "new_world N S"
  have s: "p_set ?w = SparseSet N ss_count" by (simp add: new_world_def)
  have "ss_inv (SparseSet N ss_count)" using assms by (intro SparseSet_inv) (simp_all add: ss_count_def)
  then have "pinv {} (\<lambda>_. 0) ?w" by (simp add: pinv_def counted_def refs_def new_world_def)
  moreover have "sinv ?w"
  proof -
    have "ov_wf (new_ov S)" using assms by (simp add: new_ov_def OverlappedEx_ctor_def ov_wf_def mb_wf_def)
    then have "session_ok (view ?w i)" if "i < N" for i
      unfolding session_ok_def new_world_view [OF that] by (simp add: new_session_def self_ptr_def ov_wf_def)
    moreover have "accepts ?w = {}" by (auto simp: accepts_def is_accept_def view_fields new_world_def)
    ultimately show ?thesis by (simp add: sinv_def s) (simp add: new_world_def view_fields)
  qed
  ultimately show ?thesis by (simp add: good_def)
qed

lemma logged: "same_pool w (w\<lparr>api_log := cs\<rparr>)" "env (w\<lparr>api_log := cs\<rparr>) = env w"
  by (simp_all add: same_pool_def env_def)

lemma plain_call_good:
  assumes g: "good X F w" and c: "\<And>i. c \<noteq> AcceptEx i \<and> c \<noteq> DisconnectEx i"
  shows "\<exists>r. plain_call os c w = (r, w\<lparr>api_log := c # api_log w\<rparr>)" "good X F (w\<lparr>api_log := c # api_log w\<rparr>)"
    "view (w\<lparr>api_log := c # api_log w\<rparr>) = view w"
proof -
  let ?w = "w\<lparr>api_log := c # api_log w\<rparr>"
  show v: "view ?w = view w" using c by (auto simp: view_def fun_eq_iff)
  show "good X F ?w"
    by (rule good_same_pool [OF g logged(1)]) (use sinv_cong [OF logged(2) v] goodD(3) [OF g] in simp_all)
qed (simp add: plain_call_def)

lemma SM_Init_loop_ok:
  assumes "good X F w" "\<forall>h\<in>set handles. IsValid h (p_set w)"
  shows "\<exists>b w'. SM_Init_loop os handles w = Inr (b, w') \<and> good X F w' \<and> p_set w' = p_set w \<and> depth w' = depth w"
  using assms
proof (induction handles arbitrary: w)
  case (Cons h hs)
  obtain i where i: "GetObj h w = Some i" using Cons.prems(2) by (auto simp: GetObj_def Pool_IsValid_def)
  let ?c = "CreateIoCompletionPort i h"
  obtain r where r: "plain_call os ?c w = (r, w\<lparr>api_log := ?c # api_log w\<rparr>)" and g: "good X F (w\<lparr>api_log := ?c # api_log w\<rparr>)"
    using plain_call_good(1) [OF Cons.prems(1), of ?c os] plain_call_good(2) [OF Cons.prems(1), of ?c] by auto
  show ?case using Cons.IH [OF g] Cons.prems(2) i r g by (cases "r = 0") (auto simp: RegisterSession_def)
qed auto

lemma SM_Init_ok:
  assumes g: "good X F w"
  shows "\<exists>b w'. SM_Init os w = Inr (b, w') \<and> good X F w' \<and> p_set w' = p_set w \<and> depth w' = depth w"
proof -
  note inv = countedD(1) [OF goodD(2) [OF g]]
  have "0 < stateCount (p_set w)" using goodD(6) [OF g] by simp
  from GetIndicesInState_ok [OF inv this] obtain hs where hs: "GetIndicesInState 0 (p_set w) = Inr hs"
    "set hs = {h. IsValid h (p_set w) \<and> state_of (p_set w) (who_of h) = 0}" by auto
  show ?thesis using SM_Init_loop_ok [OF g, of hs os] hs by (simp add: SM_Init_def)
qed

lemma Start_ok:
  assumes s: "sane os N S"
  shows "\<exists>b w. ServerService_Start os (new_world N S) = Inr (b, w) \<and> idle_ok w"
proof -
  let ?w0 = "new_world N S"
  have g: "good {} (\<lambda>_. 0) ?w0" and os: "os_respects os" using s new_world_good by (auto simp: sane_def)
  obtain b1 w1 where w1: "SM_Init os ?w0 = Inr (b1, w1)" "good {} (\<lambda>_. 0) w1" "p_set w1 = p_set ?w0" "depth w1 = depth ?w0"
    using SM_Init_ok [OF g] by blast
  obtain b w where w: "PostAccept (server_cb os) os w1 = Inr (b, w)" "good {} (\<lambda>_. 0) w" "undisturbed {} w1 w"
    using PostAccept_ok [OF w1(2) os] by blast
  have "idle_ok w" using w(2,3) w1(3,4) by (simp add: idle_ok_def undisturbed_def) (simp add: new_world_def)
  then show ?thesis using w1(1) w(1) by (simp add: ServerService_Start_def)
qed

section \<open>Running\<close>

lemma server_step_idle_ok:
  assumes "os_respects os" "idle_ok w" "kernel_ok e w" "client_ok e w"
  shows "\<exists>w'. server_step os e w = Inr w' \<and> idle_ok w'"
  using server_step_ok [OF assms(1) _ assms(3,4)] assms(2) by (fastforce simp: idle_ok_def)

interpretation sr: stepwise_invariant "server_init os N S" "server_trans os" "\<lambda>w. sane os N S \<longrightarrow> idle_ok w" for os N S
proof
  show "sane os N S \<longrightarrow> idle_ok w" if "server_init os N S w" for w
    using that Start_ok [of os N S] by (auto elim!: server_initE)
  show "sane os N S \<longrightarrow> idle_ok w'" if "sane os N S \<longrightarrow> idle_ok w" "server_trans os w w'" for w w'
    using that server_step_idle_ok [of os w] by (fastforce elim!: server_transE simp: sane_def)
qed

abbreviation server_reaches :: "os \<Rightarrow> nat \<Rightarrow> nat \<Rightarrow> world \<Rightarrow> bool" where
  "server_reaches os N S \<equiv> reach (server_init os N S) (server_trans os)"

lemma reached_good:
  assumes "sane os N S" "server_reaches os N S w"
  shows "good {} (\<lambda>_. 0) w" "depth w = 0"
  using sr.reach_I [OF assms(2)] assms(1) by (auto simp: idle_ok_def)

text \<open>A run whose events all honour the contracts.\<close>

fun run_legal :: "os \<Rightarrow> event list \<Rightarrow> world \<Rightarrow> bool" where
  "run_legal os [] w \<longleftrightarrow> True"
| "run_legal os (e # es) w \<longleftrightarrow> kernel_ok e w \<and> client_ok e w \<and>
     (case server_step os e w of Inl _ \<Rightarrow> True | Inr w' \<Rightarrow> run_legal os es w')"

lemma run_reaches:
  assumes "sane os N S" "run_legal os es w" "server_reaches os N S w"
  shows "\<exists>w'. server_run os es w = Inr w' \<and> server_reaches os N S w'"
  using assms(2,3)
proof (induction es arbitrary: w)
  case (Cons e es)
  obtain w1 where w1: "server_step os e w = Inr w1"
    using server_step_ok [OF _ reached_good(1) [OF assms(1) Cons.prems(2)], of os e] assms(1) Cons.prems(1)
    by (auto simp: sane_def)
  have "server_reaches os N S w1" using Cons.prems w1 by (auto intro: reach_step handled)
  then show ?case using Cons w1 by auto
qed simp

end
