(* ===== verification/Server_Relay.thy ===== *)
theory Server_Relay
  imports Server_Run
begin

text \<open>
  What a completed receive does to the other sessions: every connected session gets, in order, one packet for each packet
  the received bytes complete, as far as its write buffer has room; whatever happens to the sender.
\<close>

section \<open>Queues of outgoing bytes\<close>

text \<open>The outgoing bytes after the packets \<open>ps\<close> were offered to a buffer of \<open>S\<close> bytes.\<close>

fun queued :: "nat \<Rightarrow> byte list \<Rightarrow> byte list list \<Rightarrow> byte list" where
  "queued S bs [] = bs"
| "queued S bs (p # ps) =
     queued S (if length bs + packet_size p \<le> S then bs @ take (packet_size p) p else bs) ps"

abbreviation out_bytes :: "sview \<Rightarrow> byte list" where
  "out_bytes v \<equiv> window (s_writeOv (v_obj v))"

abbreviation out_room :: "sview \<Rightarrow> nat" where
  "out_room v \<equiv> mb_size (ov_buffer (s_writeOv (v_obj v)))"

text \<open>The effect on the views of the sessions other than \<open>i\<close>; \<open>h\<close> is the handle of \<open>i\<close>.\<close>

definition relay_effect :: "u64 \<Rightarrow> byte list list \<Rightarrow> nat \<Rightarrow> nat \<Rightarrow> (nat \<Rightarrow> sview) \<Rightarrow> (nat \<Rightarrow> sview) \<Rightarrow> bool" where
  "relay_effect h ps i N V V' \<longleftrightarrow>
     (\<forall>j<N. j \<noteq> i \<longrightarrow> v_state (V j) = ss_value kConnected \<longrightarrow> v_handle (V j) \<noteq> h \<longrightarrow>
        v_state (V' j) = ss_value kConnected \<and> v_handle (V' j) = v_handle (V j) \<and> out_room (V' j) = out_room (V j) \<and>
        out_bytes (V' j) = queued (out_room (V j)) (out_bytes (V j)) (map (reply h) ps))"

text \<open>Changes of session \<open>i\<close> before or after do not matter.\<close>

lemma relay_effect_cong:
  assumes "relay_effect h ps i N V V'" "\<And>j. j \<noteq> i \<Longrightarrow> U j = V j" "\<And>j. j \<noteq> i \<Longrightarrow> U' j = V' j"
  shows "relay_effect h ps i N U U'"
  using assms by (simp add: relay_effect_def)

lemma enqueued_queue:
  assumes "enqueued packet v v'"
  shows "out_bytes v' = queued (out_room v) (out_bytes v) [packet]" "out_room v' = out_room v"
  using assms by (auto simp: enqueued_def split: if_splits)

lemma queued_Cons: "queued S (queued S bs [p]) ps = queued S bs (p # ps)"
  by simp

lemma relayed_effect:
  assumes "relayed h ps w w'" "cap w = N"
  shows "relay_effect h ps i N (view w) (view w')"
  using assms
proof (induction ps arbitrary: w)
  case (Cons p ps)
  then obtain w1 where w1: "delivered (reply h p) (recipients h w) w w1" "relayed h ps w1 w'" by auto
  have c1: "cap w1 = N" using delivered_view(2) [OF w1(1)] env_eqD(1) [of w1 w] Cons.prems(2) by simp
  note IH = Cons.IH [OF w1(2) c1]
  show ?case unfolding relay_effect_def
  proof (intro allI impI)
    fix j assume j: "j < N" "j \<noteq> i" "v_state (view w j) = ss_value kConnected" "v_handle (view w j) \<noteq> h"
    then have "j \<in> recipients h w" using Cons.prems(2) by (simp add: recipients_def)
    then have e: "enqueued (reply h p) (view w j) (view w1 j)" using w1(1) unfolding delivered_def by metis
    note K = enqueued_keeps(1,2) [OF e] and Q = enqueued_queue [OF e]
    have "v_state (view w' j) = ss_value kConnected \<and> v_handle (view w' j) = v_handle (view w1 j) \<and>
        out_room (view w' j) = out_room (view w1 j) \<and>
        out_bytes (view w' j) = queued (out_room (view w1 j)) (out_bytes (view w1 j)) (map (reply h) ps)"
      using IH j K unfolding relay_effect_def by auto
    then show "v_state (view w' j) = ss_value kConnected \<and> v_handle (view w' j) = v_handle (view w j) \<and>
        out_room (view w' j) = out_room (view w j) \<and>
        out_bytes (view w' j) = queued (out_room (view w j)) (out_bytes (view w j)) (map (reply h) (p # ps))"
      using K(2) Q by (simp only: list.map queued_Cons)
  qed
qed (simp add: relay_effect_def)

section \<open>The receive path\<close>

text \<open>\<^const>\<open>Dispatch_switch\<close> on a completed receive.\<close>

lemma Dispatch_recv_work:
  assumes os: "os_respects os" and a: "active X F k i w" and rd: "ready (ReadOv i) n (view w i)" and n: "n \<noteq> 0"
    and t: "ioType (s_readOv (v_obj (view w i))) = io_Recv"
    and fr: "frames (mb_size (ov_buffer (s_readOv (v_obj (view w i)))))
      (window (ov_advance_write n (s_readOv (v_obj (view w i))))) = (ps, rest, ok)"
  shows "\<exists>w'. Dispatch_switch cb os io_Recv n i s (Local k) w = Inr ((), w') \<and> good X F w' \<and> steady w w' \<and>
    relay_effect (v_handle (view w i)) ps i (cap w) (view w) (view w')"
proof -
  let ?ov = "s_readOv (v_obj (view w i))" and ?h = "v_handle (view w i)"
  have R: "2 \<le> v_state (view w i)" "\<not> v_inR (view w i)" "ov_wf (ov_advance_write n ?ov)" "\<forall>p\<in>set ps. packet_ok p"
    using rd n t fr by auto
  obtain b w1 w2 ov p f where w2: "OnRead cb os n i w = Inr (b, w2)" "good X F w2" "steady w w2" "relayed ?h ps w w1"
    and v2: "view w2 = (view w1)(i := (view w1 i)\<lparr>v_obj := (v_obj (view w1 i))\<lparr>s_readOv := ov\<rparr>, v_read := p, v_inR := f\<rparr>)"
    using OnRead_ok [OF os a R(1-3) fr R(4), of cb] by blast
  have e2: "relay_effect ?h ps i (cap w) (view w) (view w2)"
    by (rule relay_effect_cong [OF relayed_effect [OF w2(4) refl, of i]]) (simp_all add: v2)
  have io: "HandleIO cb os io_Recv n i w = Inr (b, w2)" using w2(1) by (simp add: HandleIO_def)
  note a2 = active_steady [OF a w2(2,3)]
  show ?thesis
  proof (cases b)
    case True
    then show ?thesis using io n w2(2,3) e2 by (simp add: Dispatch_switch_def)
  next
    case False
    obtain w3 v where w3: "Disconnect cb os i w2 = Inr (True, w3)" "good X F w3" "steady w2 w3" "view w3 = (view w2)(i := v)"
      using Disconnect_ok [OF os a2, of cb] by blast
    have "relay_effect ?h ps i (cap w) (view w) (view w3)"
      by (rule relay_effect_cong [OF e2]) (simp_all add: w3(4))
    then show ?thesis using io n False w3 deref_active [OF a2] steady_trans [OF w2(3) w3(3)]
      by (simp add: Dispatch_switch_def)
  qed
qed

lemma Dispatch_recv:
  assumes os: "os_respects os" and a: "active X F k i w" and rd: "ready (ReadOv i) n (view w i)" and n: "n \<noteq> 0"
    and t: "ioType (s_readOv (v_obj (view w i))) = io_Recv"
    and fr: "frames (mb_size (ov_buffer (s_readOv (v_obj (view w i)))))
      (window (ov_advance_write n (s_readOv (v_obj (view w i))))) = (ps, rest, ok)"
    and p: "p_ptrs w (ReadPtr i) = live_ptr (v_handle (view w i))"
  shows "\<exists>w'. Dispatch cb os (ReadOv i) n w = Inr w' \<and> good X F w' \<and> steady w w' \<and>
    relay_effect (v_handle (view w i)) ps i (cap w) (view w) (view w')"
proof -
  let ?Q = "relay_effect (v_handle (view w i)) ps i (cap w) (view w)" and ?r = "ReadOv i"
  have g: "good X F w" and i: "i < cap w" using a by (auto simp: active_def)
  have "\<exists>u w'. scoped cb (Dispatch_scope cb os ?r n) w = Inr (u, w') \<and> good X F w' \<and> steady w w' \<and> ?Q (view w')"
  proof (rule scoped_session_view [where Q = ?Q and p = "ov_ptr ?r", OF a _ _ Dispatch_scope_def])
    show "p_ptrs w (ov_ptr ?r) = live_ptr (v_handle (view w i))" "ov_ptr ?r \<notin> X" using p goodD(9) [OF g] by simp_all
    fix w1 assume l: "active X F (depth w) i w1" and v1: "view w1 = view w" and c1: "cap w1 = cap w"
    have "\<not> in_flight w1 ?r" using ready_not_in_flight [of ?r n w1] rd v1 by simp
    from Reset_active [of X F "depth w" ?r w1 cb] this l obtain w2 where
      w2: "Ptr_Reset cb (ReadPtr i) w1 = Inr (False, w2)" "good X F w2" "steady w1 w2"
      and v2: "view w2 = (view w)(i := pointed ?r null_ptr (view w i))" using v1 by auto
    have l2: "active X F (depth w) i w2" by (rule active_steady [OF l w2(2,3)])
    then have i2: "i < cap w2" by (simp add: active_def)
    have rd2: "ready ?r n (view w2 i)" using rd v2 by simp
    have ov: "s_readOv (v_obj (view w2 i)) = s_readOv (v_obj (view w i))" and h2: "v_handle (view w2 i) = v_handle (view w i)"
      using v2 by simp_all
    have c2: "cap w2 = cap w1" using steadyD(3) [OF w2(3)] .
    note ty = ov_ioType_ok [OF goodD(2) [OF w2(2)], of ?r, simplified, OF i2]
    obtain w3 where w3: "Dispatch_switch cb os io_Recv n i (v_obj (view w2 i)) (Local (depth w)) w2 = Inr ((), w3)"
      "good X F w3" "steady w2 w3" "relay_effect (v_handle (view w i)) ps i (cap w2) (view w2) (view w3)"
      using Dispatch_recv_work [OF os l2 rd2 n, of ps rest ok] t fr unfolding ov h2 by blast
    have q: "?Q (view w3)"
      by (rule relay_effect_cong [OF w3(4) [unfolded c2 c1]]) (simp_all add: v2)
    show "\<exists>u w3. rbind (Ptr_Reset cb (ov_ptr ?r) w1) (\<lambda>(_, w'). rbind (ov_ioType ?r w') (\<lambda>t.
        rbind (Ptr_deref (Local (depth w)) w') (\<lambda>i. rbind (get_session i w') (\<lambda>s.
        Dispatch_switch cb os t n i s (Local (depth w)) w')))) = Inr (u, w3) \<and> good X F w3 \<and> steady w1 w3 \<and> ?Q (view w3)"
      using q w2(1) ty t ov deref_active [OF l2] get_session_ok [OF goodD(2) [OF w2(2)] i2] w3(1,2) steady_trans [OF w2(3) w3(3)]
      by auto
  qed
  then show ?thesis by (auto simp: Dispatch_def)
qed

lemma WorkerThread_scope_recv:
  assumes os: "os_respects os" and g: "good X F w" and i: "i < cap w" and rd: "ready (ReadOv i) n (view w i)" and n: "n \<noteq> 0"
    and t: "ioType (s_readOv (v_obj (view w i))) = io_Recv"
    and fr: "frames (mb_size (ov_buffer (s_readOv (v_obj (view w i)))))
      (window (ov_advance_write n (s_readOv (v_obj (view w i))))) = (ps, rest, ok)"
    and p: "p_ptrs w (ReadPtr i) = live_ptr (v_handle (view w i))"
  shows "\<exists>w'. WorkerThread_scope cb os (ReadOv i) True n (Local (depth w)) (w\<lparr>depth := depth w + 1\<rparr>) = Inr (True, w') \<and>
    good X F w' \<and> depth w' = depth w + 1 \<and> cap w' = cap w \<and>
    relay_effect (v_handle (view w i)) ps i (cap w) (view w) (view w')"
proof -
  let ?d = "depth w"
  obtain w1 where w1: "Ptr_copy (Local ?d) (ReadPtr i) (w\<lparr>depth := ?d + 1\<rparr>) = Inr w1" "active X F ?d i w1" "view w1 = view w"
    and e1: "env w1 = (env w)\<lparr>e_depth := ?d + 1, e_local := (e_local (env w))(?d := live_ptr (v_handle (view w i)))\<rparr>"
    using enter_scope [OF g i p goodD(9) [OF g]] by blast
  have E: "cap w1 = cap w" "depth w1 = ?d + 1" using e1 by (simp_all add: env_def)
  have g1: "good X F w1" and i1: "i < cap w1" using w1(2) by (auto simp: active_def)
  have p1: "p_ptrs w1 (ReadPtr i) = live_ptr (v_handle (view w1 i))"
    using own_ptr_cong [of w1 "ReadOv i" w] w1(3) p by simp
  obtain w2 where w2: "Dispatch cb os (ReadOv i) n w1 = Inr w2" "good X F w2" "steady w1 w2"
    "relay_effect (v_handle (view w i)) ps i (cap w) (view w) (view w2)"
    using Dispatch_recv [OF os w1(2) _ n _ _ p1, of ps rest ok cb] rd t fr unfolding w1(3) E(1) by blast
  have "ov_ioType (ReadOv i) w1 = Inr io_Recv"
    using ov_ioType_ok [OF goodD(2) [OF g1], of "ReadOv i"] i1 t w1(3) by simp
  then show ?thesis
    using w1(1) w2 deref_active [OF w1(2)] steadyD(3,4) [OF w2(3)] E by (simp add: WorkerThread_scope_def)
qed

section \<open>Connected sessions survive the release of another\<close>

text \<open>
  The callbacks run when the last pointer to a session goes away. They leave every connected session alone: its manager
  holds it, so it is not the one released, and posting accepts takes idle sessions only.
\<close>

definition serving_for :: "os \<Rightarrow> nat \<Rightarrow> nat set \<Rightarrow> (nat \<Rightarrow> sview) \<Rightarrow> world \<Rightarrow> bool" where
  "serving_for os d K V w \<longleftrightarrow> serving os d w \<and>
     (\<forall>j\<in>K. j < cap w \<and> v_state (V j) = ss_value kConnected \<and> view w j = V j)"

lemma serving_forI:
  assumes "serving_for os d K V w" "serving os d w'" "cap w' = cap w" "\<And>j. j \<in> K \<Longrightarrow> view w' j = view w j"
  shows "serving_for os d K V w'"
  using assms by (simp add: serving_for_def)

lemma connected_held:
  assumes J: "serving_for os d K V w" and c: "counted X F w" and j: "j \<in> K"
  shows "MgrPtr j \<in> refs w j"
proof -
  have "j < cap w" "v_state (view w j) = 2" "session_ok (view w j)"
    using J j by (auto simp: serving_for_def serving_def sinv_def)
  then show ?thesis using session_okD(10) [of "view w j"] view_slot(3) [OF c] by (simp add: refs_def view_fields)
qed

interpretation srvk: pool_client "server_cb os" "serving_for os d K V" "range Local" for os d K V
proof
  fix w :: world and X :: "loc set" and F i
  assume J: "serving_for os d K V w" and X: "X \<subseteq> {l \<in> range Local. sp_pool (p_ptrs w l)}"
  have S: "serving os d w" using J by (simp add: serving_for_def)
  show "\<exists>w'. deleter (server_cb os) i w = Inr w' \<and> same_pool w w' \<and>
      (\<forall>s. updates (p_set w) i (gen_of (p_set w) i + 1, 0) s \<longrightarrow> serving_for os d K V (w'\<lparr>p_set := s\<rparr>))"
    if c: "counted X F w" and i: "i < cap w" and none: "refs w i \<subseteq> X"
  proof -
    have "i \<notin> K" using connected_held [OF J c] none X by blast
    obtain w' where w': "deleter (server_cb os) i w = Inr w'" "same_pool w w'"
      and after: "\<And>s. updates (p_set w) i (gen_of (p_set w) i + 1, 0) s \<Longrightarrow> serving os d (w'\<lparr>p_set := s\<rparr>) \<and>
        env (w'\<lparr>p_set := s\<rparr>) = env w \<and> (\<forall>j. j \<noteq> i \<longrightarrow> view (w'\<lparr>p_set := s\<rparr>) j = view w j)"
      using server_deleter [OF S _ c i none] X by blast
    have "serving_for os d K V (w'\<lparr>p_set := s\<rparr>)" if "updates (p_set w) i (gen_of (p_set w) i + 1, 0) s" for s
      by (rule serving_forI [OF J]) (use after [OF that] env_eqD(1) [of "w'\<lparr>p_set := s\<rparr>" w] \<open>i \<notin> K\<close> in auto)
    then show ?thesis using w' by blast
  qed
  show "\<exists>w'. postReleaseFunc (server_cb os) w = Inr w' \<and> pinv X F w' \<and> serving_for os d K V w'" if p: "pinv X F w"
  proof -
    have g: "good X F w" by (rule serving_good [OF S X p])
    then obtain b w' where w': "PostAccept nested_cb os w = Inr (b, w')" "good X F w'" "undisturbed {} w w'"
      using PostAccept_ok [OF g, of os nested_cb] S by (auto simp: serving_def)
    have "serving os d w'" using w'(2,3) S by (simp add: serving_def good_def undisturbed_def)
    then have "serving_for os d K V w'"
      by (rule serving_forI [OF J]) (use w'(3) J in \<open>auto simp: undisturbed_def serving_for_def\<close>)
    then show ?thesis using w'(1,2) by (simp add: server_cb_def goodD(1))
  qed
next
  fix w :: world and i n
  assume J: "serving_for os d K V w"
  show "serving_for os d K V (set_count i n w)"
    by (rule serving_forI [OF J])
      (use srv.count_ok J repointed_local [OF repointed_set_count, of w i n] in \<open>auto simp: serving_for_def\<close>)
next
  fix w :: world and l
  assume l: "l \<in> range Local" and J: "serving_for os d K V w"
  then obtain k where k: "l = Local k" by auto
  have "view (set_ptr l null_ptr w) = view w" by (rule repointed_local [OF repointed_set_ptr]) (simp_all add: k)
  then show "serving_for os d K V (set_ptr l null_ptr w)"
    by (intro serving_forI [OF J]) (use srv.null_ok [OF l] J in \<open>auto simp: serving_for_def\<close>)
qed

section \<open>A completed receive\<close>

lemma recv_step:
  assumes os: "os_respects os" and g: "good {} F w" and k: "kernel_ok (Event (ReadOv i) True chunk n) w"
    and c: "client_ok (Event (ReadOv i) True chunk n) w" and n: "n \<noteq> 0"
    and t: "ioType (s_readOv (v_obj (view w i))) = io_Recv"
    and fr: "frames (mb_size (ov_buffer (s_readOv (v_obj (view w i))))) (window (s_readOv (v_obj (view w i))) @ chunk) = (ps, rest, ok)"
  shows "\<exists>w'. server_step os (Event (ReadOv i) True chunk n) w = Inr w' \<and> good {} F w' \<and>
    relay_effect (v_handle (view w i)) ps i (cap w) (view w) (view w') \<and>
    (\<forall>j<cap w. j \<noteq> i \<longrightarrow> v_state (view w j) = ss_value kConnected \<longrightarrow> v_handle (view w j) \<noteq> v_handle (view w i) \<longrightarrow> j < cap w')"
proof -
  let ?h = "v_handle (view w i)" and ?cb = "server_cb os"
  have fl: "in_flight w (ReadOv i)" using k by simp
  have i: "i < cap w" using in_flight_session(1) [OF g fl] by simp
  note S = view_slot(1) [OF goodD(2) [OF g] i]
  have len: "n = length chunk" "length chunk \<le> unat (wsa_len (s_readOv (v_obj (view w i))))"
    using k t S by (auto simp: Let_def)
  have ok: "list_all packet_ok (fst (frames (mb_size (ov_buffer (s_readOv (v_obj (view w i)))))
      (window (s_readOv (v_obj (view w i))) @ chunk)))"
    using c t S by (simp add: Let_def)
  obtain w1 ov' where w1: "kernel_completes (ReadOv i) True chunk w = Inr w1" "dequeued {} F (ReadOv i) n w w1" "env w1 = env w"
    and v1: "view w1 = (view w)(i := (view w i)\<lparr>v_inR := False, v_obj := (v_obj (view w i))\<lparr>s_readOv := ov'\<rparr>\<rparr>)"
    and win: "window (ov_advance_write n ov') = window (s_readOv (v_obj (view w i))) @ chunk"
    "mb_size (ov_buffer ov') = mb_size (ov_buffer (s_readOv (v_obj (view w i))))" "ioType ov' = io_Recv"
    using completes_recv [OF g fl t len(2) ok] len(1) by blast
  have D: "good {} F w1" "i < cap w1" "ready (ReadOv i) n (view w1 i)" "p_ptrs w1 (ReadPtr i) = live_ptr (v_handle (view w1 i))"
    and d1: "depth w1 = depth w" "cap w1 = cap w"
    using w1(2) env_eqD(1) [OF w1(3)] by (simp_all add: dequeued_def)
  let ?d = "depth w1"
  have t1: "ioType (s_readOv (v_obj (view w1 i))) = io_Recv"
    using v1 win(3) by simp
  obtain w2 where w2: "WorkerThread_scope ?cb os (ReadOv i) True n (Local ?d) (w1\<lparr>depth := ?d + 1\<rparr>) = Inr (True, w2)"
    "good {} F w2" "depth w2 = ?d + 1" "cap w2 = cap w1" "relay_effect ?h ps i (cap w1) (view w1) (view w2)"
    using WorkerThread_scope_recv [OF os D(1-3) n t1 _ D(4), of ps rest ok ?cb] fr win v1 by auto
  let ?K = "{j. j < cap w \<and> j \<noteq> i \<and> v_state (view w j) = ss_value kConnected \<and> v_handle (view w j) \<noteq> ?h}"
  have "serving_for os (?d + 1) ?K (view w2) w2"
    using os w2 d1(2) v1 by (auto simp: serving_for_def serving_def good_def relay_effect_def)
  from srvk.Ptr_dtor_ok [OF goodD(1) [OF w2(2)] this, of "Local ?d"] obtain w3 where
    w3: "Ptr_dtor ?cb (Local ?d) w2 = Inr w3" "pinv {} F w3" "serving_for os (?d + 1) ?K (view w2) w3"
      "p_ptrs w3 (Local ?d) = null_ptr" by auto
  let ?w4 = "w3\<lparr>depth := ?d\<rparr>"
  have "good {} F ?w4" using serving_pop [OF w3(2) _ w3(4), of os] w3(3) by (simp add: serving_for_def)
  moreover have "server_step os (Event (ReadOv i) True chunk n) w = Inr ?w4"
    using w1(1) w2(1) w3(1) by (simp add: WorkerThread_body_def scoped_def)
  moreover have kept: "j < cap ?w4 \<and> view ?w4 j = view w2 j" if "j \<in> ?K" for j
    using w3(3) that deeper(2) [of ?d w3] by (auto simp: serving_for_def)
  moreover have "relay_effect ?h ps i (cap w) (view w) (view ?w4)"
    using w2(5) kept d1(2) v1 by (auto simp: relay_effect_def)
  ultimately show ?thesis by auto
qed

end
