(* ===== verification/Server_Sample.thy ===== *)
theory Server_Sample
  imports Server_Relay
begin

text \<open>
  A small server that is evaluated inside the logic, and the properties of the running server with their instances
  on it. Evaluation unfolds the definitions one call at a time: the congruence rules keep the simplifier out of
  continuations whose argument is not known yet.
\<close>

section \<open>Evaluation\<close>

lemma scoped_eval: "w = w' \<Longrightarrow> scoped cb f w = scoped cb f w'"
  by simp

lemma PostAccept_loop_numeral: "PostAccept_loop (numeral k) cb os w =
    rbind (PostAccept_body cb os w) (\<lambda>(r, w).
    case r of Returned b \<Rightarrow> Inr (b, w) | Again \<Rightarrow> PostAccept_loop (pred_numeral k) cb os w)"
  by (simp only: numeral_eq_Suc PostAccept_loop.simps)

lemma le_bytes_numeral: "le_bytes (numeral k) v = word_of_nat v # le_bytes (pred_numeral k) (v div 256)"
  by (simp only: numeral_eq_Suc le_bytes.simps)

lemma replicate_eval:
  "replicate 2 x = [x, x]" "replicate 3 x = [x, x, x]" "replicate 4 x = [x, x, x, x]"
  "replicate 8 x = [x, x, x, x, x, x, x, x]"
  "replicate 32 x = [x, x, x, x, x, x, x, x, x, x, x, x, x, x, x, x, x, x, x, x, x, x, x, x, x, x, x, x, x, x, x, x]"
  by (simp_all add: numeral_eq_Suc)

lemma invalid_index: "unat (ucast (- 1 :: u64) :: u32) = 4294967295"
  by (simp add: unsigned_ucast_eq unsigned_minus_1_eq_mask mask_eq_exp_minus_1 take_bit_minus_one_eq_mask take_bit_eq_mod)

lemmas eval_cong = rbind_eval scoped_eval let_weak_cong

lemmas eval_simps =
  kInvalidHandle_def kIndexShift_def who_of_def generation_of_def make_handle_def SparseSet_def IsValid_def
  GetHandle_def GetState_def set_where_def swap_positions_def set_state_def IncrementState_def
  DecrementState_def MoveToState_def Pop_def Push_def GetIndicesInState_def kAcceptCount_def kChatPacketSize_def
  c2s_count_def u16_bytes_def u64_bytes_def u16_at_def header_size_def header_bytes_def header_at_def
  S2C_MOVE_bytes_def S2C_MOVE_size_def C2S_MOVE_size_def GetSize_def MagicBuffer_Clear_def mb_read_def
  mb_write_def ov_size_def OverlappedEx_ctor_def OverlappedEx_Reset_def ov_store_def ov_advance_write_def
  ov_advance_read_def ov_rewind_def OnRead_scan_def RegisterRead_prepare_def SendPacket_store_def
  RegisterWrite_prepare_def OnWrite_advance_def packet_size_def ObjectPool_Get_def ObjectPool_Acquire_def
  ObjectPool_Release_def Pool_IsValid_def Pool_MoveToState_def GetObj_def put_refCount_def AddRef_def
  ReleaseRef_def set_ptr_def Ptr_ctor_def Ptr_ctor_null_def Ptr_copy_def Ptr_copy_assign_def Ptr_move_assign_def
  Ptr_IsValid_def Ptr_dtor_def Ptr_Get_def Ptr_deref_def Ptr_Reset_def Pool_Acquire_def ss_count_def
  SOCKET_ERROR_def WSA_IO_PENDING_def plain_call_def overlapped_call_def get_session_def put_session_def
  scoped_def sessionPtrs_def SM_GetSession_def SM_GetState_def SM_SetState_def ConnectSession_def
  DisconnectSession_def CreateSession_body_def CreateSession_def assign_session_def session_deleter_def
  RegisterRead_def RegisterWriteInternal_def SendPacket_def Broadcast_def HandleC2S_MOVE_def HandleC2S_CHAT_def
  handlers_def Execute_def OnRead_def OnWrite_def HandleIO_def lld_def welcomePacket_def Connect_def
  Disconnect_def Clear_def RegisterAccept_def PostAccept_scope_def PostAccept_body_def PostAccept_def
  HandleAccept_def DecrementPendingAccepts_def ov_ioType_def HandleError_scope_def HandleError_def
  Dispatch_switch_def Dispatch_scope_def Dispatch_def WorkerThread_scope_def WorkerThread_body_def nested_cb_def
  server_cb_def kernel_completes_def SM_Init_def RegisterSession_def new_ov_def new_session_def new_world_def
  ServerService_Start_def  raise_loop.simps lower_loop.simps OnRead_loop.simps frames.simps
  decimal.simps fun_upd_apply Let_def word_le_nat_alt word_less_nat_alt
  PostAccept_loop_numeral le_bytes_numeral replicate_eval invalid_index upt_eval

section \<open>A sample server\<close>

text \<open>
  An operating system in which every call is pending, and transfers on a closed socket are refused
  (\<^verbatim>\<open>WSAENOTCONN\<close>); a pool of two sessions with buffers of 32 bytes.
\<close>

definition sample_os :: os where
  "sample_os w c = (case c of
       AcceptEx _ \<Rightarrow> (0, WSA_IO_PENDING)
     | DisconnectEx _ \<Rightarrow> (0, WSA_IO_PENDING)
     | WSARecv i _ _ \<Rightarrow> (SOCKET_ERROR, if closed i (api_log w) then 10057 else WSA_IO_PENDING)
     | WSASend i _ _ \<Rightarrow> (SOCKET_ERROR, if closed i (api_log w) then 10057 else WSA_IO_PENDING)
     | _ \<Rightarrow> (1, 0))"

lemma sample_sane: "sane sample_os 2 32"
  by (simp add: sane_def os_respects_def sample_os_def WSA_IO_PENDING_def SOCKET_ERROR_def)

definition sample_start :: world where
  "sample_start = snd (projr (ServerService_Start sample_os (new_world 2 32)))"

definition sample :: "event list \<Rightarrow> world" where
  "sample es = projr (server_run sample_os es sample_start)"

lemma sample_start_reached: "server_reaches sample_os 2 32 sample_start"
  using Start_ok [OF sample_sane] by (auto simp: sample_start_def intro!: reach_init intro: started)

lemma sample_reached:
  assumes "run_legal sample_os es sample_start"
  shows "server_run sample_os es sample_start = Inr (sample es)" "server_reaches sample_os 2 32 (sample es)"
    "good {} (\<lambda>_. 0) (sample es)"
  using run_reaches [OF sample_sane assms sample_start_reached] reached_good [OF sample_sane] by (auto simp: sample_def)

text \<open>Both clients connect, and their welcome packets are sent.\<close>

abbreviation two_clients :: "event list" where
  "two_clients \<equiv> [Event (ReadOv 0) True [] 0, Event (ReadOv 1) True [] 0,
     Event (WriteOv 0) True [] 6, Event (WriteOv 1) True [] 6]"

text \<open>The first client sends a chat packet in two pieces.\<close>

abbreviation first_chats :: "event list" where
  "first_chats \<equiv> two_clients @ [Event (ReadOv 0) True [6, 0, 2] 3, Event (ReadOv 0) True [0, 65, 66] 3]"

lemmas sample_simps = eval_simps sample_os_def sample_start_def packet_ok_def window_def

lemma two_clients_legal: "run_legal sample_os two_clients sample_start"
  by (simp add: sample_simps cong: eval_cong)

lemma first_chats_legal: "run_legal sample_os first_chats sample_start"
  by (simp add: sample_simps cong: eval_cong)

end
