(* ===== verification/Server_Properties.thy ===== *)
theory Server_Properties
  imports Server_Sample
begin

text \<open>
  What the running server guarantees, for every state it reaches: no fault, exact reference counts, sessions that
  outlive the operations in flight on them, regions the kernel may use, a bounded number of accepts.
\<close>

section \<open>Safety of the running server\<close>

text \<open>
  C1: no fault. Started with any operating system that keeps its contract, the server handles every sequence of
  completions the kernel may report for it (with packets the handlers are written for) without a fault: no access out of
  bounds, no null or dangling session pointer, no failed assertion, no \<^verbatim>\<open>OVERLAPPED\<close> structure used
  twice, no endless loop.
\<close>

theorem server_never_faults:
  assumes "sane os N S" "ServerService_Start os (new_world N S) = Inr (b, w0)" "run_legal os es w0"
  shows "\<exists>w. server_run os es w0 = Inr w"
  proof -
  have "server_reaches os N S w0" by (rule reach_init, rule started [OF assms(2)])
  then show ?thesis using run_reaches [OF assms(1,3)] by blast
qed

theorem server_never_faults_witness:
  "sane sample_os 2 32 \<and> run_legal sample_os first_chats sample_start \<and>
   (\<exists>w. server_run sample_os first_chats sample_start = Inr w)"
proof -
  obtain b where b: "ServerService_Start sample_os (new_world 2 32) = Inr (b, sample_start)"
    using Start_ok [OF sample_sane] by (auto simp: sample_start_def)
  show ?thesis using sample_sane first_chats_legal server_never_faults [OF sample_sane b first_chats_legal] by blast
qed

text \<open>
  C3: reference counts. Between completions the count of every session is the number of pointers to it among those
  stored in overlapped structures and in the manager (no local pointer is left), and exactly the sessions without a pointer are
  idle.
\<close>

theorem session_counts_exact:
  assumes "sane os N S" "server_reaches os N S w" "i < cap w"
  shows "count w i = card {l. p_ptrs w l = live_ptr (handle_of (p_set w) i)} \<and>
    (state_of (p_set w) i = 0 \<longleftrightarrow> count w i = 0) \<and> (\<forall>k. p_ptrs w (Local k) = null_ptr)"
  using reached_good [OF assms(1,2)] assms(3) by (auto simp: good_def pinv_def counted_def sinv_def refs_def)

theorem session_counts_exact_witness:
  "server_reaches sample_os 2 32 (sample two_clients) \<and>
   count (sample two_clients) 0 = card {l. p_ptrs (sample two_clients) l = live_ptr (handle_of (p_set (sample two_clients)) 0)}"
proof -
  have "0 < cap (sample two_clients)" by (simp add: sample_def sample_simps cong: eval_cong)
  then show ?thesis using session_counts_exact [OF sample_sane sample_reached(2) [OF two_clients_legal]]
    sample_reached(2) [OF two_clients_legal] by blast
qed

text \<open>
  C4: lifetime. While the kernel works on an overlapped structure, the structure's own pointer keeps the session it
  belongs to: the session is not idle, so its slot is not handed out again.
\<close>

theorem in_flight_keeps_session:
  assumes "sane os N S" "server_reaches os N S w" "in_flight w r"
  shows "ov_session r < cap w \<and> p_ptrs w (ov_ptr r) = live_ptr (handle_of (p_set w) (ov_session r)) \<and>
    0 < count w (ov_session r) \<and> state_of (p_set w) (ov_session r) \<noteq> 0"
proof -
  note g = reached_good(1) [OF assms(1,2)]
  note I = in_flight_session [OF g assms(3)]
  note S = view_slot [OF goodD(2) [OF g] I(1)]
  have h: "holds (ov_ptr r) (ov_session r) w" using I(2) S(3) by (simp add: holds_def)
  have "state_of (p_set w) (ov_session r) \<noteq> 0" using holder_busy [OF g I(1) h] S(2) by simp
  then show ?thesis using I S(3) goodD(1) [OF g] by (auto simp: pinv_def)
qed

theorem in_flight_keeps_session_witness:
  "in_flight (sample two_clients) (ReadOv 1) \<and> 0 < count (sample two_clients) 1"
proof -
  have "in_flight (sample two_clients) (ReadOv 1)" by (simp add: sample_def sample_simps cong: eval_cong)
  then show ?thesis
    using in_flight_keeps_session [OF sample_sane sample_reached(2) [OF two_clients_legal], of "ReadOv 1"] by simp
qed



text \<open>
  Accepts. The counter of pending accepts never exceeds \<^verbatim>\<open>kAcceptCount\<close> and is never below the number of accepts in
  flight, so it does not wrap around when one completes.
\<close>

lemma accepts_bounded:
  assumes "sane os N S" "server_reaches os N S w"
  shows "card {i. in_flight w (ReadOv i) \<and> ioType (s_readOv (obj (p_slots w ! i))) = io_Accept}
      \<le> unat (pendingAccepts w) \<and>
    unat (pendingAccepts w) \<le> 1000"
proof -
  note g = reached_good(1) [OF assms]
  have "{i. in_flight w (ReadOv i) \<and> ioType (s_readOv (obj (p_slots w ! i))) = io_Accept} = accepts w"
    using in_flight_session(1) [OF g, of "ReadOv _"] view_slot(1) [OF goodD(2) [OF g]]
    by (auto simp: accepts_def is_accept_def view_fields(6))
  then show ?thesis using goodD(3) [OF g] by (simp add: sinv_def kAcceptCount_def)
qed

section \<open>Relaying\<close>

text \<open>
  C2: relaying. When bytes arrive from session \<open>i\<close>, every other connected session stays connected and its outgoing bytes
  grow by exactly one packet for each packet the bytes complete, in order, each as far as the write buffer has room: the
  sender's moves and chat messages with the sender's handle. This holds whatever becomes of the sender, which is
  disconnected and may be released when its stream is invalid.
\<close>

theorem packets_relayed:
  assumes s: "sane os N S" and w: "server_reaches os N S w"
    and k: "kernel_ok (Event (ReadOv i) True chunk n) w" and c: "client_ok (Event (ReadOv i) True chunk n) w"
    and n: "n \<noteq> 0" and t: "ioType (s_readOv (obj (p_slots w ! i))) = io_Recv"
    and j: "j < cap w" "j \<noteq> i" "state_of (p_set w) j = ss_value kConnected"
  shows "\<exists>w'. server_step os (Event (ReadOv i) True chunk n) w = Inr w' \<and> state_of (p_set w') j = ss_value kConnected \<and>
    window (s_writeOv (obj (p_slots w' ! j))) =
      queued (mb_size (ov_buffer (s_writeOv (obj (p_slots w ! j))))) (window (s_writeOv (obj (p_slots w ! j))))
        (map (reply (handle_of (p_set w) i))
          (fst (frames (mb_size (ov_buffer (s_readOv (obj (p_slots w ! i)))))
            (window (s_readOv (obj (p_slots w ! i))) @ chunk))))"
proof -
  note g = reached_good(1) [OF s w]
  have i: "i < cap w" using in_flight_session(1) [OF g, of "ReadOv i"] k by simp
  note cw = goodD(2) [OF g]
  note Si = view_slot [OF cw i] and Sj = view_slot [OF cw j(1)]
  have ne: "v_handle (view w j) \<noteq> v_handle (view w i)"
    using handle_of_simps(1) [OF countedD(1) [OF cw] i] handle_of_simps(1) [OF countedD(1) [OF cw] j(1)] j(2) Si(3) Sj(3) by metis
  obtain ps rest ok where fr: "frames (mb_size (ov_buffer (s_readOv (v_obj (view w i)))))
      (window (s_readOv (v_obj (view w i))) @ chunk) = (ps, rest, ok)" by (metis prod_cases3)
  obtain w' where w': "server_step os (Event (ReadOv i) True chunk n) w = Inr w'" "good {} (\<lambda>_. 0) w'"
    "relay_effect (v_handle (view w i)) ps i (cap w) (view w) (view w')" and c': "j < cap w'"
    using recv_step [OF _ g k c n _ fr] s t Si(1) j Sj(2) ne by (auto simp: sane_def)
  note Sj' = view_slot [OF goodD(2) [OF w'(2)] c']
  have "v_state (view w' j) = ss_value kConnected \<and>
      out_bytes (view w' j) = queued (out_room (view w j)) (out_bytes (view w j)) (map (reply (v_handle (view w i))) ps)"
    using w'(3) j Sj(2) ne by (auto simp: relay_effect_def)
  then show ?thesis using w'(1) Sj Sj' Si fr by auto
qed

theorem packets_relayed_witness:
  "let w = sample (two_clients @ [Event (ReadOv 0) True [6, 0, 2] 3]) in
   \<exists>w'. server_step sample_os (Event (ReadOv 0) True [0, 65, 66] 3) w = Inr w' \<and>
     window (s_writeOv (obj (p_slots w' ! 1))) = [14, 0, 2, 0, 0, 0, 0, 0, 0, 0, 0, 0, 65, 66]"
proof -
  let ?es = "two_clients @ [Event (ReadOv 0) True [6, 0, 2] 3]"
  have l: "run_legal sample_os ?es sample_start" by (simp add: sample_simps cong: eval_cong)
  let ?w = "sample ?es"
  have "let w = ?w in kernel_ok (Event (ReadOv 0) True [0, 65, 66] 3) w \<and> client_ok (Event (ReadOv 0) True [0, 65, 66] 3) w \<and>
      ioType (s_readOv (obj (p_slots w ! 0))) = io_Recv \<and> 1 < cap w \<and> state_of (p_set w) 1 = ss_value kConnected \<and>
      handle_of (p_set w) 0 = 0 \<and> mb_size (ov_buffer (s_writeOv (obj (p_slots w ! 1)))) = 32 \<and>
      window (s_writeOv (obj (p_slots w ! 1))) = [] \<and> mb_size (ov_buffer (s_readOv (obj (p_slots w ! 0)))) = 32 \<and>
      window (s_readOv (obj (p_slots w ! 0))) = [6, 0, 2]"
    by (simp add: sample_def state_of_def handle_of_def gen_of_def sample_simps cong: eval_cong)
  then have e: "kernel_ok (Event (ReadOv 0) True [0, 65, 66] 3) ?w" "client_ok (Event (ReadOv 0) True [0, 65, 66] 3) ?w"
    "ioType (s_readOv (obj (p_slots ?w ! 0))) = io_Recv" "1 < cap ?w" "state_of (p_set ?w) 1 = ss_value kConnected"
    and f: "handle_of (p_set ?w) 0 = 0" "mb_size (ov_buffer (s_writeOv (obj (p_slots ?w ! 1)))) = 32"
    "window (s_writeOv (obj (p_slots ?w ! 1))) = []" "mb_size (ov_buffer (s_readOv (obj (p_slots ?w ! 0)))) = 32"
    "window (s_readOv (obj (p_slots ?w ! 0))) = [6, 0, 2]" unfolding Let_def by blast+
  have q: "queued 32 [] (map (reply 0) (fst (frames 32 ([6, 0, 2] @ [0, 65, 66])))) = [14, 0, 2, 0, 0, 0, 0, 0, 0, 0, 0, 0, 65, 66]"
    by (simp add: reply_def frames.simps packet_size_def header_at_def header_bytes_def u16_at_def u16_bytes_def u64_bytes_def
        le_bytes_numeral)
  show ?thesis
    using packets_relayed [OF sample_sane sample_reached(2) [OF l] e(1,2) _ e(3,4) _ e(5)] unfolding f q by (auto simp: Let_def)
qed

section \<open>Accepting, connecting, disconnecting\<close>

text \<open>
  C21: accepts are replenished. \<^verbatim>\<open>PostAccept\<close> always returns; it answers true when \<^verbatim>\<open>kAcceptCount\<close> accepts are counted
  as pending and false only when no session is idle. Sessions in use are left as they are.
\<close>

theorem accepts_replenished:
  assumes "sane os N S" "server_reaches os N S w"
  shows "\<exists>b w'. PostAccept cb os w = Inr (b, w') \<and>
    (if b then unat (pendingAccepts w') = 1000 else \<forall>j<cap w'. state_of (p_set w') j \<noteq> 0) \<and>
    (\<forall>j<cap w. state_of (p_set w) j \<noteq> 0 \<longrightarrow>
       obj (p_slots w' ! j) = obj (p_slots w ! j) \<and> state_of (p_set w') j = state_of (p_set w) j \<and>
       handle_of (p_set w') j = handle_of (p_set w) j)"
proof -
  note g = reached_good(1) [OF assms]
  obtain b w' where w': "PostAccept cb os w = Inr (b, w')" "good {} (\<lambda>_. 0) w'" "undisturbed {} w w'"
    "if b then 1000 \<le> unat (pendingAccepts w') else all_busy w'"
    using PostAccept_result [OF g, of os cb] assms(1) by (auto simp: sane_def)
  note S = view_slot [OF goodD(2) [OF g]] and S' = view_slot [OF goodD(2) [OF w'(2)]]
  have c: "cap w' = cap w" and kept: "view w' j = view w j" if "v_state (view w j) \<noteq> 0" for j
    using w'(3) that by (simp_all add: undisturbed_def)
  have "unat (pendingAccepts w') \<le> 1000" using goodD(3) [OF w'(2)] by (simp add: sinv_def unat_kAcceptCount)
  then have "if b then unat (pendingAccepts w') = 1000 else \<forall>j<cap w'. state_of (p_set w') j \<noteq> 0"
    using w'(4) S'(2) by (auto simp: all_busy_def)
  moreover have "obj (p_slots w' ! j) = obj (p_slots w ! j) \<and> state_of (p_set w') j = state_of (p_set w) j \<and>
       handle_of (p_set w') j = handle_of (p_set w) j" if "j < cap w" "state_of (p_set w) j \<noteq> 0" for j
    using that S [OF that(1)] S' [of j] w'(3) kept [of j] by (simp add: undisturbed_def)
  ultimately show ?thesis using w'(1) by blast
qed

theorem accepts_replenished_witness:
  "\<exists>b w'. PostAccept (server_cb sample_os) sample_os sample_start = Inr (b, w') \<and>
    (if b then unat (pendingAccepts w') = 1000 else \<forall>j<cap w'. state_of (p_set w') j \<noteq> 0)"
  using accepts_replenished [OF sample_sane sample_start_reached, of "server_cb sample_os"] by blast

text \<open>Handling a completion starts with a local pointer to the session.\<close>

lemma sample_active:
  "\<exists>w. active {} (\<lambda>_. 0) 0 0 w \<and> view w 0 = view (sample es) 0 \<and> v_state (view w 0) = state_of (p_set (sample es)) 0"
  if l: "run_legal sample_os es sample_start" and f: "in_flight (sample es) (ReadOv 0)"
proof -
  note g = sample_reached(3) [OF l]
  have d: "depth (sample es) = 0" using reached_good(2) [OF sample_sane sample_reached(2) [OF l]] .
  have i: "0 < cap (sample es)" and p: "p_ptrs (sample es) (ReadPtr 0) = live_ptr (v_handle (view (sample es) 0))"
    using in_flight_session [OF g f] by simp_all
  obtain w where "active {} (\<lambda>_. 0) 0 0 w" "view w = view (sample es)"
    using enter_scope [OF g i p] d by auto
  then show ?thesis using view_slot(2) [OF goodD(2) [OF g] i] by auto
qed

text \<open>
  Disconnecting. While a completion for a session is handled, \<^verbatim>\<open>Disconnect\<close> answers true and leaves the session
  disconnecting with its socket closed; it changes no other session, and if the session was disconnecting already it does nothing at
  all, so \<^verbatim>\<open>DisconnectEx\<close> is called once.
\<close>

lemma disconnects_once:
  assumes "os_respects os" "active X F k i w"
  shows "\<exists>w'. Disconnect cb os i w = Inr (True, w') \<and> v_state (view w' i) = ss_value kDisconnecting \<and>
    closed i (api_log w') \<and> (\<forall>j. j \<noteq> i \<longrightarrow> view w' j = view w j) \<and>
    (v_state (view w i) = ss_value kDisconnecting \<longrightarrow> w' = w)"
proof -
  obtain w' v where w': "Disconnect cb os i w = Inr (True, w')" "view w' = (view w)(i := v)"
    "v_state v = ss_value kDisconnecting" "v_closed v" "v_state (view w i) = ss_value kDisconnecting \<longrightarrow> w' = w"
    using Disconnect_ok [OF assms, of cb] by blast
  have "view w' i = v" "\<And>j. j \<noteq> i \<Longrightarrow> view w' j = view w j" by (simp_all add: w'(2))
  then show ?thesis using w'(1,3-5) view_fields(9) [of w' i] by metis
qed

text \<open>
  Connecting. \<^verbatim>\<open>Connect\<close> moves a pending session to the connected state, also when sending the welcome packet or posting
  the first receive fails; in every other state it answers false and changes nothing.
\<close>

lemma connects_pending_only:
  assumes "os_respects os" "active X F k i w" "\<not> v_inR (view w i)"
  shows "\<exists>b w'. Connect cb os i w = Inr (b, w') \<and>
    (if v_state (view w i) = ss_value kPending then v_state (view w' i) = ss_value kConnected else \<not> b \<and> w' = w)"
  using Connect_ok [OF assms, of cb] by blast

text \<open>
  C36: well-formed sessions. In every reachable state every session of the pool has one of the four states and whole buffers with
  cursors inside them; each of its pointers is null or points to itself; while it is in use it knows its own handle
  and the manager, and until it is disconnecting the manager keeps it.
\<close>

theorem sessions_well_formed:
  assumes "sane os N S" "server_reaches os N S w" "i < cap w"
  shows "let s = obj (p_slots w ! i); st = state_of (p_set w) i; h = handle_of (p_set w) i in
    st < 4 \<and> mb_wf (ov_buffer (s_readOv s)) \<and> ov_wf (s_writeOv s) \<and> (st \<le> 1 \<longrightarrow> ov_wf (s_readOv s)) \<and>
    (\<forall>l\<in>{ReadPtr i, WritePtr i, DiscPtr i, MgrPtr i}. p_ptrs w l \<in> {null_ptr, live_ptr h}) \<and>
    (st \<noteq> 0 \<longrightarrow> s_handle s = h \<and> s_sessionManager s) \<and> (st = 1 \<or> st = 2 \<longrightarrow> p_ptrs w (MgrPtr i) = live_ptr h)"
proof -
  note g = reached_good(1) [OF assms(1,2)]
  note S = view_slot [OF goodD(2) [OF g] assms(3)] and ok = session_okD [OF goodD(5) [OF g assms(3)]]
  have "ss_inv (p_set w)" "i < capacity (p_set w)" using goodD(2) [OF g] assms(3) by (simp_all add: counted_def)
  then have "state_of (p_set w) i < 4" using goodD(6) [OF g] by (simp add: ss_inv_def layout_def)
  then show ?thesis using ok S by (simp add: Let_def self_ptr_def view_fields)
qed

theorem sessions_well_formed_witness:
  "s_handle (obj (p_slots (sample two_clients) ! 1)) = handle_of (p_set (sample two_clients)) 1"
proof -
  have "1 < cap (sample two_clients)" "state_of (p_set (sample two_clients)) 1 \<noteq> 0"
    by (simp_all add: sample_def sample_simps state_of_def cong: eval_cong)
  then show ?thesis using sessions_well_formed [OF sample_sane sample_reached(2) [OF two_clients_legal]] by (simp add: Let_def)
qed

end
