(* ===== verification/Server_Errors.thy ===== *)
theory Server_Errors
  imports Server_Sample
begin

text \<open>
  Inputs the server does not check, and failures it does not notice: packet identifiers outside the handler table, move
  packets shorter than their structure, chat packets whose reply does not fit the size field, the welcome packet, failed
  disconnects and accepts.
\<close>

section \<open>Packets\<close>

lemma sample_connected:
  "get_session 0 (sample two_clients) = Inr (obj (p_slots (sample two_clients) ! 0))"
  "s_sessionManager (obj (p_slots (sample two_clients) ! 0))"
proof -
  have "let w = sample two_clients in get_session 0 w = Inr (obj (p_slots w ! 0)) \<and> s_sessionManager (obj (p_slots w ! 0))"
    by (simp add: sample_def sample_simps cong: eval_cong)
  then show "get_session 0 (sample two_clients) = Inr (obj (p_slots (sample two_clients) ! 0))"
    "s_sessionManager (obj (p_slots (sample two_clients) ! 0))" unfolding Let_def by blast+
qed

text \<open>
  C22: unchecked identifiers. \<^verbatim>\<open>Execute\<close> indexes the handler table with the identifier of the packet: 0 calls an empty
  \<^verbatim>\<open>std::function\<close>, 3 and above read past the end of the table.
\<close>

theorem unknown_packet_faults:
  assumes "mb_read pos header_size b = Inr hb"
  shows "(h_id (header_at hb) = 0 \<longrightarrow> Execute cb os i b pos w = Inl Bad_function_call) \<and>
    (3 \<le> unat (h_id (header_at hb)) \<longrightarrow> Execute cb os i b pos w = Inl Out_of_bounds)"
  using assms by (auto simp: Execute_def handlers_def c2s_count_def aget_def)

theorem unknown_packet_faults_witness:
  "mb_read 0 header_size \<lparr>mb_size = 8, mb_mem = [4, 0, 7, 0, 0, 0, 0, 0]\<rparr> = Inr [4, 0, 7, 0] \<and>
   Execute plain_cb sample_os 0 \<lparr>mb_size = 8, mb_mem = [4, 0, 7, 0, 0, 0, 0, 0]\<rparr> 0 sample_start = Inl Out_of_bounds"
proof -
  let ?b = "\<lparr>mb_size = 8, mb_mem = [4, 0, 7, 0, 0, 0, 0, 0]\<rparr> :: MagicBuffer"
  have r: "mb_read 0 header_size ?b = Inr [4, 0, 7, 0]" by (simp add: mb_read_def header_size_def upt_eval)
  have "3 \<le> unat (h_id (header_at [4, 0, 7, 0]))" by (simp add: header_at_def u16_at_def)
  then show ?thesis using unknown_packet_faults [OF r] r by blast
qed

text \<open>
  Short moves. A \<^verbatim>\<open>C2S_MOVE\<close> of the minimal size 4 is accepted; the coordinates that are broadcast are the eight bytes
  that happen to lie behind it in the receive buffer.
\<close>

lemma short_move_leaks:
  assumes "get_session i w = Inr s" "s_sessionManager s"
    and "mb_read pos 12 b = Inr (header_bytes \<lparr>h_size = 4, h_id = 1\<rparr> @ stale)"
  shows "Execute cb os i b pos w =
    Broadcast cb os (header_bytes \<lparr>h_size = 20, h_id = 1\<rparr> @ u64_bytes (s_handle s) @ stale) (s_handle s) w"
proof -
  let ?hd = "header_bytes \<lparr>h_size = 4, h_id = 1\<rparr>"
  have l: "length stale = 8" using assms(3) arg_cong [of _ _ length] by (fastforce simp: mb_read_def split: if_splits)
  have h: "mb_read pos 4 b = Inr ?hd" using mb_read_prefix [OF assms(3), of 4] by simp
  have hd: "header_at ?hd = \<lparr>h_size = 4, h_id = 1\<rparr>" using header_at_bytes [of "\<lparr>h_size = 4, h_id = 1\<rparr>" "[]"] by simp
  have "take 4 stale @ take 4 (drop 4 stale) = take 8 stale" using take_add [of 4 4 stale] by simp
  then have st: "take 4 stale @ take 4 (drop 4 stale) = stale" using l by simp
  have id: "unat (1 :: u16) = 1" "unat (2 :: u16) = 2" "word_of_nat 20 = (20 :: u16)" by simp_all
  show ?thesis using assms h hd st
    by (simp add: Execute_def handlers_def HandleC2S_MOVE_def header_size_def C2S_MOVE_size_def c2s_count_def Let_def
        S2C_MOVE_bytes_def S2C_MOVE_size_def id)
qed

text \<open>
  Long chats. The reply to a chat packet of more than 65527 bytes announces a size that wrapped around 16 bits, so
  only a prefix of it is sent, and that prefix is not one packet followed by nothing: a reply to 65528 bytes announces
  the size 0.
\<close>

lemma long_chat_wraps:
  assumes "get_session i w = Inr s" "s_sessionManager s" "mb_read pos (length p) b = Inr p"
    and "h_id (header_at p) = 2" "packet_size p = length p" "65528 \<le> length p"
  shows "\<exists>chat. Execute cb os i b pos w = Broadcast cb os chat (s_handle s) w \<and>
    length chat = length p + 8 \<and> packet_size chat = length p - 65528"
proof -
  let ?n = "h_size (header_at p)"
  have ok: "packet_ok p" using assms(4) by (simp add: packet_ok_def)
  have "unat ?n = length p" using assms(5) by (simp add: packet_size_def)
  then have "unat (?n + 8) = length p - 65528"
    using assms(6) unat_lt_u16 [of ?n] by (simp add: unat_word_ariths mod_if)
  then have "packet_size (reply (s_handle s) p) = length p - 65528"
    using assms(4) by (simp add: reply_def packet_size_def)
  moreover have "length (reply (s_handle s) p) = length p + 8" using assms(4,6) by (simp add: reply_def)
  ultimately show ?thesis using Execute_broadcasts [OF assms(1-3) ok assms(5)] assms(6) by auto
qed
lemma mb_read_start: "n \<le> mb_size b \<Longrightarrow> length (mb_mem b) = mb_size b \<Longrightarrow> mb_read 0 n b = Inr (take n (mb_mem b))"
  by (auto simp: mb_read_def intro!: nth_equalityI)

section \<open>The welcome packet\<close>

text \<open>
  The welcome packet. Its size field counts the header and the message but not the \<^verbatim>\<open>sessionHandle\<close> between them: of the
  decimal handle with its terminating zero at most what exceeds eight bytes is sent, so the message of every
  handle of up to seven digits is missing and the client sees zero bytes.
\<close>

lemma welcome_omits_handle:
  "take (packet_size (welcomePacket h)) (welcomePacket h) =
     header_bytes \<lparr>h_size = word_of_nat (5 + length (lld h)), h_id = 2\<rparr> @ take (length (lld h) + 1) (replicate 8 0 @ lld h)"
proof -
  have z: "u64_bytes 0 = replicate 8 0" by (simp add: u64_bytes_def le_bytes_numeral replicate_eval)
  let ?hd = "header_bytes \<lparr>h_size = word_of_nat (5 + length (lld h)), h_id = 2\<rparr>"
  have w: "welcomePacket h = ?hd @ replicate 8 0 @ lld h @ replicate (unat kChatPacketSize - length (lld h)) 0"
    by (simp add: welcomePacket_def z header_size_def)
  have "packet_size (welcomePacket h) = length ?hd + (length (lld h) + 1)" using welcomePacket_wf(2) [of h] by simp
  then have "take (packet_size (welcomePacket h)) (welcomePacket h) =
      ?hd @ take (length (lld h) + 1) (replicate 8 0 @ lld h @ replicate (unat kChatPacketSize - length (lld h)) 0)"
    by (subst (2) w) (simp only: take_append take_all, simp)
  then show ?thesis by simp
qed

section \<open>Failed disconnects\<close>

lemma HandleError_disconnect:
  assumes os: "os_respects os" and a: "active X F k i w" and rd: "ready (DiscOv i) n (view w i)"
    and p: "p_ptrs w (DiscPtr i) = live_ptr (v_handle (view w i))"
  shows "\<exists>w'. HandleError cb os (DiscOv i) w = Inr w' \<and> good X F w' \<and> steady w w' \<and>
    view w' = (view w)(i := (view w i)\<lparr>v_mgr := null_ptr\<rparr>)"
proof -
  let ?r = "DiscOv i"
  let ?Q = "\<lambda>V. V = (view w)(i := (view w i)\<lparr>v_mgr := null_ptr\<rparr>)"
  have g: "good X F w" using a by (simp add: active_def)
  have "\<exists>u w'. scoped cb (HandleError_scope cb os ?r) w = Inr (u, w') \<and> good X F w' \<and> steady w w' \<and> ?Q (view w')"
  proof (rule scoped_session_view [where Q = ?Q and p = "ov_ptr ?r", OF a _ _ HandleError_scope_def])
    show "p_ptrs w (ov_ptr ?r) = live_ptr (v_handle (view w i))" "ov_ptr ?r \<notin> X" using p goodD(11) [OF g] by simp_all
    fix w1 assume l: "active X F (depth w) i w1" and v1: "view w1 = view w"
    let ?l = "Local (depth w)"
    have g1: "good X F w1" and i1: "i < cap w1" using l by (auto simp: active_def)
    have T: "ov_ioType ?r w1 = Inr io_Disconnect"
      using ov_ioType_ok [OF goodD(2) [OF g1], of ?r] i1 v1 rd by simp
    have "v_state (view w1 i) = ss_value kDisconnecting" using rd v1 by simp
    from Clear_ok [OF l this, of cb] obtain w2 where w2: "Clear cb i w1 = Inr (True, w2)" "good X F w2" "steady w1 w2"
      "view w2 = (view w)(i := (view w i)\<lparr>v_mgr := null_ptr\<rparr>)" using v1 by auto
    have "active X F (depth w) i w2" by (rule active_steady [OF l w2(2,3)])
    then show "\<exists>u w3. rbind (ov_ioType ?r w1) (\<lambda>t.
        rbind (if t = io_Disconnect then rbind (Ptr_deref ?l w1) (\<lambda>i. Clear cb i w1)
            else rbind (Ptr_Reset cb (ov_ptr ?r) w1) (\<lambda>(_, w). rbind (Ptr_deref ?l w) (\<lambda>i. Disconnect cb os i w))) (\<lambda>(_, w).
        rbind (Ptr_deref ?l w) (\<lambda>_. Inr ((), w)))) = Inr (u, w3) \<and> good X F w3 \<and> steady w1 w3 \<and> ?Q (view w3)"
      using T w2 deref_active l by auto
  qed
  then show ?thesis by (auto simp: HandleError_def)
qed

lemma WorkerThread_disconnect_error:
  assumes os: "os_respects os" and g: "good X F w" and i: "i < cap w" and rd: "ready (DiscOv i) m (view w i)"
    and p: "p_ptrs w (DiscPtr i) = live_ptr (v_handle (view w i))"
  shows "\<exists>w'. scoped cb (WorkerThread_scope cb os (DiscOv i) False n) w = Inr (True, w') \<and> good X F w' \<and> cap w' = cap w \<and>
    view w' = (view w)(i := (view w i)\<lparr>v_mgr := null_ptr\<rparr>)"
proof -
  let ?r = "DiscOv i" and ?d = "depth w"
  obtain w2 where w2: "Ptr_copy (Local ?d) (DiscPtr i) (w\<lparr>depth := ?d + 1\<rparr>) = Inr w2" "active X F ?d i w2"
    "view w2 = view w" and e2: "env w2 = (env w)\<lparr>e_depth := ?d + 1, e_local := (e_local (env w))(?d := live_ptr (v_handle (view w i)))\<rparr>"
    using enter_scope [OF g i p goodD(11) [OF g]] by blast
  have g2: "good X F w2" and i2: "i < cap w2" using w2(2) by (auto simp: active_def)
  have p2: "p_ptrs w2 (DiscPtr i) = live_ptr (v_handle (view w2 i))"
    using own_ptr_cong [of w2 ?r w] w2(3) p by simp
  obtain w3 where w3: "HandleError cb os ?r w2 = Inr w3" "good X F w3" "steady w2 w3"
    "view w3 = (view w)(i := (view w i)\<lparr>v_mgr := null_ptr\<rparr>)"
    using HandleError_disconnect [OF os w2(2) _ p2, of m cb] rd w2(3) by auto
  have a3: "active X F ?d i w3" by (rule active_steady [OF w2(2) w3(2,3)])
  then have i3: "i < cap w3" by (simp add: active_def)
  have p3: "p_ptrs w3 (DiscPtr i) = live_ptr (v_handle (view w3 i))"
    using p own_ptr_view [of w ?r] own_ptr_view [of w3 ?r] w3(4) by simp
  have sh: "shared (Local ?d) w3"
    by (rule shared_held [OF goodD(2) [OF w3(2)], of "DiscPtr i" i])
      (use a3 p3 view_slot(3) [OF goodD(2) [OF w3(2)] i3] goodD(11) [OF g] in \<open>auto simp: active_def holds_def\<close>)
  have f: "WorkerThread_scope cb os ?r False n (Local ?d) (w\<lparr>depth := ?d + 1\<rparr>) = Inr (True, w3)"
    using w2(1) w3(1) ov_ioType_ok [OF goodD(2) [OF g2], of ?r] i2 w2(3) rd by (simp add: WorkerThread_scope_def)
  have E: "depth w3 = ?d + 1" "cap w3 = cap w" using steadyD(3,4) [OF w3(3)] e2 by (simp_all add: env_def)
  obtain w' where w': "scoped cb (WorkerThread_scope cb os ?r False n) w = Inr (True, w')" "good X F w'"
    "view w' = view w3" and e': "env w' = (env w3)\<lparr>e_depth := ?d, e_local := (e_local (env w3))(?d := null_ptr)\<rparr>"
    using leave_scope [where f = "WorkerThread_scope cb os ?r False n", OF f refl w3(2) E(1) goodD(8) [OF g] goodD(4) [OF g] sh]
    by auto
  have "cap w' = cap w" using e' E(2) by (simp add: env_def)
  then show ?thesis using w' w3(4) by auto
qed

text \<open>
  Failed disconnects. When a disconnect completes with an error, the pointer in \<^verbatim>\<open>disconnectOv_\<close> is not reset: the
  session stays in the disconnecting state with a reference that belongs to no operation, although no disconnect is in
  flight any more.
\<close>

lemma failed_disconnect_keeps_reference:
  assumes s: "sane os N S" and w: "server_reaches os N S w" and fl: "in_flight w (DiscOv i)"
  shows "\<exists>w'. server_step os (Event (DiscOv i) False chunk n) w = Inr w' \<and> \<not> in_flight w' (DiscOv i) \<and>
    state_of (p_set w') i = ss_value kDisconnecting \<and> handle_of (p_set w') i = handle_of (p_set w) i \<and>
    p_ptrs w' (DiscPtr i) = live_ptr (handle_of (p_set w) i) \<and> p_ptrs w' (MgrPtr i) = null_ptr"
proof -
  let ?r = "DiscOv i" and ?cb = "server_cb os" and ?w1 = "w\<lparr>in_flight := (in_flight w)(DiscOv i := False)\<rparr>"
  note g = reached_good(1) [OF s w]
  have os: "os_respects os" using s by (simp add: sane_def)
  have i: "i < cap w" and p: "p_ptrs w (DiscPtr i) = live_ptr (v_handle (view w i))"
    using in_flight_session [OF g fl] by simp_all
  have D: "v_state (view w i) = 3" "ioType (s_disconnectOv (v_obj (view w i))) = io_Disconnect"
    using session_okD(17,18) [OF goodD(5) [OF g i]] fl by (simp_all add: view_fields)
  have g1: "good {} (\<lambda>_. 0) ?w1" by (rule landed_good [OF g fl])
  have v1: "view ?w1 = (view w)(i := (view w i)\<lparr>v_inD := False\<rparr>)" using landed_view(1) [of w ?r] by simp
  have "kernel_completes ?r False chunk w = Inr ?w1"
    using ov_ioType_ok [OF goodD(2) [OF g1], of ?r] i D(2) v1 by (simp add: kernel_completes_def)
  moreover obtain w' where w': "scoped ?cb (WorkerThread_scope ?cb os ?r False n) ?w1 = Inr (True, w')" "good {} (\<lambda>_. 0) w'"
    "cap w' = cap ?w1" "view w' = (view ?w1)(i := (view ?w1 i)\<lparr>v_mgr := null_ptr\<rparr>)"
    using WorkerThread_disconnect_error [OF os g1, of i 0 ?cb n] i D v1 p by auto
  ultimately have "server_step os (Event ?r False chunk n) w = Inr w'" by (simp add: WorkerThread_body_def)
  moreover have v': "view w' i = (view w i)\<lparr>v_inD := False, v_mgr := null_ptr\<rparr>" using w'(4) v1 by simp
  ultimately show ?thesis
    using view_slot [OF goodD(2) [OF w'(2)], of i] view_slot [OF goodD(2) [OF g] i] i w'(3) D(1) p
      view_fields(4,5,8) [of w' i] view_fields(4) [of w i] by auto
qed

end
