(* ===== verification/Pool_Threads.thy ===== *)
theory Pool_Threads
  imports Ref_Pool
begin

text \<open>
  \<^verbatim>\<open>Network/Common/Pool/{SparsePool,SharedPoolPtr}.hpp\<close> under several threads. The operations of \<open>Ref_Pool\<close> are cut
  at every access to memory that other threads share: the validity check of a handle, \<^verbatim>\<open>fetch_add\<close> and
  \<^verbatim>\<open>fetch_sub\<close> on a count, the deleter, and each section under \<^verbatim>\<open>mutex_\<close>, are one atomic step each, and
  the steps of the threads interleave in any order. A thread's program counter says which access comes next and
  carries the handle the C++ function received by value.
\<close>

section \<open>Threads\<close>

text \<open>\<^verbatim>\<open>~SharedPoolPtr\<close> and \<^verbatim>\<open>Reset\<close> differ in what they leave in the pointer.\<close>

datatype drop_kind = Dtor | Reset

text \<open>
  \<open>Set_handle\<close>: \<^verbatim>\<open>Acquire\<close> has left the mutex, line 63 comes next. \<open>Add_check\<close>, \<open>Add\<close>: \<^verbatim>\<open>AddRef\<close> before its
  \<^verbatim>\<open>IsValid\<close> and before its \<^verbatim>\<open>fetch_add\<close>; the pointer copied from, if any, is remembered. \<open>Rel_check\<close>, \<open>Sub\<close>, \<open>Clear\<close>,
  \<open>Push_slot\<close>: \<^verbatim>\<open>ReleaseRef\<close> before its \<^verbatim>\<open>IsValid\<close>, its \<^verbatim>\<open>fetch_sub\<close>, the deleter and the locked \<^verbatim>\<open>Push\<close>. \<open>Finish\<close>:
  \<^verbatim>\<open>ReleaseRef\<close> has returned. \<open>Use\<close>: an \<^verbatim>\<open>IsValid()\<close> test of the pointer succeeded and its \<^verbatim>\<open>operator->\<close> comes next.
\<close>

datatype 'l pt_pc =
    Ready
  | Set_handle 'l u64
  | Add_check 'l u64 "'l option"
  | Add 'l u64 "'l option"
  | Rel_check 'l drop_kind u64
  | Sub 'l drop_kind u64
  | Clear 'l drop_kind u64
  | Push_slot 'l drop_kind u64
  | Finish 'l drop_kind bool
  | Use 'l

text \<open>The thread that may use a pointer object: the one whose variable it is, or that was given the structure it is in.\<close>

record ('a, 'l) tpool = "('a, 'l) pool" +
  pcs :: "nat \<Rightarrow> 'l pt_pc"
  owner :: "'l \<Rightarrow> nat"

definition pt_goto :: "nat \<Rightarrow> 'l pt_pc \<Rightarrow> ('a, 'l) tpool \<Rightarrow> ('a, 'l) tpool" where
  "pt_goto t p w = w\<lparr>pcs := (pcs w)(t := p)\<rparr>"

text \<open>
  The deleter applies a function of the object. What the function given to \<^verbatim>\<open>SetPostReleaseFunc\<close> does to the pool
  are later operations of the same thread.
\<close>

definition run_deleter :: "('a \<Rightarrow> 'a) \<Rightarrow> nat \<Rightarrow> ('a, 'l, 'm) pool_scheme \<Rightarrow> ('a, 'l, 'm) pool_scheme res" where
  "run_deleter clear idx w =
     rbind (aget (p_slots w) idx) (\<lambda>slot.
     rbind (aset (p_slots w) idx (slot\<lparr>obj := clear (obj slot)\<rparr>)) (\<lambda>sl.
     Inr (w\<lparr>p_slots := sl\<rparr>)))"

definition pool_callbacks :: "('a \<Rightarrow> 'a) \<Rightarrow> ('a, 'l, 'm) pool_scheme callbacks" where
  "pool_callbacks clear = \<lparr>deleter = run_deleter clear, postReleaseFunc = Inr\<rparr>"

section \<open>Steps\<close>

text \<open>\<^verbatim>\<open>Acquire\<close> up to the end of its critical section.\<close>

definition Acquire_locked :: "nat \<Rightarrow> nat \<Rightarrow> 'l \<Rightarrow> ('a, 'l) tpool \<Rightarrow> ('a, 'l) tpool res" where
  "Acquire_locked t state l w =
     rbind (Pop state (p_set w)) (\<lambda>(handle, s).
     let w = w\<lparr>p_set := s\<rparr> in
     if \<not> Pool_IsValid handle w then Inr (Ptr_ctor_null l w)
     else rbind (ObjectPool_Acquire (who_of handle) w) (\<lambda>_. Inr (pt_goto t (Set_handle l handle) w)))"

text \<open>\<^verbatim>\<open>slot->handle_ = handle\<close>, and the constructor of the returned pointer stores its fields.\<close>

definition Acquire_tail :: "nat \<Rightarrow> 'l \<Rightarrow> u64 \<Rightarrow> ('a, 'l) tpool \<Rightarrow> ('a, 'l) tpool res" where
  "Acquire_tail t l handle w =
     rbind (aget (p_slots w) (who_of handle)) (\<lambda>slot.
     rbind (aset (p_slots w) (who_of handle) (slot\<lparr>slot_handle := handle\<rparr>)) (\<lambda>sl.
     Inr (pt_goto t (Add_check l handle None) (set_ptr l (live_ptr handle) (w\<lparr>p_slots := sl\<rparr>)))))"

definition count_add :: "nat \<Rightarrow> ('a, 'l, 'm) pool_scheme \<Rightarrow> ('a, 'l, 'm) pool_scheme res" where
  "count_add idx w = rbind (ObjectPool_Get idx w) (\<lambda>slot. put_refCount idx (refCount slot + 1) w)"

definition count_sub :: "nat \<Rightarrow> ('a, 'l, 'm) pool_scheme \<Rightarrow> (nat \<times> ('a, 'l, 'm) pool_scheme) res" where
  "count_sub idx w =
     rbind (ObjectPool_Get idx w) (\<lambda>slot.
     rbind (put_refCount idx (if refCount slot = 0 then 2 ^ 64 - 1 else refCount slot - 1) w) (\<lambda>w.
     Inr (refCount slot, w)))"

text \<open>The copy constructor stores the fields of the other pointer; \<^verbatim>\<open>AddRef\<close> follows.\<close>

definition Copy_start :: "nat \<Rightarrow> 'l \<Rightarrow> 'l \<Rightarrow> ('a, 'l) tpool \<Rightarrow> ('a, 'l) tpool" where
  "Copy_start t l other w =
     (let p = p_ptrs w other; w = set_ptr l p w in
      if sp_pool p then pt_goto t (Add_check l (sp_handle p) (Some other)) w else w)"

text \<open>What the destructor or \<^verbatim>\<open>Reset\<close> leaves in the pointer when \<^verbatim>\<open>ReleaseRef\<close> returned \<open>released\<close>.\<close>

definition drop_end :: "'l \<Rightarrow> drop_kind \<Rightarrow> bool \<Rightarrow> ('a, 'l) tpool \<Rightarrow> ('a, 'l) tpool" where
  "drop_end l k released w = (if k = Reset \<and> released then w else set_ptr l null_ptr w)"

definition Drop_start :: "nat \<Rightarrow> 'l \<Rightarrow> drop_kind \<Rightarrow> ('a, 'l) tpool \<Rightarrow> ('a, 'l) tpool" where
  "Drop_start t l k w =
     (if Ptr_IsValid l w then pt_goto t (Rel_check l k (sp_handle (p_ptrs w l))) w
      else case k of Dtor \<Rightarrow> set_ptr l null_ptr w | Reset \<Rightarrow> w)"

text \<open>The next atomic step of the thread \<open>t\<close>.\<close>

definition pt_go :: "('a \<Rightarrow> 'a) \<Rightarrow> nat \<Rightarrow> ('a, 'l) tpool \<Rightarrow> ('a, 'l) tpool res" where
  "pt_go clear t w =
     (case pcs w t of
        Ready \<Rightarrow> Inr w
      | Set_handle l handle \<Rightarrow> Acquire_tail t l handle w
      | Add_check l handle src \<Rightarrow>
          Inr (pt_goto t (if Pool_IsValid handle w then Add l handle src else Ready) w)
      | Add l handle src \<Rightarrow> rbind (count_add (who_of handle) w) (\<lambda>w. Inr (pt_goto t Ready w))
      | Rel_check l k handle \<Rightarrow>
          Inr (pt_goto t (if Pool_IsValid handle w then Sub l k handle else Finish l k False) w)
      | Sub l k handle \<Rightarrow>
          rbind (count_sub (who_of handle) w) (\<lambda>(old, w).
          Inr (pt_goto t (if old = 1 then Clear l k handle else Finish l k False) w))
      | Clear l k handle \<Rightarrow>
          rbind (ObjectPool_Release (pool_callbacks clear) (who_of handle) w) (\<lambda>w.
          Inr (pt_goto t (Push_slot l k handle) w))
      | Push_slot l k handle \<Rightarrow>
          rbind (Push handle (p_set w)) (\<lambda>(_, s).
          rbind (postReleaseFunc (pool_callbacks clear) (w\<lparr>p_set := s\<rparr>)) (\<lambda>w.
          Inr (pt_goto t (Finish l k True) w)))
      | Finish l k released \<Rightarrow> Inr (pt_goto t Ready (drop_end l k released w))
      | Use l \<Rightarrow> rbind (Ptr_deref l w) (\<lambda>_. Inr (pt_goto t Ready w)))"

datatype 'l pt_event =
    Acquire_ptr nat nat 'l
  | Copy_ptr nat 'l 'l
  | Move_ptr nat 'l 'l
  | Drop_ptr nat 'l drop_kind
  | Test_ptr nat 'l
  | Move_slot nat 'l nat
  | Hand_over nat 'l nat
  | Go nat

fun pt_thread :: "'l pt_event \<Rightarrow> nat" where
  "pt_thread (Acquire_ptr t _ _) = t"
| "pt_thread (Copy_ptr t _ _) = t"
| "pt_thread (Move_ptr t _ _) = t"
| "pt_thread (Drop_ptr t _ _) = t"
| "pt_thread (Test_ptr t _) = t"
| "pt_thread (Move_slot t _ _) = t"
| "pt_thread (Hand_over t _ _) = t"
| "pt_thread (Go t) = t"

text \<open>A thread starts an operation when its last one has returned.\<close>

definition pt_can :: "'l pt_event \<Rightarrow> ('a, 'l) tpool \<Rightarrow> bool" where
  "pt_can e w \<longleftrightarrow> (case e of Go t \<Rightarrow> pcs w t \<noteq> Ready | _ \<Rightarrow> pcs w (pt_thread e) = Ready)"

fun pt_step :: "('a \<Rightarrow> 'a) \<Rightarrow> 'l pt_event \<Rightarrow> ('a, 'l) tpool \<Rightarrow> ('a, 'l) tpool res" where
  "pt_step clear (Acquire_ptr t state l) w = Acquire_locked t state l w"
| "pt_step clear (Copy_ptr t l other) w = Inr (Copy_start t l other w)"
| "pt_step clear (Move_ptr t l other) w = Inr (Ptr_move l other w)"
| "pt_step clear (Drop_ptr t l k) w = Inr (Drop_start t l k w)"
| "pt_step clear (Test_ptr t l) w = Inr (if Ptr_IsValid l w then pt_goto t (Use l) w else w)"
| "pt_step clear (Move_slot t l newState) w =
     rbind (Pool_MoveToState (sp_handle (p_ptrs w l)) newState w) (\<lambda>(_, w). Inr w)"
| "pt_step clear (Hand_over t l u) w = Inr (w\<lparr>owner := (owner w)(l := u)\<rparr>)"
| "pt_step clear (Go t) w = pt_go clear t w"


end
