(* ===== verification/Pool_Interleaving.thy ===== *)
theory Pool_Interleaving
  imports Pool_Threads
begin

text \<open>
  The counted pool under interleavings: the invariant that holds between any two atomic steps of
  \<open>Pool_Threads\<close>, when every thread works on its own pointers, and the proof that each step keeps it.
\<close>

section \<open>What a thread is about to do\<close>

text \<open>The pointer a thread works on, and whether that pointer is counted at the moment.\<close>

fun pc_ptr :: "'l pt_pc \<Rightarrow> 'l option" where
  "pc_ptr Ready = None"
| "pc_ptr (Set_handle l h) = Some l"
| "pc_ptr (Add_check l h src) = Some l"
| "pc_ptr (Add l h src) = Some l"
| "pc_ptr (Rel_check l k h) = Some l"
| "pc_ptr (Sub l k h) = Some l"
| "pc_ptr (Clear l k h) = Some l"
| "pc_ptr (Push_slot l k h) = Some l"
| "pc_ptr (Finish l k b) = Some l"
| "pc_ptr (Use l) = Some l"

fun pc_uncounted :: "'l pt_pc \<Rightarrow> bool" where
  "pc_uncounted (Add_check l h src) = True"
| "pc_uncounted (Add l h src) = True"
| "pc_uncounted (Clear l k h) = True"
| "pc_uncounted (Push_slot l k h) = True"
| "pc_uncounted (Finish l k b) = True"
| "pc_uncounted _ = False"

text \<open>The handle whose slot the thread is going to access.\<close>

fun pc_handle :: "'l pt_pc \<Rightarrow> u64 option" where
  "pc_handle (Set_handle l h) = Some h"
| "pc_handle (Add_check l h src) = Some h"
| "pc_handle (Add l h src) = Some h"
| "pc_handle (Rel_check l k h) = Some h"
| "pc_handle (Sub l k h) = Some h"
| "pc_handle (Clear l k h) = Some h"
| "pc_handle (Push_slot l k h) = Some h"
| "pc_handle _ = None"

text \<open>A thread that has a slot for itself: between \<^verbatim>\<open>Pop\<close> and the first count, or between the last one and \<^verbatim>\<open>Push\<close>.\<close>

fun pc_holds :: "'l pt_pc \<Rightarrow> nat \<Rightarrow> bool" where
  "pc_holds (Set_handle l h) i = (who_of h = i)"
| "pc_holds (Add_check l h src) i = (src = None \<and> who_of h = i)"
| "pc_holds (Add l h src) i = (src = None \<and> who_of h = i)"
| "pc_holds (Clear l k h) i = (who_of h = i)"
| "pc_holds (Push_slot l k h) i = (who_of h = i)"
| "pc_holds _ i = False"

text \<open>What a thread's pointers are while it is in the middle of an operation.\<close>

fun pc_local :: "nat \<Rightarrow> ('l \<Rightarrow> sptr) \<Rightarrow> ('l \<Rightarrow> nat) \<Rightarrow> 'l pt_pc \<Rightarrow> bool" where
  "pc_local t ps ow Ready = True"
| "pc_local t ps ow (Set_handle l h) = (ow l = t \<and> ps l = null_ptr)"
| "pc_local t ps ow (Add_check l h src) =
     (ow l = t \<and> ps l = live_ptr h \<and> (\<forall>k. src = Some k \<longrightarrow> ow k = t \<and> k \<noteq> l \<and> ps k = live_ptr h))"
| "pc_local t ps ow (Add l h src) =
     (ow l = t \<and> ps l = live_ptr h \<and> (\<forall>k. src = Some k \<longrightarrow> ow k = t \<and> k \<noteq> l \<and> ps k = live_ptr h))"
| "pc_local t ps ow (Rel_check l k h) =
     (ow l = t \<and> ps l = live_ptr h \<and> (k = Reset \<longrightarrow> (\<exists>m. ow m = t \<and> m \<noteq> l \<and> ps m = live_ptr h)))"
| "pc_local t ps ow (Sub l k h) =
     (ow l = t \<and> ps l = live_ptr h \<and> (k = Reset \<longrightarrow> (\<exists>m. ow m = t \<and> m \<noteq> l \<and> ps m = live_ptr h)))"
| "pc_local t ps ow (Clear l k h) = (ow l = t \<and> ps l = live_ptr h \<and> k = Dtor)"
| "pc_local t ps ow (Push_slot l k h) = (ow l = t \<and> ps l = live_ptr h \<and> k = Dtor)"
| "pc_local t ps ow (Finish l k b) = (ow l = t \<and> (k = Reset \<longrightarrow> \<not> b))"
| "pc_local t ps ow (Use l) = (ow l = t \<and> sp_pool (ps l))"

section \<open>The invariant\<close>

definition uncounted :: "('a, 'l) tpool \<Rightarrow> 'l set" where
  "uncounted w = {l. \<exists>t. pc_uncounted (pcs w t) \<and> pc_ptr (pcs w t) = Some l}"

definition slot_ok :: "('a, 'l) tpool \<Rightarrow> nat \<Rightarrow> bool" where
  "slot_ok w i \<longleftrightarrow>
     (state_of (p_set w) i = 0 \<longrightarrow> count w i = 0) \<and>
     (state_of (p_set w) i \<noteq> 0 \<and> count w i = 0 \<longleftrightarrow> (\<exists>t. pc_holds (pcs w t) i)) \<and>
     (\<forall>t u. pc_holds (pcs w t) i \<longrightarrow> pc_holds (pcs w u) i \<longrightarrow> t = u)"

definition live_handle :: "('a, 'l, 'm) pool_scheme \<Rightarrow> u64 \<Rightarrow> bool" where
  "live_handle w h \<longleftrightarrow> IsValid h (p_set w) \<and> state_of (p_set w) (who_of h) \<noteq> 0"

text \<open>
  Between any two atomic steps: the counts are the numbers of the counted pointers; a slot outside the idle state that
  nobody references belongs to exactly one thread, which is about to publish it or to give it back; and every
  handle a thread is going to use is valid.
\<close>

definition ti :: "('a, 'l) tpool \<Rightarrow> bool" where
  "ti w \<longleftrightarrow>
     counted (uncounted w) (\<lambda>_. 0) w \<and>
     (\<forall>t. pc_local t (p_ptrs w) (owner w) (pcs w t)) \<and>
     (\<forall>t h. pc_handle (pcs w t) = Some h \<longrightarrow> live_handle w h) \<and>
     (\<forall>i<cap w. slot_ok w i)"

text \<open>
  The discipline: a thread names only pointers of its own, constructs into storage that pc_holds no reference, gives
  \<^verbatim>\<open>Acquire\<close> and \<^verbatim>\<open>MoveToState\<close> a state other than the idle one, and calls \<^verbatim>\<open>Reset\<close> only
  while it pc_holds another pointer to the object.
\<close>

definition own_only :: "'l pt_event \<Rightarrow> ('a, 'l) tpool \<Rightarrow> bool" where
  "own_only e w \<longleftrightarrow> (case e of
       Acquire_ptr t state l \<Rightarrow> owner w l = t \<and> p_ptrs w l = null_ptr \<and> 0 < state
     | Copy_ptr t l other \<Rightarrow> owner w l = t \<and> owner w other = t \<and> l \<noteq> other \<and> p_ptrs w l = null_ptr
     | Move_ptr t l other \<Rightarrow> owner w l = t \<and> owner w other = t \<and> l \<noteq> other \<and> p_ptrs w l = null_ptr
     | Drop_ptr t l k \<Rightarrow> owner w l = t \<and>
         (k = Reset \<longrightarrow> (\<exists>m. owner w m = t \<and> m \<noteq> l \<and> p_ptrs w m = p_ptrs w l))
     | Test_ptr t l \<Rightarrow> owner w l = t
     | Move_slot t l newState \<Rightarrow> owner w l = t \<and> sp_pool (p_ptrs w l) \<and> 0 < newState
     | Hand_over t l u \<Rightarrow> owner w l = t
     | Go t \<Rightarrow> True)"

definition own_can :: "'l pt_event \<Rightarrow> ('a, 'l) tpool \<Rightarrow> bool" where
  "own_can e w \<longleftrightarrow> pt_can e w \<and> own_only e w"

text \<open>The pool as it is constructed: all slots idle and unreferenced, no pointer, every thread outside the pool.\<close>

definition pt_init :: "('a, 'l) tpool \<Rightarrow> bool" where
  "pt_init w \<longleftrightarrow>
     (\<exists>N k. p_set w = SparseSet N k \<and> N < 2 ^ 32 \<and> 0 < k \<and> length (p_slots w) = N) \<and>
     (\<forall>slot\<in>set (p_slots w). refCount slot = 0) \<and>
     (\<forall>l. p_ptrs w l = null_ptr) \<and> (\<forall>t. pcs w t = Ready)"

lemma tiD:
  assumes "ti w"
  shows "counted (uncounted w) (\<lambda>_. 0) w" "ss_inv (p_set w)" "length (p_slots w) = cap w"
    "pc_local t (p_ptrs w) (owner w) (pcs w t)" "pc_handle (pcs w t) = Some h \<Longrightarrow> live_handle w h"
    "i < cap w \<Longrightarrow> slot_ok w i"
  using assms countedD(1,2) by (auto simp: ti_def)

lemma slot_okD:
  assumes "slot_ok w i"
  shows "state_of (p_set w) i = 0 \<Longrightarrow> count w i = 0"
    "pc_holds (pcs w t) i \<Longrightarrow> count w i = 0 \<and> state_of (p_set w) i \<noteq> 0"
    "pc_holds (pcs w t) i \<Longrightarrow> pc_holds (pcs w u) i \<Longrightarrow> t = u"
    "state_of (p_set w) i \<noteq> 0 \<Longrightarrow> count w i = 0 \<Longrightarrow> \<exists>t. pc_holds (pcs w t) i"
  using assms unfolding slot_ok_def by blast+

lemma live_handleD: "live_handle w h \<Longrightarrow> IsValid h (p_set w) \<and> who_of h < cap w \<and> state_of (p_set w) (who_of h) \<noteq> 0"
  by (simp add: live_handle_def IsValid_iff)

lemma pc_ptr_owner: "pc_local t ps ow p \<Longrightarrow> pc_ptr p = Some l \<Longrightarrow> ow l = t"
  by (cases p) auto

lemma ti_ptr_owner: "ti w \<Longrightarrow> pc_ptr (pcs w t) = Some l \<Longrightarrow> owner w l = t"
  using tiD(4) pc_ptr_owner by metis

text \<open>The pointers of a thread that are counted: all but the one it works on.\<close>

lemma own_uncounted:
  assumes "ti w" "owner w l = t"
  shows "l \<in> uncounted w \<longleftrightarrow> pc_uncounted (pcs w t) \<and> pc_ptr (pcs w t) = Some l"
  using ti_ptr_owner [OF assms(1)] assms(2) by (auto simp: uncounted_def)

lemma ready_counted: "ti w \<Longrightarrow> pcs w (owner w l) = Ready \<Longrightarrow> l \<notin> uncounted w"
  using own_uncounted [of w l] by simp

text \<open>A counted pointer keeps its object: the slot is neither idle nor any thread's own.\<close>

lemma counted_ptr:
  assumes I: "ti w" and l: "l \<notin> uncounted w" "p_ptrs w l = live_ptr h"
  shows "live_handle w h" "0 < count w (who_of h)" "\<not> pc_holds (pcs w t) (who_of h)"
proof -
  note c = live_counts [OF tiD(1) [OF I] l(2,1)] and S = slot_okD [OF tiD(6) [OF I]]
  show "0 < count w (who_of h)" by (rule c(1))
  moreover have "IsValid h (p_set w)" using countedD(3) [OF tiD(1) [OF I] l(1)] l(2) by simp
  ultimately show "live_handle w h" "\<not> pc_holds (pcs w t) (who_of h)"
    using S(1,2) [OF c(3)] by (auto simp: live_handle_def)
qed

section \<open>Moving pointers in and out of the counted ones\<close>

lemma counted_set_ptr_out:
  assumes c: "counted X F w" and l: "l \<in> X"
  shows "counted X F (set_ptr l p w)"
proof -
  let ?w = "set_ptr l p w"
  have "finite {k. sp_pool (p_ptrs ?w k)}"
    by (rule finite_subset [of _ "insert l {k. sp_pool (p_ptrs w k)}"]) (use c in \<open>auto simp: counted_def\<close>)
  moreover have "refs ?w i - X = refs w i - X" for i
    using l by (auto simp: refs_set_ptr)
  ultimately show ?thesis using c l unfolding counted_def by auto
qed

lemma counted_exempt:
  assumes c: "counted X F w" and l: "p_ptrs w l = null_ptr"
  shows "counted (insert l X) F w"
proof (cases "l \<in> X")
  case False
  then show ?thesis using counted_take_out [OF c False] l by (simp add: points_null)
qed (use c in \<open>simp add: insert_absorb\<close>)

lemma counted_publish:
  assumes c: "counted (insert l X) F w" and l: "l \<notin> X" "p_ptrs w l = live_ptr h" "IsValid h (p_set w)"
    and F: "\<And>i. i < cap w \<Longrightarrow> F i = G i + points (live_ptr h) w i"
  shows "counted X G w"
proof -
  have "count w i = card (refs w i - X) + G i" if i: "i < cap w" for i
  proof -
    let ?A = "refs w i - X"
    have "refs w i - insert l X = ?A - {l}" by auto
    then have "count w i = card (?A - {l}) + G i + points (live_ptr h) w i"
      using countedD(5) [OF c i] F [OF i] by simp
    then show ?thesis
      using card_insert_drop(2) [of ?A l] counted_finite [OF c] l refs_points [of l w i]
      by (auto simp: points_def)
  qed
  moreover have "if sp_pool (p_ptrs w k) then IsValid (sp_handle (p_ptrs w k)) (p_set w) else p_ptrs w k = null_ptr"
    if "k \<notin> X" for k
    using c l that by (cases "k = l") (simp_all add: counted_def)
  ultimately show ?thesis using c unfolding counted_def by simp
qed

section \<open>Steps that leave the slots alone\<close>

lemma uncounted_step:
  assumes I: "ti w" and others: "\<And>u. u \<noteq> t \<Longrightarrow> pcs w' u = pcs w u"
  shows "uncounted w' =
    (uncounted w - {l. pc_ptr (pcs w t) = Some l}) \<union> {l. pc_uncounted (pcs w' t) \<and> pc_ptr (pcs w' t) = Some l}"
proof -
  have "pc_ptr (pcs w t) \<noteq> Some l" if "u \<noteq> t" "pc_ptr (pcs w u) = Some l" for u l
    using ti_ptr_owner [OF I] that by blast
  then have U: "(\<exists>u. u \<noteq> t \<and> pc_uncounted (pcs w u) \<and> pc_ptr (pcs w u) = Some l) \<longleftrightarrow>
      l \<in> uncounted w - {l. pc_ptr (pcs w t) = Some l}" for l
    unfolding uncounted_def by fastforce
  have "l \<in> uncounted w' \<longleftrightarrow> (\<exists>u. u \<noteq> t \<and> pc_uncounted (pcs w u) \<and> pc_ptr (pcs w u) = Some l) \<or>
      pc_uncounted (pcs w' t) \<and> pc_ptr (pcs w' t) = Some l" for l
    using others unfolding uncounted_def by (smt (verit) mem_Collect_eq)
  then show ?thesis unfolding U by blast
qed

text \<open>What a step of \<open>t\<close> must not touch.\<close>

definition only_thread :: "nat \<Rightarrow> ('a, 'l) tpool \<Rightarrow> ('a, 'l) tpool \<Rightarrow> bool" where
  "only_thread t w w' \<longleftrightarrow>
     (\<forall>u. u \<noteq> t \<longrightarrow> pcs w' u = pcs w u) \<and>
     (\<forall>l. owner w l \<noteq> t \<longrightarrow> p_ptrs w' l = p_ptrs w l \<and> owner w' l = owner w l)"

lemma pc_local_frame:
  assumes "pc_local u (p_ptrs w) (owner w) p" "only_thread t w w'" "u \<noteq> t"
  shows "pc_local u (p_ptrs w') (owner w') p"
proof -
  have "owner w l = u \<Longrightarrow> owner w' l = u \<and> p_ptrs w' l = p_ptrs w l" for l
    using assms(2,3) by (auto simp: only_thread_def)
  then show ?thesis using assms(1) by (cases p) (auto, metis+)
qed

lemma ti_step:
  assumes I: "ti w" and o: "only_thread t w w'"
    and "pc_local t (p_ptrs w') (owner w') (pcs w' t)"
    and "counted (uncounted w') (\<lambda>_. 0) w'"
    and "\<And>h. pc_handle (pcs w' t) = Some h \<Longrightarrow> live_handle w' h"
    and "\<And>u h. u \<noteq> t \<Longrightarrow> pc_handle (pcs w u) = Some h \<Longrightarrow> live_handle w' h"
    and "\<And>i. i < cap w' \<Longrightarrow> slot_ok w' i"
  shows "ti w'"
proof -
  have u: "pcs w' u = pcs w u" if "u \<noteq> t" for u using o that by (simp add: only_thread_def)
  have "pc_local u (p_ptrs w') (owner w') (pcs w' u)" for u
    using pc_local_frame [OF tiD(4) [OF I] o, of u] assms(3) u by (cases "u = t") auto
  moreover have "live_handle w' h" if "pc_handle (pcs w' u) = Some h" for u h
    using assms(5,6) u that by (cases "u = t") auto
  ultimately show ?thesis using assms(4,7) by (simp add: ti_def)
qed

lemma slot_ok_frame:
  assumes S: "slot_ok w i" and o: "only_thread t w w'"
    and "state_of (p_set w') i = state_of (p_set w) i" "count w' i = count w i"
    and "pc_holds (pcs w' t) i \<longleftrightarrow> pc_holds (pcs w t) i"
  shows "slot_ok w' i"
proof -
  have "pc_holds (pcs w' u) i \<longleftrightarrow> pc_holds (pcs w u) i" for u
    using o assms(5) by (cases "u = t") (auto simp: only_thread_def)
  then show ?thesis using S assms(3,4) by (simp add: slot_ok_def)
qed

lemma ti_quiet:
  assumes I: "ti w" and o: "only_thread t w w'"
    and same: "p_set w' = p_set w" "map refCount (p_slots w') = map refCount (p_slots w)"
    and h: "\<And>i. pc_holds (pcs w' t) i \<longleftrightarrow> pc_holds (pcs w t) i"
    and "pc_local t (p_ptrs w') (owner w') (pcs w' t)"
    and "counted (uncounted w') (\<lambda>_. 0) w'"
    and live: "\<And>h. pc_handle (pcs w' t) = Some h \<Longrightarrow> live_handle w h"
  shows "ti w'"
proof (rule ti_step [OF I o assms(6,7)])
  show "live_handle w' h" if "pc_handle (pcs w' t) = Some h" for h
    using live [OF that] same(1) by (simp add: live_handle_def)
  show "live_handle w' h" if "u \<noteq> t" "pc_handle (pcs w u) = Some h" for u h
    using tiD(5) [OF I that(2)] same(1) by (simp add: live_handle_def)
  have len: "length (p_slots w') = length (p_slots w)" using same(2) by (rule map_eq_imp_length_eq)
  show "slot_ok w' i" if "i < cap w'" for i
  proof (rule slot_ok_frame [OF tiD(6) [OF I] o _ _ h])
    show "i < cap w" using that same(1) by simp
    then show "count w' i = count w i"
      using arg_cong [OF same(2), of "\<lambda>xs. xs ! i"] tiD(3) [OF I] len by simp
  qed (simp add: same(1))
qed

lemma uncounted_same:
  assumes I: "ti w" and o: "\<And>u. u \<noteq> t \<Longrightarrow> pcs w' u = pcs w u"
    and "pc_uncounted (pcs w' t) = pc_uncounted (pcs w t)"
    and "pc_uncounted (pcs w t) \<Longrightarrow> pc_ptr (pcs w' t) = pc_ptr (pcs w t)"
  shows "uncounted w' = uncounted w"
  using uncounted_step [OF I o] own_uncounted [OF I] ti_ptr_owner [OF I, of t] assms(3,4) by auto

lemma uncounted_enter:
  assumes I: "ti w" and o: "\<And>u. u \<noteq> t \<Longrightarrow> pcs w' u = pcs w u"
    and "\<not> pc_uncounted (pcs w t)" "pc_uncounted (pcs w' t)" "pc_ptr (pcs w' t) = Some l"
  shows "uncounted w' = insert l (uncounted w)"
  using uncounted_step [OF I o] own_uncounted [OF I] ti_ptr_owner [OF I, of t] assms(3-) by auto

lemma uncounted_leave:
  assumes I: "ti w" and o: "\<And>u. u \<noteq> t \<Longrightarrow> pcs w' u = pcs w u"
    and "pc_uncounted (pcs w t)" "pc_ptr (pcs w t) = Some l" "\<not> pc_uncounted (pcs w' t)"
  shows "uncounted w = insert l (uncounted w')" and "l \<notin> uncounted w'"
  using uncounted_step [OF I o] own_uncounted [OF I ti_ptr_owner [OF I assms(4)]] assms(3-) by auto

lemma pt_goto_simps [simp]:
  "pcs (pt_goto t p w) = (pcs w)(t := p)" "p_set (pt_goto t p w) = p_set w" "p_slots (pt_goto t p w) = p_slots w"
  "p_ptrs (pt_goto t p w) = p_ptrs w" "owner (pt_goto t p w) = owner w"
  by (simp_all add: pt_goto_def)

lemma pool_ops_threads [simp]:
  "pcs (set_ptr l p w) = pcs w" "owner (set_ptr l p w) = owner w"
  "pcs (set_count i n w) = pcs w" "owner (set_count i n w) = owner w"
  by (simp_all add: set_ptr_def set_count_def)

lemma only_goto: "only_thread t w (pt_goto t p w)"
  by (simp add: only_thread_def)

lemma counted_goto [simp]: "counted X F (pt_goto t p w) = counted X F w"
  by (simp add: counted_def refs_def)

text \<open>A step that only moves the program counter.\<close>

lemma ti_goto:
  assumes I: "ti w" and "pc_uncounted p = pc_uncounted (pcs w t)" "pc_uncounted p \<Longrightarrow> pc_ptr p = pc_ptr (pcs w t)"
    and "\<And>i. pc_holds p i \<longleftrightarrow> pc_holds (pcs w t) i" "pc_local t (p_ptrs w) (owner w) p"
    and "\<And>h. pc_handle p = Some h \<Longrightarrow> live_handle w h"
  shows "ti (pt_goto t p w)"
proof (rule ti_quiet [OF I only_goto])
  show "counted (uncounted (pt_goto t p w)) (\<lambda>_. 0) (pt_goto t p w)"
    using uncounted_same [OF I, of t "pt_goto t p w"] assms(2,3) tiD(1) [OF I] by simp
qed (use assms in auto)

lemma valid_counted: "ti w \<Longrightarrow> l \<notin> uncounted w \<Longrightarrow> Ptr_IsValid l w \<longleftrightarrow> sp_pool (p_ptrs w l)"
  using Ptr_IsValid_counted [OF tiD(1)] .

lemma sptr_eq: "sp_pool p \<Longrightarrow> p = live_ptr (sp_handle p)"
  by (cases p) simp

lemma ti_go_Add_check:
  assumes I: "ti w" and p: "pcs w t = Add_check l h src"
  shows "\<exists>w'. pt_go clear t w = Inr w' \<and> ti w'"
proof -
  have "Pool_IsValid h w" using tiD(5) [OF I, of t h] p by (simp add: live_handle_def Pool_IsValid_def)
  moreover have "ti (pt_goto t (Add l h src) w)"
    using tiD(4,5) [OF I, of t] p by (intro ti_goto [OF I]) auto
  ultimately show ?thesis using p by (simp add: pt_go_def)
qed

lemma ti_go_Rel_check:
  assumes I: "ti w" and p: "pcs w t = Rel_check l k h"
  shows "\<exists>w'. pt_go clear t w = Inr w' \<and> ti w'"
proof -
  have "Pool_IsValid h w" using tiD(5) [OF I, of t h] p by (simp add: live_handle_def Pool_IsValid_def)
  moreover have "ti (pt_goto t (Sub l k h) w)"
    using tiD(4,5) [OF I, of t] p by (intro ti_goto [OF I]) auto
  ultimately show ?thesis using p by (simp add: pt_go_def)
qed

lemma ti_Test:
  assumes I: "ti w" and p: "pcs w t = Ready" and l: "owner w l = t"
  shows "ti (if Ptr_IsValid l w then pt_goto t (Use l) w else w)"
proof (cases "Ptr_IsValid l w")
  case True
  then have "ti (pt_goto t (Use l) w)"
    using p l by (intro ti_goto [OF I]) (auto simp: Ptr_IsValid_def)
  then show ?thesis using True by simp
qed (use I in simp)

text \<open>A thread finds every pointer of its own that is counted valid, whatever the others do.\<close>

lemma own_deref:
  assumes I: "ti w" and l: "l \<notin> uncounted w" "sp_pool (p_ptrs w l)"
  shows "Ptr_deref l w = Inr (who_of (sp_handle (p_ptrs w l)))"
proof -
  have "Ptr_IsValid l w" using valid_counted [OF I l(1)] l(2) by simp
  moreover have "Pool_IsValid (sp_handle (p_ptrs w l)) w" using calculation by (simp add: Ptr_IsValid_def)
  ultimately show ?thesis by (simp add: Ptr_deref_def Ptr_Get_def GetObj_def)
qed

lemma ti_go_Use:
  assumes I: "ti w" and p: "pcs w t = Use l"
  shows "\<exists>w'. pt_go clear t w = Inr w' \<and> ti w'"
proof -
  have l: "owner w l = t" "sp_pool (p_ptrs w l)" using tiD(4) [OF I, of t] p by simp_all
  then have "l \<notin> uncounted w" using own_uncounted [OF I l(1)] p by simp
  then have "pt_go clear t w = Inr (pt_goto t Ready w)" using own_deref [OF I _ l(2)] p by (simp add: pt_go_def)
  moreover have "ti (pt_goto t Ready w)" using p by (intro ti_goto [OF I]) auto
  ultimately show ?thesis by simp
qed

lemma ti_Copy:
  assumes I: "ti w" and p: "pcs w t = Ready"
    and l: "owner w l = t" "owner w other = t" "l \<noteq> other" "p_ptrs w l = null_ptr"
  shows "ti (Copy_start t l other w)"
proof -
  have o: "other \<notin> uncounted w" using ready_counted [OF I] p l(2) by simp
  show ?thesis
  proof (cases "sp_pool (p_ptrs w other)")
    case True
    let ?h = "sp_handle (p_ptrs w other)"
    let ?w = "pt_goto t (Add_check l ?h (Some other)) (set_ptr l (p_ptrs w other) w)"
    note q = sptr_eq [OF True]
    have "ti ?w"
    proof (rule ti_quiet [OF I])
      have "uncounted ?w = insert l (uncounted w)"
        by (rule uncounted_enter [OF I, of t]) (use p in auto)
      then show "counted (uncounted ?w) (\<lambda>_. 0) ?w"
        using counted_set_ptr_out [OF counted_exempt [OF tiD(1) [OF I] l(4)], of l] by simp
      show "pc_local t (p_ptrs ?w) (owner ?w) (pcs ?w t)" using l q by (auto simp: set_ptr_def)
    qed (use p l counted_ptr(1) [OF I o q] in \<open>auto simp: only_thread_def set_ptr_def\<close>)
    then show ?thesis using True by (simp add: Copy_start_def Let_def)
  next
    case False
    then have "p_ptrs w other = null_ptr" using countedD(4) [OF tiD(1) [OF I] o] by simp
    then show ?thesis using I l(4) False by (simp add: Copy_start_def Let_def set_ptr_def fun_upd_idem)
  qed
qed

lemma ti_Move:
  assumes I: "ti w" and p: "pcs w t = Ready"
    and l: "owner w l = t" "owner w other = t" "l \<noteq> other" "p_ptrs w l = null_ptr"
  shows "ti (Ptr_move l other w)"
proof (rule ti_quiet [OF I, of t])
  have "uncounted (Ptr_move l other w) = uncounted w"
    by (simp add: uncounted_def Ptr_move_def set_ptr_def)
  then show "counted (uncounted (Ptr_move l other w)) (\<lambda>_. 0) (Ptr_move l other w)"
    using counted_move [OF tiD(1) [OF I] _ l(4) _ l(3)] ready_counted [OF I] p l by auto
qed (use p l in \<open>auto simp: only_thread_def Ptr_move_def set_ptr_def\<close>)

lemma ti_Drop:
  assumes I: "ti w" and p: "pcs w t = Ready" and l: "owner w l = t"
    and other: "k = Reset \<Longrightarrow> \<exists>m. owner w m = t \<and> m \<noteq> l \<and> p_ptrs w m = p_ptrs w l"
  shows "ti (Drop_start t l k w)"
proof -
  have o: "l \<notin> uncounted w" using ready_counted [OF I] p l by simp
  show ?thesis
  proof (cases "sp_pool (p_ptrs w l)")
    case True
    note q = sptr_eq [OF True]
    have "ti (pt_goto t (Rel_check l k (sp_handle (p_ptrs w l))) w)"
      by (rule ti_goto [OF I]) (use p l other q counted_ptr(1) [OF I o q] in auto)
    then show ?thesis using True valid_counted [OF I o] by (simp add: Drop_start_def)
  next
    case False
    then have "p_ptrs w l = null_ptr" using countedD(4) [OF tiD(1) [OF I] o] by simp
    then have "set_ptr l null_ptr w = w" by (simp add: set_ptr_def fun_upd_idem)
    then show ?thesis using I False valid_counted [OF I o] by (auto simp: Drop_start_def split: drop_kind.splits)
  qed
qed

lemma ti_Hand_over:
  assumes I: "ti w" and p: "pcs w t = Ready" and l: "owner w l = t"
  shows "ti (w\<lparr>owner := (owner w)(l := u)\<rparr>)" (is "ti ?w")
proof (rule ti_quiet [OF I, of t])
  have "uncounted ?w = uncounted w" by (simp add: uncounted_def)
  then show "counted (uncounted ?w) (\<lambda>_. 0) ?w" using tiD(1) [OF I] by (simp add: counted_def refs_def)
qed (use p l in \<open>auto simp: only_thread_def\<close>)

lemma ti_go_Finish:
  assumes I: "ti w" and p: "pcs w t = Finish l k released"
  shows "\<exists>w'. pt_go clear t w = Inr w' \<and> ti w'"
proof -
  have l: "owner w l = t" "\<not> (k = Reset \<and> released)" using tiD(4) [OF I, of t] p by auto
  let ?w = "pt_goto t Ready (set_ptr l null_ptr w)"
  have "ti ?w"
  proof (rule ti_quiet [OF I])
    have "uncounted w = insert l (uncounted ?w)" "l \<notin> uncounted ?w"
      by (rule uncounted_leave [OF I, of t]; use p in simp)+
    then show "counted (uncounted ?w) (\<lambda>_. 0) ?w"
      using counted_put_back [of l "uncounted ?w"] tiD(1) [OF I] by simp
  qed (use p l in \<open>auto simp: only_thread_def set_ptr_def\<close>)
  then show ?thesis using p l(2) by (auto simp: pt_go_def drop_end_def)
qed

lemma ti_go_Set_handle:
  assumes I: "ti w" and p: "pcs w t = Set_handle l h"
  shows "\<exists>w'. pt_go clear t w = Inr w' \<and> ti w'"
proof -
  have l: "owner w l = t" "p_ptrs w l = null_ptr" using tiD(4) [OF I, of t] p by simp_all
  have h: "live_handle w h" using tiD(5) [OF I, of t] p by simp
  then have i: "who_of h < length (p_slots w)" using live_handleD tiD(3) [OF I] by metis
  define w1 where "w1 = w\<lparr>p_slots := (p_slots w)[who_of h := (p_slots w ! who_of h)\<lparr>slot_handle := h\<rparr>]\<rparr>"
  let ?w = "pt_goto t (Add_check l h None) (set_ptr l (live_ptr h) w1)"
  have c1: "counted (uncounted w) (\<lambda>_. 0) w1"
    by (rule same_pool_counted [OF _ tiD(1) [OF I]]) (simp add: same_pool_def w1_def map_update_same)
  have "ti ?w"
  proof (rule ti_quiet [OF I])
    have "uncounted ?w = insert l (uncounted w)"
      by (rule uncounted_enter [OF I, of t]) (use p in \<open>auto simp: set_ptr_def w1_def\<close>)
    then show "counted (uncounted ?w) (\<lambda>_. 0) ?w"
      using counted_set_ptr_out [OF counted_exempt [OF c1], of l] l(2) by (simp add: w1_def)
  qed (use p l h in \<open>auto simp: only_thread_def set_ptr_def w1_def map_update_same\<close>)
  then show ?thesis using p i by (simp add: pt_go_def Acquire_tail_def w1_def)
qed

lemma ti_go_Clear:
  assumes I: "ti w" and p: "pcs w t = Clear l k h"
  shows "\<exists>w'. pt_go clear t w = Inr w' \<and> ti w'"
proof -
  have "live_handle w h" using tiD(5) [OF I, of t] p by simp
  then have i: "who_of h < length (p_slots w)" using live_handleD tiD(3) [OF I] by metis
  define w1 where
    "w1 = w\<lparr>p_slots := (p_slots w)[who_of h := (p_slots w ! who_of h)\<lparr>obj := clear (obj (p_slots w ! who_of h))\<rparr>]\<rparr>"
  let ?w = "pt_goto t (Push_slot l k h) w1"
  have c1: "counted (uncounted w) (\<lambda>_. 0) w1"
    by (rule same_pool_counted [OF _ tiD(1) [OF I]]) (simp add: same_pool_def w1_def map_update_same)
  have "ti ?w"
  proof (rule ti_quiet [OF I])
    have "uncounted ?w = uncounted w"
      by (rule uncounted_same [OF I, of t]) (use p in \<open>auto simp: w1_def\<close>)
    then show "counted (uncounted ?w) (\<lambda>_. 0) ?w" using c1 by simp
  qed (use p tiD(4,5) [OF I, of t] in \<open>auto simp: only_thread_def w1_def map_update_same\<close>)
  then show ?thesis
    using p i by (simp add: pt_go_def ObjectPool_Release_def pool_callbacks_def run_deleter_def w1_def)
qed

section \<open>Steps that change one slot\<close>

lemma ti_slot:
  assumes I: "ti w" and o: "only_thread t w w'" and "pc_local t (p_ptrs w') (owner w') (pcs w' t)"
    and "counted (uncounted w') (\<lambda>_. 0) w'"
    and "\<And>h. pc_handle (pcs w' t) = Some h \<Longrightarrow> live_handle w' h"
    and "\<And>u h. u \<noteq> t \<Longrightarrow> pc_handle (pcs w u) = Some h \<Longrightarrow> live_handle w' h"
    and "cap w' = cap w" "slot_ok w' j"
    and "\<And>i. i < cap w \<Longrightarrow> i \<noteq> j \<Longrightarrow> state_of (p_set w') i = state_of (p_set w) i \<and> count w' i = count w i \<and>
      (pc_holds (pcs w' t) i \<longleftrightarrow> pc_holds (pcs w t) i)"
  shows "ti w'"
proof (rule ti_step [OF I o assms(3,4)])
  show "slot_ok w' i" if "i < cap w'" for i
    using slot_ok_frame [OF tiD(6) [OF I] o, of i] assms(7-9) that by (cases "i = j") auto
qed (use assms in blast)+

text \<open>A handle a thread is about to use keeps its slot: the thread has the slot for itself, or a counted pointer has it.\<close>

lemma handle_kept:
  assumes I: "ti w" and h: "pc_handle (pcs w u) = Some h"
  shows "pc_holds (pcs w u) (who_of h) \<or> 0 < count w (who_of h)"
proof -
  have counted: "0 < count w (who_of h)"
    if "owner w m = u" "p_ptrs w m = live_ptr h" "\<not> (pc_uncounted (pcs w u) \<and> pc_ptr (pcs w u) = Some m)" for m
    using counted_ptr(2) [OF I _ that(2)] own_uncounted [OF I that(1)] that(3) by simp
  note L = tiD(4) [OF I, of u]
  show ?thesis
  proof (cases "pcs w u")
    case (Add_check l g src)
    then show ?thesis using h L counted by (cases src) auto
  next
    case (Add l g src)
    then show ?thesis using h L counted by (cases src) auto
  next
    case (Rel_check l k g)
    then show ?thesis using h L counted [of l] by auto
  next
    case (Sub l k g)
    then show ?thesis using h L counted [of l] by auto
  qed (use h in auto)
qed

lemma others_do_not_hold:
  assumes I: "ti w" and h: "pc_handle (pcs w t) = Some h" and "u \<noteq> t"
  shows "\<not> pc_holds (pcs w u) (who_of h)"
proof
  assume u: "pc_holds (pcs w u) (who_of h)"
  have "who_of h < cap w" using live_handleD tiD(5) [OF I h] by blast
  note S = slot_okD [OF tiD(6) [OF I this]]
  show False using handle_kept [OF I h] S(2) [OF u] S(3) [OF u] \<open>u \<noteq> t\<close> by auto
qed

lemma ti_go_Add:
  assumes I: "ti w" and p: "pcs w t = Add l h src"
  shows "\<exists>w'. pt_go clear t w = Inr w' \<and> ti w'"
proof -
  let ?i = "who_of h"
  note c = tiD(1) [OF I]
  have l: "owner w l = t" "p_ptrs w l = live_ptr h" using tiD(4) [OF I, of t] p by simp_all
  have hp: "pc_handle (pcs w t) = Some h" using p by simp
  note h = live_handleD [OF tiD(5) [OF I hp]]
  have li: "?i < length (p_slots w)" using h tiD(3) [OF I] by simp
  let ?v = "set_count ?i (count w ?i + 1) w" and ?w = "pt_goto t Ready (set_count ?i (count w ?i + 1) w)"
  have run: "pt_go clear t w = Inr ?w"
    using p li by (simp add: pt_go_def count_add_def ObjectPool_Get_def put_refCount_ok)
  have U: "uncounted w = insert l (uncounted ?w)" "l \<notin> uncounted ?w"
    by (rule uncounted_leave [OF I, of t]; use p in simp)+
  have cv: "counted (uncounted w) ((\<lambda>_. 0)(?i := 1)) ?v"
    by (rule counted_set_count [OF c]) (use h countedD(5) [OF c, of ?i] in auto)
  have pt: "points (live_ptr h) ?v i = (if i = ?i then 1 else 0)" if "i < cap w" for i
    using points_live [OF c _ that, of h] h by (simp add: points_def)
  have cw: "counted (uncounted ?w) (\<lambda>_. 0) ?v"
    by (rule counted_publish [of l _ "(\<lambda>_. 0)(?i := 1)" _ h]) (use cv U l h pt in auto)
  have "ti ?w"
  proof (rule ti_slot [OF I, of t ?w ?i])
    show "slot_ok ?w ?i"
      using others_do_not_hold [OF I hp] h li by (auto simp: slot_ok_def)
    show "live_handle ?w g" if "pc_handle (pcs w u) = Some g" for u g
      using tiD(5) [OF I that] by (simp add: live_handle_def)
  qed (use p cw li in \<open>auto simp: only_thread_def\<close>)
  then show ?thesis using run by blast
qed

lemma ti_go_Sub:
  assumes I: "ti w" and p: "pcs w t = Sub l k h"
  shows "\<exists>w'. pt_go clear t w = Inr w' \<and> ti w'"
proof -
  let ?i = "who_of h"
  note c = tiD(1) [OF I]
  have l: "owner w l = t" "p_ptrs w l = live_ptr h"
    and other: "k = Reset \<Longrightarrow> \<exists>m. owner w m = t \<and> m \<noteq> l \<and> p_ptrs w m = live_ptr h"
    using tiD(4) [OF I, of t] p by simp_all
  have lU: "l \<notin> uncounted w" using own_uncounted [OF I l(1)] p by simp
  note C = counted_ptr [OF I lU l(2)]
  note h = live_handleD [OF C(1)]
  have li: "?i < length (p_slots w)" using h tiD(3) [OF I] by simp
  have shared: "k = Reset \<Longrightarrow> count w ?i \<noteq> 1"
  proof
    assume k: "k = Reset" and one: "count w ?i = 1"
    obtain m where m: "owner w m = t" "m \<noteq> l" "p_ptrs w m = live_ptr h" using other k by blast
    have "m \<notin> uncounted w" using own_uncounted [OF I m(1)] p by simp
    then show False using shared_by [OF c lU _ m(2) [symmetric]] m(3) l(2) one by (simp add: shared_def)
  qed
  define q where "q = (if count w ?i = 1 then Clear l k h else Finish l k False)"
  let ?v = "set_count ?i (count w ?i - 1) w"
  let ?w = "pt_goto t q ?v"
  have run: "pt_go clear t w = Inr ?w"
    using p li C(2) by (simp add: pt_go_def count_sub_def ObjectPool_Get_def put_refCount_ok q_def)
  have U: "uncounted ?w = insert l (uncounted w)"
    by (rule uncounted_enter [OF I, of t]) (use p in \<open>auto simp: q_def\<close>)
  have pt: "points (live_ptr h) w i = (if i = ?i then 1 else 0)" if "i < cap w" for i
    using points_live [OF c _ that, of h] h by simp
  have "counted (insert l (uncounted w)) (\<lambda>i. points (live_ptr h) w i) w"
    using counted_take_out [OF c lU] l(2) by simp
  then have "counted (insert l (uncounted w)) ((\<lambda>i. points (live_ptr h) w i)(?i := 0)) ?v"
    by (rule counted_set_count) (use h countedD(5) [OF counted_take_out [OF c lU], of ?i] l(2) pt in auto)
  then have cw: "counted (uncounted ?w) (\<lambda>_. 0) ?v"
    unfolding U by (rule counted_cong) (use pt in auto)
  have "ti ?w"
  proof (rule ti_slot [OF I, of t ?w ?i])
    show "slot_ok ?w ?i"
      using C(2,3) h li by (auto simp: slot_ok_def q_def)
    show "live_handle ?w g" if "pc_handle (pcs w u) = Some g" for u g
      using tiD(5) [OF I that] by (simp add: live_handle_def)
    show "pc_local t (p_ptrs ?w) (owner ?w) (pcs ?w t)"
      using l shared by (cases k) (auto simp: q_def)
  qed (use p cw li h C(1) in \<open>auto simp: only_thread_def q_def live_handle_def split: if_splits\<close>)
  then show ?thesis using run by blast
qed

text \<open>The steps that change the set of one slot, \<open>i\<close>: the other slots and the handles into them stay as they are.\<close>

lemma ti_set:
  assumes I: "ti w" and up: "updates (p_set w) i x s" and i: "i < cap w"
    and o: "only_thread t w w'" and w': "p_set w' = s" "p_slots w' = p_slots w"
    and "pc_local t (p_ptrs w') (owner w') (pcs w' t)"
    and "counted (uncounted w') (\<lambda>_. 0) w'" "slot_ok w' i"
    and "\<And>h. pc_handle (pcs w' t) = Some h \<Longrightarrow> live_handle w' h"
    and kept: "\<And>u h. u \<noteq> t \<Longrightarrow> pc_handle (pcs w u) = Some h \<Longrightarrow> who_of h = i \<Longrightarrow> live_handle w' h"
    and h: "\<And>j. j \<noteq> i \<Longrightarrow> pc_holds (pcs w' t) j \<longleftrightarrow> pc_holds (pcs w t) j"
  shows "ti w'"
proof -
  note obs = updates_obs [OF tiD(2) [OF I] up i]
  have cap: "cap w' = cap w" using up w'(1) by (simp add: updates_def)
  have st: "state_of s j = state_of (p_set w) j" if "j < cap w" "j \<noteq> i" for j
    using obs [OF that(1)] that(2) by simp
  have "live_handle w' g" if "u \<noteq> t" "pc_handle (pcs w u) = Some g" for u g
  proof (cases "who_of g = i")
    case False
    then show ?thesis
      using live_handleD [OF tiD(5) [OF I that(2)]] obs [of "who_of g"] cap w'(1)
      by (auto simp: live_handle_def IsValid_iff)
  qed (rule kept [OF that])
  then show ?thesis
    by (intro ti_slot [OF I o, of i]) (use assms cap st in auto)
qed

lemma ti_go_Push:
  assumes I: "ti w" and p: "pcs w t = Push_slot l k h"
  shows "\<exists>w'. pt_go clear t w = Inr w' \<and> ti w'"
proof -
  let ?i = "who_of h"
  note c = tiD(1) [OF I]
  have l: "owner w l = t" "k = Dtor" using tiD(4) [OF I, of t] p by simp_all
  have hp: "pc_handle (pcs w t) = Some h" and ht: "pc_holds (pcs w t) ?i" using p by simp_all
  note h = live_handleD [OF tiD(5) [OF I hp]]
  note z = slot_okD(2) [OF tiD(6) [OF I] ht]
  obtain s where s: "Push h (p_set w) = Inr (True, s)" and up: "updates (p_set w) ?i (generation_of h + 1, 0) s"
    using Push_ok [OF tiD(2) [OF I]] h by blast
  let ?w = "pt_goto t (Finish l k True) (w\<lparr>p_set := s\<rparr>)"
  have run: "pt_go clear t w = Inr ?w" using p s by (simp add: pt_go_def pool_callbacks_def)
  have g: "gen_of (p_set w) ?i = generation_of h" using h by (simp add: IsValid_iff)
  have "card (refs w ?i - uncounted w) = 0" using countedD(5) [OF c, of ?i] z h by simp
  then have none: "refs w ?i \<subseteq> uncounted w" using counted_finite [OF c, of ?i] by auto
  have "uncounted ?w = uncounted w"
    by (rule uncounted_same [OF I, of t]) (use p in auto)
  then have cw: "counted (uncounted ?w) (\<lambda>_. 0) ?w"
    using counted_retire [OF c none] up g h by simp
  have "ti ?w"
  proof (rule ti_set [OF I up _ _ _ _ _ cw])
    have "state_of s ?i = 0" using updates_obs [OF tiD(2) [OF I] up, of ?i] h by simp
    then show "slot_ok ?w ?i" using others_do_not_hold [OF I hp] z h by (auto simp: slot_ok_def)
    show "live_handle ?w g" if "u \<noteq> t" "pc_handle (pcs w u) = Some g" "who_of g = ?i" for u g
      using handle_kept [OF I that(2)] others_do_not_hold [OF I hp that(1)] z h that(3) by simp
  qed (use p l h in \<open>auto simp: only_thread_def\<close>)
  then show ?thesis using run by blast
qed

lemma ti_Acquire:
  assumes I: "ti w" and p: "pcs w t = Ready" and l: "owner w l = t" "p_ptrs w l = null_ptr" and n: "0 < n"
  shows "\<exists>w'. Acquire_locked t n l w = Inr w' \<and> ti w'"
proof (cases "n < stateCount (p_set w) \<and> has_idle (p_set w)")
  case True
  note c = tiD(1) [OF I]
  obtain h s where h: "Pop n (p_set w) = Inr (h, s)" "IsValid h (p_set w)"
    "state_of (p_set w) (who_of h) = 0" and up: "updates (p_set w) (who_of h) (generation_of h, n) s"
    using Pop_ok [OF tiD(2) [OF I]] True by blast
  let ?i = "who_of h" and ?w = "pt_goto t (Set_handle l h) (w\<lparr>p_set := s\<rparr>)"
  have i: "?i < cap w" "gen_of (p_set w) ?i = generation_of h" using h(2) by (simp_all add: IsValid_iff)
  note S = slot_okD [OF tiD(6) [OF I i(1)]]
  have v: "IsValid h s" using updates_IsValid [OF tiD(2) [OF I] up i(1)] i(2) h(2) by simp
  have st: "state_of s ?i = n" using updates_obs [OF tiD(2) [OF I] up i(1) i(1)] by simp
  have run: "Acquire_locked t n l w = Inr ?w"
    using h(1) v i tiD(3) [OF I] up
    by (simp add: Acquire_locked_def Pool_IsValid_def ObjectPool_Acquire_def Let_def updates_def)
  have none: "\<not> pc_holds (pcs w u) ?i" for u using S(2) h(3) by auto
  have "uncounted ?w = uncounted w"
    by (rule uncounted_same [OF I, of t]) (use p in auto)
  then have cw: "counted (uncounted ?w) (\<lambda>_. 0) ?w"
    using counted_new_state [OF c, of ?i n s] up i by simp
  have "ti ?w"
  proof (rule ti_set [OF I up i(1) _ _ _ _ cw])
    show "slot_ok ?w ?i" using none S(1) h(3) st n by (auto simp: slot_ok_def)
    show "live_handle ?w g" if "u \<noteq> t" "pc_handle (pcs w u) = Some g" "who_of g = ?i" for u g
      using live_handleD [OF tiD(5) [OF I that(2)]] that(3) h(3) by simp
  qed (use p l v st n none in \<open>auto simp: only_thread_def live_handle_def\<close>)
  then show ?thesis using run by blast
next
  case False
  then have "Pop n (p_set w) = Inr (kInvalidHandle, p_set w)"
    using Pop_exhausted [OF tiD(2) [OF I]] by (auto simp: not_less)
  moreover have "set_ptr l null_ptr w = w" using l(2) by (simp add: set_ptr_def fun_upd_idem)
  ultimately show ?thesis
    using I kInvalid_not_valid [OF tiD(2) [OF I]]
    by (simp add: Acquire_locked_def Pool_IsValid_def Ptr_ctor_null_def Let_def)
qed

lemma ti_Move_slot:
  assumes I: "ti w" and p: "pcs w t = Ready" and l: "owner w l = t" "sp_pool (p_ptrs w l)" and n: "0 < n"
  shows "\<exists>w'. pt_step clear (Move_slot t l n) w = Inr w' \<and> ti w'"
proof (cases "n < stateCount (p_set w)")
  case True
  let ?h = "sp_handle (p_ptrs w l)" and ?i = "who_of (sp_handle (p_ptrs w l))"
  note c = tiD(1) [OF I]
  have "l \<notin> uncounted w" using ready_counted [OF I] p l(1) by simp
  note C = counted_ptr [OF I this sptr_eq [OF l(2)]]
  note h = live_handleD [OF C(1)]
  obtain s where s: "MoveToState ?h n (p_set w) = Inr (True, s)" and up: "updates (p_set w) ?i (generation_of ?h, n) s"
    using MoveToState_ok [OF tiD(2) [OF I] _ True] h by blast
  let ?w = "w\<lparr>p_set := s\<rparr>"
  have g: "gen_of (p_set w) ?i = generation_of ?h" using h by (simp add: IsValid_iff)
  have st: "state_of s ?i = n" "gen_of s ?i = generation_of ?h"
    using updates_obs [OF tiD(2) [OF I] up, of ?i] h by simp_all
  have cw: "counted (uncounted ?w) (\<lambda>_. 0) ?w"
    using counted_new_state [OF c, of ?i n s] up g h by (simp add: uncounted_def)
  have "ti ?w"
  proof (rule ti_set [OF I up _ _ _ _ _ cw, of t])
    show "slot_ok ?w ?i" using C(2,3) st n by (auto simp: slot_ok_def)
    show "live_handle ?w g" if "u \<noteq> t" "pc_handle (pcs w u) = Some g" "who_of g = ?i" for u g
      using live_handleD [OF tiD(5) [OF I that(2)]] that(3) st n up g by (auto simp: live_handle_def IsValid_iff updates_def)
  qed (use p l h in \<open>auto simp: only_thread_def\<close>)
  then show ?thesis using s by (simp add: Pool_MoveToState_def)
next
  case False
  then show ?thesis using MoveToState_rejects [of _ "p_set w" n] I by (simp add: Pool_MoveToState_def not_less)
qed

section \<open>All steps\<close>

lemma ti_go: "ti w \<Longrightarrow> pcs w t \<noteq> Ready \<Longrightarrow> \<exists>w'. pt_go clear t w = Inr w' \<and> ti w'"
  by (cases "pcs w t")
    (blast intro: ti_go_Set_handle ti_go_Add_check ti_go_Add ti_go_Rel_check ti_go_Sub ti_go_Clear ti_go_Push
      ti_go_Finish ti_go_Use)+

lemma ti_event:
  assumes I: "ti w" and e: "own_can e w"
  shows "\<exists>w'. pt_step clear e w = Inr w' \<and> ti w'"
proof (cases e)
  case (Go t)
  then show ?thesis using ti_go [OF I] e by (simp add: own_can_def pt_can_def)
qed (use e ti_Acquire [OF I] ti_Copy [OF I] ti_Move [OF I] ti_Drop [OF I] ti_Test [OF I]
    ti_Move_slot [OF I, of _ _ _ clear] ti_Hand_over [OF I] in \<open>auto simp: own_can_def own_only_def pt_can_def\<close>)

lemma ti_init:
  assumes "pt_init w"
  shows "ti w"
proof -
  obtain N k where w: "p_set w = SparseSet N k" "N < 2 ^ 32" "0 < k" "length (p_slots w) = N"
    "\<forall>slot\<in>set (p_slots w). refCount slot = 0" "\<forall>l. p_ptrs w l = null_ptr" "\<forall>t. pcs w t = Ready"
    using assms by (auto simp: pt_init_def)
  then have "counted (uncounted w) (\<lambda>_. 0) w"
    using SparseSet_inv [OF w(2,3)] by (auto simp: counted_def refs_def)
  then show ?thesis using w by (auto simp: ti_def slot_ok_def)
qed

interpretation pt: event_system pt_init own_can "pt_step clear" ti for clear
proof
  show "ti w'" if "ti w" "own_can e w" "pt_step clear e w = Inr w'" for e w w'
    using ti_event [OF that(1,2), of clear] that(3) by simp
qed (rule ti_init)

end
