(* ===== verification/Pool_Properties.thy ===== *)
theory Pool_Properties
  imports Pool_Interleaving
begin

text \<open>
  What the invariant of \<open>Pool_Interleaving\<close> gives the users of the pool, the agreement of the atomic steps with the
  sequential operations of \<open>Ref_Pool\<close>, and what happens when a thread uses a pointer of another thread.
\<close>

section \<open>One thread alone\<close>

text \<open>A whole operation of one thread: its first event and all the steps it then takes.\<close>

definition alone :: "('a \<Rightarrow> 'a) \<Rightarrow> 'l pt_event \<Rightarrow> ('a, 'l) tpool \<Rightarrow> ('a, 'l) tpool res" where
  "alone clear e w = run_events pt_can (pt_step clear) (e # replicate 6 (Go (pt_thread e))) w"

lemma run_returned: "pcs w t = Ready \<Longrightarrow> run_events pt_can (pt_step clear) (replicate n (Go t)) w = Inr w"
  by (induction n) (auto simp: pt_can_def)

lemma run_Go:
  "pcs w t \<noteq> Ready \<Longrightarrow> run_events pt_can (pt_step clear) (replicate (Suc n) (Go t)) w =
    rbind (pt_go clear t w) (run_events pt_can (pt_step clear) (replicate n (Go t)))"
  by (simp add: pt_can_def)

lemma alone_start:
  "pcs w (pt_thread e) = Ready \<Longrightarrow> \<forall>t. e \<noteq> Go t \<Longrightarrow>
    alone clear e w = rbind (pt_step clear e w) (run_events pt_can (pt_step clear) (replicate 6 (Go (pt_thread e))))"
  by (cases e) (auto simp: alone_def pt_can_def)

lemma goto_goto [simp]: "pt_goto t p (pt_goto t q w) = pt_goto t p w"
  by (simp add: pt_goto_def)

lemma goto_same: "pcs w t = p \<Longrightarrow> pt_goto t p w = w"
  by (simp add: pt_goto_def fun_upd_idem)

lemma six: "replicate 6 x = replicate (Suc (Suc (Suc (Suc (Suc (Suc 0)))))) x"
  by (simp add: eval_nat_numeral)

text \<open>The operations on the pool do not see the program counters.\<close>

lemma goto_pool [simp]:
  "Pool_IsValid h (pt_goto t p w) = Pool_IsValid h w" "Ptr_IsValid l (pt_goto t p w) = Ptr_IsValid l w"
  "set_ptr l q (pt_goto t p w) = pt_goto t p (set_ptr l q w)" "drop_end l k b (pt_goto t p w) = pt_goto t p (drop_end l k b w)"
  "count_add i (pt_goto t p w) = rbind (count_add i w) (\<lambda>w. Inr (pt_goto t p w))"
  "count_sub i (pt_goto t p w) = rbind (count_sub i w) (\<lambda>(n, w). Inr (n, pt_goto t p w))"
  "run_deleter clear i (pt_goto t p w) = rbind (run_deleter clear i w) (\<lambda>w. Inr (pt_goto t p w))"
  "(pt_goto t p w)\<lparr>p_set := s\<rparr> = pt_goto t p (w\<lparr>p_set := s\<rparr>)"
  by (cases w; simp add: Pool_IsValid_def Ptr_IsValid_def set_ptr_def drop_end_def count_add_def count_sub_def
      put_refCount_def ObjectPool_Get_def run_deleter_def pt_goto_def rbind_assoc)+

lemma AddRef_fetch:
  "AddRef h w = (if Pool_IsValid h w then rbind (count_add (who_of h) w) (\<lambda>w. Inr (True, w)) else Inr (False, w))"
  by (simp add: AddRef_def count_add_def rbind_assoc Let_def)

lemma ReleaseRef_fetch:
  "ReleaseRef (pool_callbacks clear) h w =
     (if Pool_IsValid h w then
        rbind (count_sub (who_of h) w) (\<lambda>(old, w).
        if old = 1 then
          rbind (run_deleter clear (who_of h) w) (\<lambda>w.
          rbind (Push h (p_set w)) (\<lambda>(_, s). Inr (True, w\<lparr>p_set := s\<rparr>)))
        else Inr (False, w))
      else Inr (False, w))"
  by (simp add: ReleaseRef_def count_sub_def rbind_assoc Let_def ObjectPool_Release_def pool_callbacks_def
      split_beta cong: if_cong)

lemma same_threads:
  "count_add i w = Inr w' \<Longrightarrow> pcs w' = pcs w" "count_sub i w = Inr (n, w') \<Longrightarrow> pcs w' = pcs w"
  "run_deleter clear i w = Inr w' \<Longrightarrow> pcs w' = pcs w" "pcs (drop_end l k b w) = pcs w"
  by (auto simp: count_add_def count_sub_def put_refCount_def run_deleter_def drop_end_def ObjectPool_Get_def
      rbind_eq_Inr_iff)

lemma alone_Copy:
  assumes "pcs w t = Ready" "l \<noteq> other"
  shows "alone clear (Copy_ptr t l other) w = Ptr_copy l other w"
proof -
  let ?p = "p_ptrs w other"
  let ?w = "set_ptr l ?p w"
  have r: "pcs ?w t = Ready" using assms(1) by simp
  show ?thesis
  proof (cases "sp_pool ?p")
    case True
    then have "alone clear (Copy_ptr t l other) w =
        run_events pt_can (pt_step clear) (replicate 6 (Go t)) (pt_goto t (Add_check l (sp_handle ?p) (Some other)) ?w)"
      using assms by (simp add: alone_start Copy_start_def Let_def)
    also have "\<dots> = rbind (AddRef (sp_handle ?p) ?w) (\<lambda>(_, w). Inr w)"
      unfolding six using r
      by (cases "count_add (who_of (sp_handle ?p)) ?w")
        (auto simp: run_Go pt_go_def AddRef_fetch rbind_assoc goto_same run_returned same_threads(1) simp del: replicate_Suc)
    finally show ?thesis using True by (simp add: Ptr_copy_def Let_def)
  next
    case False
    then show ?thesis using assms r run_returned [OF r]
      by (simp add: alone_start Copy_start_def Ptr_copy_def Let_def)
  qed
qed

lemma pool_callbacks_simps [simp]:
  "deleter (pool_callbacks clear) = run_deleter clear" "postReleaseFunc (pool_callbacks clear) = Inr"
  by (simp_all add: pool_callbacks_def)

lemma run_release:
  assumes r: "pcs w t = Ready"
  shows "run_events pt_can (pt_step clear) (replicate 6 (Go t)) (pt_goto t (Rel_check l k h) w) =
    rbind (ReleaseRef (pool_callbacks clear) h w) (\<lambda>(released, w). Inr (drop_end l k released w))"
proof -
  note sim = run_Go pt_go_def goto_same run_returned same_threads ReleaseRef_fetch ObjectPool_Release_def
  show ?thesis
  proof (cases "count_sub (who_of h) w")
    case (Inl e)
    then show ?thesis unfolding six using r by (auto simp: sim simp del: replicate_Suc)
  next
    case (Inr x)
    obtain n v where x: "x = (n, v)" by (cases x)
    have v: "pcs v t = Ready" using same_threads(2) Inr x r by metis
    show ?thesis
    proof (cases "n = 1")
      case False
      then show ?thesis unfolding six using Inr x r v by (auto simp: sim simp del: replicate_Suc)
    next
      case True
      show ?thesis
      proof (cases "run_deleter clear (who_of h) v")
        case (Inl e)
        then show ?thesis unfolding six using Inr x r v True
          by (auto simp: sim simp del: replicate_Suc)
      next
        case d: (Inr u)
        have "pcs u t = Ready" using same_threads(3) [OF d] v by simp
        then show ?thesis unfolding six using Inr x r v True d
          by (cases "Push h (p_set u)") (auto simp: sim simp del: replicate_Suc)
      qed
    qed
  qed
qed

lemma alone_Drop:
  assumes "pcs w t = Ready"
  shows "alone clear (Drop_ptr t l Dtor) w = Ptr_dtor (pool_callbacks clear) l w"
    and "alone clear (Drop_ptr t l Reset) w = rbind (Ptr_Reset (pool_callbacks clear) l w) (\<lambda>(_, w). Inr w)"
proof -
  have "pcs (set_ptr l null_ptr w) t = Ready" using assms by simp
  then show "alone clear (Drop_ptr t l Dtor) w = Ptr_dtor (pool_callbacks clear) l w"
    using assms by (cases "ReleaseRef (pool_callbacks clear) (sp_handle (p_ptrs w l)) w")
      (auto simp: alone_start Drop_start_def run_release Ptr_dtor_def drop_end_def rbind_assoc run_returned)
  show "alone clear (Drop_ptr t l Reset) w = rbind (Ptr_Reset (pool_callbacks clear) l w) (\<lambda>(_, w). Inr w)"
    using assms by (cases "ReleaseRef (pool_callbacks clear) (sp_handle (p_ptrs w l)) w")
      (auto simp: alone_start Drop_start_def run_release Ptr_Reset_def drop_end_def rbind_assoc run_returned)
qed

lemma alone_Acquire:
  assumes "pcs w t = Ready"
  shows "alone clear (Acquire_ptr t state l) w = Pool_Acquire state l w"
proof (cases "Pop state (p_set w)")
  case (Inr x)
  obtain h s where x: "x = (h, s)" by (cases x)
  let ?w = "w\<lparr>p_set := s\<rparr>"
  have r: "pcs ?w t = Ready" "pcs (set_ptr l null_ptr ?w) t = Ready" using assms by simp_all
  show ?thesis
  proof (cases "Pool_IsValid h ?w \<and> who_of h < length (p_slots w)")
    case True
    let ?v = "set_ptr l (live_ptr h) (?w\<lparr>p_slots := (p_slots w)[who_of h := (p_slots w ! who_of h)\<lparr>slot_handle := h\<rparr>]\<rparr>)"
    have "pcs ?v t = Ready" using assms by simp
    moreover have "Acquire_tail t l h (pt_goto t (Set_handle l h) ?w) = Inr (pt_goto t (Add_check l h None) ?v)"
      using True by (simp add: Acquire_tail_def pt_goto_def set_ptr_def)
    moreover have "Pool_Acquire state l w = rbind (AddRef h ?v) (\<lambda>(_, w). Inr w)"
      using Inr x True by (simp add: Pool_Acquire_def ObjectPool_Acquire_def Ptr_ctor_def Let_def)
    ultimately show ?thesis
      unfolding alone_start [of w "Acquire_ptr t state l", simplified, OF assms] six
      using Inr x True r(1)
      by (cases "count_add (who_of h) ?v")
        (auto simp: Acquire_locked_def Let_def ObjectPool_Acquire_def run_Go pt_go_def AddRef_fetch rbind_assoc
          goto_same run_returned same_threads(1) simp del: replicate_Suc)
  next
    case False
    then show ?thesis using Inr x assms r
      by (auto simp: alone_start Acquire_locked_def Pool_Acquire_def Let_def Ptr_ctor_null_def run_returned
          ObjectPool_Acquire_def aget_def)
  qed
qed (use assms in \<open>simp add: alone_start Acquire_locked_def Pool_Acquire_def\<close>)

text \<open>
  Assignment under threads. Copy assignment moves the old value into a local, copies, and releases the local; move
  assignment releases and moves. Between these operations other threads may run.
\<close>

fun alone_all :: "('a \<Rightarrow> 'a) \<Rightarrow> 'l pt_event list \<Rightarrow> ('a, 'l) tpool \<Rightarrow> ('a, 'l) tpool res" where
  "alone_all clear [] w = Inr w"
| "alone_all clear (e # es) w = rbind (alone clear e w) (alone_all clear es)"

definition copy_assign_events :: "nat \<Rightarrow> 'l \<Rightarrow> 'l \<Rightarrow> 'l \<Rightarrow> 'l pt_event list" where
  "copy_assign_events t current l other = [Move_ptr t current l, Copy_ptr t l other, Drop_ptr t current Dtor]"

definition move_assign_events :: "nat \<Rightarrow> 'l \<Rightarrow> 'l \<Rightarrow> 'l pt_event list" where
  "move_assign_events t l other = [Drop_ptr t l Dtor, Move_ptr t l other]"

lemma set_ptr_pool:
  "Pool_IsValid h (set_ptr l q w) = Pool_IsValid h w"
  "count_add i (set_ptr l q w) = rbind (count_add i w) (\<lambda>w. Inr (set_ptr l q w))"
  "count_sub i (set_ptr l q w) = rbind (count_sub i w) (\<lambda>(n, w). Inr (n, set_ptr l q w))"
  "run_deleter clear i (set_ptr l q w) = rbind (run_deleter clear i w) (\<lambda>w. Inr (set_ptr l q w))"
  "(set_ptr l q w)\<lparr>p_set := s\<rparr> = set_ptr l q (w\<lparr>p_set := s\<rparr>)"
  by (cases w; simp add: Pool_IsValid_def set_ptr_def count_add_def count_sub_def put_refCount_def ObjectPool_Get_def
      run_deleter_def rbind_assoc)+

lemma AddRef_past_ptr: "AddRef h (set_ptr l q w) = rbind (AddRef h w) (\<lambda>(b, w). Inr (b, set_ptr l q w))"
  by (simp add: AddRef_fetch set_ptr_pool rbind_assoc)

lemma ReleaseRef_past_ptr:
  "ReleaseRef (pool_callbacks clear) h (set_ptr l q w) =
    rbind (ReleaseRef (pool_callbacks clear) h w) (\<lambda>(b, w). Inr (b, set_ptr l q w))"
proof (cases "count_sub (who_of h) w")
  case (Inr x)
  obtain n v where x: "x = (n, v)" by (cases x)
  show ?thesis
  proof (cases "run_deleter clear (who_of h) v")
    case d: (Inr u)
    then show ?thesis using Inr x by (cases "Push h (p_set u)") (auto simp: ReleaseRef_fetch set_ptr_pool)
  qed (use Inr x in \<open>simp add: ReleaseRef_fetch set_ptr_pool\<close>)
qed (simp add: ReleaseRef_fetch set_ptr_pool)

lemma refs_keep_ptrs:
  "AddRef h w = Inr (b, w') \<Longrightarrow> p_ptrs w' = p_ptrs w \<and> pcs w' = pcs w"
  "ReleaseRef (pool_callbacks clear) h w = Inr (b, w') \<Longrightarrow> p_ptrs w' = p_ptrs w \<and> pcs w' = pcs w"
  by (auto simp: AddRef_fetch ReleaseRef_fetch count_add_def count_sub_def put_refCount_def run_deleter_def ObjectPool_Get_def
      rbind_eq_Inr_iff split: if_splits prod.splits)

lemma alone_Move: "pcs w t = Ready \<Longrightarrow> alone clear (Move_ptr t l other) w = Inr (Ptr_move l other w)"
  by (simp add: alone_start run_returned Ptr_move_def)

text \<open>Releasing a local that holds a copied pointer value.\<close>

lemma dtor_of_local:
  fixes v :: "('a, 'l) tpool"
  assumes "p_ptrs v l = null_ptr"
  shows "Ptr_dtor (pool_callbacks clear) l (set_ptr l p v) =
    (if sp_pool p then rbind (ReleaseRef (pool_callbacks clear) (sp_handle p) v) (\<lambda>(_, w). Inr w) else Inr v)"
proof -
  have restored: "set_ptr l null_ptr (set_ptr l p u) = u" if "p_ptrs u = p_ptrs v" for u :: "('a, 'l) tpool"
    using assms that by (simp add: set_ptr_def fun_upd_idem)
  show ?thesis
  proof (cases "sp_pool p \<and> Pool_IsValid (sp_handle p) v")
    case True
    then show ?thesis using refs_keep_ptrs(2) [of clear "sp_handle p" v] restored
      by (cases "ReleaseRef (pool_callbacks clear) (sp_handle p) v")
        (auto simp: Ptr_dtor_def Ptr_IsValid_def set_ptr_pool(1) ReleaseRef_past_ptr)
  next
    case False
    then have "Ptr_dtor (pool_callbacks clear) l (set_ptr l p v) = Inr v"
      using restored [OF refl] by (auto simp: Ptr_dtor_def Ptr_IsValid_def set_ptr_pool(1))
    moreover have "\<not> Pool_IsValid (sp_handle p) v \<Longrightarrow> ReleaseRef (pool_callbacks clear) (sp_handle p) v = Inr (False, v)"
      by (simp add: ReleaseRef_def)
    ultimately show ?thesis using False by auto
  qed
qed

lemma alone_copy_assign:
  fixes w :: "('a, 'l) tpool"
  assumes "pcs w t = Ready" "l \<noteq> other" "current \<noteq> l" "current \<noteq> other" "p_ptrs w current = null_ptr"
  shows "alone_all clear (copy_assign_events t current l other) w = Ptr_copy_assign (pool_callbacks clear) l other w"
proof -
  let ?old = "p_ptrs w l" and ?new = "p_ptrs w other"
  let ?v = "set_ptr l ?new w"
  let ?add = "\<lambda>v. if sp_pool ?new then rbind (AddRef (sp_handle ?new) v) (\<lambda>(_, w). Inr w) else Inr v"
  have moved: "set_ptr l ?new (Ptr_move current l w) = set_ptr current ?old ?v"
    using assms(3) by (auto simp: Ptr_move_def set_ptr_def fun_upd_twist)
  have "Ptr_copy l other (Ptr_move current l w) = ?add (set_ptr current ?old ?v)"
    using assms(2,4) moved by (simp add: Ptr_copy_def Let_def) (simp add: Ptr_move_def set_ptr_def)
  then have copied: "Ptr_copy l other (Ptr_move current l w) = rbind (?add ?v) (\<lambda>v. Inr (set_ptr current ?old v))"
    by (simp add: AddRef_past_ptr rbind_assoc split_beta)
  have kept: "p_ptrs v = p_ptrs ?v \<and> pcs v = pcs w" if "?add ?v = Inr v" for v
    using that refs_keep_ptrs(1) by (fastforce simp: rbind_eq_Inr_iff split: if_splits)
  have r: "pcs (Ptr_move current l w) t = Ready" using assms(1) by (simp add: Ptr_move_def)
  show ?thesis
  proof (cases "?add ?v")
    case (Inl e)
    then show ?thesis using copied assms(1,2) r
      by (simp add: copy_assign_events_def alone_Move alone_Copy Ptr_copy_assign_def Let_def)
  next
    case (Inr v)
    have p: "p_ptrs v current = null_ptr" "pcs (set_ptr current ?old v) t = Ready"
      using kept [OF Inr] assms(1,3,5) by (simp_all add: set_ptr_def)
    have "alone_all clear (copy_assign_events t current l other) w = Ptr_dtor (pool_callbacks clear) current (set_ptr current ?old v)"
      using copied Inr assms(1,2) r p(2) by (simp add: copy_assign_events_def alone_Move alone_Copy alone_Drop rbind_def split: sum.splits)
    then show ?thesis using dtor_of_local [OF p(1)] Inr assms(2) by (simp add: Ptr_copy_assign_def Let_def)
  qed
qed

lemma alone_move_assign:
  fixes w :: "('a, 'l) tpool"
  assumes "pcs w t = Ready" "l \<noteq> other"
  shows "alone_all clear (move_assign_events t l other) w = Ptr_move_assign (pool_callbacks clear) l other w"
proof -
  have move: "Ptr_move l other (set_ptr l null_ptr u) = set_ptr other null_ptr (set_ptr l (p_ptrs w other) u)"
    if "p_ptrs u = p_ptrs w" for u :: "('a, 'l) tpool"
    using assms(2) that by (auto simp: Ptr_move_def set_ptr_def)
  show ?thesis
  proof (cases "Ptr_IsValid l w")
    case True
    then show ?thesis using assms refs_keep_ptrs(2) [of clear "sp_handle (p_ptrs w l)" w] move
      by (cases "ReleaseRef (pool_callbacks clear) (sp_handle (p_ptrs w l)) w")
        (auto simp: move_assign_events_def alone_Drop alone_Move Ptr_dtor_def Ptr_move_assign_def Ptr_IsValid_def)
  next
    case False
    then show ?thesis using assms move [OF refl]
      by (auto simp: move_assign_events_def alone_Drop alone_Move Ptr_dtor_def Ptr_move_assign_def Ptr_IsValid_def ReleaseRef_def)
  qed
qed

section \<open>A sample pool\<close>

text \<open>One slot, in states 0 (idle) and 1; pointer 1 belongs to thread 2, the others to thread 1.\<close>

definition sample_tpool :: "(nat, nat) tpool" where
  "sample_tpool = \<lparr>p_set = SparseSet 1 2, p_slots = [\<lparr>obj = 7, slot_handle = 0, refCount = 0\<rparr>],
     p_ptrs = \<lambda>_. null_ptr, pcs = \<lambda>_. Ready, owner = \<lambda>l. if l = 1 then 2 else 1\<rparr>"

definition pool_run :: "nat pt_event list \<Rightarrow> (nat, nat) tpool res" where
  "pool_run = (\<lambda>es. run_events pt_can (pt_step (\<lambda>_. 0)) es sample_tpool)"

text \<open>What two threads and their pointers 0 and 1 are, with the count and the state of the slot; or the fault.\<close>

definition glance :: "(nat, nat) tpool res \<Rightarrow> fault + nat pt_pc list \<times> sptr list \<times> nat \<times> nat" where
  "glance r = (case r of Inl e \<Rightarrow> Inl e
     | Inr w \<Rightarrow> Inr (map (pcs w) [1, 2], map (p_ptrs w) [0, 1], count w 0, state_of (p_set w) 0))"

text \<open>Runs that keep the discipline, without \<^verbatim>\<open>Reset\<close>.\<close>

fun own_plain :: "'l pt_event \<Rightarrow> ('a, 'l) tpool \<Rightarrow> bool" where
  "own_plain (Acquire_ptr t state l) w = (owner w l = t \<and> p_ptrs w l = null_ptr \<and> 0 < state)"
| "own_plain (Copy_ptr t l other) w = (owner w l = t \<and> owner w other = t \<and> l \<noteq> other \<and> p_ptrs w l = null_ptr)"
| "own_plain (Move_ptr t l other) w = (owner w l = t \<and> owner w other = t \<and> l \<noteq> other \<and> p_ptrs w l = null_ptr)"
| "own_plain (Drop_ptr t l k) w = (owner w l = t \<and> k = Dtor)"
| "own_plain (Test_ptr t l) w = (owner w l = t)"
| "own_plain (Move_slot t l newState) w = (owner w l = t \<and> sp_pool (p_ptrs w l) \<and> 0 < newState)"
| "own_plain (Hand_over t l u) w = (owner w l = t)"
| "own_plain (Go t) w = True"

lemma own_plain_can: "own_plain e w \<Longrightarrow> pt_can e w \<Longrightarrow> own_can e w"
  by (cases e) (auto simp: own_can_def own_only_def)

fun plain_run :: "nat pt_event list \<Rightarrow> (nat, nat) tpool \<Rightarrow> (nat, nat) tpool option" where
  "plain_run [] w = Some w"
| "plain_run (e # es) w =
     (if own_plain e w \<and> pt_can e w then
        case pt_step (\<lambda>_. 0) e w of Inl _ \<Rightarrow> None | Inr w' \<Rightarrow> plain_run es w'
      else None)"

abbreviation pool_reach :: "(nat, nat) tpool \<Rightarrow> bool" where
  "pool_reach \<equiv> reach pt_init (event_trans own_can (pt_step (\<lambda>_. 0)))"

lemma plain_run_reach: "pool_reach w \<Longrightarrow> plain_run es w = Some w' \<Longrightarrow> pool_reach w'"
proof (induction es arbitrary: w)
  case (Cons e es)
  then obtain v where "own_can e w" "pt_step (\<lambda>_. 0) e w = Inr v" "plain_run es v = Some w'"
    using own_plain_can by (auto split: if_splits sum.splits)
  moreover from this have "event_trans own_can (pt_step (\<lambda>_. 0)) w v" by (auto simp: event_trans_def)
  ultimately show ?case using Cons.IH reach_step [OF Cons.prems(1)] by blast
qed simp

definition plain_state :: "nat pt_event list \<Rightarrow> (nat, nat) tpool" where
  "plain_state es = the (plain_run es sample_tpool)"

lemma plain_state_reach: "plain_run es sample_tpool \<noteq> None \<Longrightarrow> pool_reach (plain_state es)"
proof -
  have "pt_init sample_tpool"
    by (simp add: pt_init_def sample_tpool_def, rule exI [of _ 2]) simp
  then show "plain_run es sample_tpool \<noteq> None \<Longrightarrow> pool_reach (plain_state es)"
    using plain_run_reach [OF reach_init] by (auto simp: plain_state_def)
qed

lemma plain_run_ends: "plain_run es sample_tpool \<noteq> None \<longleftrightarrow> \<not> Option.is_none (plain_run es sample_tpool)"
  by (auto simp: Option.is_none_def)

text \<open>A step of a thread leaves the program counters of the others.\<close>

lemma same_threads_set: "pcs (w\<lparr>p_set := s\<rparr>) = pcs w" "pcs (w\<lparr>p_slots := sl\<rparr>) = pcs w"
  by simp_all

lemma pt_go_others: "pt_go clear t w = Inr w' \<Longrightarrow> u \<noteq> t \<Longrightarrow> pcs w' u = pcs w u"
  by (cases "pcs w t")
    (auto simp: pt_go_def Acquire_tail_def rbind_eq_Inr_iff ObjectPool_Release_def same_threads split: if_splits)

lemma pt_step_others: "pt_step clear e w = Inr w' \<Longrightarrow> u \<noteq> pt_thread e \<Longrightarrow> pcs w' u = pcs w u"
  by (cases e)
    (auto simp: Acquire_locked_def Copy_start_def Drop_start_def Ptr_move_def Pool_MoveToState_def Ptr_ctor_null_def
      Let_def rbind_eq_Inr_iff pt_go_others split: if_splits drop_kind.splits)

lemma plain_run_others: "plain_run es w = Some w' \<Longrightarrow> \<forall>e\<in>set es. pt_thread e \<noteq> u \<Longrightarrow> pcs w' u = pcs w u"
  by (induction es arbitrary: w) (auto split: if_splits sum.splits dest!: pt_step_others [of _ _ _ _ u])

text \<open>Thread 2 is releasing its pointer to the object that thread 1 holds too; thread 1 is releasing the only pointer.\<close>

definition sharing :: "(nat, nat) tpool" where
  "sharing = plain_state [Acquire_ptr 1 1 0, Go 1, Go 1, Go 1, Copy_ptr 1 2 0, Go 1, Go 1, Hand_over 1 2 2,
     Drop_ptr 2 2 Dtor, Go 2]"

definition retiring :: "(nat, nat) tpool" where
  "retiring = plain_state [Acquire_ptr 1 1 0, Go 1, Go 1, Go 1, Drop_ptr 1 0 Dtor, Go 1, Go 1, Go 1]"

section \<open>Properties\<close>

text \<open>
  C5: the pool under threads never faults. In every state that any interleaving of the threads' atomic steps reaches, every
  step a thread can take and every operation it can start on its own pointers goes through: no access is outside an
  array, no null pointer is dereferenced, and the next state satisfies the invariant again.
\<close>

theorem pool_threads_safe:
  assumes "reach pt_init (event_trans own_can (pt_step clear)) w" and "own_can e w"
  shows "\<exists>w'. pt_step clear e w = Inr w' \<and> counted (uncounted w') (\<lambda>_. 0) w' \<and> (\<forall>i<cap w'. slot_ok w' i)"
  using ti_event [OF pt.reach_I [OF assms(1)] assms(2)] unfolding ti_def by blast

theorem pool_threads_safe_witness:
  "\<exists>w'. pt_step (\<lambda>_. 0) (Go 1) (plain_state [Acquire_ptr 1 1 0, Go 1]) = Inr w' \<and>
     counted (uncounted w') (\<lambda>_. 0) w' \<and> (\<forall>i<cap w'. slot_ok w' i)"
proof (rule pool_threads_safe)
  show "pool_reach (plain_state [Acquire_ptr 1 1 0, Go 1])"
    by (rule plain_state_reach, unfold plain_run_ends) code_simp
  show "own_can (Go 1) (plain_state [Acquire_ptr 1 1 0, Go 1])"
    by (rule own_plain_can) code_simp+
qed

text \<open>
  A pointer keeps its object alive against all other threads. While a thread is between two operations, each non-null pointer
  of its own dereferences to a slot that is in use and counted, and that no thread is publishing, clearing or giving back.
\<close>

lemma own_pointer_stays_live:
  assumes "reach pt_init (event_trans own_can (pt_step clear)) w"
    and "pcs w (owner w l) = Ready" and "sp_pool (p_ptrs w l)"
  shows "\<exists>i. Ptr_deref l w = Inr i \<and> state_of (p_set w) i \<noteq> 0 \<and> 0 < count w i \<and> (\<forall>t. \<not> pc_holds (pcs w t) i)"
proof -
  note I = pt.reach_I [OF assms(1)]
  have l: "l \<notin> uncounted w" by (rule ready_counted [OF I assms(2)])
  note C = counted_ptr [OF I l sptr_eq [OF assms(3)]]
  show ?thesis using own_deref [OF I l assms(3)] C live_handleD [OF C(1)] by blast
qed

text \<open>
  C29: releasing is exclusive. When a thread has taken the last reference away and is about to run the deleter or to give
  the slot back, no other thread is using the handle in any operation, and no pointer still pc_holds it except the one being destroyed and
  those whose own destructor has already let go: the deleter runs once per acquisition, and alone.
\<close>

theorem release_exclusive:
  assumes "reach pt_init (event_trans own_can (pt_step clear)) w"
    and "pcs w t = Clear l k h \<or> pcs w t = Push_slot l k h"
  shows "count w (who_of h) = 0 \<and> IsValid h (p_set w) \<and> (\<forall>u. u \<noteq> t \<longrightarrow> pc_handle (pcs w u) \<noteq> Some h) \<and>
    (\<forall>m. p_ptrs w m = live_ptr h \<longrightarrow> m = l \<or> (\<exists>u kk b. pcs w u = Finish m kk b))"
proof -
  note I = pt.reach_I [OF assms(1)]
  have ht: "pc_holds (pcs w t) (who_of h)" "pc_handle (pcs w t) = Some h" "pc_ptr (pcs w t) = Some l" using assms(2) by auto
  note h = live_handleD [OF tiD(5) [OF I ht(2)]]
  have z: "count w (who_of h) = 0" using slot_okD(2) [OF tiD(6) [OF I] ht(1)] h by blast
  have others: "pc_handle (pcs w u) \<noteq> Some h" if "u \<noteq> t" for u
    using handle_kept [OF I, of u h] others_do_not_hold [OF I ht(2) that] z by auto
  have "m = l \<or> (\<exists>u kk b. pcs w u = Finish m kk b)" if m: "p_ptrs w m = live_ptr h" for m
  proof -
    have "m \<in> uncounted w" using counted_ptr(2) [OF I _ m] z by fastforce
    then obtain u where u: "pc_uncounted (pcs w u)" "pc_ptr (pcs w u) = Some m" by (auto simp: uncounted_def)
    show ?thesis
    proof (cases "u = t")
      case False
      show ?thesis using u others [OF False] tiD(4) [OF I, of u] m by (cases "pcs w u") auto
    qed (use u ht in simp)
  qed
  then show ?thesis using z h others by blast
qed

theorem release_exclusive_witness:
  "count retiring (who_of 0) = 0 \<and> IsValid 0 (p_set retiring) \<and> pc_handle (pcs retiring 2) \<noteq> Some 0"
proof -
  have r: "pool_reach retiring"
    unfolding retiring_def by (rule plain_state_reach, unfold plain_run_ends) code_simp
  have p: "pcs retiring 1 = Clear 0 Dtor 0 \<or> pcs retiring 1 = Push_slot 0 Dtor 0" by (rule disjI2) code_simp
  show ?thesis using release_exclusive [OF r p] by simp
qed

text \<open>
  Nothing is lost between the threads. In every reachable state in which all threads are between operations, every count is
  the number of the pointers to the slot's object, the slots nobody points to are exactly the idle ones, and
  every non-null pointer is valid.
\<close>

lemma pool_threads_exact:
  assumes "reach pt_init (event_trans own_can (pt_step clear)) w" and "\<forall>t. pcs w t = Ready"
  shows "pinv {} (\<lambda>_. 0) w"
proof -
  note I = pt.reach_I [OF assms(1)]
  have "uncounted w = {}" using assms(2) by (simp add: uncounted_def)
  moreover have "state_of (p_set w) i = 0 \<longleftrightarrow> count w i = 0" if "i < cap w" for i
    using tiD(6) [OF I that] assms(2) by (auto simp: slot_ok_def)
  ultimately show ?thesis using tiD(1) [OF I] by (simp add: pinv_def)
qed

text \<open>
  C30: the atomic steps are the operations of the sequential model. A thread that runs alone from the start of an operation to its
  return leaves exactly the state, or ends in exactly the fault, of \<^verbatim>\<open>Acquire\<close>, the copy constructor, the destructor
  and \<^verbatim>\<open>Reset\<close>; the assignments are three and two of these operations, with an unused local for the old value.
\<close>

theorem atomic_steps_sequential:
  assumes "pcs w t = Ready" "l \<noteq> other" "current \<noteq> l" "current \<noteq> other" "p_ptrs w current = null_ptr"
  shows "alone clear (Acquire_ptr t state l) w = Pool_Acquire state l w \<and>
    alone clear (Copy_ptr t l other) w = Ptr_copy l other w \<and>
    alone clear (Drop_ptr t l Dtor) w = Ptr_dtor (pool_callbacks clear) l w \<and>
    alone clear (Drop_ptr t l Reset) w = rbind (Ptr_Reset (pool_callbacks clear) l w) (\<lambda>(_, w). Inr w) \<and>
    alone_all clear (copy_assign_events t current l other) w = Ptr_copy_assign (pool_callbacks clear) l other w \<and>
    alone_all clear (move_assign_events t l other) w = Ptr_move_assign (pool_callbacks clear) l other w"
  using alone_Acquire [OF assms(1)] alone_Copy [OF assms(1,2)] alone_Drop [OF assms(1)] alone_copy_assign [OF assms]
    alone_move_assign [OF assms(1,2)] by blast

theorem atomic_steps_sequential_witness:
  "alone (\<lambda>_. 0) (Acquire_ptr 1 1 0) sample_tpool = Pool_Acquire 1 0 sample_tpool \<and>
   alone_all (\<lambda>_. 0) (copy_assign_events 1 3 0 2) sample_tpool = Ptr_copy_assign (pool_callbacks (\<lambda>_. 0)) 0 2 sample_tpool"
proof -
  have "pcs sample_tpool 1 = Ready" "p_ptrs sample_tpool 3 = null_ptr" by (simp_all add: sample_tpool_def)
  then show ?thesis using atomic_steps_sequential [of sample_tpool 1 0 2 3 "\<lambda>_. 0" 1] by simp
qed

text \<open>
  What the discipline is for. \<^verbatim>\<open>SessionManager::Broadcast\<close> tests an entry of \<^verbatim>\<open>sessionPtrs_\<close>, to which it
  holds no reference, and then dereferences it; \<^verbatim>\<open>GetSession\<close> copies such an entry. If the thread that owns the entry's last reference
  lets go in between, the first dereferences null, and the second counts a reference to a slot that is idle
  again: the slot is never released after its next use, although no pointer is left.
\<close>

lemma foreign_pointer_races:
  "glance (pool_run [Acquire_ptr 1 1 0, Go 1, Go 1, Go 1, Test_ptr 2 0,
     Drop_ptr 1 0 Dtor, Go 1, Go 1, Go 1, Go 1, Go 1, Go 2]) = Inl Null_deref \<and>
   glance (pool_run [Acquire_ptr 1 1 0, Go 1, Go 1, Go 1, Copy_ptr 2 1 0, Go 2,
     Drop_ptr 1 0 Dtor, Go 1, Go 1, Go 1, Go 1, Go 1, Go 2, Drop_ptr 2 1 Dtor,
     Acquire_ptr 1 1 0, Go 1, Go 1, Go 1, Drop_ptr 1 0 Dtor, Go 1, Go 1, Go 1]) =
     Inr ([Ready, Ready], [null_ptr, null_ptr], 1, 1)"
  by (rule conjI) code_simp+

end
