(* ===== verification/Manager_Shutdown.thy ===== *)
theory Manager_Shutdown
  imports Ref_Pool
begin

text \<open>
  The destructor of \<^verbatim>\<open>SessionManager\<close> (\<^verbatim>\<open>Network/Server/SessionManager.hpp\<close>), as the destructor of
  \<^verbatim>\<open>ServerService\<close> runs it, after the one of the listener: first the pointers of \<^verbatim>\<open>sessionPtrs_\<close>, then the
  sessions of the pool, whose overlapped structures hold pointers to sessions themselves. What is
  kept of a session is which of its three buffers are still mapped.
\<close>

section \<open>State and operations\<close>

record session_memory =
  read_mapped :: bool
  write_mapped :: bool
  disconnect_mapped :: bool

datatype member_ptr = Table nat | ReadOv nat | WriteOv nat | DisconnectOv nat

type_synonym manager = "(session_memory, member_ptr) pool"

text \<open>\<^verbatim>\<open>OverlappedEx::Reset\<close> clears the buffer before it resets the pointer.\<close>

definition Ov_Reset ::
  "manager callbacks \<Rightarrow> (session_memory \<Rightarrow> bool) \<Rightarrow> member_ptr \<Rightarrow> nat \<Rightarrow> manager \<Rightarrow> manager res" where
  "Ov_Reset cb mapped l i w =
     rbind (aget (p_slots w) i) (\<lambda>slot.
     if \<not> mapped (obj slot) then Inl Destroyed_object
     else rbind (Ptr_Reset cb l w) (\<lambda>(_, w). Inr w))"

text \<open>
  The deleter (\<^verbatim>\<open>SessionManager.cpp:15\<close>), which may release pointers itself, to a depth that the proofs do not depend on;
  and the function set in \<^verbatim>\<open>Init\<close>, which calls \<^verbatim>\<open>PostAccept\<close> on the listener, a destroyed object by now.
\<close>

fun shutdown_cb :: "nat \<Rightarrow> manager callbacks" where
  "shutdown_cb 0 = \<lparr>deleter = \<lambda>_ _. Inl Call_depth, postReleaseFunc = \<lambda>_. Inl Destroyed_object\<rparr>"
| "shutdown_cb (Suc n) = \<lparr>
     deleter = \<lambda>i w. rbind (Ov_Reset (shutdown_cb n) read_mapped (ReadOv i) i w)
       (Ov_Reset (shutdown_cb n) write_mapped (WriteOv i) i),
     postReleaseFunc = \<lambda>_. Inl Destroyed_object\<rparr>"

fun rfold :: "('a \<Rightarrow> 'w \<Rightarrow> 'w res) \<Rightarrow> 'a list \<Rightarrow> 'w \<Rightarrow> 'w res" where
  "rfold f [] w = Inr w"
| "rfold f (x # xs) w = rbind (f x w) (rfold f xs)"

text \<open>The destructor of an overlapped structure: its pointer, declared after the buffer, then the buffer.\<close>

definition Ov_dtor ::
  "manager callbacks \<Rightarrow> (session_memory \<Rightarrow> session_memory) \<Rightarrow> member_ptr \<Rightarrow> nat \<Rightarrow> manager \<Rightarrow> manager res" where
  "Ov_dtor cb unmap l i w =
     rbind (Ptr_dtor cb l w) (\<lambda>w.
     rbind (aget (p_slots w) i) (\<lambda>slot.
     rbind (aset (p_slots w) i (slot\<lparr>obj := unmap (obj slot)\<rparr>)) (\<lambda>sl.
     Inr (w\<lparr>p_slots := sl\<rparr>))))"

definition Session_dtor :: "manager callbacks \<Rightarrow> nat \<Rightarrow> manager \<Rightarrow> manager res" where
  "Session_dtor cb i w =
     rbind (Ov_dtor cb (disconnect_mapped_update (\<lambda>_. False)) (DisconnectOv i) i w) (\<lambda>w.
     rbind (Ov_dtor cb (write_mapped_update (\<lambda>_. False)) (WriteOv i) i w) (\<lambda>w.
     Ov_dtor cb (read_mapped_update (\<lambda>_. False)) (ReadOv i) i w))"

definition SessionManager_dtor :: "manager callbacks \<Rightarrow> manager \<Rightarrow> manager res" where
  "SessionManager_dtor cb w =
     rbind (rfold (\<lambda>i. Ptr_dtor cb (Table i)) (rev [0..<cap w]) w) (\<lambda>v.
     rfold (Session_dtor cb) [0..<cap w] v)"

section \<open>Destroying pointers when the last release cannot go through\<close>

lemma last_release_fails:
  assumes cb: "postReleaseFunc cb = (\<lambda>_. Inl e0)" and v: "IsValid h (p_set w)" and n: "count w (who_of h) = 1"
    and len: "who_of h < length (p_slots w)"
  shows "\<exists>e. ReleaseRef cb h w = Inl e"
proof (cases "deleter cb (who_of h) (set_count (who_of h) 0 w)")
  case (Inr w2)
  then show ?thesis
    using v n len cb by (cases "Push h (p_set w2)")
      (auto simp: ReleaseRef_def Pool_IsValid_def ObjectPool_Get_def put_refCount_ok ObjectPool_Release_def Let_def)
qed (use v n len in \<open>auto simp: ReleaseRef_def Pool_IsValid_def ObjectPool_Get_def put_refCount_ok ObjectPool_Release_def Let_def\<close>)

text \<open>What the destruction of pointers keeps: exact counts, and the slots in use stay in use.\<close>

definition still_used :: "manager \<Rightarrow> manager \<Rightarrow> bool" where
  "still_used w w' \<longleftrightarrow> pinv {} (\<lambda>_. 0) w' \<and> cap w' = cap w \<and> (\<forall>i<cap w. 0 < count w i \<longrightarrow> 0 < count w' i) \<and>
     (\<forall>l. p_ptrs w l = null_ptr \<longrightarrow> p_ptrs w' l = null_ptr)"

lemma still_used_trans: "still_used u v \<Longrightarrow> still_used v w \<Longrightarrow> still_used u w"
  by (simp add: still_used_def)

lemma dtor_still_used:
  assumes cb: "postReleaseFunc cb = (\<lambda>_. Inl e0)" and p: "pinv {} (\<lambda>_. 0) w" and d: "Ptr_dtor cb l w = Inr w'"
  shows "still_used w w'" "p_ptrs w' l = null_ptr" "p_ptrs w l = null_ptr \<Longrightarrow> w' = w"
proof -
  note c = pinvD [OF p]
  have "l \<notin> {}" by simp
  with c have "still_used w w' \<and> p_ptrs w' l = null_ptr \<and> (p_ptrs w l = null_ptr \<longrightarrow> w' = w)"
  proof (cases rule: live_or_null)
    case null
    then have "set_ptr l null_ptr w = w" by (simp add: set_ptr_def fun_upd_idem)
    then show ?thesis using d null p by (simp add: Ptr_dtor_def Ptr_IsValid_def still_used_def)
  next
    case (live h)
    have len: "who_of h < length (p_slots w)" using live(3) countedD(2) [OF c] by simp
    have n: "count w (who_of h) \<noteq> 1"
      using last_release_fails [OF cb live(2) _ len] d live(1,2) by (auto simp: Ptr_dtor_def Ptr_IsValid_def Pool_IsValid_def)
    then have n2: "2 \<le> count w (who_of h)" using live_counts(1) [OF c live(1)] by simp
    then have s: "shared l w" using live(1) by (simp add: shared_def)
    have w': "w' = set_ptr l null_ptr (set_count (who_of h) (count w (who_of h) - 1) w)"
      using drop_shared(1) [OF p _ live(1) s, of cb] d live(1,2) by (simp add: Ptr_dtor_def Ptr_IsValid_def Pool_IsValid_def)
    then have "pinv {} (\<lambda>_. 0) w'" using drop_shared(2) [OF p _ live(1) s] by simp
    then show ?thesis using w' n2 len live(1) by (auto simp: still_used_def)
  qed
  then show "still_used w w'" "p_ptrs w' l = null_ptr" "p_ptrs w l = null_ptr \<Longrightarrow> w' = w" by blast+
qed

text \<open>Unmapping a buffer does not touch the pool.\<close>

lemma Ov_dtor_still_used:
  assumes cb: "postReleaseFunc cb = (\<lambda>_. Inl e0)" and p: "pinv {} (\<lambda>_. 0) w" and d: "Ov_dtor cb unmap l i w = Inr w'"
  shows "still_used w w'" "p_ptrs w' l = null_ptr"
proof -
  obtain v where v: "Ptr_dtor cb l w = Inr v" and i: "i < length (p_slots v)"
    and w': "w' = v\<lparr>p_slots := (p_slots v)[i := (p_slots v ! i)\<lparr>obj := unmap (obj (p_slots v ! i))\<rparr>]\<rparr>"
    using d by (auto simp: Ov_dtor_def rbind_eq_Inr_iff aget_eq_Inr_iff aset_eq_Inr_iff)
  note D = dtor_still_used [OF cb p v]
  have s: "same_pool v w'" using w' by (simp add: same_pool_def map_update_same)
  have "pinv {} (\<lambda>_. 0) w'" using D(1) same_pool_pinv [OF s] by (simp add: still_used_def)
  moreover have "j < cap w \<Longrightarrow> count w' j = count v j" for j
    using w' i by (cases "j = i") simp_all
  ultimately show "still_used w w'" using D(1) w' by (auto simp: still_used_def)
  show "p_ptrs w' l = null_ptr" using D(2) w' by simp
qed

lemma Session_dtor_still_used:
  assumes cb: "postReleaseFunc cb = (\<lambda>_. Inl e0)" and p: "pinv {} (\<lambda>_. 0) w" and d: "Session_dtor cb i w = Inr w'"
  shows "still_used w w'" "\<forall>l\<in>{DisconnectOv i, WriteOv i, ReadOv i}. p_ptrs w' l = null_ptr"
proof -
  obtain u v where u: "Ov_dtor cb (disconnect_mapped_update (\<lambda>_. False)) (DisconnectOv i) i w = Inr u"
    and v: "Ov_dtor cb (write_mapped_update (\<lambda>_. False)) (WriteOv i) i u = Inr v"
    and w': "Ov_dtor cb (read_mapped_update (\<lambda>_. False)) (ReadOv i) i v = Inr w'"
    using d unfolding Session_dtor_def by (auto simp: rbind_eq_Inr_iff)
  note U = Ov_dtor_still_used [OF cb p u]
  note V = Ov_dtor_still_used [OF cb U(1) [unfolded still_used_def, THEN conjunct1] v]
  note W = Ov_dtor_still_used [OF cb V(1) [unfolded still_used_def, THEN conjunct1] w']
  show "still_used w w'" using still_used_trans [OF still_used_trans [OF U(1) V(1)] W(1)] .
  show "\<forall>l\<in>{DisconnectOv i, WriteOv i, ReadOv i}. p_ptrs w' l = null_ptr"
    using U(2) V W by (auto simp: still_used_def)
qed

lemma rfold_still_used:
  assumes step: "\<And>x w w'. pinv {} (\<lambda>_. 0) w \<Longrightarrow> f x w = Inr w' \<Longrightarrow> still_used w w' \<and> (\<forall>l\<in>L x. p_ptrs w' l = null_ptr)"
    and p: "pinv {} (\<lambda>_. 0) w" and d: "rfold f xs w = Inr w'"
  shows "still_used w w'" "\<forall>x\<in>set xs. \<forall>l\<in>L x. p_ptrs w' l = null_ptr"
proof -
  have "still_used w w' \<and> (\<forall>x\<in>set xs. \<forall>l\<in>L x. p_ptrs w' l = null_ptr)"
    using p d
  proof (induction xs arbitrary: w)
    case Nil
    then show ?case by (simp add: still_used_def)
  next
    case (Cons x xs)
    then obtain v where v: "f x w = Inr v" "rfold f xs v = Inr w'" by (auto simp: rbind_eq_Inr_iff)
    note S = step [OF Cons.prems(1) v(1)]
    then have "pinv {} (\<lambda>_. 0) v" by (simp add: still_used_def)
    from Cons.IH [OF this v(2)] S show ?case by (auto simp: still_used_def)
  qed
  then show "still_used w w'" "\<forall>x\<in>set xs. \<forall>l\<in>L x. p_ptrs w' l = null_ptr" by blast+
qed

fun member_index :: "member_ptr \<Rightarrow> nat" where
  "member_index (Table i) = i"
| "member_index (ReadOv i) = i"
| "member_index (WriteOv i) = i"
| "member_index (DisconnectOv i) = i"

text \<open>If the whole destructor runs, all pointers are gone, and then no slot can have been in use.\<close>

lemma shutdown_means_idle:
  assumes cb: "postReleaseFunc cb = (\<lambda>_. Inl e0)" and p: "pinv {} (\<lambda>_. 0) w"
    and locs: "\<And>l. sp_pool (p_ptrs w l) \<Longrightarrow> member_index l < cap w"
    and d: "SessionManager_dtor cb w = Inr w'" and i: "i < cap w"
  shows "state_of (p_set w) i = 0"
proof -
  obtain v where v: "rfold (\<lambda>i. Ptr_dtor cb (Table i)) (rev [0..<cap w]) w = Inr v"
    and w': "rfold (Session_dtor cb) [0..<cap w] v = Inr w'"
    using d by (auto simp: SessionManager_dtor_def rbind_eq_Inr_iff)
  note V = rfold_still_used [OF _ p v, of "\<lambda>i. {Table i}"]
  have V1: "still_used w v" "\<forall>i\<in>set (rev [0..<cap w]). \<forall>l\<in>{Table i}. p_ptrs v l = null_ptr"
    using V dtor_still_used [OF cb] by simp_all
  then have pv: "pinv {} (\<lambda>_. 0) v" by (simp add: still_used_def)
  note W = rfold_still_used [OF _ pv w', of "\<lambda>i. {DisconnectOv i, WriteOv i, ReadOv i}"]
  have W1: "still_used v w'" "\<forall>i\<in>set [0..<cap w]. \<forall>l\<in>{DisconnectOv i, WriteOv i, ReadOv i}. p_ptrs w' l = null_ptr"
    using W Session_dtor_still_used [OF cb] by simp_all
  note S = still_used_trans [OF V1(1) W1(1)]
  have null: "p_ptrs w' l = null_ptr" for l
  proof (cases "member_index l < cap w")
    case True
    then show ?thesis using V1(2) W1 by (cases l) (auto simp: still_used_def)
  next
    case False
    have "l \<notin> {}" by simp
    with pinvD [OF p] have "p_ptrs w l = null_ptr" by (cases rule: live_or_null) (use locs False in auto)
    then show ?thesis using S by (simp add: still_used_def)
  qed
  have pw: "pinv {} (\<lambda>_. 0) w'" "cap w' = cap w" using S by (simp_all add: still_used_def)
  have "refs w' i = {}" using null by (simp add: refs_def)
  then have "count w' i = 0" using countedD(5) [OF pinvD [OF pw(1)], of i] i pw(2) by simp
  then have "count w i = 0" using S i by (auto simp: still_used_def)
  then show ?thesis using p i by (simp add: pinv_def)
qed

lemma null_dtor: "\<forall>l. p_ptrs w l = null_ptr \<Longrightarrow> Ptr_dtor cb l w = Inr w"
  by (simp add: Ptr_dtor_def Ptr_IsValid_def set_ptr_def fun_upd_idem)

text \<open>The pools without pointers, whose objects are destroyed without any release.\<close>

definition no_pointer :: "nat \<Rightarrow> manager \<Rightarrow> bool" where
  "no_pointer n w \<longleftrightarrow> (\<forall>l. p_ptrs w l = null_ptr) \<and> length (p_slots w) = n"

lemma no_pointer_Ov: "no_pointer n w \<Longrightarrow> i < n \<Longrightarrow> \<exists>w'. Ov_dtor cb unmap l i w = Inr w' \<and> no_pointer n w'"
  by (auto simp: no_pointer_def Ov_dtor_def null_dtor)

lemma no_pointer_Session: "no_pointer n w \<Longrightarrow> i < n \<Longrightarrow> \<exists>w'. Session_dtor cb i w = Inr w' \<and> no_pointer n w'"
proof -
  assume n: "no_pointer n w" "i < n"
  obtain u where u: "Ov_dtor cb (disconnect_mapped_update (\<lambda>_. False)) (DisconnectOv i) i w = Inr u" "no_pointer n u"
    using no_pointer_Ov [OF n] by blast
  obtain v where v: "Ov_dtor cb (write_mapped_update (\<lambda>_. False)) (WriteOv i) i u = Inr v" "no_pointer n v"
    using no_pointer_Ov [OF u(2) n(2)] by blast
  obtain w' where "Ov_dtor cb (read_mapped_update (\<lambda>_. False)) (ReadOv i) i v = Inr w'" "no_pointer n w'"
    using no_pointer_Ov [OF v(2) n(2)] by blast
  then show "\<exists>w'. Session_dtor cb i w = Inr w' \<and> no_pointer n w'" using u(1) v(1) by (simp add: Session_dtor_def)
qed

lemma no_pointer_rfold:
  assumes "\<And>x w. no_pointer n w \<Longrightarrow> x \<in> set xs \<Longrightarrow> \<exists>w'. f x w = Inr w' \<and> no_pointer n w'" "no_pointer n w"
  shows "\<exists>w'. rfold f xs w = Inr w' \<and> no_pointer n w'"
  using assms
proof (induction xs arbitrary: w)
  case (Cons x xs)
  then obtain v where "f x w = Inr v" "no_pointer n v" by (meson list.set_intros(1))
  then show ?case using Cons.IH [of v] Cons.prems(1) by simp
qed simp

lemma shutdown_of_idle:
  assumes p: "pinv {} (\<lambda>_. 0) w" and idle: "\<forall>i<cap w. state_of (p_set w) i = 0"
  shows "\<exists>w'. SessionManager_dtor cb w = Inr w'"
proof -
  note c = pinvD [OF p]
  have "p_ptrs w l = null_ptr" for l
  proof -
    have "l \<notin> {}" by simp
    with c show ?thesis
    proof (cases rule: live_or_null)
      case (live h)
      then have "0 < count w (who_of h)" using live_counts(1) [OF c live(1)] by simp
      then show ?thesis using p idle live(3) by (auto simp: pinv_def)
    qed
  qed
  then have n: "no_pointer (cap w) w" using countedD(2) [OF c] by (simp add: no_pointer_def)
  have "\<exists>v. Ptr_dtor cb (Table i) u = Inr v \<and> no_pointer (cap w) v" if "no_pointer (cap w) u" for i u
    using that null_dtor [of u] by (simp add: no_pointer_def)
  then obtain v where v: "rfold (\<lambda>i. Ptr_dtor cb (Table i)) (rev [0..<cap w]) w = Inr v" "no_pointer (cap w) v"
    using no_pointer_rfold [OF _ n, of "rev [0..<cap w]" "\<lambda>i. Ptr_dtor cb (Table i)"] by blast
  obtain w' where "rfold (Session_dtor cb) [0..<cap w] v = Inr w'"
    using no_pointer_rfold [OF _ v(2), of "[0..<cap w]" "Session_dtor cb"] no_pointer_Session by auto
  then show ?thesis using v(1) by (auto simp: SessionManager_dtor_def)
qed

section \<open>Properties\<close>

text \<open>
  C31: shutting down with a session in use. The destructor of the session manager, run after the one of the listener, completes
  exactly when every session of the pool is idle: a session that is waiting for a client, connected or disconnecting is released while it
  is being destroyed, into a deleter that clears buffers already unmapped and a function that calls the destroyed
  listener.
\<close>

theorem shutdown_needs_idle:
  assumes "pinv {} (\<lambda>_. 0) w" and "\<forall>l. sp_pool (p_ptrs w l) \<longrightarrow> member_index l < cap w"
  shows "(\<exists>w'. SessionManager_dtor (shutdown_cb n) w = Inr w') \<longleftrightarrow> (\<forall>i<cap w. state_of (p_set w) i = 0)"
proof -
  have "postReleaseFunc (shutdown_cb n) = (\<lambda>_. Inl Destroyed_object)" by (cases n) simp_all
  then show ?thesis
    using shutdown_means_idle [OF _ assms(1)] shutdown_of_idle [OF assms(1)] assms(2) by blast
qed

text \<open>A pool of two sessions of which the first waits for data: \<^verbatim>\<open>sessionPtrs_\<close> and its \<^verbatim>\<open>readOv_\<close> point to it.\<close>

definition mapped_session :: session_memory where
  "mapped_session = \<lparr>read_mapped = True, write_mapped = True, disconnect_mapped = True\<rparr>"

definition waiting_manager :: manager where
  "waiting_manager = projr (ptr_run [Op_Acquire 1 (Table 0), Op_Copy (ReadOv 0) (Table 0)] (SparsePool 2 4 mapped_session))"

lemma waiting_run:
  "ptr_run [Op_Acquire 1 (Table 0), Op_Copy (ReadOv 0) (Table 0)] (SparsePool 2 4 mapped_session) = Inr waiting_manager"
  "pinv {} (\<lambda>_. 0) waiting_manager" "\<forall>l. sp_pool (p_ptrs waiting_manager l) \<longrightarrow> member_index l < cap waiting_manager"
proof -
  let ?w = "SparsePool 2 4 mapped_session :: manager"
  have p: "pinv {} (\<lambda>_. 0) ?w" by (rule SparsePool_pinv) simp_all
  have "has_idle (p_set ?w)" by (auto simp: has_idle_def SparsePool_def intro!: exI [of _ 0])
  then obtain h v where v: "Pool_Acquire 1 (Table 0) ?w = Inr v" "pinv {} (\<lambda>_. 0) v" "acquired 1 (Table 0) h ?w v"
    using Pool_Acquire_ok [OF p, of "Table 0" 1] by (auto simp: SparsePool_def)
  have ptrs: "p_ptrs v = (\<lambda>_. null_ptr)(Table 0 := live_ptr h)" "cap v = 2"
    using v(3) by (auto simp: acquired_def SparsePool_def updates_def)
  obtain w where w: "Ptr_copy (ReadOv 0) (Table 0) v = Inr w" "pinv {} (\<lambda>_. 0) w"
    "repointed v ((p_ptrs v)(ReadOv 0 := p_ptrs v (Table 0))) w"
    using Ptr_copy_ok [OF v(2), of "ReadOv 0" "Table 0"] ptrs(1) by auto
  have run: "ptr_run [Op_Acquire 1 (Table 0), Op_Copy (ReadOv 0) (Table 0)] ?w = Inr w" using v(1) w(1) by simp
  then have eq: "waiting_manager = w" by (simp only: waiting_manager_def sum.sel)
  show "ptr_run [Op_Acquire 1 (Table 0), Op_Copy (ReadOv 0) (Table 0)] ?w = Inr waiting_manager" using run eq by simp
  show "pinv {} (\<lambda>_. 0) waiting_manager" using w(2) eq by simp
  show "\<forall>l. sp_pool (p_ptrs waiting_manager l) \<longrightarrow> member_index l < cap waiting_manager"
    using repointedD(1,2) [OF w(3)] ptrs eq by (auto split: if_splits)
qed

theorem shutdown_needs_idle_witness:
  "\<not> (\<exists>w'. SessionManager_dtor (shutdown_cb 3) waiting_manager = Inr w')"
proof -
  have "cap waiting_manager = 2" "state_of (p_set waiting_manager) 0 = 1" by code_simp+
  then show ?thesis using shutdown_needs_idle [OF waiting_run(2,3), of 3] by (auto intro: exI [of _ 0])
qed

end
