(* ===== verification/Server_Shutdown.thy ===== *)
theory Server_Shutdown
  imports Server_Prelude
begin

text \<open>
  The threads of \<^verbatim>\<open>IocpCore\<close> while \<^verbatim>\<open>ServerService\<close> is destroyed: the completion queue, the worker threads between
  \<^verbatim>\<open>GetQueuedCompletionStatus\<close> calls (\<^verbatim>\<open>IocpCore::WorkerThread\<close>), and the main thread in \<^verbatim>\<open>~Listener\<close> and \<^verbatim>\<open>~IocpCore\<close>.
  What handling a completion does to sessions is the subject of \<open>Iocp_Core\<close>; here it matters that it calls the listener when an
  accept has ended.
\<close>

section \<open>State\<close>

text \<open>A completion without an overlapped structure ends a worker. Closing the listening socket completes the accepts too.\<close>

datatype completion_kind = Empty_completion | Accept_ended | Io_ended

datatype worker = Waiting | Handling completion_kind | Exited

text \<open>Where the main thread is; \<open>Posting k\<close>: \<open>k\<close> empty completions are still to be posted.\<close>

datatype stage = Running | Listener_gone | Posting nat | Joining | Port_closed

record threads_state =
  queue :: "completion_kind list"
  workers :: "worker list"
  accepts_pending :: nat
  stage :: stage

text \<open>The server after \<^verbatim>\<open>Start\<close>: \<open>n\<close> threads wait, \<open>a\<close> accepts are posted.\<close>

definition started :: "nat \<Rightarrow> nat \<Rightarrow> threads_state" where
  "started n a = \<lparr>queue = [], workers = replicate n Waiting, accepts_pending = a, stage = Running\<rparr>"

datatype shutdown_event =
    Kernel completion_kind
  | Take nat
  | Handle nat
  | Destroy_listener
  | Begin_post
  | Post
  | Close_port

section \<open>Steps\<close>

text \<open>The kernel queues the end of an operation that is pending; it does not make empty completions of its own.\<close>

definition kernel_queues :: "completion_kind \<Rightarrow> threads_state \<Rightarrow> threads_state" where
  "kernel_queues c s = s\<lparr>queue := queue s @ [c],
     accepts_pending := (if c = Accept_ended then accepts_pending s - 1 else accepts_pending s)\<rparr>"

text \<open>
  A worker takes the first completion. \<^verbatim>\<open>GetQueuedCompletionStatus\<close> answers \<^verbatim>\<open>TRUE\<close> and a null \<^verbatim>\<open>overlapped\<close> for one that was
  posted without it, and the loop ends.
\<close>

definition worker_takes :: "nat \<Rightarrow> threads_state \<Rightarrow> threads_state res" where
  "worker_takes t s =
     (case queue s of
        [] \<Rightarrow> Inr s
      | c # q \<Rightarrow>
          rbind (aset (workers s) t (if c = Empty_completion then Exited else Handling c)) (\<lambda>ws.
          Inr (s\<lparr>queue := q, workers := ws\<rparr>)))"

definition listener_alive :: "threads_state \<Rightarrow> bool" where
  "listener_alive s \<longleftrightarrow> stage s = Running"

text \<open>\<^verbatim>\<open>DecrementPendingAccepts\<close> posts an accept in the place of the one that ended.\<close>

definition worker_handles :: "nat \<Rightarrow> threads_state \<Rightarrow> threads_state res" where
  "worker_handles t s =
     rbind (aget (workers s) t) (\<lambda>w.
     rbind (if w = Handling Accept_ended
            then if listener_alive s then Inr (s\<lparr>accepts_pending := accepts_pending s + 1\<rparr>) else Inl Destroyed_object
            else Inr s) (\<lambda>s.
     rbind (aset (workers s) t Waiting) (\<lambda>ws.
     Inr (s\<lparr>workers := ws\<rparr>))))"

text \<open>\<^verbatim>\<open>ServerService\<close> destroys its members in the reverse order of their declaration: the listener before the threads are joined.\<close>

fun main_step :: "shutdown_event \<Rightarrow> threads_state \<Rightarrow> threads_state" where
  "main_step Destroy_listener s = s\<lparr>stage := Listener_gone\<rparr>"
| "main_step Begin_post s = s\<lparr>stage := Posting (length (workers s))\<rparr>"
| "main_step Post s =
     (case stage s of
        Posting (Suc k) \<Rightarrow> s\<lparr>queue := queue s @ [Empty_completion], stage := Posting k\<rparr>
      | _ \<Rightarrow> s\<lparr>stage := Joining\<rparr>)"
| "main_step Close_port s = s\<lparr>stage := Port_closed\<rparr>"
| "main_step _ s = s"

definition shut_can :: "shutdown_event \<Rightarrow> threads_state \<Rightarrow> bool" where
  "shut_can e s \<longleftrightarrow> (case e of
       Kernel c \<Rightarrow> c = Io_ended \<or> (c = Accept_ended \<and> 0 < accepts_pending s)
     | Take t \<Rightarrow> t < length (workers s) \<and> workers s ! t = Waiting \<and> queue s \<noteq> []
     | Handle t \<Rightarrow> t < length (workers s) \<and> (\<exists>c. workers s ! t = Handling c)
     | Destroy_listener \<Rightarrow> stage s = Running
     | Begin_post \<Rightarrow> stage s = Listener_gone
     | Post \<Rightarrow> (\<exists>k. stage s = Posting k)
     | Close_port \<Rightarrow> stage s = Joining \<and> (\<forall>w\<in>set (workers s). w = Exited))"

fun shut_step :: "shutdown_event \<Rightarrow> threads_state \<Rightarrow> threads_state res" where
  "shut_step (Kernel c) s = Inr (kernel_queues c s)"
| "shut_step (Take t) s = worker_takes t s"
| "shut_step (Handle t) s = worker_handles t s"
| "shut_step e s = Inr (main_step e s)"

section \<open>Invariant\<close>


definition exited :: "threads_state \<Rightarrow> nat" where
  "exited s = length (filter (\<lambda>w. w = Exited) (workers s))"



lemma filter_update:
  assumes "i < length xs"
  shows "length (filter P (xs[i := x])) + (if P (xs ! i) then 1 else 0) = length (filter P xs) + (if P x then 1 else 0)"
  using assms
proof (induction xs arbitrary: i)
  case (Cons y xs)
  then show ?case by (cases i) auto
qed simp

lemma exited_update:
  assumes "t < length (workers s)"
  shows "exited (s\<lparr>workers := (workers s)[t := w]\<rparr>) + (if workers s ! t = Exited then 1 else 0) =
    exited s + (if w = Exited then 1 else 0)"
  using filter_update [OF assms, of "\<lambda>w. w = Exited"] by (simp add: exited_def)








section \<open>Joining the threads\<close>









section \<open>Properties\<close>




text \<open>
  The listener is destroyed too early. With any number of threads and any accept pending, closing the listening socket ends an
  accept, and the worker that handles it calls the listener whose destructor has run, since the threads are joined only
  afterwards. Nothing else faults.
\<close>

lemma listener_destroyed_too_early:
  "run_events shut_can shut_step [Destroy_listener, Kernel Accept_ended, Take 0, Handle 0] (started (Suc n) (Suc a)) =
     Inl Destroyed_object"
  by (simp add: started_def shut_can_def kernel_queues_def worker_takes_def worker_handles_def listener_alive_def)

end
