(* ===== verification/Os_Resources.thy ===== *)
theory Os_Resources
  imports Protocol "HOL-Library.Multiset"
begin

text \<open>
  System objects (sockets, mappings, completion ports, threads) and the calls that open and close them. What the operating
  system answers is a parameter; the model keeps the multiset of open objects. Using or closing an object that is
  not open is the fault \<^const>\<open>Not_open\<close>. A C++ exception keeps the state reached so far, so that the
  objects a throwing constructor leaves open can be stated. 
  A triple states which open objects an action consumes, which it hands out, and which it may leave behind
  when it throws; the locale \<open>raii\<close> is the contract of a class whose destructor closes what its constructor opened.
\<close>

section \<open>System objects and calls\<close>

datatype resource = Winsock nat | Sock nat | Mapping nat | Region nat | View nat | Port nat | Thread nat

datatype call =
    WSAStartup | WSACleanup | WSASocket | socket | closesocket | setsockopt | bind | listen | accept | connect
  | WSAIoctl_AcceptEx | WSAIoctl_DisconnectEx
  | CreateFileMapping | VirtualAlloc | VirtualFree | MapViewOfFileEx | UnmapViewOfFile | CloseHandle
  | CreateIoCompletionPort | Register_socket | PostQueuedCompletionStatus | thread_start | thread_join

text \<open>The number of calls so far distinguishes the calls, so that the system may answer the same call differently.\<close>

record sys =
  opened :: "resource multiset"
  next_id :: nat
  call_count :: nat
  AcceptEx_loaded :: bool
  DisconnectEx_loaded :: bool

definition no_objects :: sys where
  "no_objects = \<lparr>opened = {#}, next_id = 0, call_count = 0, AcceptEx_loaded = False, DisconnectEx_loaded = False\<rparr>"

type_synonym decide = "call \<Rightarrow> nat \<Rightarrow> bool"

type_synonym 'a act = "sys \<Rightarrow> 'a res \<times> sys"

definition ret :: "'a \<Rightarrow> 'a act" where
  "ret x s = (Inr x, s)"

definition abind :: "'a act \<Rightarrow> ('a \<Rightarrow> 'b act) \<Rightarrow> 'b act" where
  "abind m f s = (case m s of (Inl e, s) \<Rightarrow> (Inl e, s) | (Inr x, s) \<Rightarrow> f x s)"

text \<open>\<^verbatim>\<open>LOG_FATAL\<close>, and \<^verbatim>\<open>if (bad) LOG_FATAL(...)\<close>.\<close>

definition LOG_FATAL :: "'a act" where
  "LOG_FATAL s = (Inl (projl (LogError kFatal)), s)"

definition fatal_if :: "bool \<Rightarrow> unit act" where
  "fatal_if bad s = (if bad then (LogError kFatal, s) else (Inr (), s))"

text \<open>\<^verbatim>\<open>std::thread\<close> throws \<^verbatim>\<open>std::system_error\<close>, a \<^verbatim>\<open>std::runtime_error\<close>, when no thread can be started.\<close>

definition system_error :: "'a act" where
  "system_error s = (Inl Runtime_error, s)"

text \<open>Stack unwinding: when \<open>m\<close> throws, the destructors \<open>c\<close> of the members constructed before run, and the exception goes on.\<close>

definition unwind :: "'a act \<Rightarrow> unit act \<Rightarrow> 'a act" where
  "unwind m c s =
     (case m s of
        (Inr x, s) \<Rightarrow> (Inr x, s)
      | (Inl e, s) \<Rightarrow>
          if e = Runtime_error then case c s of (Inl e', s) \<Rightarrow> (Inl e', s) | (Inr _, s) \<Rightarrow> (Inl e, s)
          else (Inl e, s))"

definition tick :: "sys \<Rightarrow> sys" where
  "tick s = s\<lparr>call_count := call_count s + 1\<rparr>"

text \<open>A call that opens an object from the objects \<open>rs\<close>: its number, or none when the call fails.\<close>

definition acquire :: "decide \<Rightarrow> call \<Rightarrow> resource list \<Rightarrow> (nat \<Rightarrow> resource) \<Rightarrow> nat option act" where
  "acquire os c rs mk s =
     (if \<exists>r\<in>set rs. r \<notin># opened s then (Inl Not_open, s)
      else if os c (call_count s)
      then (Inr (Some (next_id s)), tick (s\<lparr>opened := add_mset (mk (next_id s)) (opened s), next_id := next_id s + 1\<rparr>))
      else (Inr None, tick s))"

definition release :: "call \<Rightarrow> resource \<Rightarrow> unit act" where
  "release c r s =
     (if r \<in># opened s then (Inr (), tick (s\<lparr>opened := opened s - {#r#}\<rparr>)) else (Inl Not_open, s))"

text \<open>A call on open objects that only succeeds or fails.\<close>

definition request :: "decide \<Rightarrow> call \<Rightarrow> resource list \<Rightarrow> bool act" where
  "request os c rs s = (if \<forall>r\<in>set rs. r \<in># opened s then (Inr (os c (call_count s)), tick s) else (Inl Not_open, s))"

fun for_each :: "('a \<Rightarrow> unit act) \<Rightarrow> 'a list \<Rightarrow> unit act" where
  "for_each f [] = ret ()"
| "for_each f (x # xs) = abind (f x) (\<lambda>_. for_each f xs)"

section \<open>Ownership of open objects\<close>

text \<open>
  \<open>triple A m Q E\<close>: in any state in which the objects \<open>A\<close> are open, \<open>m\<close> either returns a value \<open>x\<close> and has exchanged \<open>A\<close> for
  the objects \<open>Q x\<close>, or throws a runtime error and has exchanged \<open>A\<close> for one of the collections \<open>E\<close>. No
  other object is opened or closed, and no call names an object that is not open.
\<close>

definition triple :: "resource multiset \<Rightarrow> 'a act \<Rightarrow> ('a \<Rightarrow> resource multiset) \<Rightarrow> resource multiset set \<Rightarrow> bool" where
  "triple A m Q E \<longleftrightarrow> (\<forall>s F. opened s = A + F \<longrightarrow> (case m s of
       (Inr x, s') \<Rightarrow> opened s' = Q x + F
     | (Inl e, s') \<Rightarrow> e = Runtime_error \<and> (\<exists>L\<in>E. opened s' = L + F)))"

named_theorems vc "verification conditions of actions"

lemma tripleI:
  assumes "\<And>s F x s'. opened s = A + F \<Longrightarrow> m s = (Inr x, s') \<Longrightarrow> opened s' = Q x + F"
    and "\<And>s F e s'. opened s = A + F \<Longrightarrow> m s = (Inl e, s') \<Longrightarrow> e = Runtime_error \<and> (\<exists>L\<in>E. opened s' = L + F)"
  shows "triple A m Q E"
  unfolding triple_def
proof (intro allI impI)
  fix s :: sys and F assume o: "opened s = A + F"
  obtain r u where u: "m s = (r, u)" by (cases "m s")
  show "case m s of (Inr x, s') \<Rightarrow> opened s' = Q x + F
    | (Inl e, s') \<Rightarrow> e = Runtime_error \<and> (\<exists>L\<in>E. opened s' = L + F)"
    using assms(1) [OF o] assms(2) [OF o] u by (cases r) auto
qed

lemma tripleD:
  assumes "triple A m Q E" "opened s = A + F"
  shows "m s = (Inr x, s') \<Longrightarrow> opened s' = Q x + F"
    and "m s = (Inl e, s') \<Longrightarrow> e = Runtime_error \<and> (\<exists>L\<in>E. opened s' = L + F)"
  using assms unfolding triple_def by fastforce+

lemma triple_ret [vc]: "A = Q x \<Longrightarrow> triple A (ret x) Q E"
  by (rule tripleI) (auto simp: ret_def)

lemma triple_bind:
  assumes "triple A m B E" and "\<And>x. triple (B x) (f x) Q E"
  shows "triple A (abind m f) Q E"
proof (rule tripleI)
  fix s :: sys and F x s'
  assume s: "opened s = A + F" "abind m f s = (Inr x, s')"
  then obtain y u where u: "m s = (Inr y, u)" "f y u = (Inr x, s')"
    by (auto simp: abind_def split: prod.splits sum.splits)
  show "opened s' = Q x + F"
    using tripleD(1) [OF assms(2) tripleD(1) [OF assms(1) s(1) u(1)] u(2)] .
next
  fix s :: sys and F e s'
  assume s: "opened s = A + F" "abind m f s = (Inl e, s')"
  then consider "m s = (Inl e, s')" | y u where "m s = (Inr y, u)" "f y u = (Inl e, s')"
    by (auto simp: abind_def split: prod.splits sum.splits)
  then show "e = Runtime_error \<and> (\<exists>L\<in>E. opened s' = L + F)"
  proof cases
    case 1
    then show ?thesis using tripleD(2) [OF assms(1) s(1)] by blast
  next
    case (2 y u)
    then show ?thesis using tripleD(2) [OF assms(2) tripleD(1) [OF assms(1) s(1) 2(1)] 2(2)] by blast
  qed
qed

text \<open>What an action does not name stays as it is.\<close>

lemma triple_frame:
  assumes "triple A m Q E"
  shows "triple (A + G) m (\<lambda>x. Q x + G) ((\<lambda>L. L + G) ` E)"
proof (rule tripleI)
  fix s :: sys and F assume "opened s = A + G + F"
  then have s: "opened s = A + (G + F)" by (simp add: add.assoc)
  show "opened s' = Q x + G + F" if "m s = (Inr x, s')" for x s'
    using tripleD(1) [OF assms s that] by (simp add: add.assoc)
  show "e = Runtime_error \<and> (\<exists>L\<in>(\<lambda>L. L + G) ` E. opened s' = L + F)" if "m s = (Inl e, s')" for e s'
    using tripleD(2) [OF assms s that] by (auto simp: add.assoc)
qed

lemma triple_weaken: "triple A m Q E \<Longrightarrow> E \<subseteq> E' \<Longrightarrow> triple A m Q E'"
  by (rule tripleI) (blast dest: tripleD)+

lemma triple_post: "triple A m Q E \<Longrightarrow> (\<And>x. Q x = Q' x) \<Longrightarrow> triple A m Q' E"
  by (rule tripleI) (auto dest: tripleD)

lemma vc_frame:
  assumes "triple B m Q' E'" and "A = B + G" and "(\<lambda>L. L + G) ` E' \<subseteq> E" and "\<And>x. triple (Q' x + G) (f x) Q E"
  shows "triple A (abind m f) Q E"
  using triple_bind [OF triple_weaken [OF triple_frame [OF assms(1), of G] assms(3)] assms(4)] assms(2) by simp

lemma vc_acquire [vc]:
  assumes "\<forall>r\<in>set rs. r \<in># A" and "triple A (f None) Q E" and "\<And>n. triple (add_mset (mk n) A) (f (Some n)) Q E"
  shows "triple A (abind (acquire os c rs mk) f) Q E"
proof (rule triple_bind)
  show "triple A (acquire os c rs mk) (\<lambda>x. case x of None \<Rightarrow> A | Some n \<Rightarrow> add_mset (mk n) A) E"
    by (rule tripleI) (use assms(1) in \<open>auto simp: acquire_def tick_def split: if_splits\<close>)
qed (use assms in \<open>auto split: option.splits\<close>)

lemma vc_release [vc]:
  assumes "r \<in># A" and "triple (A - {#r#}) (f ()) Q E"
  shows "triple A (abind (release c r) f) Q E"
proof (rule triple_bind)
  show "triple A (release c r) (\<lambda>_. A - {#r#}) E"
    by (rule tripleI) (use assms(1) in \<open>auto simp: release_def tick_def split: if_splits\<close>)
qed (use assms in simp)

lemma vc_request [vc]:
  assumes "\<forall>r\<in>set rs. r \<in># A" and "\<And>b. triple A (f b) Q E"
  shows "triple A (abind (request os c rs) f) Q E"
proof (rule triple_bind)
  show "triple A (request os c rs) (\<lambda>_. A) E"
    by (rule tripleI) (use assms(1) in \<open>auto simp: request_def tick_def split: if_splits\<close>)
qed (use assms in simp)

lemma vc_fatal [vc]:
  assumes "b \<Longrightarrow> A \<in> E" and "\<not> b \<Longrightarrow> triple A (f ()) Q E"
  shows "triple A (abind (fatal_if b) f) Q E"
proof (cases b)
  case True
  then show ?thesis using assms(1) by (intro tripleI) (auto simp: abind_def fatal_if_def)
next
  case False
  then have "abind (fatal_if b) f = f ()" by (intro ext) (simp add: abind_def fatal_if_def)
  then show ?thesis using assms(2) False by simp
qed

lemma vc_LOG_FATAL [vc]: "A \<in> E \<Longrightarrow> triple A LOG_FATAL Q E"
  by (rule tripleI) (auto simp: LOG_FATAL_def)

lemma vc_system_error [vc]: "A \<in> E \<Longrightarrow> triple A system_error Q E"
  by (rule tripleI) (auto simp: system_error_def)

lemma vc_if [vc]: "(b \<Longrightarrow> triple A m Q E) \<Longrightarrow> (\<not> b \<Longrightarrow> triple A m' Q E) \<Longrightarrow> triple A (if b then m else m') Q E"
  by simp

lemma vc_case_option [vc]:
  "triple A a Q E \<Longrightarrow> triple A (case None of None \<Rightarrow> a | Some n \<Rightarrow> b n) Q E"
  "triple A (b n) Q E \<Longrightarrow> triple A (case Some n of None \<Rightarrow> a | Some n \<Rightarrow> b n) Q E"
  by simp_all

text \<open>Unwinding turns what \<open>m\<close> leaves behind into what the destructors make of it.\<close>

lemma triple_unwind:
  assumes m: "triple A m Q E'" and c: "\<And>L. L \<in> E' \<Longrightarrow> \<exists>L'\<in>E. triple L c (\<lambda>_. L') {}"
  shows "triple A (unwind m c) Q E"
proof (rule tripleI)
  fix s :: sys and F x s'
  assume s: "opened s = A + F" "unwind m c s = (Inr x, s')"
  then have "m s = (Inr x, s')" by (auto simp: unwind_def split: prod.splits sum.splits if_splits)
  then show "opened s' = Q x + F" by (rule tripleD(1) [OF m s(1)])
next
  fix s :: sys and F e s'
  assume s: "opened s = A + F" "unwind m c s = (Inl e, s')"
  then obtain e' u where u: "m s = (Inl e', u)"
    by (auto simp: unwind_def split: prod.splits sum.splits)
  then obtain L where L: "e' = Runtime_error" "L \<in> E'" "opened u = L + F" using tripleD(2) [OF m s(1)] by blast
  obtain L' where L': "L' \<in> E" "triple L c (\<lambda>_. L') {}" using c [OF L(2)] by blast
  show "e = Runtime_error \<and> (\<exists>L\<in>E. opened s' = L + F)"
  proof (cases "c u")
    case (Pair r v)
    then show ?thesis
      using s(2) u L(1) L'(1) tripleD [OF L'(2) L(3)] by (cases r) (auto simp: unwind_def)
  qed
qed

text \<open>The last action of a sequence, and an action with an object in front of it.\<close>

lemma abind_ret: "abind m ret = m"
  by (rule ext) (simp add: abind_def ret_def split: prod.splits sum.splits)

lemma triple_last: "triple A (abind m ret) Q E \<Longrightarrow> triple A m Q E"
  by (simp add: abind_ret)

lemma vc_for_each:
  assumes "\<And>x F. x \<in> set xs \<Longrightarrow> triple (own x + F) (f x) (\<lambda>_. left x + F) E"
  shows "triple (sum_list (map own xs) + F) (for_each f xs) (\<lambda>_. sum_list (map left xs) + F) E"
  using assms
proof (induction xs arbitrary: F)
  case (Cons x xs)
  show ?case unfolding for_each.simps
  proof (rule triple_bind)
    show "triple (sum_list (map own (x # xs)) + F) (f x) (\<lambda>_. left x + (sum_list (map own xs) + F)) E"
      using Cons.prems [of x "sum_list (map own xs) + F"] by (simp add: ac_simps)
    show "triple (left x + (sum_list (map own xs) + F)) (for_each f xs)
        (\<lambda>_. sum_list (map left (x # xs)) + F) E"
      using Cons.IH [of "left x + F"] Cons.prems by (simp add: ac_simps)
  qed
qed (simp add: vc)

lemma vc_for_each_same: "(\<And>x. x \<in> set xs \<Longrightarrow> triple A (f x) (\<lambda>_. A) E) \<Longrightarrow> triple A (for_each f xs) (\<lambda>_. A) E"
  by (induction xs) (auto intro: triple_bind triple_ret)

section \<open>Classes that own what they open\<close>

text \<open>A member: construct it, go on with the rest of the constructor, and destroy it if the rest throws.\<close>

definition member :: "'a act \<Rightarrow> ('a \<Rightarrow> unit act) \<Rightarrow> ('a \<Rightarrow> 'b act) \<Rightarrow> 'b act" where
  "member ctor dtor f = abind ctor (\<lambda>x. unwind (f x) (dtor x))"

text \<open>A local object: it is destroyed on the way out, with or without an exception.\<close>

definition local_object :: "'a act \<Rightarrow> ('a \<Rightarrow> unit act) \<Rightarrow> ('a \<Rightarrow> 'b act) \<Rightarrow> 'b act" where
  "local_object ctor dtor f = abind ctor (\<lambda>x. abind (unwind (f x) (dtor x)) (\<lambda>r. abind (dtor x) (\<lambda>_. ret r)))"

text \<open>What the rest may leave so that the destructor, which turns \<open>x\<close> into \<open>y\<close>, makes one of \<open>E\<close> of it.\<close>

definition before_dtor :: "resource multiset \<Rightarrow> resource multiset \<Rightarrow> resource multiset set \<Rightarrow> resource multiset set" where
  "before_dtor x y E = {x + L |L. y + L \<in> E}"

lemma before_dtorI: "K = x + L \<Longrightarrow> y + L \<in> E \<Longrightarrow> K \<in> before_dtor x y E"
  by (auto simp: before_dtor_def)

text \<open>
  The contract of such a class: the constructor opens \<open>own x\<close> for the object \<open>x\<close>, or throws and leaves one of \<open>leaks\<close>; the destructor
  closes \<open>own x\<close> but for \<open>left x\<close>, and does not throw.
\<close>

locale raii =
  fixes ctor :: "'a act" and dtor :: "'a \<Rightarrow> unit act" and own :: "'a \<Rightarrow> resource multiset"
    and left :: "'a \<Rightarrow> resource multiset" and leaks :: "resource multiset set"
  assumes ctor_opens: "triple {#} ctor own leaks"
    and dtor_closes: "triple (own x) (dtor x) (\<lambda>_. left x) {}"
begin

lemma lifetime: "triple {#} (abind ctor (\<lambda>x. abind (dtor x) (\<lambda>_. ret x))) left leaks"
proof (rule triple_bind [OF ctor_opens], rule triple_bind)
  show "triple (own x) (dtor x) (\<lambda>_. left x) leaks" for x
    by (rule triple_weaken [OF dtor_closes]) simp
qed (rule triple_ret, simp)

lemma destroy: "triple (own x + F) (dtor x) (\<lambda>_. left x + F) E"
  using triple_weaken [OF triple_frame [OF dtor_closes, of x F]] by simp

text \<open>As a member of another class: what the rest of the constructor leaves is joined by what the destructor leaves.\<close>

lemma as_member:
  assumes "(\<lambda>L. L + A) ` leaks \<subseteq> E"
    and "\<And>x. triple (own x + A) (f x) Q (before_dtor (own x) (left x) E)"
  shows "triple A (member ctor dtor f) Q E"
  unfolding member_def
proof (rule vc_frame [OF ctor_opens, where G = A])
  fix x
  show "triple (own x + A) (unwind (f x) (dtor x)) Q E"
    by (rule triple_unwind [OF assms(2)]) (use destroy in \<open>auto simp: before_dtor_def\<close>)
qed (use assms(1) in simp_all)

lemma as_local:
  assumes "(\<lambda>L. L + A) ` leaks \<subseteq> E"
    and "\<And>x. triple (own x + A) (f x) (\<lambda>r. own x + B r) (before_dtor (own x) (left x) E)"
    and "\<And>x r. left x + B r = Q r"
  shows "triple A (local_object ctor dtor f) Q E"
  unfolding local_object_def
proof (rule vc_frame [OF ctor_opens, where G = A])
  fix x
  show "triple (own x + A) (abind (unwind (f x) (dtor x)) (\<lambda>r. abind (dtor x) (\<lambda>_. ret r))) Q E"
  proof (rule triple_bind)
    show "triple (own x + A) (unwind (f x) (dtor x)) (\<lambda>r. own x + B r) E"
      by (rule triple_unwind [OF assms(2)]) (use destroy in \<open>auto simp: before_dtor_def\<close>)
    show "triple (own x + B r) (abind (dtor x) (\<lambda>_. ret r)) Q E" for r
      by (rule triple_bind [OF destroy]) (use assms(3) in \<open>auto intro: triple_ret\<close>)
  qed
qed (use assms(1) in simp_all)

end

end
