(* ===== verification/Server_Lifecycle.thy ===== *)
theory Server_Lifecycle
  imports Os_Resources
begin

text \<open>
  Constructors and destructors of the server's classes as sequences of system calls: \<^verbatim>\<open>MagicBuffer.cpp\<close>,
  \<^verbatim>\<open>WSAManager.hpp\<close>, \<^verbatim>\<open>ServerUtils.cpp\<close>, the constructors and destructors of \<^verbatim>\<open>Session\<close>,
  \<^verbatim>\<open>SessionManager\<close>, \<^verbatim>\<open>IocpCore\<close>, \<^verbatim>\<open>Listener\<close> and \<^verbatim>\<open>ServerService\<close>. \<open>os\<close> decides which calls succeed, \<open>gran\<close> is
  the allocation granularity. A failing \<^verbatim>\<open>setsockopt\<close> is only logged.
\<close>

section \<open>MagicBuffer\<close>

record magic_handles =
  hMap :: nat
  view1 :: nat
  view2 :: nat

definition MagicBuffer_open :: "decide \<Rightarrow> nat \<Rightarrow> nat \<Rightarrow> magic_handles act" where
  "MagicBuffer_open os gran sz =
     abind (fatal_if (sz mod gran \<noteq> 0)) (\<lambda>_.
     abind (acquire os CreateFileMapping [] Mapping) (\<lambda>mapping. case mapping of None \<Rightarrow> LOG_FATAL | Some m \<Rightarrow>
     abind (acquire os VirtualAlloc [] Region) (\<lambda>ptr. case ptr of
         None \<Rightarrow> abind (release CloseHandle (Mapping m)) (\<lambda>_. LOG_FATAL)
       | Some p \<Rightarrow>
     abind (release VirtualFree (Region p)) (\<lambda>_.
     abind (acquire os MapViewOfFileEx [Mapping m] View) (\<lambda>first. case first of None \<Rightarrow> LOG_FATAL | Some v1 \<Rightarrow>
     abind (acquire os MapViewOfFileEx [Mapping m] View) (\<lambda>second. case second of None \<Rightarrow> LOG_FATAL | Some v2 \<Rightarrow>
     ret \<lparr>hMap = m, view1 = v1, view2 = v2\<rparr>))))))"

definition MagicBuffer_close :: "magic_handles \<Rightarrow> unit act" where
  "MagicBuffer_close b =
     abind (release UnmapViewOfFile (View (view1 b))) (\<lambda>_.
     abind (release UnmapViewOfFile (View (view2 b))) (\<lambda>_.
     abind (release CloseHandle (Mapping (hMap b))) ret))"

definition own_magic :: "magic_handles \<Rightarrow> resource multiset" where
  "own_magic b = {#Mapping (hMap b), View (view1 b), View (view2 b)#}"

text \<open>What a throwing constructor leaves: nothing, the mapping, or the mapping and its first view.\<close>

definition magic_leaks :: "resource multiset set" where
  "magic_leaks = {{#}} \<union> range (\<lambda>m. {#Mapping m#}) \<union> {{#View v, Mapping m#} |m v. True}"

lemma magic_leaks_in [simp]: "{#} \<in> magic_leaks" "{#Mapping m#} \<in> magic_leaks" "{#View v, Mapping m#} \<in> magic_leaks"
  by (auto simp: magic_leaks_def)

interpretation magic: raii "MagicBuffer_open os gran sz" MagicBuffer_close own_magic "\<lambda>_. {#}" magic_leaks for os gran sz
proof
  show "triple {#} (MagicBuffer_open os gran sz) own_magic magic_leaks"
    unfolding MagicBuffer_open_def by (intro vc) (auto simp: own_magic_def)
  show "triple (own_magic x) (MagicBuffer_close x) (\<lambda>_. {#}) {}" for x
    unfolding MagicBuffer_close_def own_magic_def by (intro vc) auto
qed

section \<open>Session and the session pool\<close>

text \<open>\<^verbatim>\<open>Session\<close> has no destructor of its own: the implicit one destroys the three overlapped structures.\<close>

record session_handles =
  readOv_buffer :: magic_handles
  writeOv_buffer :: magic_handles
  disconnectOv_buffer :: magic_handles
  socket_ses :: "nat option"

abbreviation magic_member :: "decide \<Rightarrow> nat \<Rightarrow> (magic_handles \<Rightarrow> 'b act) \<Rightarrow> 'b act" where
  "magic_member os gran \<equiv> member (MagicBuffer_open os gran (unat kMagicBufferSize)) MagicBuffer_close"

definition Session_open :: "decide \<Rightarrow> nat \<Rightarrow> session_handles act" where
  "Session_open os gran =
     magic_member os gran (\<lambda>r. magic_member os gran (\<lambda>w. magic_member os gran (\<lambda>d.
     abind (acquire os WSASocket [] Sock) (\<lambda>s.
     ret \<lparr>readOv_buffer = r, writeOv_buffer = w, disconnectOv_buffer = d, socket_ses = s\<rparr>))))"

definition Session_close :: "session_handles \<Rightarrow> unit act" where
  "Session_close s =
     abind (MagicBuffer_close (disconnectOv_buffer s)) (\<lambda>_.
     abind (MagicBuffer_close (writeOv_buffer s)) (\<lambda>_.
     MagicBuffer_close (readOv_buffer s)))"

definition own_socket :: "session_handles \<Rightarrow> resource multiset" where
  "own_socket s = (case socket_ses s of None \<Rightarrow> {#} | Some n \<Rightarrow> {#Sock n#})"

definition own_session :: "session_handles \<Rightarrow> resource multiset" where
  "own_session s = own_magic (readOv_buffer s) + own_magic (writeOv_buffer s) + own_magic (disconnectOv_buffer s) + own_socket s"

lemma magic_rest:
  assumes "\<And>x. triple (own_magic x + A) (f x) Q ((\<lambda>L. L + (own_magic x + A)) ` magic_leaks)"
  shows "triple A (magic_member os gran f) Q ((\<lambda>L. L + A) ` magic_leaks)"
proof (rule magic.as_member)
  show "triple (own_magic x + A) (f x) Q (before_dtor (own_magic x) {#} ((\<lambda>L. L + A) ` magic_leaks))" for x
    by (rule triple_weaken [OF assms]) (auto intro!: before_dtorI simp: ac_simps)
qed simp

interpretation ses: raii "Session_open os gran" Session_close own_session own_socket magic_leaks for os gran
proof
  let ?inner = "\<lambda>r w d. abind (acquire os WSASocket [] Sock) (\<lambda>s.
     ret \<lparr>readOv_buffer = r, writeOv_buffer = w, disconnectOv_buffer = d, socket_ses = s\<rparr>)"
  have inner: "triple (own_magic d + (own_magic w + own_magic r)) (?inner r w d) own_session E" for r w d E
    by (intro vc) (simp_all add: own_session_def own_socket_def ac_simps)
  have two: "triple (own_magic w + own_magic r) (magic_member os gran (?inner r w)) own_session
      ((\<lambda>L. L + (own_magic w + own_magic r)) ` magic_leaks)" for r w
    by (rule magic_rest) (rule inner)
  have one: "triple (own_magic r) (magic_member os gran (\<lambda>w. magic_member os gran (?inner r w))) own_session
      ((\<lambda>L. L + own_magic r) ` magic_leaks)" for r
    by (rule magic_rest) (rule two)
  have "triple {#} (Session_open os gran) own_session ((\<lambda>L. L + {#}) ` magic_leaks)"
    unfolding Session_open_def by (rule magic_rest) (use one in simp)
  then show "triple {#} (Session_open os gran) own_session magic_leaks" by simp
  show "triple (own_session x) (Session_close x) (\<lambda>_. own_socket x) {}" for x
    unfolding Session_close_def own_session_def
  proof (rule triple_bind, rule triple_weaken)
    let ?A = "own_magic (readOv_buffer x) + own_magic (writeOv_buffer x) + own_socket x"
    show "triple (own_magic (readOv_buffer x) + own_magic (writeOv_buffer x) + own_magic (disconnectOv_buffer x) + own_socket x)
        (MagicBuffer_close (disconnectOv_buffer x)) (\<lambda>_. ?A) {}"
      using magic.destroy [of "disconnectOv_buffer x" ?A] by (simp add: ac_simps)
    show "triple ?A (abind (MagicBuffer_close (writeOv_buffer x)) (\<lambda>_. MagicBuffer_close (readOv_buffer x))) (\<lambda>_. own_socket x) {}"
    proof (rule triple_bind)
      show "triple ?A (MagicBuffer_close (writeOv_buffer x)) (\<lambda>_. own_magic (readOv_buffer x) + own_socket x) {}"
        using magic.destroy [of "writeOv_buffer x" "own_magic (readOv_buffer x) + own_socket x"] by (simp add: ac_simps)
      show "triple (own_magic (readOv_buffer x) + own_socket x) (MagicBuffer_close (readOv_buffer x)) (\<lambda>_. own_socket x) {}"
        using magic.destroy [of "readOv_buffer x" "own_socket x"] by simp
    qed
  qed simp
qed

text \<open>
  \<^verbatim>\<open>ObjectPool\<close> of an eager pool: the constructor builds \<open>n\<close> objects in raw storage, so that nothing destroys the first
  ones when a later one throws; the destructor destroys all of them.
\<close>

fun ObjectPool_open :: "nat \<Rightarrow> 'a act \<Rightarrow> 'a list act" where
  "ObjectPool_open 0 ctor = ret []"
| "ObjectPool_open (Suc n) ctor = abind ctor (\<lambda>x. abind (ObjectPool_open n ctor) (\<lambda>xs. ret (x # xs)))"

definition SessionManager_open :: "decide \<Rightarrow> nat \<Rightarrow> nat \<Rightarrow> session_handles list act" where
  "SessionManager_open os gran N = ObjectPool_open N (Session_open os gran)"

definition SessionManager_close :: "session_handles list \<Rightarrow> unit act" where
  "SessionManager_close sessions = for_each Session_close sessions"

definition own_sessions :: "session_handles list \<Rightarrow> resource multiset" where
  "own_sessions xs = sum_list (map own_session xs)"

definition own_sockets :: "session_handles list \<Rightarrow> resource multiset" where
  "own_sockets xs = sum_list (map own_socket xs)"

definition pool_leaks :: "resource multiset set" where
  "pool_leaks = {own_sessions xs + L |xs L. L \<in> magic_leaks}"

lemma ObjectPool_opens:
  "triple A (ObjectPool_open n (Session_open os gran)) (\<lambda>xs. own_sessions xs + A) ((\<lambda>L. L + A) ` pool_leaks)"
proof (induction n arbitrary: A)
  case (Suc n)
  have first: "triple A (Session_open os gran) (\<lambda>x. own_session x + A) ((\<lambda>L. L + A) ` pool_leaks)"
  proof -
    have "magic_leaks \<subseteq> pool_leaks"
    proof
      fix L assume "L \<in> magic_leaks"
      moreover have "own_sessions [] + L = L" by (simp add: own_sessions_def)
      ultimately show "L \<in> pool_leaks" unfolding pool_leaks_def by (metis (mono_tags, lifting) mem_Collect_eq)
    qed
    then show ?thesis using triple_weaken [OF triple_frame [OF ses.ctor_opens, of A]] by (simp add: image_mono)
  qed
  show ?case unfolding ObjectPool_open.simps
  proof (rule triple_bind [OF first], rule triple_bind)
    fix x
    have "L + (own_session x + A) \<in> (\<lambda>L. L + A) ` pool_leaks" if in_pool: "L \<in> pool_leaks" for L
    proof -
      obtain xs K where L: "L = own_sessions xs + K" "K \<in> magic_leaks" using in_pool unfolding pool_leaks_def by blast
      have "own_sessions (x # xs) + K \<in> pool_leaks" using L(2) unfolding pool_leaks_def by blast
      moreover have "L + (own_session x + A) = own_sessions (x # xs) + K + A"
        using L(1) by (simp add: own_sessions_def ac_simps)
      ultimately show ?thesis by blast
    qed
    then show "triple (own_session x + A) (ObjectPool_open n (Session_open os gran))
        (\<lambda>xs. own_sessions xs + (own_session x + A)) ((\<lambda>L. L + A) ` pool_leaks)"
      by (intro triple_weaken [OF Suc.IH]) blast
  qed (intro vc, simp add: own_sessions_def ac_simps)
qed (auto intro!: triple_ret simp: own_sessions_def)

interpretation sm: raii "SessionManager_open os gran N" SessionManager_close own_sessions own_sockets pool_leaks for os gran N
proof
  show "triple {#} (SessionManager_open os gran N) own_sessions pool_leaks"
    using ObjectPool_opens [of "{#}" N os gran] by (simp add: SessionManager_open_def)
  show "triple (own_sessions x) (SessionManager_close x) (\<lambda>_. own_sockets x) {}" for x
    using vc_for_each [of x own_session Session_close own_socket "{}" "{#}"] ses.destroy
    by (simp add: SessionManager_close_def own_sessions_def own_sockets_def)
qed

section \<open>WSAManager and NetFuncs\<close>

definition WSAManager_open :: "decide \<Rightarrow> nat act" where
  "WSAManager_open os =
     abind (acquire os WSAStartup [] Winsock) (\<lambda>w. case w of None \<Rightarrow> LOG_FATAL | Some n \<Rightarrow> ret n)"

definition WSAManager_close :: "nat \<Rightarrow> unit act" where
  "WSAManager_close n = abind (release WSACleanup (Winsock n)) ret"

interpretation wsa: raii "WSAManager_open os" WSAManager_close "\<lambda>n. {#Winsock n#}" "\<lambda>_. {#}" "{{#}}" for os
proof
  show "triple {#} (WSAManager_open os) (\<lambda>n. {#Winsock n#}) {{#}}"
    unfolding WSAManager_open_def by (intro vc) simp_all
  show "triple {#Winsock x#} (WSAManager_close x) (\<lambda>_. {#}) {}" for x
    unfolding WSAManager_close_def by (intro vc) simp_all
qed

text \<open>\<^verbatim>\<open>WSAIoctl\<close> stores the address of an extension function when it succeeds.\<close>

definition load_AcceptEx :: "unit act" where
  "load_AcceptEx s = (Inr (), s\<lparr>AcceptEx_loaded := True\<rparr>)"

definition load_DisconnectEx :: "unit act" where
  "load_DisconnectEx s = (Inr (), s\<lparr>DisconnectEx_loaded := True\<rparr>)"

definition NetFuncs_ctor :: "decide \<Rightarrow> unit act" where
  "NetFuncs_ctor os =
     abind (acquire os WSASocket [] Sock) (\<lambda>dummySocket. case dummySocket of None \<Rightarrow> LOG_FATAL | Some s \<Rightarrow>
     abind (request os WSAIoctl_AcceptEx [Sock s]) (\<lambda>ok.
     abind (fatal_if (\<not> ok)) (\<lambda>_.
     abind load_AcceptEx (\<lambda>_.
     abind (request os WSAIoctl_DisconnectEx [Sock s]) (\<lambda>ok.
     abind (fatal_if (\<not> ok)) (\<lambda>_.
     abind load_DisconnectEx (\<lambda>_.
     abind (release closesocket (Sock s)) ret)))))))"

lemma vc_load [vc]:
  "triple A (f ()) Q E \<Longrightarrow> triple A (abind load_AcceptEx f) Q E"
  "triple A (f ()) Q E \<Longrightarrow> triple A (abind load_DisconnectEx f) Q E"
  by (rule triple_bind [where B = "\<lambda>_. A"], rule tripleI, auto simp: load_AcceptEx_def load_DisconnectEx_def)+

text \<open>The dummy socket stays open when an extension function cannot be loaded.\<close>

lemma NetFuncs_opens: "triple A (NetFuncs_ctor os) (\<lambda>_. A) ((\<lambda>L. L + A) ` ({{#}} \<union> range (\<lambda>s. {#Sock s#})))"
  unfolding NetFuncs_ctor_def by (intro vc) (auto simp: image_iff)

section \<open>IocpCore\<close>

record iocp =
  hIocp :: nat
  threads :: "nat list"

definition own_iocp :: "iocp \<Rightarrow> resource multiset" where
  "own_iocp c = add_mset (Port (hIocp c)) (mset (map Thread (threads c)))"

definition IocpCore_open :: "decide \<Rightarrow> iocp act" where
  "IocpCore_open os =
     abind (acquire os CreateIoCompletionPort [] Port) (\<lambda>h. case h of None \<Rightarrow> LOG_FATAL | Some p \<Rightarrow>
     ret \<lparr>hIocp = p, threads = []\<rparr>)"

text \<open>
  The destructor posts an empty completion per thread, joins the threads (that they end is shown in
  \<open>Server_Shutdown\<close>) and closes the port.
\<close>

definition IocpCore_close :: "decide \<Rightarrow> iocp \<Rightarrow> unit act" where
  "IocpCore_close os c =
     abind (for_each (\<lambda>_. abind (request os PostQueuedCompletionStatus [Port (hIocp c)]) (\<lambda>_. ret ())) (threads c)) (\<lambda>_.
     abind (for_each (\<lambda>t. abind (release thread_join (Thread t)) ret) (threads c)) (\<lambda>_.
     abind (release CloseHandle (Port (hIocp c))) ret))"

text \<open>
  \<^verbatim>\<open>Start\<close>: a constructed \<^verbatim>\<open>std::thread\<close> is joinable, so that the branch for a thread that is not is never taken.
\<close>

fun IocpCore_Start :: "decide \<Rightarrow> nat \<Rightarrow> iocp \<Rightarrow> iocp act" where
  "IocpCore_Start os 0 c = ret c"
| "IocpCore_Start os (Suc n) c =
     abind (acquire os thread_start [] Thread) (\<lambda>t. case t of None \<Rightarrow> system_error | Some t \<Rightarrow>
     IocpCore_Start os n (c\<lparr>threads := threads c @ [t]\<rparr>))"

definition IocpCore_Register :: "decide \<Rightarrow> iocp \<Rightarrow> nat option \<Rightarrow> bool act" where
  "IocpCore_Register os c sock =
     (case sock of None \<Rightarrow> ret False | Some s \<Rightarrow> request os Register_socket [Port (hIocp c), Sock s])"

lemma vc_Register [vc]:
  assumes "\<forall>s. sock = Some s \<longrightarrow> Port (hIocp c) \<in># A \<and> Sock s \<in># A" and "\<And>b. triple A (f b) Q E"
  shows "triple A (abind (IocpCore_Register os c sock) f) Q E"
proof (cases sock)
  case None
  then have "abind (IocpCore_Register os c sock) f = f False"
    by (intro ext) (simp add: IocpCore_Register_def abind_def ret_def)
  then show ?thesis using assms(2) by simp
next
  case (Some s)
  then show ?thesis using assms by (simp add: IocpCore_Register_def vc_request)
qed

interpretation ic: raii "IocpCore_open os" "IocpCore_close os'" own_iocp "\<lambda>_. {#}" "{{#}}" for os os'
proof
  show "triple {#} (IocpCore_open os) own_iocp {{#}}"
    unfolding IocpCore_open_def by (intro vc) (simp_all add: own_iocp_def)
  show "triple (own_iocp c) (IocpCore_close os' c) (\<lambda>_. {#}) {}" for c
    unfolding IocpCore_close_def
  proof (rule triple_bind [where B = "\<lambda>_. own_iocp c"])
    show "triple (own_iocp c) (for_each (\<lambda>_. abind (request os' PostQueuedCompletionStatus [Port (hIocp c)]) (\<lambda>_. ret ())) (threads c))
        (\<lambda>_. own_iocp c) {}"
      by (intro vc_for_each_same vc) (simp_all add: own_iocp_def)
    have "triple (sum_list (map (\<lambda>t. {#Thread t#}) (threads c)) + {#Port (hIocp c)#})
        (for_each (\<lambda>t. abind (release thread_join (Thread t)) ret) (threads c))
        (\<lambda>_. sum_list (map (\<lambda>_. {#}) (threads c)) + {#Port (hIocp c)#}) {}"
      by (intro vc_for_each vc) simp_all
    moreover have "sum_list (map (\<lambda>t. {#Thread t#}) ts) = mset (map Thread ts)" for ts
      by (induction ts) simp_all
    ultimately have "triple (own_iocp c) (for_each (\<lambda>t. abind (release thread_join (Thread t)) ret) (threads c))
        (\<lambda>_. {#Port (hIocp c)#}) {}"
      by (simp add: own_iocp_def)
    then show "triple (own_iocp c) (abind (for_each (\<lambda>t. abind (release thread_join (Thread t)) ret) (threads c))
        (\<lambda>_. abind (release CloseHandle (Port (hIocp c))) ret)) (\<lambda>_. {#}) {}"
      by (rule triple_bind) (intro vc, simp_all)
  qed
qed

lemma Start_threads_opens: "triple (own_iocp c + F) (IocpCore_Start os n c) (\<lambda>c. own_iocp c + F) UNIV"
proof (induction n arbitrary: c)
  case (Suc n)
  have eq: "add_mset (Thread t) (own_iocp c + F) = own_iocp (c\<lparr>threads := threads c @ [t]\<rparr>) + F" for t
    by (simp add: own_iocp_def)
  have "triple (add_mset (Thread t) (own_iocp c + F)) (IocpCore_Start os n (c\<lparr>threads := threads c @ [t]\<rparr>))
      (\<lambda>c. own_iocp c + F) UNIV" for t
    unfolding eq by (rule Suc.IH)
  then show ?case unfolding IocpCore_Start.simps by (intro vc) simp_all
qed (simp add: triple_ret)

section \<open>Listener\<close>

record listener_handles =
  acceptOv_buffer :: magic_handles
  socket_lis :: nat

definition own_listener :: "listener_handles \<Rightarrow> resource multiset" where
  "own_listener l = add_mset (Sock (socket_lis l)) (own_magic (acceptOv_buffer l))"

text \<open>When the body of the constructor throws, the member \<^verbatim>\<open>acceptOv_\<close> is destroyed; \<^verbatim>\<open>socket_\<close> is a plain integer.\<close>

definition Listener_open :: "decide \<Rightarrow> nat \<Rightarrow> iocp \<Rightarrow> listener_handles act" where
  "Listener_open os gran c =
     magic_member os gran (\<lambda>acceptOv.
     abind (acquire os WSASocket [] Sock) (\<lambda>sock. case sock of None \<Rightarrow> LOG_FATAL | Some s \<Rightarrow>
     abind (request os setsockopt [Sock s]) (\<lambda>_.
     abind (IocpCore_Register os c (Some s)) (\<lambda>ok.
     abind (fatal_if (\<not> ok)) (\<lambda>_.
     abind (request os bind [Sock s]) (\<lambda>ok.
     abind (fatal_if (\<not> ok)) (\<lambda>_.
     abind (request os listen [Sock s]) (\<lambda>ok.
     abind (fatal_if (\<not> ok)) (\<lambda>_.
     ret \<lparr>acceptOv_buffer = acceptOv, socket_lis = s\<rparr>)))))))))"

definition Listener_close :: "listener_handles \<Rightarrow> unit act" where
  "Listener_close l =
     abind (release closesocket (Sock (socket_lis l))) (\<lambda>_. MagicBuffer_close (acceptOv_buffer l))"

definition listener_leaks :: "resource multiset set" where
  "listener_leaks = magic_leaks \<union> range (\<lambda>s. {#Sock s#})"

lemma Listener_opens:
  "triple (own_iocp c) (Listener_open os gran c) (\<lambda>l. own_listener l + own_iocp c)
     ((\<lambda>L. L + own_iocp c) ` listener_leaks)"
  unfolding Listener_open_def
proof (rule magic.as_member)
  have [simp]: "{#} \<in> listener_leaks" "{#Sock s#} \<in> listener_leaks" for s by (auto simp: listener_leaks_def)
  have body: "own_iocp c + {#Sock s#} \<in> (\<lambda>L. L + own_iocp c) ` listener_leaks" "own_iocp c \<in> (\<lambda>L. L + own_iocp c) ` listener_leaks" for s
    by (auto simp: image_iff intro!: bexI [of _ "{#Sock s#}"] bexI [of _ "{#}"])
  show "triple (own_magic a + own_iocp c)
      (abind (acquire os WSASocket [] Sock) (\<lambda>sock. case sock of None \<Rightarrow> LOG_FATAL | Some s \<Rightarrow>
       abind (request os setsockopt [Sock s]) (\<lambda>_.
       abind (IocpCore_Register os c (Some s)) (\<lambda>ok.
       abind (fatal_if (\<not> ok)) (\<lambda>_.
       abind (request os bind [Sock s]) (\<lambda>ok.
       abind (fatal_if (\<not> ok)) (\<lambda>_.
       abind (request os listen [Sock s]) (\<lambda>ok.
       abind (fatal_if (\<not> ok)) (\<lambda>_.
       ret \<lparr>acceptOv_buffer = a, socket_lis = s\<rparr>)))))))))
      (\<lambda>l. own_listener l + own_iocp c) (before_dtor (own_magic a) {#} ((\<lambda>L. L + own_iocp c) ` listener_leaks))" for a
    by (intro vc) (use body in \<open>auto simp: own_listener_def own_iocp_def before_dtor_def\<close>)
qed (auto simp: listener_leaks_def)

lemma Listener_closes: "triple (own_listener l + F) (Listener_close l) (\<lambda>_. F) E"
  unfolding Listener_close_def own_listener_def
  by (intro vc) (use magic.destroy [of "acceptOv_buffer l" F E] in simp_all)

section \<open>ServerService\<close>

record service =
  wsaManager :: nat
  sessionManager :: "session_handles list"
  iocpCore :: iocp
  listener :: listener_handles

text \<open>The members in the order of their declaration, \<^verbatim>\<open>NetFuncs\<close> without a destructor.\<close>

definition ServerService_open :: "decide \<Rightarrow> nat \<Rightarrow> nat \<Rightarrow> service act" where
  "ServerService_open os gran N =
     member (WSAManager_open os) WSAManager_close (\<lambda>w.
     abind (NetFuncs_ctor os) (\<lambda>_.
     member (SessionManager_open os gran N) SessionManager_close (\<lambda>sm.
     member (IocpCore_open os) (IocpCore_close os) (\<lambda>io.
     abind (Listener_open os gran io) (\<lambda>li.
     ret \<lparr>wsaManager = w, sessionManager = sm, iocpCore = io, listener = li\<rparr>)))))"

definition ServerService_close :: "decide \<Rightarrow> service \<Rightarrow> unit act" where
  "ServerService_close os v =
     abind (Listener_close (listener v)) (\<lambda>_.
     abind (IocpCore_close os (iocpCore v)) (\<lambda>_.
     abind (SessionManager_close (sessionManager v)) (\<lambda>_.
     WSAManager_close (wsaManager v))))"

text \<open>
  \<^verbatim>\<open>Start\<close>: \<^verbatim>\<open>SessionManager::Init\<close> registers the session sockets up to the first failure, and the worker threads are started.
  Posting the accepts opens nothing; it is part of \<open>Server_Run\<close>.
\<close>

fun register_all :: "decide \<Rightarrow> iocp \<Rightarrow> session_handles list \<Rightarrow> bool act" where
  "register_all os c [] = ret True"
| "register_all os c (x # xs) =
     abind (IocpCore_Register os c (socket_ses x)) (\<lambda>ok. if ok then register_all os c xs else ret False)"

definition ServerService_Start_calls :: "decide \<Rightarrow> nat \<Rightarrow> service \<Rightarrow> service act" where
  "ServerService_Start_calls os numThreads v =
     abind (register_all os (iocpCore v) (sessionManager v)) (\<lambda>_.
     abind (IocpCore_Start os numThreads (iocpCore v)) (\<lambda>c.
     ret (v\<lparr>iocpCore := c\<rparr>)))"

text \<open>\<^verbatim>\<open>main\<close>; its result here is the service it has destroyed.\<close>

definition server_main :: "decide \<Rightarrow> nat \<Rightarrow> nat \<Rightarrow> nat \<Rightarrow> service act" where
  "server_main os gran N numThreads =
     abind (ServerService_open os gran N) (\<lambda>v.
     abind (ServerService_Start_calls os numThreads v) (\<lambda>v.
     abind (ServerService_close os v) (\<lambda>_. ret v)))"

definition own_service :: "service \<Rightarrow> resource multiset" where
  "own_service v = own_listener (listener v) + own_iocp (iocpCore v) + own_sessions (sessionManager v) + {#Winsock (wsaManager v)#}"

text \<open>What a throwing constructor of the service may leave open.\<close>

definition service_leaks :: "resource multiset set" where
  "service_leaks = range (\<lambda>s. {#Sock s#}) \<union> pool_leaks \<union> {own_sockets xs + L |xs L. L \<in> listener_leaks}"

lemma service_leaks_in:
  "{#} \<in> service_leaks" "{#Sock s#} \<in> service_leaks" "L \<in> pool_leaks \<Longrightarrow> L \<in> service_leaks"
  "L \<in> listener_leaks \<Longrightarrow> own_sockets xs + L \<in> service_leaks" "own_sockets xs \<in> service_leaks"
proof -
  have e: "{#} \<in> listener_leaks" by (simp add: listener_leaks_def)
  show lis: "L \<in> listener_leaks \<Longrightarrow> own_sockets xs + L \<in> service_leaks" for xs L
    by (auto simp: service_leaks_def)
  show "{#} \<in> service_leaks" using lis [OF e, of "[]"] by (simp add: own_sockets_def)
  show "own_sockets xs \<in> service_leaks" using lis [OF e, of xs] by simp
qed (auto simp: service_leaks_def)

lemma ServerService_opens: "triple {#} (ServerService_open os gran N) own_service service_leaks"
  unfolding ServerService_open_def
proof (rule wsa.as_member)
  fix w
  let ?W = "{#Winsock w#}"
  define E where "E = before_dtor ?W {#} service_leaks"
  define E_sm where "E_sm sm = before_dtor (own_sessions sm) (own_sockets sm) E" for sm
  define E_io where "E_io sm io = before_dtor (own_iocp io) {#} (E_sm sm)" for sm io
  note L = service_leaks_in
  have E: "?W + L \<in> E" if "L \<in> service_leaks" for L
    unfolding E_def by (rule before_dtorI) (use that in simp_all)
  have listener: "triple (own_iocp io + (own_sessions sm + ?W)) (abind (Listener_open os gran io) (\<lambda>li.
      ret \<lparr>wsaManager = w, sessionManager = sm, iocpCore = io, listener = li\<rparr>)) own_service (E_io sm io)" for sm io
  proof (rule vc_frame [OF Listener_opens refl])
    have "L + own_iocp io + (own_sessions sm + ?W) \<in> E_io sm io" if "L \<in> listener_leaks" for L
      unfolding E_io_def
    proof (rule before_dtorI)
      show "L + own_iocp io + (own_sessions sm + ?W) = own_iocp io + (own_sessions sm + (?W + L))" by (simp add: ac_simps)
      have "own_sockets sm + (?W + L) \<in> E"
        unfolding add.left_commute [of "own_sockets sm"] by (rule E [OF L(4) [OF that]])
      then show "{#} + (own_sessions sm + (?W + L)) \<in> E_sm sm" unfolding E_sm_def by (intro before_dtorI [of _ _ "?W + L"]) simp_all
    qed
    then show "(\<lambda>L. L + (own_sessions sm + ?W)) ` (\<lambda>L. L + own_iocp io) ` listener_leaks \<subseteq> E_io sm io" by blast
  qed (intro vc, simp add: own_service_def ac_simps)
  have iocp: "triple (own_sessions sm + ?W) (member (IocpCore_open os) (IocpCore_close os) (\<lambda>io.
      abind (Listener_open os gran io) (\<lambda>li.
      ret \<lparr>wsaManager = w, sessionManager = sm, iocpCore = io, listener = li\<rparr>))) own_service (E_sm sm)" for sm
  proof (rule ic.as_member [OF _ listener [unfolded E_io_def]])
    have "own_sockets sm + ?W \<in> E" using E [OF L(5), of sm] by (simp add: ac_simps)
    then have "own_sessions sm + ?W \<in> E_sm sm" unfolding E_sm_def by (intro before_dtorI [of _ _ ?W]) simp_all
    then show "(\<lambda>L. L + (own_sessions sm + ?W)) ` {{#}} \<subseteq> E_sm sm" by simp
  qed
  have pool: "triple ?W (member (SessionManager_open os gran N) SessionManager_close (\<lambda>sm.
      member (IocpCore_open os) (IocpCore_close os) (\<lambda>io. abind (Listener_open os gran io) (\<lambda>li.
      ret \<lparr>wsaManager = w, sessionManager = sm, iocpCore = io, listener = li\<rparr>)))) own_service E"
  proof (rule sm.as_member [OF _ iocp [unfolded E_sm_def]])
    have "L + ?W \<in> E" if "L \<in> pool_leaks" for L using E [OF L(3) [OF that]] by (simp add: ac_simps)
    then show "(\<lambda>L. L + ?W) ` pool_leaks \<subseteq> E" by blast
  qed
  have "L + ?W \<in> E" if "L \<in> {{#}} \<union> range (\<lambda>s. {#Sock s#})" for L
    using that E [OF L(1)] E [OF L(2)] by (auto simp: ac_simps)
  then have "triple ?W (NetFuncs_ctor os) (\<lambda>_. ?W) E"
    by (intro triple_weaken [OF NetFuncs_opens]) blast
  then show "triple (?W + {#}) (abind (NetFuncs_ctor os) (\<lambda>_. member (SessionManager_open os gran N) SessionManager_close (\<lambda>sm.
      member (IocpCore_open os) (IocpCore_close os) (\<lambda>io. abind (Listener_open os gran io) (\<lambda>li.
      ret \<lparr>wsaManager = w, sessionManager = sm, iocpCore = io, listener = li\<rparr>))))) own_service
      (before_dtor ?W {#} service_leaks)"
    unfolding E_def [symmetric] by (simp add: triple_bind [OF _ pool])
qed (use service_leaks_in(1) in auto)

lemma ServerService_closes: "triple (own_service v) (ServerService_close os v) (\<lambda>_. own_sockets (sessionManager v)) {}"
  unfolding ServerService_close_def own_service_def
proof (rule triple_bind [OF _ triple_bind [OF _ triple_bind]])
  let ?I = "own_iocp (iocpCore v)" and ?S = "own_sessions (sessionManager v)" and ?W = "{#Winsock (wsaManager v)#}"
  show "triple (own_listener (listener v) + ?I + ?S + ?W) (Listener_close (listener v)) (\<lambda>_. ?I + (?S + ?W)) {}"
    using Listener_closes [of "listener v" "?I + (?S + ?W)"] by (simp add: ac_simps)
  show "triple (?I + (?S + ?W)) (IocpCore_close os (iocpCore v)) (\<lambda>_. ?S + ?W) {}"
    using ic.destroy [of "iocpCore v" "?S + ?W"] by simp
  show "triple (?S + ?W) (SessionManager_close (sessionManager v)) (\<lambda>_. ?W + own_sockets (sessionManager v)) {}"
    using sm.destroy [of "sessionManager v" ?W] by (simp add: ac_simps)
  show "triple (?W + own_sockets (sessionManager v)) (WSAManager_close (wsaManager v))
      (\<lambda>_. own_sockets (sessionManager v)) {}"
    using wsa.destroy [of "wsaManager v" "own_sockets (sessionManager v)"] by simp
qed

lemma register_all_neutral:
  "\<forall>x\<in>set xs. own_socket x \<subseteq># A \<Longrightarrow> Port (hIocp c) \<in># A \<Longrightarrow> triple A (register_all os c xs) (\<lambda>_. A) E"
proof (induction xs)
  case (Cons x xs)
  have "Sock s \<in># A" if "socket_ses x = Some s" for s
    using Cons.prems(1) that by (simp add: own_socket_def)
  then show ?case using Cons unfolding register_all.simps by (intro vc) (auto intro: triple_ret)
qed (simp add: triple_ret)

lemma own_socket_in: "x \<in> set xs \<Longrightarrow> own_socket x \<subseteq># own_sessions xs"
proof (induction xs)
  case (Cons y xs)
  show ?case
  proof (cases "x = y")
    case True
    then show ?thesis by (simp add: own_sessions_def own_session_def ac_simps)
  next
    case False
    then have "own_socket x \<subseteq># own_sessions xs" using Cons by simp
    then show ?thesis by (simp add: own_sessions_def subset_mset.add_increasing)
  qed
qed simp

lemma ServerService_starts:
  "triple (own_service v) (ServerService_Start_calls os n v)
     (\<lambda>v'. own_service v') UNIV"
  unfolding ServerService_Start_calls_def
proof (rule triple_bind [OF _ triple_bind])
  let ?F = "own_listener (listener v) + own_sessions (sessionManager v) + {#Winsock (wsaManager v)#}"
  have "own_socket x \<subseteq># own_service v" if "x \<in> set (sessionManager v)" for x
  proof -
    have "own_service v = own_sessions (sessionManager v) + (own_listener (listener v) + own_iocp (iocpCore v) + {#Winsock (wsaManager v)#})"
      by (simp add: own_service_def ac_simps)
    then show ?thesis using own_socket_in [OF that] by (metis mset_subset_eq_add_left subset_mset.trans)
  qed
  then show "triple (own_service v) (register_all os (iocpCore v) (sessionManager v)) (\<lambda>_. own_iocp (iocpCore v) + ?F) UNIV"
    using register_all_neutral [of "sessionManager v" "own_service v" "iocpCore v" os UNIV]
    by (simp add: own_service_def own_iocp_def ac_simps)
  show "triple (own_iocp (iocpCore v) + ?F) (IocpCore_Start os n (iocpCore v)) (\<lambda>c. own_iocp c + ?F) UNIV"
    by (rule Start_threads_opens)
qed (intro vc, simp add: own_service_def ac_simps)

lemma server_main_triple: "triple {#} (server_main os gran N n) (\<lambda>v. own_sockets (sessionManager v)) UNIV"
  unfolding server_main_def
proof (rule triple_bind, rule triple_weaken [OF ServerService_opens])
  show "triple (own_service v) (abind (ServerService_Start_calls os n v) (\<lambda>v. abind (ServerService_close os v) (\<lambda>_. ret v)))
      (\<lambda>v. own_sockets (sessionManager v)) UNIV" for v
    by (rule triple_bind [OF ServerService_starts], rule triple_bind, rule triple_weaken [OF ServerService_closes])
      (auto intro: triple_ret)
qed simp

end
