(* ===== verification/Lifecycle_Properties.thy ===== *)
theory Lifecycle_Properties
  imports Server_Lifecycle
begin

text \<open>The properties of \<open>Server_Lifecycle\<close>: what the server's \<^verbatim>\<open>main\<close> and the buffers leave open, and what throwing constructors leak.\<close>

text \<open>The case that every call succeeds.\<close>

definition all_succeed :: decide where
  "all_succeed c k = True"

lemmas run_simps = abind_def ret_def acquire_def request_def release_def fatal_if_def unwind_def member_def tick_def
  all_succeed_def no_objects_def LOG_FATAL_def

lemmas class_simps = WSAManager_open_def NetFuncs_ctor_def load_AcceptEx_def load_DisconnectEx_def
  SessionManager_open_def Session_open_def MagicBuffer_open_def IocpCore_open_def Listener_open_def IocpCore_Register_def
  Listener_close_def MagicBuffer_close_def IocpCore_close_def SessionManager_close_def Session_close_def WSAManager_close_def


text \<open>
  A throwing constructor leaks. If the second extension function cannot be loaded, the server's constructor throws, Winsock is
  shut down again, and the dummy socket stays open; if the port of the listener is taken, the listening socket stays
  open, beside the sockets of the sessions.
\<close>

definition no_DisconnectEx :: decide where
  "no_DisconnectEx c k \<longleftrightarrow> c \<noteq> WSAIoctl_DisconnectEx"

definition port_taken :: decide where
  "port_taken c k \<longleftrightarrow> c \<noteq> bind"

lemma constructors_leak_sockets:
  "(\<exists>s k. ServerService_open no_DisconnectEx 65536 1 no_objects = (Inl Runtime_error, s) \<and> opened s = {#Sock k#}) \<and>
   (\<exists>s k l. ServerService_open port_taken 65536 1 no_objects = (Inl Runtime_error, s) \<and> opened s = {#Sock k, Sock l#})"
  by (simp add: run_simps class_simps ServerService_open_def kMagicBufferSize_def no_DisconnectEx_def port_taken_def) (intro exI, rule refl)

definition no_second_view :: decide where
  "no_second_view c k \<longleftrightarrow> c \<noteq> MapViewOfFileEx \<or> k < 4"

text \<open>
  The ring memory. Constructing and destroying a buffer, with any size and any failures, never names an object that is not
  open. If the constructor succeeds, nothing of it is left; if it throws, nothing is left, or the mapping object, or the
  mapping object and its first view. The latter do occur, when a view cannot be mapped.
\<close>

lemma MagicBuffer_lifetime:
  "(case abind (MagicBuffer_open os gran sz) (\<lambda>b. abind (MagicBuffer_close b) (\<lambda>_. ret b)) s of
      (Inr b, s') \<Rightarrow> opened s' = opened s
    | (Inl e, s') \<Rightarrow> e = Runtime_error \<and>
        (opened s' = opened s \<or> (\<exists>m. opened s' = add_mset (Mapping m) (opened s)) \<or>
         (\<exists>m v. opened s' = add_mset (View v) (add_mset (Mapping m) (opened s))))) \<and>
   (\<exists>u m v. MagicBuffer_open no_second_view 65536 65536 no_objects = (Inl Runtime_error, u) \<and> opened u = {#View v, Mapping m#})"
proof
  have o: "opened s = {#} + opened s" by simp
  let ?m = "abind (MagicBuffer_open os gran sz) (\<lambda>b. abind (MagicBuffer_close b) (\<lambda>_. ret b))"
  note t = tripleD [OF magic.lifetime [of os gran sz] o]
  show "case ?m s of
      (Inr b, s') \<Rightarrow> opened s' = opened s
    | (Inl e, s') \<Rightarrow> e = Runtime_error \<and>
        (opened s' = opened s \<or> (\<exists>m. opened s' = add_mset (Mapping m) (opened s)) \<or>
         (\<exists>m v. opened s' = add_mset (View v) (add_mset (Mapping m) (opened s))))"
  proof (cases "?m s")
    case (Pair r u)
    show ?thesis
    proof (cases r)
      case (Inl e)
      then have "e = Runtime_error \<and> (\<exists>L\<in>magic_leaks. opened u = L + opened s)" using t(2) Pair by blast
      then obtain L where L: "e = Runtime_error" "L \<in> magic_leaks" "opened u = L + opened s" by blast
      consider "L = {#}" | m where "L = {#Mapping m#}" | m v where "L = {#View v, Mapping m#}"
        using L(2) unfolding magic_leaks_def by blast
      then have "opened u = opened s \<or> (\<exists>m. opened u = add_mset (Mapping m) (opened s)) \<or>
         (\<exists>m v. opened u = add_mset (View v) (add_mset (Mapping m) (opened s)))"
        by cases (use L(3) in \<open>metis add_0 add_mset_add_single union_mset_add_mset_left\<close>)+
      then show ?thesis unfolding Pair Inl using L(1) by simp
    qed (use t(1) Pair in simp)
  qed
  show "\<exists>u m v. MagicBuffer_open no_second_view 65536 65536 no_objects = (Inl Runtime_error, u) \<and> opened u = {#View v, Mapping m#}"
    by (simp add: run_simps MagicBuffer_open_def no_second_view_def) (intro exI, rule refl)
qed

end
