(* ===== verification/Ring_Buffer.thy ===== *)
theory Ring_Buffer
  imports Server_Prelude
begin

text \<open>
  The arrays with a head and a tail counter that the schedulers use (\<^verbatim>\<open>Worker::queue_\<close>, \<^verbatim>\<open>Worker::buffer_\<close> of
  \<^verbatim>\<open>Scheduler/Worker.hpp\<close>, \<^verbatim>\<open>WorkerQueue::tasks\<close> of \<^verbatim>\<open>Scheduler/WorkStealing.cpp\<close>). The counters are \<^verbatim>\<open>size_t\<close>, run freely
  and wrap around at \<open>2\<^sup>6\<^sup>4\<close>; the cell of a counter is its remainder by the capacity. The locale proves once, for every capacity
  that divides \<open>2\<^sup>6\<^sup>4\<close>, that these arrays are double-ended queues.
\<close>

section \<open>Definitions\<close>

record 'a ring =
  r_cells :: "'a list"
  r_head :: u64
  r_tail :: u64

definition ring_size :: "'a ring \<Rightarrow> u64" where
  "ring_size r = r_tail r - r_head r"

text \<open>\<^verbatim>\<open>cells[tail % capacity] = x; tail++\<close>.\<close>

definition ring_put :: "'a \<Rightarrow> 'a ring \<Rightarrow> 'a ring res" where
  "ring_put x r =
     rbind (aset (r_cells r) (unat (r_tail r) mod length (r_cells r)) x) (\<lambda>cells.
     Inr (r\<lparr>r_cells := cells, r_tail := r_tail r + 1\<rparr>))"

text \<open>\<^verbatim>\<open>x = cells[head % capacity]; head++\<close>.\<close>

definition ring_take :: "'a ring \<Rightarrow> ('a \<times> 'a ring) res" where
  "ring_take r =
     rbind (aget (r_cells r) (unat (r_head r) mod length (r_cells r))) (\<lambda>x.
     Inr (x, r\<lparr>r_head := r_head r + 1\<rparr>))"

text \<open>\<^verbatim>\<open>tail--; x = cells[tail % capacity]\<close>.\<close>

definition ring_take_back :: "'a ring \<Rightarrow> ('a \<times> 'a ring) res" where
  "ring_take_back r =
     (let tail = r_tail r - 1 in
      rbind (aget (r_cells r) (unat tail mod length (r_cells r))) (\<lambda>x.
      Inr (x, r\<lparr>r_tail := tail\<rparr>)))"

text \<open>The loops that move \<open>n\<close> elements from the front of one array, or of a \<^verbatim>\<open>std::deque\<close>, to the back of another.\<close>

fun ring_move :: "nat \<Rightarrow> 'a ring \<Rightarrow> 'a ring \<Rightarrow> ('a ring \<times> 'a ring) res" where
  "ring_move 0 src dst = Inr (src, dst)"
| "ring_move (Suc n) src dst =
     rbind (ring_take src) (\<lambda>(x, src).
     rbind (ring_put x dst) (\<lambda>dst.
     ring_move n src dst))"

fun deque_move :: "nat \<Rightarrow> 'a list \<Rightarrow> 'a ring \<Rightarrow> ('a list \<times> 'a ring) res" where
  "deque_move 0 src dst = Inr (src, dst)"
| "deque_move (Suc n) src dst =
     (case src of
        [] \<Rightarrow> Inl Out_of_bounds
      | x # src \<Rightarrow> rbind (ring_put x dst) (\<lambda>dst. deque_move n src dst))"

section \<open>The abstract queue\<close>

definition ring_list :: "'a ring \<Rightarrow> 'a list" where
  "ring_list r = map (\<lambda>k. r_cells r ! (unat (r_head r + word_of_nat k) mod length (r_cells r))) [0..<unat (ring_size r)]"

definition ring_ok :: "nat \<Rightarrow> 'a ring \<Rightarrow> bool" where
  "ring_ok C r \<longleftrightarrow> length (r_cells r) = C \<and> unat (ring_size r) \<le> C"

lemma length_ring_list [simp]: "length (ring_list r) = unat (ring_size r)"
  by (simp add: ring_list_def)

lemma ring_list_empty: "ring_list r = [] \<longleftrightarrow> r_tail r = r_head r"
proof -
  have "ring_list r = [] \<longleftrightarrow> unat (ring_size r) = 0" by (metis length_0_conv length_ring_list)
  then show ?thesis by (simp add: ring_size_def unsigned_eq_0_iff)
qed

locale ring_capacity =
  fixes C :: nat
  assumes pos: "0 < C" and dvd: "C dvd 2 ^ 64" and small: "C < 2 ^ 64"
begin

lemma index: "unat (h + word_of_nat k :: u64) mod C = (unat h + k) mod C"
proof -
  have "unat (h + word_of_nat k) = (unat h + k) mod 2 ^ 64"
    by (simp add: unat_word_ariths unat_of_nat take_bit_eq_mod mod_add_right_eq)
  then show ?thesis using dvd by (simp add: mod_mod_cancel)
qed

lemma nth_list:
  assumes "ring_ok C r" "k < unat (ring_size r)"
  shows "ring_list r ! k = r_cells r ! ((unat (r_head r) + k) mod C)"
  using assms index [of "r_head r" k] by (simp add: ring_list_def ring_ok_def)

lemma tail_index:
  assumes "ring_ok C r"
  shows "unat (r_tail r) mod C = (unat (r_head r) + unat (ring_size r)) mod C"
  using index [of "r_head r" "unat (ring_size r)"] by (simp add: ring_size_def)

lemma cells_apart:
  assumes "k < n" "n - k < C"
  shows "(a + k) mod C \<noteq> (a + n :: nat) mod C"
proof
  assume "(a + k) mod C = (a + n) mod C"
  then have "C dvd (a + n) - (a + k)" using mod_eq_dvd_iff_nat [of "a + k" "a + n" C] assms(1) by simp
  then show False using assms by (auto dest: dvd_imp_le)
qed

lemma put:
  assumes ok: "ring_ok C r" and room: "unat (ring_size r) < C"
  shows "\<exists>r'. ring_put x r = Inr r' \<and> ring_ok C r' \<and> ring_list r' = ring_list r @ [x]"
proof -
  let ?n = "unat (ring_size r)" and ?t = "unat (r_tail r) mod C"
  let ?r = "r\<lparr>r_cells := (r_cells r)[?t := x], r_tail := r_tail r + 1\<rparr>"
  have len: "length (r_cells r) = C" using ok by (simp add: ring_ok_def)
  have eq: "ring_size ?r = ring_size r + 1" by (simp add: ring_size_def)
  have "?n + 1 < 2 ^ 64" using room small by linarith
  then have n: "unat (ring_size ?r) = ?n + 1" unfolding eq by (simp add: unat_word_ariths)
  then have ok': "ring_ok C ?r" using len room by (simp add: ring_ok_def)
  have t: "?t < C" using pos by simp
  have "ring_list ?r = ring_list r @ [x]"
  proof (rule nth_equalityI)
    fix k assume k: "k < length (ring_list ?r)"
    then have "ring_list ?r ! k = (r_cells r)[?t := x] ! ((unat (r_head r) + k) mod C)"
      using nth_list [OF ok', of k] by simp
    then show "ring_list ?r ! k = (ring_list r @ [x]) ! k"
      using k n tail_index [OF ok] t len less_imp_diff_less [OF room, of k] nth_list [OF ok, of k]
        cells_apart [of k ?n "unat (r_head r)"]
      by (cases "k < ?n") (auto simp: nth_append nth_list_update less_Suc_eq)
  qed (simp add: n)
  moreover have "ring_put x r = Inr ?r" using len t by (simp add: ring_put_def)
  ultimately show ?thesis using ok' by blast
qed

lemma take_front:
  assumes ok: "ring_ok C r" and l: "ring_list r = x # xs"
  shows "\<exists>r'. ring_take r = Inr (x, r') \<and> ring_ok C r' \<and> ring_list r' = xs"
proof -
  let ?n = "unat (ring_size r)" and ?r = "r\<lparr>r_head := r_head r + 1\<rparr>"
  have len: "length (r_cells r) = C" and n: "?n = Suc (length xs)"
    using ok arg_cong [OF l, of length] by (simp_all add: ring_ok_def)
  have eq: "ring_size ?r = ring_size r - 1" by (simp add: ring_size_def)
  have n': "unat (ring_size ?r) = length xs" unfolding eq using n by (metis diff_Suc_1 unat_minus_one unat_0 nat.distinct(1))
  then have ok': "ring_ok C ?r" using ok n by (simp add: ring_ok_def)
  have "ring_list ?r = xs"
  proof (rule nth_equalityI)
    fix k assume k: "k < length (ring_list ?r)"
    have "(unat (r_head r + 1) + k) mod C = (unat (r_head r) + Suc k) mod C"
      using index [of "r_head r" 1] by (metis (no_types) add_Suc_right mod_add_left_eq of_nat_1 add.assoc plus_1_eq_Suc)
    then show "ring_list ?r ! k = xs ! k"
      using nth_list [OF ok', of k] nth_list [OF ok, of "Suc k"] k n n' l by simp
  qed (simp add: n')
  moreover have "ring_take r = Inr (x, ?r)"
    using len pos nth_list [OF ok, of 0] n l by (simp add: ring_take_def)
  ultimately show ?thesis using ok' by blast
qed

lemma take_back:
  assumes ok: "ring_ok C r" and l: "ring_list r = xs @ [x]"
  shows "\<exists>r'. ring_take_back r = Inr (x, r') \<and> ring_ok C r' \<and> ring_list r' = xs"
proof -
  let ?n = "unat (ring_size r)" and ?r = "r\<lparr>r_tail := r_tail r - 1\<rparr>"
  have len: "length (r_cells r) = C" and n: "?n = Suc (length xs)"
    using ok arg_cong [OF l, of length] by (simp_all add: ring_ok_def)
  have eq: "ring_size ?r = ring_size r - 1" by (simp add: ring_size_def)
  have n': "unat (ring_size ?r) = length xs" unfolding eq using n by (metis diff_Suc_1 unat_minus_one unat_0 nat.distinct(1))
  then have ok': "ring_ok C ?r" using ok n by (simp add: ring_ok_def)
  have "ring_list ?r = xs"
  proof (rule nth_equalityI)
    fix k assume k: "k < length (ring_list ?r)"
    then show "ring_list ?r ! k = xs ! k"
      using nth_list [OF ok', of k] nth_list [OF ok, of k] n n' l by (simp add: nth_append)
  qed (simp add: n')
  moreover have "ring_take_back r = Inr (x, ?r)"
    using len pos tail_index [OF ok'] n' nth_list [OF ok, of "length xs"] n l
    by (simp add: ring_take_back_def Let_def)
  ultimately show ?thesis using ok' by blast
qed

lemma from_deque:
  assumes "ring_ok C dst" "n \<le> length src" "unat (ring_size dst) + n \<le> C"
  shows "\<exists>dst'. deque_move n src dst = Inr (drop n src, dst') \<and> ring_ok C dst' \<and>
    ring_list dst' = ring_list dst @ take n src"
  using assms
proof (induction n arbitrary: src dst)
  case (Suc n)
  then obtain x src' where src: "src = x # src'" by (cases src) auto
  obtain dst1 where d: "ring_put x dst = Inr dst1" "ring_ok C dst1" "ring_list dst1 = ring_list dst @ [x]"
    using put [OF Suc.prems(1), of x] Suc.prems(3) by auto
  have "unat (ring_size dst1) = unat (ring_size dst) + 1" using arg_cong [OF d(3), of length] by simp
  then show ?case using Suc.IH [OF d(2), of src'] Suc.prems src d(1,3) by auto
qed simp

end

text \<open>Two arrays of possibly different capacity.\<close>

locale ring_pair = src: ring_capacity C + dst: ring_capacity D for C D
begin

lemma moved:
  assumes "ring_ok C s" "ring_ok D d" "n \<le> unat (ring_size s)" "unat (ring_size d) + n \<le> D"
  shows "\<exists>s' d'. ring_move n s d = Inr (s', d') \<and> ring_ok C s' \<and> ring_ok D d' \<and>
    ring_list s' = drop n (ring_list s) \<and> ring_list d' = ring_list d @ take n (ring_list s)"
  using assms
proof (induction n arbitrary: s d)
  case (Suc n)
  then obtain x xs where l: "ring_list s = x # xs" by (metis Suc_le_length_iff length_ring_list)
  obtain s1 where s1: "ring_take s = Inr (x, s1)" "ring_ok C s1" "ring_list s1 = xs"
    using src.take_front [OF Suc.prems(1) l] by blast
  obtain d1 where d1: "ring_put x d = Inr d1" "ring_ok D d1" "ring_list d1 = ring_list d @ [x]"
    using dst.put [OF Suc.prems(2), of x] Suc.prems(4) by auto
  have "unat (ring_size d1) = unat (ring_size d) + 1" "unat (ring_size s1) = unat (ring_size s) - 1"
    using arg_cong [OF d1(3), of length] arg_cong [OF s1(3), of length] arg_cong [OF l, of length] by simp_all
  then show ?case using Suc.IH [OF s1(2) d1(2)] Suc.prems(3,4) s1(1,3) d1(1,3) l by auto
qed simp

end

end
