(* ===== verification/Task_Worker.thy ===== *)
theory Task_Worker
  imports Ring_Buffer "HOL-Library.Multiset"
begin

text \<open>
  The operations of a worker of the task scheduler (\<^verbatim>\<open>Scheduler/Worker.hpp\<close>, \<^verbatim>\<open>Scheduler/Worker.cpp\<close>): the local queue
  and buffer, fetching from the global queue, stealing, running a task. A \<^verbatim>\<open>Task*\<close> is the number of its allocation. The outcome
  of every \<^verbatim>\<open>try_to_lock\<close> is an argument, since another thread may hold the mutex and \<^verbatim>\<open>try_lock\<close> may fail
  without a reason. The operations on \<^verbatim>\<open>double\<close> and the functions \<^verbatim>\<open>std::sin\<close> and \<^verbatim>\<open>std::cos\<close> are a
  parameter without any law.
\<close>

section \<open>Data\<close>

type_synonym task = nat

record 'd floats =
  f_of_int :: "int \<Rightarrow> 'd"
  f_add :: "'d \<Rightarrow> 'd \<Rightarrow> 'd"
  f_sub :: "'d \<Rightarrow> 'd \<Rightarrow> 'd"
  f_sin :: "'d \<Rightarrow> 'd"
  f_cos :: "'d \<Rightarrow> 'd"

definition kQueueSize :: nat where "kQueueSize = 512"

definition kMaxBufferSize :: nat where "kMaxBufferSize = 64"

record 'd Worker =
  w_queue :: "task ring"
  w_buffer :: "task ring"
  task_did :: u64
  w_sum :: 'd

definition new_Worker :: "'d floats \<Rightarrow> 'd Worker" where
  "new_Worker fl =
     \<lparr>w_queue = \<lparr>r_cells = replicate kQueueSize 0, r_head = 0, r_tail = 0\<rparr>,
      w_buffer = \<lparr>r_cells = replicate kMaxBufferSize 0, r_head = 0, r_tail = 0\<rparr>,
      task_did = 0, w_sum = f_of_int fl 0\<rparr>"

section \<open>Operations\<close>

definition FillBuffer :: "nat \<Rightarrow> 'd Worker \<Rightarrow> (nat \<times> 'd Worker) res" where
  "FillBuffer batch_size w =
     (let cnt = min (unat (ring_size (w_queue w))) batch_size in
      rbind (ring_move cnt (w_queue w) (w_buffer w)) (\<lambda>(q, b).
      Inr (cnt, w\<lparr>w_queue := q, w_buffer := b\<rparr>)))"

definition GetNextTask :: "'d Worker \<Rightarrow> (task option \<times> 'd Worker) res" where
  "GetNextTask w =
     (if 0 < ring_size (w_buffer w)
      then rbind (ring_take (w_buffer w)) (\<lambda>(t, b). Inr (Some t, w\<lparr>w_buffer := b\<rparr>))
      else Inr (None, w))"

definition TryFetchGlobal ::
  "nat \<Rightarrow> nat \<Rightarrow> bool \<Rightarrow> bool \<Rightarrow> task list \<Rightarrow> 'd Worker \<Rightarrow> (nat \<times> task list \<times> 'd Worker) res" where
  "TryFetchGlobal batch_size num_threads owns_lock owns_local global_queue w =
     (if \<not> owns_lock \<or> global_queue = [] then Inr (0, global_queue, w)
      else if \<not> owns_local then Inr (0, global_queue, w)
      else if num_threads = 0 then Inl Division_by_zero
      else
        let cnt = min (length global_queue div num_threads + 1)
              (min (unat (word_of_nat kQueueSize - ring_size (w_queue w))) batch_size) in
        rbind (deque_move cnt global_queue (w_queue w)) (\<lambda>(g, q).
        Inr (cnt, g, w\<lparr>w_queue := q\<rparr>)))"

text \<open>A thread that steals from itself would lock its own mutex a second time.\<close>

definition TryStealFrom ::
  "nat \<Rightarrow> bool \<Rightarrow> bool \<Rightarrow> nat \<Rightarrow> nat \<Rightarrow> 'd Worker list \<Rightarrow> (nat \<times> 'd Worker list) res" where
  "TryStealFrom batch_size owns_lock owns_local self v workers =
     rbind (aget workers v) (\<lambda>victim.
     if ring_size (w_queue victim) = 0 then Inr (0, workers)
     else if \<not> owns_lock \<or> ring_size (w_queue victim) = 0 then Inr (0, workers)
     else if v = self then Inl Mutex_relocked
     else if \<not> owns_local then Inr (0, workers)
     else
       rbind (aget workers self) (\<lambda>w.
       let cnt = min (unat ((ring_size (w_queue victim) + 1) div 2))
             (min (unat (word_of_nat kQueueSize - ring_size (w_queue w))) batch_size) in
       rbind (ring_move cnt (w_queue victim) (w_queue w)) (\<lambda>(vq, q).
       Inr (cnt, workers[v := victim\<lparr>w_queue := vq\<rparr>, self := w\<lparr>w_queue := q\<rparr>]))))"

fun DummyTask_loop :: "'d floats \<Rightarrow> nat \<Rightarrow> int \<Rightarrow> 'd \<Rightarrow> 'd" where
  "DummyTask_loop fl 0 i val = val"
| "DummyTask_loop fl (Suc n) i val =
     DummyTask_loop fl n (i + 1)
       (f_add fl (f_sin fl (f_add fl val (f_of_int fl i))) (f_cos fl (f_sub fl val (f_of_int fl i))))"

definition DummyTask :: "'d floats \<Rightarrow> int \<Rightarrow> 'd Worker \<Rightarrow> 'd Worker" where
  "DummyTask fl cnt w = w\<lparr>w_sum := f_add fl (w_sum w) (DummyTask_loop fl (nat cnt) 0 (f_of_int fl 0))\<rparr>"

text \<open>\<^verbatim>\<open>(*task)()\<close>, where the closure of the task with number \<open>t\<close> captured \<open>heap ! t\<close>.\<close>

definition run_task :: "'d floats \<Rightarrow> nat list \<Rightarrow> task \<Rightarrow> 'd Worker list \<Rightarrow> 'd Worker list res" where
  "run_task fl heap t workers =
     rbind (aget heap t) (\<lambda>i.
     rbind (aget workers i) (\<lambda>w.
     Inr (workers[i := DummyTask fl (int i * 50 + 250) w])))"

section \<open>The queues of a worker\<close>

interpretation rq: ring_capacity 512
  by unfold_locales (simp_all add: dvd_def exI [of _ "2 ^ 55"])

interpretation rb: ring_capacity 64
  by unfold_locales (simp_all add: dvd_def exI [of _ "2 ^ 58"])

interpretation qb: ring_pair 512 64
  by unfold_locales

interpretation qq: ring_pair 512 512
  by unfold_locales

lemmas worker_consts = kQueueSize_def kMaxBufferSize_def

definition w_ok :: "'d Worker \<Rightarrow> bool" where
  "w_ok w \<longleftrightarrow> ring_ok 512 (w_queue w) \<and> ring_ok 64 (w_buffer w)"

abbreviation "queued_tasks w \<equiv> ring_list (w_queue w)"

abbreviation "buffered w \<equiv> ring_list (w_buffer w)"

lemma new_Worker_simps [simp]:
  "w_ok (new_Worker fl)" "queued_tasks (new_Worker fl) = []" "buffered (new_Worker fl) = []"
  "task_did (new_Worker fl) = 0" "w_sum (new_Worker fl) = f_of_int fl 0"
  by (simp_all add: w_ok_def new_Worker_def worker_consts ring_ok_def ring_size_def ring_list_empty)

lemma ring_size_0: "ring_size r = 0 \<longleftrightarrow> ring_list r = []"
  by (simp add: ring_list_empty ring_size_def)

lemma room:
  assumes "ring_ok 512 r"
  shows "unat (word_of_nat kQueueSize - ring_size r) = 512 - length (ring_list r)"
proof -
  have "ring_size r \<le> 512" using assms by (simp add: ring_ok_def word_le_nat_alt)
  then show ?thesis by (simp add: kQueueSize_def unat_sub)
qed

text \<open>What each operation does to the queue and the buffer as lists.\<close>

lemma FillBuffer_ok:
  assumes "w_ok w" "buffered w = []" "batch_size \<le> 64"
  shows "\<exists>w'. FillBuffer batch_size w = Inr (min (length (queued_tasks w)) batch_size, w') \<and> w_ok w' \<and>
    queued_tasks w' = drop batch_size (queued_tasks w) \<and> buffered w' = take batch_size (queued_tasks w) \<and>
    task_did w' = task_did w \<and> w_sum w' = w_sum w"
proof -
  let ?n = "min (unat (ring_size (w_queue w))) batch_size"
  have "unat (ring_size (w_buffer w)) = 0" using assms(2) by (metis length_0_conv length_ring_list)
  then have "unat (ring_size (w_buffer w)) + ?n \<le> 64" using assms(3) by linarith
  then obtain q b where "ring_move ?n (w_queue w) (w_buffer w) = Inr (q, b)" "ring_ok 512 q" "ring_ok 64 b"
    "ring_list q = drop ?n (queued_tasks w)" "ring_list b = buffered w @ take ?n (queued_tasks w)"
    using qb.moved [of "w_queue w" "w_buffer w" ?n] assms by (auto simp: w_ok_def)
  then show ?thesis using assms(2)
    by (auto simp: FillBuffer_def w_ok_def Let_def min_def)
qed

lemma GetNextTask_ok:
  assumes "w_ok w"
  shows "(buffered w = [] \<longrightarrow> GetNextTask w = Inr (None, w)) \<and>
    (\<forall>t ts. buffered w = t # ts \<longrightarrow> (\<exists>w'. GetNextTask w = Inr (Some t, w') \<and> w_ok w' \<and>
      queued_tasks w' = queued_tasks w \<and> buffered w' = ts \<and> task_did w' = task_did w \<and> w_sum w' = w_sum w))"
proof (cases "buffered w")
  case Nil
  then show ?thesis using ring_size_0 [of "w_buffer w"] by (simp add: GetNextTask_def)
next
  case (Cons t ts)
  obtain b where "ring_take (w_buffer w) = Inr (t, b)" "ring_ok 64 b" "ring_list b = ts"
    using rb.take_front [OF _ Cons] assms by (auto simp: w_ok_def)
  moreover have "0 < ring_size (w_buffer w)" using Cons ring_size_0 [of "w_buffer w"] by (simp add: word_gt_0)
  ultimately show ?thesis using assms Cons by (auto simp: GetNextTask_def w_ok_def)
qed

text \<open>
  The share \<^verbatim>\<open>size / num_threads + 1\<close> is at most the size of the queue only when there are two threads or more.
\<close>

lemma share_le: "2 \<le> n \<Longrightarrow> g \<noteq> [] \<Longrightarrow> length g div n + 1 \<le> length g"
proof -
  assume "2 \<le> n" "g \<noteq> []"
  then have "length g div n \<le> length g div 2" "0 < length g" by (auto intro: div_le_mono2)
  then show "length g div n + 1 \<le> length g" by linarith
qed

lemma TryFetchGlobal_ok:
  assumes "w_ok w" "2 \<le> n" "0 < batch_size"
  shows "\<exists>k w'. TryFetchGlobal batch_size n l1 l2 g w = Inr (k, drop k g, w') \<and> w_ok w' \<and> k \<le> length g \<and>
    queued_tasks w' = queued_tasks w @ take k g \<and> buffered w' = buffered w \<and>
    task_did w' = task_did w \<and> w_sum w' = w_sum w \<and>
    (l1 \<and> l2 \<and> g \<noteq> [] \<and> length (queued_tasks w) < 512 \<longrightarrow> 0 < k)"
proof (cases "l1 \<and> l2 \<and> g \<noteq> []")
  case False
  then show ?thesis using assms(1) by (intro exI [of _ 0] exI [of _ w]) (auto simp: TryFetchGlobal_def)
next
  case True
  have q: "ring_ok 512 (w_queue w)" using assms(1) by (simp add: w_ok_def)
  let ?k = "min (length g div n + 1) (min (512 - length (queued_tasks w)) batch_size)"
  have "?k \<le> length g" using share_le [OF assms(2), of g] True by linarith
  moreover have "unat (ring_size (w_queue w)) + ?k \<le> 512" using q unfolding ring_ok_def length_ring_list by linarith
  ultimately obtain q' where "deque_move ?k g (w_queue w) = Inr (drop ?k g, q')" "ring_ok 512 q'"
    "ring_list q' = queued_tasks w @ take ?k g" using rq.from_deque [OF q, of ?k g] by blast
  then show ?thesis using True assms room [OF q] \<open>?k \<le> length g\<close>
    by (intro exI [of _ ?k] exI [of _ "w\<lparr>w_queue := q'\<rparr>"]) (auto simp: TryFetchGlobal_def w_ok_def Let_def)
qed

lemma TryStealFrom_empty:
  assumes "v < length ws" "queued_tasks (ws ! v) = []"
  shows "TryStealFrom batch_size l1 l2 i v ws = Inr (0, ws)"
  using assms ring_size_0 [of "w_queue (ws ! v)"] by (simp add: TryStealFrom_def)

lemma TryStealFrom_other:
  assumes "v < length ws" "i < length ws" "v \<noteq> i" "w_ok (ws ! v)" "w_ok (ws ! i)"
  shows "\<exists>k v' w'. TryStealFrom batch_size l1 l2 i v ws = Inr (k, ws[v := v', i := w']) \<and> w_ok v' \<and> w_ok w' \<and>
    queued_tasks v' = drop k (queued_tasks (ws ! v)) \<and> queued_tasks w' = queued_tasks (ws ! i) @ take k (queued_tasks (ws ! v)) \<and>
    buffered v' = buffered (ws ! v) \<and> buffered w' = buffered (ws ! i) \<and> task_did v' = task_did (ws ! v) \<and>
    task_did w' = task_did (ws ! i) \<and> w_sum v' = w_sum (ws ! v) \<and> w_sum w' = w_sum (ws ! i)"
proof (cases "l1 \<and> l2 \<and> queued_tasks (ws ! v) \<noteq> []")
  case False
  then show ?thesis using assms ring_size_0 [of "w_queue (ws ! v)"]
    by (intro exI [of _ 0] exI [of _ "ws ! v"] exI [of _ "ws ! i"]) (auto simp: TryStealFrom_def)
next
  case True
  let ?q = "w_queue (ws ! v)" and ?r = "w_queue (ws ! i)"
  have q: "ring_ok 512 ?q" "ring_ok 512 ?r" using assms(4,5) by (simp_all add: w_ok_def)
  let ?k = "min (unat ((ring_size ?q + 1) div 2)) (min (512 - length (ring_list ?r)) batch_size)"
  have "unat (ring_size ?q + 1) = unat (ring_size ?q) + 1" using q(1) by (simp add: ring_ok_def unat_word_ariths)
  then have "unat ((ring_size ?q + 1) div 2) = (unat (ring_size ?q) + 1) div 2" by (simp add: unat_div)
  then have "?k \<le> unat (ring_size ?q)" by simp
  moreover have "unat (ring_size ?r) + ?k \<le> 512" using q(2) unfolding ring_ok_def length_ring_list by linarith
  ultimately obtain q' r' where m: "ring_move ?k ?q ?r = Inr (q', r')" "ring_ok 512 q'" "ring_ok 512 r'"
    "ring_list q' = drop ?k (ring_list ?q)" "ring_list r' = ring_list ?r @ take ?k (ring_list ?q)"
    using qq.moved [OF q] by blast
  have "ring_size ?q \<noteq> 0" using True ring_size_0 [of ?q] by simp
  then have "TryStealFrom batch_size l1 l2 i v ws = Inr (?k, ws[v := (ws ! v)\<lparr>w_queue := q'\<rparr>, i := (ws ! i)\<lparr>w_queue := r'\<rparr>])"
    using True assms room [OF q(2)] m(1) by (simp add: TryStealFrom_def Let_def)
  then show ?thesis using m(2-5) assms(4,5)
    by (intro exI [of _ ?k] exI [of _ "(ws ! v)\<lparr>w_queue := q'\<rparr>"] exI [of _ "(ws ! i)\<lparr>w_queue := r'\<rparr>"]) (simp add: w_ok_def)
qed

end
