(* ===== verification/Task_Scheduler.thy ===== *)
theory Task_Scheduler
  imports Task_Worker
begin

text \<open>
  The scheduler as a whole (\<^verbatim>\<open>Scheduler/Main.cpp\<close>, \<^verbatim>\<open>Scheduler/SchedulerContext.hpp\<close>, the loops of
  \<^verbatim>\<open>Scheduler/Worker.cpp\<close>, and the variant of \<^verbatim>\<open>Scheduler/Legacy\<close>): the worker threads and the main thread as program
  counters, every step an action on the shared state that no other thread can interrupt (a section under its mutexes, or
  one atomic operation). The critical sections of the workers are single steps; the main thread keeps \<^verbatim>\<open>ctx.mtx_\<close> over the two steps
  in which it tests its condition and goes to sleep, so the mutex is taken exactly in these.
\<close>

section \<open>State\<close>

text \<open>What differs between the two copies of the scheduler.\<close>

record config =
  num_threads :: nat
  tasks_per_thread :: nat
  steal_attempts :: nat
  use_complex_worker :: bool

definition scheduler_config :: "nat \<Rightarrow> config" where
  "scheduler_config hardware_concurrency =
     \<lparr>num_threads = hardware_concurrency, tasks_per_thread = 100000, steal_attempts = hardware_concurrency,
      use_complex_worker = True\<rparr>"

definition legacy_config :: config where
  "legacy_config = \<lparr>num_threads = 1000, tasks_per_thread = 50, steal_attempts = 5, use_complex_worker = False\<rparr>"

text \<open>The positions of \<^verbatim>\<open>RunComplex\<close>, of \<^verbatim>\<open>RunSimple\<close> and of the main thread.\<close>

datatype pc =
    Unstarted
  | C_Top
  | C_Fill
  | C_Fetch
  | C_Steal nat
  | C_Stop
  | C_Report
  | C_Notify
  | S_Top
  | S_Run task
  | S_Sub
  | S_Notify
  | S_Stop
  | Exited

datatype main_pc =
    M_Reset
  | M_Spawn nat
  | M_Lock
  | M_Check
  | M_Wait
  | M_Blocked
  | M_Stop
  | M_Join nat
  | M_Total
  | M_Done

text \<open>
  \<open>heap\<close> is the captured \<^verbatim>\<open>i\<close> of every \<^verbatim>\<open>Task\<close> allocated so far, \<open>executed\<close> the tasks run in this
  iteration, in order.
\<close>

record 'd sched =
  heap :: "nat list"
  global_queue :: "task list"
  pending_tasks :: u32
  stop :: bool
  workers :: "'d Worker list"
  pcs :: "pc list"
  main_at :: main_pc
  iteration :: nat
  totals :: "'d list"
  executed :: "task list"

definition new_sched :: "'d floats \<Rightarrow> config \<Rightarrow> 'd sched" where
  "new_sched fl cf =
     \<lparr>heap = [], global_queue = [], pending_tasks = 0, stop = False,
      workers = replicate (num_threads cf) (new_Worker fl), pcs = replicate (num_threads cf) Unstarted,
      main_at = M_Reset, iteration = 0, totals = [], executed = []\<rparr>"

section \<open>The workers\<close>

definition main_holds :: "'d sched \<Rightarrow> bool" where
  "main_holds s \<longleftrightarrow> main_at s = M_Check \<or> main_at s = M_Wait"

definition goto :: "nat \<Rightarrow> pc \<Rightarrow> 'd sched \<Rightarrow> 'd sched" where
  "goto i pc s = s\<lparr>pcs := (pcs s)[i := pc]\<rparr>"

definition notify_one :: "'d sched \<Rightarrow> 'd sched" where
  "notify_one s = (if main_at s = M_Blocked then s\<lparr>main_at := M_Lock\<rparr> else s)"

text \<open>\<^verbatim>\<open>fetch_sub\<close> on the \<^verbatim>\<open>std::atomic<int>\<close>, compared with the \<^verbatim>\<open>size_t\<close> that was subtracted.\<close>

definition fetch_sub :: "u64 \<Rightarrow> 'd sched \<Rightarrow> bool \<times> 'd sched" where
  "fetch_sub k s =
     (scast (pending_tasks s) = k, s\<lparr>pending_tasks := pending_tasks s - ucast k\<rparr>)"

definition execute :: "'d floats \<Rightarrow> task \<Rightarrow> 'd sched \<Rightarrow> 'd sched res" where
  "execute fl t s =
     rbind (run_task fl (heap s) t (workers s)) (\<lambda>ws.
     Inr (s\<lparr>workers := ws, executed := executed s @ [t]\<rparr>))"

text \<open>One attempt of the loop of \<^verbatim>\<open>TryStealAny\<close>; \<open>v\<close> is the random victim.\<close>

fun TryStealAny :: "nat \<Rightarrow> bool \<Rightarrow> bool \<Rightarrow> nat \<Rightarrow> nat \<Rightarrow> 'd sched \<Rightarrow> 'd sched res" where
  "TryStealAny 0 l1 l2 v i s = Inr (goto i C_Stop s)"
| "TryStealAny (Suc k) l1 l2 v i s =
     rbind (TryStealFrom 256 l1 l2 i v (workers s)) (\<lambda>(cnt, ws).
     Inr (goto i (if 0 < cnt then C_Top else C_Steal k) (s\<lparr>workers := ws\<rparr>)))"

definition RunComplex ::
  "'d floats \<Rightarrow> config \<Rightarrow> bool \<Rightarrow> bool \<Rightarrow> nat \<Rightarrow> nat \<Rightarrow> 'd Worker \<Rightarrow> pc \<Rightarrow> 'd sched \<Rightarrow> 'd sched res" where
  "RunComplex fl cf l1 l2 v i w pc s =
     (case pc of
        C_Top \<Rightarrow>
          rbind (GetNextTask w) (\<lambda>(task, w').
          case task of
            None \<Rightarrow> Inr (goto i C_Fill s)
          | Some t \<Rightarrow>
              rbind (execute fl t (s\<lparr>workers := (workers s)[i := w']\<rparr>)) (\<lambda>s.
              rbind (aget (workers s) i) (\<lambda>w.
              Inr (s\<lparr>workers := (workers s)[i := w\<lparr>task_did := task_did w + 1\<rparr>]\<rparr>))))
      | C_Fill \<Rightarrow>
          rbind (FillBuffer 64 w) (\<lambda>(cnt, w').
          Inr (goto i (if 0 < cnt then C_Top else C_Fetch) (s\<lparr>workers := (workers s)[i := w']\<rparr>)))
      | C_Fetch \<Rightarrow>
          rbind (TryFetchGlobal 256 (num_threads cf) (l1 \<and> \<not> main_holds s) l2 (global_queue s) w) (\<lambda>(cnt, g, w').
          Inr (goto i (if 0 < cnt then C_Top else C_Steal (steal_attempts cf))
            (s\<lparr>workers := (workers s)[i := w'], global_queue := g\<rparr>)))
      | C_Steal k \<Rightarrow> TryStealAny k l1 l2 v i s
      | C_Stop \<Rightarrow> Inr (goto i (if stop s then Exited else C_Report) s)
      | C_Report \<Rightarrow>
          if 0 < task_did w
          then let (last, s) = fetch_sub (task_did w) s in
            Inr (goto i (if last then C_Notify else C_Top) (s\<lparr>workers := (workers s)[i := w\<lparr>task_did := 0\<rparr>]\<rparr>))
          else Inr (goto i C_Top s)
      | C_Notify \<Rightarrow> Inr (goto i C_Top (notify_one s))
      | _ \<Rightarrow> Inr s)"

definition RunSimple :: "'d floats \<Rightarrow> nat \<Rightarrow> pc \<Rightarrow> 'd sched \<Rightarrow> 'd sched res" where
  "RunSimple fl i pc s =
     (case pc of
        S_Top \<Rightarrow>
          (case global_queue s of
             [] \<Rightarrow> Inr (goto i S_Stop s)
           | t # g \<Rightarrow> Inr (goto i (S_Run t) (s\<lparr>global_queue := g\<rparr>)))
      | S_Run t \<Rightarrow> rbind (execute fl t s) (\<lambda>s. Inr (goto i S_Sub s))
      | S_Sub \<Rightarrow> let (last, s) = fetch_sub 1 s in Inr (goto i (if last then S_Notify else S_Top) s)
      | S_Notify \<Rightarrow> Inr (goto i S_Top (notify_one s))
      | S_Stop \<Rightarrow> Inr (goto i (if stop s then Exited else S_Top) s)
      | _ \<Rightarrow> Inr s)"

definition Run :: "config \<Rightarrow> pc" where
  "Run cf = (if use_complex_worker cf then C_Top else S_Top)"

fun complex_pc :: "pc \<Rightarrow> bool" where
  "complex_pc C_Top = True"
| "complex_pc C_Fill = True"
| "complex_pc C_Fetch = True"
| "complex_pc (C_Steal k) = True"
| "complex_pc C_Stop = True"
| "complex_pc C_Report = True"
| "complex_pc C_Notify = True"
| "complex_pc pc = False"

definition worker_step ::
  "'d floats \<Rightarrow> config \<Rightarrow> bool \<Rightarrow> bool \<Rightarrow> nat \<Rightarrow> nat \<Rightarrow> 'd sched \<Rightarrow> 'd sched res" where
  "worker_step fl cf l1 l2 v i s =
     rbind (aget (workers s) i) (\<lambda>w.
     rbind (aget (pcs s) i) (\<lambda>pc.
     if complex_pc pc then RunComplex fl cf l1 l2 v i w pc s else RunSimple fl i pc s))"

section \<open>The main thread\<close>

definition MakeTask :: "config \<Rightarrow> 'd sched \<Rightarrow> nat \<times> 'd sched" where
  "MakeTask cf s =
     (let captured = concat (map (\<lambda>i. replicate (tasks_per_thread cf) i) [0..<num_threads cf]) in
      (num_threads cf * tasks_per_thread cf,
       s\<lparr>heap := heap s @ captured,
         global_queue := global_queue s @ [length (heap s)..<length (heap s) + length captured]\<rparr>))"

definition reset_Worker :: "'d floats \<Rightarrow> 'd Worker \<Rightarrow> 'd Worker" where
  "reset_Worker fl w =
     w\<lparr>w_queue := (w_queue w)\<lparr>r_head := 0, r_tail := 0\<rparr>,
       w_buffer := (w_buffer w)\<lparr>r_head := 0, r_tail := 0\<rparr>,
       task_did := 0, w_sum := f_of_int fl 0\<rparr>"

text \<open>The loop body of \<^verbatim>\<open>main\<close> up to the creation of the threads.\<close>

definition begin_iteration :: "'d floats \<Rightarrow> config \<Rightarrow> 'd sched \<Rightarrow> 'd sched" where
  "begin_iteration fl cf s =
     (let s = s\<lparr>stop := False, workers := map (reset_Worker fl) (workers s), global_queue := [], executed := []\<rparr>;
          (n, s) = MakeTask cf s in
      s\<lparr>pending_tasks := word_of_nat n, pcs := replicate (num_threads cf) Unstarted, main_at := M_Spawn 0\<rparr>)"

definition total_sum :: "'d floats \<Rightarrow> 'd Worker list \<Rightarrow> 'd" where
  "total_sum fl ws = foldl (\<lambda>t w. f_add fl t (w_sum w)) (f_of_int fl 0) ws"

definition RunTasks :: "'d floats \<Rightarrow> config \<Rightarrow> 'd sched \<Rightarrow> 'd sched" where
  "RunTasks fl cf s =
     (case main_at s of
        M_Reset \<Rightarrow> begin_iteration fl cf s
      | M_Spawn k \<Rightarrow>
          if k < num_threads cf then goto k (Run cf) (s\<lparr>main_at := M_Spawn (k + 1)\<rparr>) else s\<lparr>main_at := M_Lock\<rparr>
      | M_Lock \<Rightarrow> s\<lparr>main_at := M_Check\<rparr>
      | M_Check \<Rightarrow> s\<lparr>main_at := (if pending_tasks s = 0 then M_Stop else M_Wait)\<rparr>
      | M_Wait \<Rightarrow> s\<lparr>main_at := M_Blocked\<rparr>
      | M_Stop \<Rightarrow> s\<lparr>stop := True, main_at := M_Join 0\<rparr>
      | M_Join k \<Rightarrow> s\<lparr>main_at := (if k < num_threads cf then M_Join (k + 1) else M_Total)\<rparr>
      | M_Total \<Rightarrow>
          s\<lparr>totals := totals s @ [total_sum fl (workers s)], iteration := iteration s + 1,
            main_at := (if iteration s + 1 < 11 then M_Reset else M_Done)\<rparr>
      | _ \<Rightarrow> s)"

section \<open>Interleavings\<close>

text \<open>
  A worker runs one step, with the outcomes of its attempts to lock and its random victim; the main thread runs one step, or wakes up
  without having been notified.
\<close>

datatype sched_event =
    Worker_runs nat bool bool nat
  | Main_runs
  | Main_wakes

fun sched_enabled :: "config \<Rightarrow> sched_event \<Rightarrow> 'd sched \<Rightarrow> bool" where
  "sched_enabled cf (Worker_runs i l1 l2 v) s \<longleftrightarrow>
     i < num_threads cf \<and> v < num_threads cf \<and> pcs s ! i \<noteq> Unstarted \<and> pcs s ! i \<noteq> Exited \<and>
     (pcs s ! i = S_Top \<longrightarrow> \<not> main_holds s)"
| "sched_enabled cf Main_runs s \<longleftrightarrow>
     (case main_at s of
        M_Blocked \<Rightarrow> False
      | M_Done \<Rightarrow> False
      | M_Join k \<Rightarrow> k < num_threads cf \<longrightarrow> pcs s ! k = Exited
      | _ \<Rightarrow> True)"
| "sched_enabled cf Main_wakes s \<longleftrightarrow> main_at s = M_Blocked"

fun sched_step :: "'d floats \<Rightarrow> config \<Rightarrow> sched_event \<Rightarrow> 'd sched \<Rightarrow> 'd sched res" where
  "sched_step fl cf (Worker_runs i l1 l2 v) s = worker_step fl cf l1 l2 v i s"
| "sched_step fl cf Main_runs s = Inr (RunTasks fl cf s)"
| "sched_step fl cf Main_wakes s = Inr (s\<lparr>main_at := M_Lock\<rparr>)"

abbreviation sched_reaches :: "'d floats \<Rightarrow> config \<Rightarrow> 'd sched \<Rightarrow> bool" where
  "sched_reaches fl cf \<equiv> reach (\<lambda>s. s = new_sched fl cf) (event_trans (sched_enabled cf) (sched_step fl cf))"

abbreviation sched_run :: "'d floats \<Rightarrow> config \<Rightarrow> sched_event list \<Rightarrow> 'd sched \<Rightarrow> 'd sched res" where
  "sched_run fl cf \<equiv> run_events (sched_enabled cf) (sched_step fl cf)"

end
