(* ===== verification/Task_Invariant.thy ===== *)
theory Task_Invariant
  imports Task_Scheduler
begin

text \<open>
  The invariant of the scheduler: no task is lost or duplicated, \<^verbatim>\<open>pending_tasks_\<close> counts the tasks that are not yet
  reported, the sum of every worker is determined by the number of its tasks that ran, and the main thread passes its
  condition only when no task is left.
\<close>

section \<open>What the state is worth\<close>

definition in_hand :: "pc \<Rightarrow> task multiset" where
  "in_hand pc = (case pc of S_Run t \<Rightarrow> {#t#} | _ \<Rightarrow> {#})"

definition held :: "'d Worker \<Rightarrow> pc \<Rightarrow> task multiset" where
  "held w pc = mset (queued_tasks w) + mset (buffered w) + in_hand pc"

definition unreported :: "'d Worker \<Rightarrow> pc \<Rightarrow> nat" where
  "unreported w pc = unat (task_did w) + (if pc = S_Sub then 1 else 0)"

definition all_held :: "'d sched \<Rightarrow> task multiset" where
  "all_held s = (\<Sum>j<length (workers s). held (workers s ! j) (pcs s ! j))"

definition all_unreported :: "'d sched \<Rightarrow> nat" where
  "all_unreported s = (\<Sum>j<length (workers s). unreported (workers s ! j) (pcs s ! j))"

definition batch_start :: "config \<Rightarrow> 'd sched \<Rightarrow> nat" where
  "batch_start cf s = length (heap s) - num_threads cf * tasks_per_thread cf"

definition batch :: "config \<Rightarrow> 'd sched \<Rightarrow> task list" where
  "batch cf s = [batch_start cf s..<length (heap s)]"

text \<open>What one task of worker \<open>j\<close> adds, the sum after \<open>k\<close> tasks, and the total that is printed.\<close>

definition workload :: "'d floats \<Rightarrow> nat \<Rightarrow> 'd" where
  "workload fl j = DummyTask_loop fl (nat (int j * 50 + 250)) 0 (f_of_int fl 0)"

definition worker_total :: "'d floats \<Rightarrow> nat \<Rightarrow> nat \<Rightarrow> 'd" where
  "worker_total fl k j = ((\<lambda>x. f_add fl x (workload fl j)) ^^ k) (f_of_int fl 0)"

definition expected_total :: "'d floats \<Rightarrow> config \<Rightarrow> 'd" where
  "expected_total fl cf =
     foldl (f_add fl) (f_of_int fl 0) (map (worker_total fl (tasks_per_thread cf)) [0..<num_threads cf])"

definition runs_for :: "nat list \<Rightarrow> nat \<Rightarrow> task list \<Rightarrow> nat" where
  "runs_for hp j ts = length (filter (\<lambda>t. hp ! t = j) ts)"

section \<open>The invariant\<close>

definition no_tasks :: "'d Worker \<Rightarrow> bool" where
  "no_tasks w \<longleftrightarrow> queued_tasks w = [] \<and> buffered w = []"

definition pc_ok :: "config \<Rightarrow> 'd Worker \<Rightarrow> pc \<Rightarrow> bool" where
  "pc_ok cf w pc \<longleftrightarrow>
     (if complex_pc pc
      then use_complex_worker cf \<and> (pc \<noteq> C_Top \<longrightarrow> buffered w = []) \<and> (pc \<noteq> C_Top \<and> pc \<noteq> C_Fill \<longrightarrow> queued_tasks w = [])
      else no_tasks w \<and> task_did w = 0)"

definition config_ok :: "config \<Rightarrow> bool" where
  "config_ok cf \<longleftrightarrow> num_threads cf * tasks_per_thread cf < 2 ^ 31 \<and> (use_complex_worker cf \<longrightarrow> 2 \<le> num_threads cf)"

definition shape :: "'d floats \<Rightarrow> config \<Rightarrow> 'd sched \<Rightarrow> bool" where
  "shape fl cf s \<longleftrightarrow>
     length (workers s) = num_threads cf \<and> length (pcs s) = num_threads cf \<and>
     (\<forall>j<num_threads cf. w_ok (workers s ! j)) \<and>
     totals s = replicate (iteration s) (expected_total fl cf)"

definition work_ok :: "'d floats \<Rightarrow> config \<Rightarrow> 'd sched \<Rightarrow> bool" where
  "work_ok fl cf s \<longleftrightarrow>
     (\<forall>j<num_threads cf. pc_ok cf (workers s ! j) (pcs s ! j)) \<and>
     (\<forall>j<num_threads cf. w_sum (workers s ! j) = worker_total fl (runs_for (heap s) j (executed s)) j) \<and>
     mset (global_queue s) + all_held s + mset (executed s) = mset (batch cf s) \<and>
     unat (pending_tasks s) = length (global_queue s) + size (all_held s) + all_unreported s \<and>
     unat (pending_tasks s) \<le> num_threads cf * tasks_per_thread cf \<and>
     num_threads cf * tasks_per_thread cf \<le> length (heap s) \<and>
     (\<forall>k<num_threads cf * tasks_per_thread cf. heap s ! (batch_start cf s + k) = k div tasks_per_thread cf)"

definition control_ok :: "config \<Rightarrow> 'd sched \<Rightarrow> bool" where
  "control_ok cf s \<longleftrightarrow>
     (\<forall>j<num_threads cf. pcs s ! j = Exited \<longrightarrow> stop s) \<and>
     (stop s \<longrightarrow> main_at s = M_Total \<or> (\<exists>k. main_at s = M_Join k)) \<and>
     (stop s \<or> main_at s = M_Stop \<longrightarrow> pending_tasks s = 0) \<and>
     (main_at s = M_Total \<longrightarrow> stop s \<and> (\<forall>j<num_threads cf. pcs s ! j = Exited)) \<and>
     (\<forall>k. main_at s = M_Join k \<longrightarrow> stop s \<and> k \<le> num_threads cf \<and> (\<forall>j<k. pcs s ! j = Exited)) \<and>
     (\<forall>k. main_at s = M_Spawn k \<longrightarrow> (\<forall>j<num_threads cf. k \<le> j \<longrightarrow> pcs s ! j = Unstarted))"

definition idle :: "'d sched \<Rightarrow> bool" where
  "idle s \<longleftrightarrow> main_at s = M_Reset \<or> main_at s = M_Done"

definition sched_ok :: "'d floats \<Rightarrow> config \<Rightarrow> 'd sched \<Rightarrow> bool" where
  "sched_ok fl cf s \<longleftrightarrow> shape fl cf s \<and>
     (if idle s then \<forall>j<num_threads cf. pcs s ! j = Unstarted \<or> pcs s ! j = Exited else work_ok fl cf s \<and> control_ok cf s)"

section \<open>Sums over the workers\<close>

lemma sum_change:
  fixes f f' :: "nat \<Rightarrow> 'a :: comm_monoid_add"
  assumes "i < n" "\<And>j. j < n \<Longrightarrow> j \<noteq> i \<Longrightarrow> f' j = f j"
  shows "(\<Sum>j<n. f' j) + f i = (\<Sum>j<n. f j) + f' i"
proof -
  have "(\<Sum>j<n. f' j) = f' i + (\<Sum>j\<in>{..<n} - {i}. f j)"
    using assms by (subst sum.remove [of _ i]) (auto intro!: sum.cong)
  moreover have "(\<Sum>j<n. f j) = f i + (\<Sum>j\<in>{..<n} - {i}. f j)" using assms(1) by (intro sum.remove) auto
  ultimately show ?thesis by (simp add: ac_simps)
qed

definition same_tasks :: "'d Worker \<Rightarrow> 'd Worker \<Rightarrow> bool" where
  "same_tasks w w' \<longleftrightarrow> w_queue w' = w_queue w \<and> w_buffer w' = w_buffer w \<and> task_did w' = task_did w"

lemma same_tasksD:
  assumes "same_tasks w w'"
  shows "held w' pc = held w pc" "unreported w' pc = unreported w pc" "w_ok w' = w_ok w" "pc_ok cf w' pc = pc_ok cf w pc"
  using assms by (simp_all add: same_tasks_def held_def unreported_def w_ok_def pc_ok_def no_tasks_def)

lemma one_worker:
  assumes "i < length (workers s)" "length (workers s') = length (workers s)" "length (pcs s) = length (workers s)"
    and "pcs s' = (pcs s)[i := pc']"
    and "\<And>j. j < length (workers s) \<Longrightarrow> j \<noteq> i \<Longrightarrow> same_tasks (workers s ! j) (workers s' ! j)"
  shows "all_held s' + held (workers s ! i) (pcs s ! i) = all_held s + held (workers s' ! i) pc'"
    and "all_unreported s' + unreported (workers s ! i) (pcs s ! i) = all_unreported s + unreported (workers s' ! i) pc'"
proof -
  have p: "pcs s' ! i = pc'" "\<And>j. j \<noteq> i \<Longrightarrow> pcs s' ! j = pcs s ! j" using assms(1,3,4) by simp_all
  show "all_held s' + held (workers s ! i) (pcs s ! i) = all_held s + held (workers s' ! i) pc'"
    unfolding all_held_def assms(2) using sum_change [OF assms(1), of "\<lambda>j. held (workers s' ! j) (pcs s' ! j)"
      "\<lambda>j. held (workers s ! j) (pcs s ! j)"] same_tasksD(1) [OF assms(5)] p by simp
  show "all_unreported s' + unreported (workers s ! i) (pcs s ! i) = all_unreported s + unreported (workers s' ! i) pc'"
    unfolding all_unreported_def assms(2) using sum_change [OF assms(1), of "\<lambda>j. unreported (workers s' ! j) (pcs s' ! j)"
      "\<lambda>j. unreported (workers s ! j) (pcs s ! j)"] same_tasksD(2) [OF assms(5)] p by simp
qed

lemma worker_share:
  assumes "i < length (workers s)"
  shows "held (workers s ! i) (pcs s ! i) \<subseteq># all_held s" "unreported (workers s ! i) (pcs s ! i) \<le> all_unreported s"
  using assms by (simp_all add: all_held_def all_unreported_def sum.remove [of "{..<length (workers s)}" i])

text \<open>A step of worker \<open>i\<close> that runs the tasks \<open>ex\<close> (at most one) keeps the invariant when it keeps the two balances.\<close>

lemma balanced_step:
  assumes ok: "sched_ok fl cf s" "\<not> idle s" and i: "i < num_threads cf"
    and pc: "pcs s ! i \<noteq> Unstarted" "pcs s ! i \<noteq> Exited" "pc' = Exited \<longrightarrow> stop s"
    and frame: "heap s' = heap s" "main_at s' = main_at s" "stop s' = stop s" "totals s' = totals s" "iteration s' = iteration s"
      "executed s' = executed s @ ex" "pcs s' = (pcs s)[i := pc']" "length (workers s') = length (workers s)"
    and each: "\<And>j. j < num_threads cf \<Longrightarrow> w_ok (workers s' ! j)" "\<And>j. j < num_threads cf \<Longrightarrow> pc_ok cf (workers s' ! j) (pcs s' ! j)"
      "\<And>j. j < num_threads cf \<Longrightarrow> w_sum (workers s' ! j) =
         ((\<lambda>x. f_add fl x (workload fl j)) ^^ runs_for (heap s) j ex) (w_sum (workers s ! j))"
    and tasks: "mset (global_queue s') + all_held s' + mset ex = mset (global_queue s) + all_held s"
    and count: "unat (pending_tasks s') + all_unreported s + length ex = unat (pending_tasks s) + all_unreported s'"
    and less: "unat (pending_tasks s') \<le> unat (pending_tasks s)"
  shows "sched_ok fl cf s'"
proof -
  have S: "shape fl cf s" and W: "work_ok fl cf s" and K: "control_ok cf s" using ok by (simp_all add: sched_ok_def)
  have "shape fl cf s'" using S frame each(1) by (simp add: shape_def)
  moreover have "work_ok fl cf s'"
  proof -
    have b: "batch cf s' = batch cf s" "batch_start cf s' = batch_start cf s" using frame(1) by (simp_all add: batch_def batch_start_def)
    have "mset (global_queue s') + all_held s' + mset (executed s') =
        (mset (global_queue s') + all_held s' + mset ex) + mset (executed s)" using frame(6) by (simp add: ac_simps)
    then have t: "mset (global_queue s') + all_held s' + mset (executed s') = mset (batch cf s)"
      using W unfolding tasks work_ok_def by simp
    have "length (global_queue s') + size (all_held s') + length ex = length (global_queue s) + size (all_held s)"
      using arg_cong [OF tasks, of size] by simp
    then have c: "unat (pending_tasks s') = length (global_queue s') + size (all_held s') + all_unreported s'"
      using W count by (simp add: work_ok_def)
    have "w_sum (workers s' ! j) = worker_total fl (runs_for (heap s') j (executed s')) j" if "j < num_threads cf" for j
      using that W each(3) [OF that] frame(1,6)
      by (simp add: work_ok_def worker_total_def runs_for_def funpow_add add.commute)
    then show ?thesis using W each(2) t c b frame(1) less by (simp add: work_ok_def)
  qed
  moreover have "control_ok cf s'"
  proof -
    have p: "pcs s' ! j = (if j = i then pc' else pcs s ! j)" if "j < num_threads cf" for j
      using that frame(7) i S by (simp add: shape_def)
    have "j \<noteq> i" if "pcs s ! j = Exited \<or> pcs s ! j = Unstarted" for j using that pc by auto
    moreover have "pending_tasks s = 0 \<longrightarrow> pending_tasks s' = 0" using less by (auto simp: unsigned_eq_0_iff)
    ultimately show ?thesis using K frame p pc i unfolding control_ok_def by (smt (verit) order_less_le_trans)
  qed
  moreover have "\<not> idle s'" using ok(2) frame(2) by (simp add: idle_def)
  ultimately show ?thesis by (simp add: sched_ok_def)
qed

lemma sched_okD:
  assumes "sched_ok fl cf s" "\<not> idle s"
  shows "shape fl cf s" "work_ok fl cf s" "control_ok cf s"
  using assms by (simp_all add: sched_ok_def)

lemma worker_okD:
  assumes "sched_ok fl cf s" "\<not> idle s" "j < num_threads cf"
  shows "length (workers s) = num_threads cf" "length (pcs s) = num_threads cf" "w_ok (workers s ! j)"
    "pc_ok cf (workers s ! j) (pcs s ! j)"
  using sched_okD [OF assms(1,2)] assms(3) by (simp_all add: shape_def work_ok_def)

text \<open>A step that changes the record of worker \<open>i\<close> only and runs no task.\<close>

lemma own_step:
  assumes ok: "sched_ok fl cf s" "\<not> idle s" and i: "i < num_threads cf"
    and pc: "pcs s ! i \<noteq> Unstarted" "pcs s ! i \<noteq> Exited" "pc' = Exited \<longrightarrow> stop s"
    and frame: "heap s' = heap s" "main_at s' = main_at s" "stop s' = stop s" "totals s' = totals s" "iteration s' = iteration s"
      "executed s' = executed s" "pcs s' = (pcs s)[i := pc']" "workers s' = (workers s)[i := w']"
    and w': "w_ok w'" "pc_ok cf w' pc'" "w_sum w' = w_sum (workers s ! i)"
    and tasks: "mset (global_queue s') + held w' pc' = mset (global_queue s) + held (workers s ! i) (pcs s ! i)"
    and count: "unat (pending_tasks s') + unreported (workers s ! i) (pcs s ! i) = unat (pending_tasks s) + unreported w' pc'"
    and less: "unat (pending_tasks s') \<le> unat (pending_tasks s)"
  shows "sched_ok fl cf s'"
proof (rule balanced_step [OF ok i pc frame(1-5) _ frame(7)])
  note D = worker_okD [OF ok]
  have L: "i < length (workers s)" "length (pcs s) = length (workers s)" using D [OF i] i by simp_all
  note B = one_worker [of i s s' pc'] and w'i = frame(8)
  have b: "all_held s' + held (workers s ! i) (pcs s ! i) = all_held s + held w' pc'"
    "all_unreported s' + unreported (workers s ! i) (pcs s ! i) = all_unreported s + unreported w' pc'"
    using B L frame(7,8) by (simp_all add: same_tasks_def)
  show "executed s' = executed s @ []" "length (workers s') = length (workers s)" using frame by simp_all
  show "w_ok (workers s' ! j)" "pc_ok cf (workers s' ! j) (pcs s' ! j)" if "j < num_threads cf" for j
    using that w' frame(7,8) D by (cases "j = i"; simp)+
  show "w_sum (workers s' ! j) = ((\<lambda>x. f_add fl x (workload fl j)) ^^ runs_for (heap s) j []) (w_sum (workers s ! j))"
    if "j < num_threads cf" for j using that w'(3) frame(8) D(1) [OF i] by (cases "j = i") (simp_all add: runs_for_def)
  have "(mset (global_queue s') + all_held s') + held (workers s ! i) (pcs s ! i) =
      (mset (global_queue s) + all_held s) + held (workers s ! i) (pcs s ! i)"
    using b(1) tasks by (metis (no_types) ab_semigroup_add_class.add_ac(1) add.commute add.left_commute)
  then show "mset (global_queue s') + all_held s' + mset [] = mset (global_queue s) + all_held s" by simp
  show "unat (pending_tasks s') + all_unreported s + length [] = unat (pending_tasks s) + all_unreported s'"
    using b(2) count by simp
qed (rule less)

end
