(* ===== verification/Work_Stealing.thy ===== *)
theory Work_Stealing
  imports Task_Invariant
begin

text \<open>
  The second scheduler, \<^verbatim>\<open>Scheduler/WorkStealing.cpp\<close>: local double-ended queues of 1024 tasks with a mutex each, popped at
  the back by their owner and at the front by thieves, a global vector of tasks behind \<^verbatim>\<open>g_m\<close>, and a main thread that
  creates the queues while the first workers already run. As in \<^verbatim>\<open>Task_Scheduler\<close> every thread is a program counter and a
  step is a section under one mutex, or one atomic operation. \<^verbatim>\<open>Try_pop_global\<close> keeps \<^verbatim>\<open>g_m\<close> over several steps, since it locks its
  own queue anew for every task it pushes, and so does the main thread between its test and its wait.
\<close>

section \<open>The queue\<close>

text \<open>A task is the captured \<^verbatim>\<open>i\<close> with the number of the task among those with the same \<open>i\<close>.\<close>

type_synonym ws_task = "nat \<times> nat"

type_synonym WorkerQueue = "ws_task ring"

definition CAPACITY :: nat where "CAPACITY = 1024"

definition new_WorkerQueue :: WorkerQueue where
  "new_WorkerQueue = \<lparr>r_cells = replicate CAPACITY (0, 0), r_head = 0, r_tail = 0\<rparr>"

definition push :: "ws_task \<Rightarrow> WorkerQueue \<Rightarrow> WorkerQueue res" where
  "push task q = ring_put task q"

definition try_pop :: "WorkerQueue \<Rightarrow> (ws_task option \<times> WorkerQueue) res" where
  "try_pop q =
     (if r_head q = r_tail q then Inr (None, q)
      else rbind (ring_take_back q) (\<lambda>(task, q). Inr (Some task, q)))"

definition try_steal :: "WorkerQueue \<Rightarrow> (ws_task option \<times> WorkerQueue) res" where
  "try_steal q =
     (if r_head q = r_tail q then Inr (None, q)
      else rbind (ring_take q) (\<lambda>(task, q). Inr (Some task, q)))"

interpretation rw: ring_capacity 1024
  by unfold_locales (simp_all add: dvd_def exI [of _ "2 ^ 54"])

lemma new_WorkerQueue_simps [simp]: "ring_ok 1024 new_WorkerQueue" "ring_list new_WorkerQueue = []"
  by (simp_all add: new_WorkerQueue_def ring_ok_def CAPACITY_def ring_size_def ring_list_empty)

lemma push_ok:
  assumes "ring_ok 1024 q" "length (ring_list q) < 1024"
  shows "\<exists>q'. push t q = Inr q' \<and> ring_ok 1024 q' \<and> ring_list q' = ring_list q @ [t]"
  using rw.put [OF assms(1)] assms(2) by (simp add: push_def)

lemma try_pop_ok:
  assumes "ring_ok 1024 q"
  shows "(ring_list q = [] \<longrightarrow> try_pop q = Inr (None, q)) \<and>
    (ring_list q \<noteq> [] \<longrightarrow> (\<exists>q'. try_pop q = Inr (Some (last (ring_list q)), q') \<and> ring_ok 1024 q' \<and>
       ring_list q' = butlast (ring_list q)))"
proof (cases "ring_list q" rule: rev_cases)
  case Nil
  then show ?thesis using ring_list_empty [of q] by (simp add: try_pop_def)
next
  case (snoc ts t)
  then show ?thesis using rw.take_back [OF assms snoc] ring_list_empty [of q] by (auto simp: try_pop_def)
qed

lemma try_steal_ok:
  assumes "ring_ok 1024 q"
  shows "(ring_list q = [] \<longrightarrow> try_steal q = Inr (None, q)) \<and>
    (\<forall>t ts. ring_list q = t # ts \<longrightarrow> (\<exists>q'. try_steal q = Inr (Some t, q') \<and> ring_ok 1024 q' \<and> ring_list q' = ts))"
proof (cases "ring_list q")
  case Nil
  then show ?thesis using ring_list_empty [of q] by (simp add: try_steal_def)
next
  case (Cons t ts)
  then show ?thesis using rw.take_front [OF assms Cons] ring_list_empty [of q] by (auto simp: try_steal_def)
qed

section \<open>State\<close>

datatype ws_pc =
    W_Start
  | W_Top
  | W_Run ws_task
  | W_Sub
  | W_Notify
  | W_Steal nat nat
  | W_Push ws_task
  | W_Global
  | W_Fetch nat
  | W_Stop
  | W_Exited

datatype ws_main_pc =
    WM_Reset
  | WM_Spawn nat
  | WM_Growing nat
  | WM_Create nat
  | WM_Fill
  | WM_Lock
  | WM_Check
  | WM_Wait
  | WM_Blocked
  | WM_Stop
  | WM_Join nat
  | WM_Done

text \<open>\<open>ws_created\<close> and \<open>ws_executed\<close> are the tasks created and run in this iteration.\<close>

record 'd ws =
  g_global_queue :: "ws_task list"
  g_local_queues :: "WorkerQueue list"
  g_pending_tasks :: u32
  g_stop :: bool
  g_sum :: 'd
  ws_pcs :: "ws_pc list"
  ws_main :: ws_main_pc
  ws_iteration :: nat
  ws_created :: "ws_task list"
  ws_executed :: "ws_task list"

definition new_ws :: "'d floats \<Rightarrow> 'd ws" where
  "new_ws fl =
     \<lparr>g_global_queue = [], g_local_queues = [], g_pending_tasks = 0, g_stop = False, g_sum = f_of_int fl 0,
      ws_pcs = [], ws_main = WM_Reset, ws_iteration = 0, ws_created = [], ws_executed = []\<rparr>"

section \<open>The workers\<close>

definition ws_goto :: "nat \<Rightarrow> ws_pc \<Rightarrow> 'd ws \<Rightarrow> 'd ws" where
  "ws_goto i pc s = s\<lparr>ws_pcs := (ws_pcs s)[i := pc]\<rparr>"

definition put_queue :: "nat \<Rightarrow> WorkerQueue \<Rightarrow> 'd ws \<Rightarrow> 'd ws" where
  "put_queue i q s = s\<lparr>g_local_queues := (g_local_queues s)[i := q]\<rparr>"

text \<open>Reading the vector of queues while \<^verbatim>\<open>push_back\<close> is changing it is undefined.\<close>

definition queue_at :: "nat \<Rightarrow> 'd ws \<Rightarrow> WorkerQueue res" where
  "queue_at v s =
     (case ws_main s of WM_Growing k \<Rightarrow> Inl Data_race | _ \<Rightarrow> aget (g_local_queues s) v)"

definition Dummy_task :: "'d floats \<Rightarrow> nat \<Rightarrow> 'd ws \<Rightarrow> 'd ws" where
  "Dummy_task fl i s = s\<lparr>g_sum := f_add fl (g_sum s) (DummyTask_loop fl ((i + 5) * 50) 0 (f_of_int fl (int i)))\<rparr>"

text \<open>One attempt of the loop of \<^verbatim>\<open>Steal\<close>: attempt \<open>k\<close>, with the victim \<open>v\<close> drawn below the size \<open>m\<close> read at its start.\<close>

definition Steal :: "nat \<Rightarrow> nat \<Rightarrow> nat \<Rightarrow> nat \<Rightarrow> 'd ws \<Rightarrow> 'd ws res" where
  "Steal k m v i s =
     (case ws_main s of
        WM_Growing _ \<Rightarrow> Inl Data_race
      | _ \<Rightarrow>
        if \<not> k < length (g_local_queues s) then Inr (ws_goto i W_Global s)
        else if v = i then Inr (ws_goto i (W_Steal (k + 1) m) s)
        else
          rbind (queue_at v s) (\<lambda>q.
          rbind (try_steal q) (\<lambda>(task, q).
          case task of
            Some t \<Rightarrow> Inr (ws_goto i (W_Push t) (put_queue v q s))
          | None \<Rightarrow> Inr (ws_goto i (W_Steal (k + 1) m) s))))"

definition Try_pop_global :: "nat \<Rightarrow> 'd ws \<Rightarrow> 'd ws res" where
  "Try_pop_global i s =
     (let cnt = min (length (g_global_queue s)) (CAPACITY div 2) in
      Inr (ws_goto i (if cnt = 0 then W_Stop else W_Fetch cnt) s))"

definition Try_pop_global_loop :: "nat \<Rightarrow> nat \<Rightarrow> WorkerQueue \<Rightarrow> 'd ws \<Rightarrow> 'd ws res" where
  "Try_pop_global_loop k i q s =
     (if k = 0 \<or> g_global_queue s = [] then Inr (ws_goto i W_Top s)
      else
        rbind (push (last (g_global_queue s)) q) (\<lambda>q.
        Inr (ws_goto i (W_Fetch (k - 1)) (put_queue i q (s\<lparr>g_global_queue := butlast (g_global_queue s)\<rparr>)))))"

definition ws_notify :: "'d ws \<Rightarrow> 'd ws" where
  "ws_notify s = (if ws_main s = WM_Blocked then s\<lparr>ws_main := WM_Lock\<rparr> else s)"

definition ws_Worker :: "'d floats \<Rightarrow> nat \<Rightarrow> nat \<Rightarrow> ws_pc \<Rightarrow> WorkerQueue \<Rightarrow> 'd ws \<Rightarrow> 'd ws res" where
  "ws_Worker fl v i pc q s =
     (case pc of
        W_Start \<Rightarrow> rbind (queue_at i s) (\<lambda>_. Inr (ws_goto i W_Top s))
      | W_Top \<Rightarrow>
          rbind (try_pop q) (\<lambda>(task, q).
          case task of
            Some t \<Rightarrow> Inr (ws_goto i (W_Run t) (put_queue i q s))
          | None \<Rightarrow> (case ws_main s of
                WM_Growing _ \<Rightarrow> Inl Data_race
              | _ \<Rightarrow> Inr (ws_goto i (W_Steal 0 (length (g_local_queues s))) s)))
      | W_Run t \<Rightarrow>
          Inr (ws_goto i W_Sub ((Dummy_task fl (fst t) s)\<lparr>ws_executed := ws_executed s @ [t]\<rparr>))
      | W_Sub \<Rightarrow>
          Inr (ws_goto i (if g_pending_tasks s = 1 then W_Notify else W_Top)
            (s\<lparr>g_pending_tasks := g_pending_tasks s - 1\<rparr>))
      | W_Notify \<Rightarrow> Inr (ws_goto i W_Top (ws_notify s))
      | W_Steal k m \<Rightarrow> Steal k m v i s
      | W_Push t \<Rightarrow> rbind (push t q) (\<lambda>q. Inr (ws_goto i W_Top (put_queue i q s)))
      | W_Global \<Rightarrow> Try_pop_global i s
      | W_Fetch k \<Rightarrow> Try_pop_global_loop k i q s
      | W_Stop \<Rightarrow> Inr (ws_goto i (if g_stop s then W_Exited else W_Top) s)
      | W_Exited \<Rightarrow> Inr s)"

section \<open>The main thread\<close>

definition all_tasks :: "nat \<Rightarrow> nat \<Rightarrow> ws_task list" where
  "all_tasks n p = concat (map (\<lambda>i. map (Pair i) [0..<p]) [0..<n])"

definition ws_RunTasks :: "'d floats \<Rightarrow> nat \<Rightarrow> nat \<Rightarrow> 'd ws \<Rightarrow> 'd ws" where
  "ws_RunTasks fl n p s =
     (case ws_main s of
        WM_Reset \<Rightarrow>
          s\<lparr>g_sum := f_of_int fl 0, g_pending_tasks := 0, g_stop := False, g_local_queues := [], ws_pcs := [],
            ws_created := [], ws_executed := [], ws_main := WM_Spawn 0\<rparr>
      | WM_Spawn k \<Rightarrow> s\<lparr>ws_main := (if k < n then WM_Growing k else WM_Fill)\<rparr>
      | WM_Growing k \<Rightarrow> s\<lparr>g_local_queues := g_local_queues s @ [new_WorkerQueue], ws_main := WM_Create k\<rparr>
      | WM_Create k \<Rightarrow> s\<lparr>ws_pcs := ws_pcs s @ [W_Start], ws_main := WM_Spawn (k + 1)\<rparr>
      | WM_Fill \<Rightarrow>
          s\<lparr>g_pending_tasks := word_of_nat (n * p), g_global_queue := g_global_queue s @ all_tasks n p,
            ws_created := all_tasks n p, ws_main := WM_Lock\<rparr>
      | WM_Lock \<Rightarrow> s\<lparr>ws_main := WM_Check\<rparr>
      | WM_Check \<Rightarrow> s\<lparr>ws_main := (if g_pending_tasks s = 0 then WM_Stop else WM_Wait)\<rparr>
      | WM_Wait \<Rightarrow> s\<lparr>ws_main := WM_Blocked\<rparr>
      | WM_Stop \<Rightarrow> s\<lparr>g_stop := True, ws_main := WM_Join 0\<rparr>
      | WM_Join k \<Rightarrow>
          if k < n then s\<lparr>ws_main := WM_Join (k + 1)\<rparr>
          else s\<lparr>ws_iteration := ws_iteration s + 1, ws_main := (if ws_iteration s + 1 < 11 then WM_Reset else WM_Done)\<rparr>
      | _ \<Rightarrow> s)"

section \<open>Interleavings\<close>

definition g_m_held :: "'d ws \<Rightarrow> bool" where
  "g_m_held s \<longleftrightarrow> ws_main s = WM_Check \<or> ws_main s = WM_Wait \<or> (\<exists>pc\<in>set (ws_pcs s). case pc of W_Fetch _ \<Rightarrow> True | _ \<Rightarrow> False)"

datatype ws_event =
    Ws_worker nat nat
  | Ws_main
  | Ws_wakes

fun ws_enabled :: "nat \<Rightarrow> ws_event \<Rightarrow> 'd ws \<Rightarrow> bool" where
  "ws_enabled n (Ws_worker i v) s \<longleftrightarrow>
     i < length (ws_pcs s) \<and>
     (case ws_pcs s ! i of
        W_Exited \<Rightarrow> False
      | W_Steal k m \<Rightarrow> v < m
      | W_Global \<Rightarrow> \<not> g_m_held s
      | _ \<Rightarrow> True)"
| "ws_enabled n Ws_main s \<longleftrightarrow>
     (case ws_main s of
        WM_Blocked \<Rightarrow> False
      | WM_Done \<Rightarrow> False
      | WM_Fill \<Rightarrow> \<not> g_m_held s
      | WM_Lock \<Rightarrow> \<not> g_m_held s
      | WM_Join k \<Rightarrow> k < n \<longrightarrow> ws_pcs s ! k = W_Exited
      | _ \<Rightarrow> True)"
| "ws_enabled n Ws_wakes s \<longleftrightarrow> ws_main s = WM_Blocked"

fun ws_step :: "'d floats \<Rightarrow> nat \<Rightarrow> nat \<Rightarrow> ws_event \<Rightarrow> 'd ws \<Rightarrow> 'd ws res" where
  "ws_step fl n p (Ws_worker i v) s =
     rbind (aget (ws_pcs s) i) (\<lambda>pc. rbind (aget (g_local_queues s) i) (\<lambda>q. ws_Worker fl v i pc q s))"
| "ws_step fl n p Ws_main s = Inr (ws_RunTasks fl n p s)"
| "ws_step fl n p Ws_wakes s = Inr (s\<lparr>ws_main := WM_Lock\<rparr>)"

abbreviation ws_reaches :: "'d floats \<Rightarrow> nat \<Rightarrow> nat \<Rightarrow> 'd ws \<Rightarrow> bool" where
  "ws_reaches fl n p \<equiv> reach (\<lambda>s. s = new_ws fl) (event_trans (ws_enabled n) (ws_step fl n p))"

abbreviation ws_run :: "'d floats \<Rightarrow> nat \<Rightarrow> nat \<Rightarrow> ws_event list \<Rightarrow> 'd ws \<Rightarrow> 'd ws res" where
  "ws_run fl n p \<equiv> run_events (ws_enabled n) (ws_step fl n p)"

end
