(* ===== verification/Work_Stealing_Steps.thy ===== *)
theory Work_Stealing_Steps
  imports Work_Stealing
begin

text \<open>
  The invariant of \<^verbatim>\<open>Scheduler/WorkStealing.cpp\<close> and its preservation: no task is lost, no local queue holds more than
  half its capacity, the counter of pending tasks is exact. The only step that can fail is an access to the vector of
  queues while the main thread extends it.
\<close>

section \<open>The invariant\<close>

definition ws_hand :: "ws_pc \<Rightarrow> ws_task multiset" where
  "ws_hand pc = (case pc of W_Run t \<Rightarrow> {#t#} | W_Push t \<Rightarrow> {#t#} | _ \<Rightarrow> {#})"

definition ws_unsaid :: "ws_pc \<Rightarrow> nat" where
  "ws_unsaid pc = (if pc = W_Sub then 1 else 0)"

definition ws_queued :: "'d ws \<Rightarrow> ws_task multiset" where
  "ws_queued s = (\<Sum>j<length (g_local_queues s). mset (ring_list (g_local_queues s ! j)))"

definition ws_hands :: "'d ws \<Rightarrow> ws_task multiset" where
  "ws_hands s = (\<Sum>j<length (ws_pcs s). ws_hand (ws_pcs s ! j))"

definition ws_unreported :: "'d ws \<Rightarrow> nat" where
  "ws_unreported s = (\<Sum>j<length (ws_pcs s). ws_unsaid (ws_pcs s ! j))"

text \<open>How many tasks the queue of a worker may hold: none once it has found its queue empty, half the capacity otherwise.\<close>

definition owner_ok :: "ws_pc \<Rightarrow> nat \<Rightarrow> bool" where
  "owner_ok pc len \<longleftrightarrow>
     (case pc of
        W_Top \<Rightarrow> len \<le> 512
      | W_Run t \<Rightarrow> len \<le> 512
      | W_Sub \<Rightarrow> len \<le> 512
      | W_Notify \<Rightarrow> len \<le> 512
      | W_Fetch k \<Rightarrow> len + k \<le> 512
      | _ \<Rightarrow> len = 0)"

lemma owner_ok_mono: "owner_ok pc a \<Longrightarrow> b \<le> a \<Longrightarrow> owner_ok pc b"
  by (auto simp: owner_ok_def split: ws_pc.splits)

definition drawn_ok :: "nat \<Rightarrow> ws_pc \<Rightarrow> bool" where
  "drawn_ok n pc \<longleftrightarrow> (case pc of W_Steal k m \<Rightarrow> m \<le> n | _ \<Rightarrow> True)"

definition ws_queues_ok :: "'d ws \<Rightarrow> bool" where
  "ws_queues_ok s \<longleftrightarrow>
     length (ws_pcs s) \<le> length (g_local_queues s) \<and>
     (\<forall>j<length (g_local_queues s). ring_ok 1024 (g_local_queues s ! j)) \<and>
     (\<forall>j<length (ws_pcs s). owner_ok (ws_pcs s ! j) (length (ring_list (g_local_queues s ! j))) \<and>
        drawn_ok (length (g_local_queues s)) (ws_pcs s ! j)) \<and>
     (\<forall>j<length (g_local_queues s). length (ws_pcs s) \<le> j \<longrightarrow> ring_list (g_local_queues s ! j) = [])"

definition ws_tasks_ok :: "'d ws \<Rightarrow> bool" where
  "ws_tasks_ok s \<longleftrightarrow>
     mset (g_global_queue s) + ws_queued s + ws_hands s + mset (ws_executed s) = mset (ws_created s) \<and>
     unat (g_pending_tasks s) = length (g_global_queue s) + size (ws_queued s) + size (ws_hands s) + ws_unreported s"

definition ws_control_ok :: "nat \<Rightarrow> nat \<Rightarrow> 'd ws \<Rightarrow> bool" where
  "ws_control_ok n p s \<longleftrightarrow>
     (\<forall>j<length (ws_pcs s). ws_pcs s ! j = W_Exited \<longrightarrow> g_stop s) \<and>
     (g_stop s \<longrightarrow> (\<exists>k. ws_main s = WM_Join k)) \<and>
     (g_stop s \<or> ws_main s = WM_Stop \<or> ws_created s = [] \<longrightarrow> g_pending_tasks s = 0) \<and>
     (case ws_main s of
        WM_Spawn k \<Rightarrow> k \<le> n \<and> length (ws_pcs s) = k \<and> length (g_local_queues s) = k \<and> ws_created s = []
      | WM_Growing k \<Rightarrow> k < n \<and> length (ws_pcs s) = k \<and> length (g_local_queues s) = k \<and> ws_created s = []
      | WM_Create k \<Rightarrow> k < n \<and> length (ws_pcs s) = k \<and> length (g_local_queues s) = k + 1 \<and> ws_created s = []
      | WM_Fill \<Rightarrow> length (ws_pcs s) = n \<and> length (g_local_queues s) = n \<and> ws_created s = []
      | WM_Join k \<Rightarrow> length (ws_pcs s) = n \<and> length (g_local_queues s) = n \<and> ws_created s = all_tasks n p \<and>
          g_stop s \<and> k \<le> n \<and> (\<forall>j<k. ws_pcs s ! j = W_Exited)
      | _ \<Rightarrow> length (ws_pcs s) = n \<and> length (g_local_queues s) = n \<and> ws_created s = all_tasks n p)"

definition ws_idle :: "'d ws \<Rightarrow> bool" where
  "ws_idle s \<longleftrightarrow> ws_main s = WM_Reset \<or> ws_main s = WM_Done"

definition ws_ok :: "nat \<Rightarrow> nat \<Rightarrow> 'd ws \<Rightarrow> bool" where
  "ws_ok n p s \<longleftrightarrow>
     (if ws_idle s then g_global_queue s = [] \<and> (\<forall>j<length (ws_pcs s). ws_pcs s ! j = W_Exited)
      else ws_queues_ok s \<and> ws_tasks_ok s \<and> ws_control_ok n p s)"

section \<open>Steps of the workers\<close>

lemma sum_update:
  fixes f :: "'a \<Rightarrow> 'b :: comm_monoid_add"
  assumes "i < length xs"
  shows "(\<Sum>j<length xs. f (xs[i := y] ! j)) + f (xs ! i) = (\<Sum>j<length xs. f (xs ! j)) + f y"
  using sum_change [OF assms, of "\<lambda>j. f (xs[i := y] ! j)" "\<lambda>j. f (xs ! j)"] assms by simp

lemma ws_goto_simps [simp]:
  "g_global_queue (ws_goto i pc s) = g_global_queue s" "g_local_queues (ws_goto i pc s) = g_local_queues s"
  "g_pending_tasks (ws_goto i pc s) = g_pending_tasks s" "g_stop (ws_goto i pc s) = g_stop s"
  "ws_pcs (ws_goto i pc s) = (ws_pcs s)[i := pc]" "ws_main (ws_goto i pc s) = ws_main s"
  "ws_created (ws_goto i pc s) = ws_created s" "ws_executed (ws_goto i pc s) = ws_executed s"
  by (simp_all add: ws_goto_def)

lemma put_queue_simps [simp]:
  "g_global_queue (put_queue i q s) = g_global_queue s" "g_local_queues (put_queue i q s) = (g_local_queues s)[i := q]"
  "g_pending_tasks (put_queue i q s) = g_pending_tasks s" "g_stop (put_queue i q s) = g_stop s"
  "ws_pcs (put_queue i q s) = ws_pcs s" "ws_main (put_queue i q s) = ws_main s"
  "ws_created (put_queue i q s) = ws_created s" "ws_executed (put_queue i q s) = ws_executed s"
  by (simp_all add: put_queue_def)

text \<open>The balance of one queue and one worker is the balance of all.\<close>

lemma ws_tasks_balanced:
  assumes T: "ws_tasks_ok s" and i: "i < length (ws_pcs s)" and v: "v < length (g_local_queues s)"
    and frame: "ws_pcs t = (ws_pcs s)[i := pc]" "g_local_queues t = (g_local_queues s)[v := q]" "ws_executed t = ws_executed s @ ex"
      "ws_created t = ws_created s"
    and tasks: "mset (g_global_queue t) + mset (ring_list q) + ws_hand pc + mset ex =
      mset (g_global_queue s) + mset (ring_list (g_local_queues s ! v)) + ws_hand (ws_pcs s ! i)"
    and count: "unat (g_pending_tasks t) + ws_unsaid (ws_pcs s ! i) + length ex = unat (g_pending_tasks s) + ws_unsaid pc"
  shows "ws_tasks_ok t"
proof -
  have b: "ws_queued t + mset (ring_list (g_local_queues s ! v)) = ws_queued s + mset (ring_list q)"
    "ws_hands t + ws_hand (ws_pcs s ! i) = ws_hands s + ws_hand pc"
    "ws_unreported t + ws_unsaid (ws_pcs s ! i) = ws_unreported s + ws_unsaid pc"
    using sum_update [OF v, of "\<lambda>q. mset (ring_list q)" q] sum_update [OF i, of ws_hand pc] sum_update [OF i, of ws_unsaid pc] frame(1,2)
    by (simp_all add: ws_queued_def ws_hands_def ws_unreported_def)
  let ?m = "mset (ring_list (g_local_queues s ! v)) + ws_hand (ws_pcs s ! i)"
  have "(mset (g_global_queue t) + ws_queued t + ws_hands t + mset ex) + ?m =
      (mset (g_global_queue t) + mset ex) + (ws_queued t + mset (ring_list (g_local_queues s ! v))) + (ws_hands t + ws_hand (ws_pcs s ! i))"
    by (simp add: ac_simps)
  also have "\<dots> = (mset (g_global_queue t) + mset (ring_list q) + ws_hand pc + mset ex) + (ws_queued s + ws_hands s)"
    unfolding b by (simp add: ac_simps)
  also have "\<dots> = (mset (g_global_queue s) + ws_queued s + ws_hands s) + ?m" unfolding tasks by (simp add: ac_simps)
  finally have e: "mset (g_global_queue t) + ws_queued t + ws_hands t + mset ex = mset (g_global_queue s) + ws_queued s + ws_hands s"
    by simp
  then have "mset (g_global_queue t) + ws_queued t + ws_hands t + mset (ws_executed t) = mset (ws_created t)"
    using T frame(3,4) by (simp add: ws_tasks_ok_def) (metis (no_types) add.assoc add.commute)
  moreover have "length (g_global_queue t) + size (ws_queued t) + size (ws_hands t) + length ex =
      length (g_global_queue s) + size (ws_queued s) + size (ws_hands s)" using arg_cong [OF e, of size] by simp
  ultimately show ?thesis using T b(3) count by (simp add: ws_tasks_ok_def)
qed

text \<open>Worker \<open>i\<close> moves on, changes queue \<open>v\<close> and runs the tasks \<open>ex\<close>.\<close>

lemma ws_balanced:
  assumes ok: "ws_ok n p s" "\<not> ws_idle s" and i: "i < length (ws_pcs s)" "ws_pcs s ! i \<noteq> W_Exited" and v: "v < length (g_local_queues s)"
    and frame: "ws_pcs t = (ws_pcs s)[i := pc]" "g_local_queues t = (g_local_queues s)[v := q]" "ws_executed t = ws_executed s @ ex"
      "ws_created t = ws_created s" "ws_main t = ws_main s" "g_stop t = g_stop s"
    and pc: "pc = W_Exited \<longrightarrow> g_stop s" "drawn_ok (length (g_local_queues s)) pc"
    and q: "ring_ok 1024 q" "v \<noteq> i \<longrightarrow> length (ring_list q) \<le> length (ring_list (g_local_queues s ! v))"
      "owner_ok pc (length (ring_list (if v = i then q else g_local_queues s ! i)))"
    and tasks: "mset (g_global_queue t) + mset (ring_list q) + ws_hand pc + mset ex =
      mset (g_global_queue s) + mset (ring_list (g_local_queues s ! v)) + ws_hand (ws_pcs s ! i)"
    and count: "unat (g_pending_tasks t) + ws_unsaid (ws_pcs s ! i) + length ex = unat (g_pending_tasks s) + ws_unsaid pc"
    and less: "unat (g_pending_tasks t) \<le> unat (g_pending_tasks s)"
  shows "ws_ok n p t"
proof -
  have Q: "ws_queues_ok s" and T: "ws_tasks_ok s" and K: "ws_control_ok n p s" using ok by (simp_all add: ws_ok_def)
  have "ws_queues_ok t"
  proof -
    have "ring_list q = []" if "length (ws_pcs s) \<le> v" using Q q(2) v i(1) that
      by (auto simp: ws_queues_ok_def simp del: length_ring_list)
    moreover have "owner_ok (ws_pcs t ! j) (length (ring_list (g_local_queues t ! j)))" if "j < length (ws_pcs s)" for j
      using that Q q(2,3) v i(1) frame(1,2) owner_ok_mono
      by (cases "j = i"; cases "j = v") (auto simp: ws_queues_ok_def simp del: length_ring_list)
    moreover have "drawn_ok (length (g_local_queues s)) (ws_pcs t ! j)" if "j < length (ws_pcs s)" for j
      using that Q pc(2) frame(1) by (cases "j = i") (auto simp: ws_queues_ok_def)
    ultimately show ?thesis using Q q(1) v frame(1,2) by (auto simp: ws_queues_ok_def nth_list_update)
  qed
  moreover have "ws_tasks_ok t" by (rule ws_tasks_balanced [OF T i(1) v frame(1-4) tasks count])
  moreover have "ws_control_ok n p t"
  proof -
    have z: "g_pending_tasks s = 0 \<longrightarrow> g_pending_tasks t = 0" using less by (auto simp: unsigned_eq_0_iff)
    have x: "ws_pcs t ! j = W_Exited" if "ws_pcs s ! j = W_Exited" for j using that i(2) frame(1) by (cases "j = i") auto
    have y: "g_stop s" if "ws_pcs t ! j = W_Exited" "j < length (ws_pcs s)" for j
      using that pc(1) frame(1) K by (cases "j = i") (auto simp: ws_control_ok_def)
    show ?thesis using K frame z x y unfolding ws_control_ok_def by (auto split: ws_main_pc.splits)
  qed
  moreover have "\<not> ws_idle t" using ok(2) frame(5) by (simp add: ws_idle_def)
  ultimately show ?thesis by (simp add: ws_ok_def)
qed

lemma ws_okD:
  assumes "ws_ok n p s" "\<not> ws_idle s"
  shows "ws_queues_ok s" "ws_tasks_ok s" "ws_control_ok n p s"
  using assms by (simp_all add: ws_ok_def)

lemma ws_move:
  assumes ok: "ws_ok n p s" "\<not> ws_idle s" and i: "i < length (ws_pcs s)" "ws_pcs s ! i \<noteq> W_Exited"
    and pc: "pc = W_Exited \<longrightarrow> g_stop s" "drawn_ok (length (g_local_queues s)) pc"
    "owner_ok pc (length (ring_list (g_local_queues s ! i)))" "ws_hand pc = ws_hand (ws_pcs s ! i)" "ws_unsaid pc = ws_unsaid (ws_pcs s ! i)"
  shows "ws_ok n p (ws_goto i pc s)"
proof -
  have "i < length (g_local_queues s)" "ring_ok 1024 (g_local_queues s ! i)" using ws_okD(1) [OF ok] i(1) by (auto simp: ws_queues_ok_def)
  then show ?thesis using pc by (intro ws_balanced [OF ok i, where v = i and pc = pc and q = "g_local_queues s ! i" and ex = "[]"]) simp_all
qed

lemma ws_notify_ok: "ws_ok n p s \<Longrightarrow> ws_ok n p (ws_notify s)"
  by (auto simp: ws_notify_def ws_ok_def ws_idle_def ws_queues_ok_def ws_tasks_ok_def ws_control_ok_def ws_queued_def ws_hands_def
      ws_unreported_def split: ws_main_pc.splits)

lemma ws_goto_notify: "ws_goto i pc (ws_notify s) = ws_notify (ws_goto i pc s)"
  by (simp add: ws_goto_def ws_notify_def)

lemma queue_at_cases:
  assumes "v < length (g_local_queues s)"
  shows "queue_at v s = Inr (g_local_queues s ! v) \<or> queue_at v s = Inl Data_race \<and> (\<exists>k. ws_main s = WM_Growing k)"
  using assms by (auto simp: queue_at_def split: ws_main_pc.splits)

text \<open>The outcomes of a step: a state that satisfies the invariant, or a race with the growing vector.\<close>

definition ws_outcome :: "nat \<Rightarrow> nat \<Rightarrow> 'd ws \<Rightarrow> 'd ws res \<Rightarrow> bool" where
  "ws_outcome n p s r \<longleftrightarrow> (\<exists>t. r = Inr t \<and> ws_ok n p t) \<or> r = Inl Data_race \<and> (\<exists>k. ws_main s = WM_Growing k)"

lemma ws_outcome_simps [simp]:
  "ws_outcome n p s (Inr t) \<longleftrightarrow> ws_ok n p t" "ws_outcome n p s (Inl Data_race) \<longleftrightarrow> (\<exists>k. ws_main s = WM_Growing k)"
  by (simp_all add: ws_outcome_def)

lemma Steal_ok:
  assumes ok: "ws_ok n p s" "\<not> ws_idle s" and i: "i < length (ws_pcs s)" and pc: "ws_pcs s ! i = W_Steal k m" and v: "v < m"
  shows "ws_outcome n p s (Steal k m v i s)"
proof -
  let ?qs = "g_local_queues s"
  note Q = ws_okD(1) [OF ok]
  have o: "ring_list (?qs ! i) = []" "m \<le> length ?qs" using Q i pc by (auto simp: ws_queues_ok_def owner_ok_def drawn_ok_def simp del: length_ring_list)
  then have v': "v < length ?qs" "ring_ok 1024 (?qs ! v)" using v Q by (auto simp: ws_queues_ok_def)
  have go: "ws_ok n p (ws_goto i pc' s)" if "pc' = W_Global \<or> pc' = W_Steal (k + 1) m" for pc'
    using that pc o by (intro ws_move [OF ok i]) (auto simp: owner_ok_def drawn_ok_def ws_hand_def ws_unsaid_def simp del: length_ring_list)
  show ?thesis
  proof (cases "k < length ?qs \<and> v \<noteq> i \<and> (\<forall>k. ws_main s \<noteq> WM_Growing k)")
    case False
    then show ?thesis using go by (auto simp: Steal_def split: ws_main_pc.split)
  next
    case True
    then have at: "queue_at v s = Inr (?qs ! v)" using queue_at_cases [OF v'(1)] by blast
    show ?thesis
    proof (cases "ring_list (?qs ! v)")
      case Nil
      then show ?thesis using True at try_steal_ok [OF v'(2)] go by (auto simp: Steal_def split: ws_main_pc.split)
    next
      case (Cons t ts)
      obtain q where q: "try_steal (?qs ! v) = Inr (Some t, q)" "ring_ok 1024 q" "ring_list q = ts"
        using try_steal_ok [OF v'(2)] Cons by blast
      have "ws_ok n p (ws_goto i (W_Push t) (put_queue v q s))"
        using True v' pc o q(2,3) Cons
        by (intro ws_balanced [OF ok i, where v = v and pc = "W_Push t" and q = q and ex = "[]"])
          (simp_all add: owner_ok_def drawn_ok_def ws_hand_def ws_unsaid_def del: length_ring_list)
      then show ?thesis using True at q(1) by (auto simp: Steal_def split: ws_main_pc.split)
    qed
  qed
qed

text \<open>The position of a worker, its queue and what they promise, as the cases below need them.\<close>

lemma worker_at:
  assumes "ws_ok n p s" "\<not> ws_idle s" "i < length (ws_pcs s)"
  shows "i < length (g_local_queues s)" "ring_ok 1024 (g_local_queues s ! i)"
    "owner_ok (ws_pcs s ! i) (length (ring_list (g_local_queues s ! i)))"
  using ws_okD(1) [OF assms(1,2)] assms(3) by (auto simp: ws_queues_ok_def)

lemmas pc_defs = owner_ok_def drawn_ok_def ws_hand_def ws_unsaid_def

lemma mset_butlast_last: "xs \<noteq> [] \<Longrightarrow> mset (butlast xs) + {#last xs#} = mset xs"
  by (metis append_butlast_last_id mset_append mset_single_iff_right)

lemma W_Top_ok:
  assumes ok: "ws_ok n p s" "\<not> ws_idle s" and i: "i < length (ws_pcs s)" and pc: "ws_pcs s ! i = W_Top"
  shows "ws_outcome n p s (ws_Worker fl v i W_Top (g_local_queues s ! i) s)"
proof (cases "ring_list (g_local_queues s ! i) = []")
  case True
  then show ?thesis using pc try_pop_ok [OF worker_at(2) [OF ok i]] ws_move [OF ok i, of "W_Steal 0 (length (g_local_queues s))"]
    by (auto simp: ws_Worker_def pc_defs simp del: length_ring_list split: ws_main_pc.split)
next
  case False
  let ?q = "g_local_queues s ! i" let ?t = "last (ring_list ?q)"
  note o = worker_at [OF ok i]
  obtain q where q: "try_pop ?q = Inr (Some ?t, q)" "ring_ok 1024 q" "ring_list q = butlast (ring_list ?q)"
    using try_pop_ok [OF o(2)] False by blast
  have "ws_ok n p (ws_goto i (W_Run ?t) (put_queue i q s))"
    using pc o(3) q(2,3) mset_butlast_last [OF False]
    by (intro ws_balanced [OF ok i _ o(1), where pc = "W_Run ?t" and q = q and ex = "[]"]) (auto simp: pc_defs simp del: length_ring_list)
  then show ?thesis using q(1) by (simp add: ws_Worker_def)
qed

lemma W_Sub_ok:
  assumes ok: "ws_ok n p s" "\<not> ws_idle s" and i: "i < length (ws_pcs s)" and pc: "ws_pcs s ! i = W_Sub"
  shows "ws_outcome n p s (ws_Worker fl v i W_Sub (g_local_queues s ! i) s)"
proof -
  note o = worker_at [OF ok i]
  have "1 \<le> ws_unreported s"
    using pc i sum_update [OF i, of ws_unsaid W_Top] by (simp add: ws_unreported_def ws_unsaid_def)
  then have "unat (g_pending_tasks s - 1) + 1 = unat (g_pending_tasks s)"
    using ws_okD(2) [OF ok] unat_minus_one32 [of "g_pending_tasks s"] by (simp add: ws_tasks_ok_def)
  then have "ws_ok n p (ws_goto i pc' (s\<lparr>g_pending_tasks := g_pending_tasks s - 1\<rparr>))" if "pc' = W_Top \<or> pc' = W_Notify" for pc'
    using that pc o by (intro ws_balanced [OF ok i _ o(1), where pc = pc' and q = "g_local_queues s ! i" and ex = "[]"])
      (auto simp: pc_defs simp del: length_ring_list)
  then show ?thesis by (simp add: ws_Worker_def)
qed

lemma W_Fetch_ok:
  assumes ok: "ws_ok n p s" "\<not> ws_idle s" and i: "i < length (ws_pcs s)" and pc: "ws_pcs s ! i = W_Fetch k"
  shows "ws_outcome n p s (Try_pop_global_loop k i (g_local_queues s ! i) s)"
proof (cases "k = 0 \<or> g_global_queue s = []")
  case True
  then show ?thesis using pc worker_at(3) [OF ok i] ws_move [OF ok i, of W_Top] by (auto simp: Try_pop_global_loop_def pc_defs)
next
  case False
  let ?g = "g_global_queue s" and ?q = "g_local_queues s ! i"
  note o = worker_at [OF ok i]
  obtain q where q: "push (last ?g) ?q = Inr q" "ring_ok 1024 q" "ring_list q = ring_list ?q @ [last ?g]"
    using push_ok [OF o(2), of "last ?g"] o(3) pc by (auto simp: pc_defs)
  have "ws_ok n p (ws_goto i (W_Fetch (k - 1)) (put_queue i q (s\<lparr>g_global_queue := butlast ?g\<rparr>)))"
    using pc o(3) q(2,3) False mset_butlast_last [of ?g]
    by (intro ws_balanced [OF ok i _ o(1), where pc = "W_Fetch (k - 1)" and q = q and ex = "[]"])
      (auto simp: pc_defs simp del: length_ring_list)
  then show ?thesis using False q(1) by (simp add: Try_pop_global_loop_def)
qed

lemma W_Push_ok:
  assumes ok: "ws_ok n p s" "\<not> ws_idle s" and i: "i < length (ws_pcs s)" and pc: "ws_pcs s ! i = W_Push t"
  shows "ws_outcome n p s (ws_Worker fl v i (W_Push t) (g_local_queues s ! i) s)"
proof -
  note o = worker_at [OF ok i]
  obtain q where q: "push t (g_local_queues s ! i) = Inr q" "ring_ok 1024 q" "ring_list q = ring_list (g_local_queues s ! i) @ [t]"
    using push_ok [OF o(2), of t] o(3) pc by (auto simp: pc_defs)
  have "ws_ok n p (ws_goto i W_Top (put_queue i q s))"
    using pc o(3) q(2,3) by (intro ws_balanced [OF ok i _ o(1), where pc = W_Top and q = q and ex = "[]"])
      (auto simp: pc_defs simp del: length_ring_list)
  then show ?thesis using q(1) by (simp add: ws_Worker_def)
qed

lemma ws_Worker_ok:
  assumes ok: "ws_ok n p s" "\<not> ws_idle s" and i: "i < length (ws_pcs s)" and en: "ws_enabled n (Ws_worker i v) s"
  shows "ws_outcome n p s (ws_Worker fl v i (ws_pcs s ! i) (g_local_queues s ! i) s)"
proof -
  let ?q = "g_local_queues s ! i" and ?pc = "ws_pcs s ! i"
  have x: "?pc \<noteq> W_Exited" using en by auto
  note o = worker_at [OF ok i] and move = ws_move [OF ok i x]
  show ?thesis
  proof (cases ?pc)
    case W_Start
    then show ?thesis using o(3) queue_at_cases [OF o(1)] move [of W_Top] by (auto simp: ws_Worker_def pc_defs)
  next
    case (W_Run t)
    have "ws_ok n p (ws_goto i W_Sub ((Dummy_task fl (fst t) s)\<lparr>ws_executed := ws_executed s @ [t]\<rparr>))"
      using W_Run o by (intro ws_balanced [OF ok i x o(1), where pc = W_Sub and q = ?q and ex = "[t]"])
        (auto simp: pc_defs Dummy_task_def simp del: length_ring_list)
    then show ?thesis using W_Run by (simp add: ws_Worker_def)
  next
    case W_Notify
    then show ?thesis using o(3) ws_notify_ok [OF move [of W_Top]] by (simp add: ws_Worker_def ws_goto_notify pc_defs)
  next
    case (W_Steal k m)
    then show ?thesis using Steal_ok [OF ok i W_Steal] en by (simp add: ws_Worker_def)
  next
    case W_Global
    let ?c = "min (length (g_global_queue s)) (CAPACITY div 2)"
    have "ws_ok n p (ws_goto i (if ?c = 0 then W_Stop else W_Fetch ?c) s)"
      using W_Global o(3) by (intro move) (auto simp: pc_defs CAPACITY_def simp del: length_ring_list)
    then show ?thesis using W_Global by (simp add: ws_Worker_def Try_pop_global_def Let_def)
  next
    case (W_Fetch k)
    then show ?thesis using W_Fetch_ok [OF ok i W_Fetch] by (simp add: ws_Worker_def)
  next
    case W_Stop
    then show ?thesis using o(3) move [of W_Top] move [of W_Exited] by (simp add: ws_Worker_def pc_defs)
  qed (use x W_Top_ok [OF ok i] W_Sub_ok [OF ok i] W_Push_ok [OF ok i] in simp_all)
qed

section \<open>Steps of the main thread\<close>

lemma length_all_tasks [simp]: "length (all_tasks n p) = n * p"
  by (induction n) (simp_all add: all_tasks_def)

lemma ws_main_frame:
  "ws_queues_ok (s\<lparr>ws_main := m\<rparr>) = ws_queues_ok s" "ws_tasks_ok (s\<lparr>ws_main := m\<rparr>) = ws_tasks_ok s"
  "ws_queues_ok (s\<lparr>g_stop := b\<rparr>) = ws_queues_ok s" "ws_tasks_ok (s\<lparr>g_stop := b\<rparr>) = ws_tasks_ok s"
  by (simp_all add: ws_queues_ok_def ws_tasks_ok_def ws_queued_def ws_hands_def ws_unreported_def)

lemma ws_all_done:
  assumes "ws_tasks_ok s" "g_pending_tasks s = 0"
  shows "g_global_queue s = []" "ws_queued s = {#}" "ws_hands s = {#}" "ws_unreported s = 0" "mset (ws_executed s) = mset (ws_created s)"
proof -
  have c: "length (g_global_queue s) + size (ws_queued s) + size (ws_hands s) + ws_unreported s = 0"
    using assms by (simp add: ws_tasks_ok_def)
  then show "g_global_queue s = []" "ws_queued s = {#}" "ws_hands s = {#}" "ws_unreported s = 0" by simp_all
  then show "mset (ws_executed s) = mset (ws_created s)" using assms(1) by (simp add: ws_tasks_ok_def)
qed

lemma grown_ok:
  assumes "ws_queues_ok s" "ws_tasks_ok s" "length (ws_pcs s) = length (g_local_queues s)"
  shows "ws_queues_ok (s\<lparr>g_local_queues := g_local_queues s @ [new_WorkerQueue]\<rparr>)"
    "ws_tasks_ok (s\<lparr>g_local_queues := g_local_queues s @ [new_WorkerQueue]\<rparr>)"
proof -
  have "drawn_ok (Suc m) pc" if "drawn_ok m pc" for m pc using that by (auto simp: drawn_ok_def split: ws_pc.splits)
  then show "ws_queues_ok (s\<lparr>g_local_queues := g_local_queues s @ [new_WorkerQueue]\<rparr>)"
    using assms(1,3) by (auto simp: ws_queues_ok_def nth_append less_Suc_eq)
  show "ws_tasks_ok (s\<lparr>g_local_queues := g_local_queues s @ [new_WorkerQueue]\<rparr>)"
    using assms(2) by (simp add: ws_tasks_ok_def ws_queued_def ws_hands_def ws_unreported_def nth_append)
qed

lemma created_ok:
  assumes "ws_queues_ok s" "ws_tasks_ok s" "length (g_local_queues s) = length (ws_pcs s) + 1"
  shows "ws_queues_ok (s\<lparr>ws_pcs := ws_pcs s @ [W_Start]\<rparr>)" "ws_tasks_ok (s\<lparr>ws_pcs := ws_pcs s @ [W_Start]\<rparr>)"
proof -
  have "ring_list (g_local_queues s ! length (ws_pcs s)) = []" using assms(1,3) by (simp add: ws_queues_ok_def)
  then have "owner_ok W_Start (length (ring_list (g_local_queues s ! length (ws_pcs s))))" by (simp add: owner_ok_def del: length_ring_list)
  then show "ws_queues_ok (s\<lparr>ws_pcs := ws_pcs s @ [W_Start]\<rparr>)"
    using assms(1,3) by (auto simp: ws_queues_ok_def nth_append less_Suc_eq drawn_ok_def simp del: length_ring_list)
  show "ws_tasks_ok (s\<lparr>ws_pcs := ws_pcs s @ [W_Start]\<rparr>)"
    using assms(2) by (simp add: ws_tasks_ok_def ws_queued_def ws_hands_def ws_unreported_def nth_append ws_hand_def ws_unsaid_def)
qed

lemma ws_RunTasks_ok:
  assumes np: "n * p < 2 ^ 31" and ok: "ws_ok n p s" and en: "ws_enabled n Ws_main s"
  shows "ws_ok n p (ws_RunTasks fl n p s)"
proof (cases "ws_idle s")
  case True
  then have "ws_main s = WM_Reset" "g_global_queue s = []" using en ok by (auto simp: ws_idle_def ws_ok_def)
  then show ?thesis
    by (simp add: ws_RunTasks_def ws_ok_def ws_idle_def ws_queues_ok_def ws_tasks_ok_def ws_control_ok_def ws_queued_def ws_hands_def
        ws_unreported_def)
next
  case False
  note S = ws_okD [OF ok False]
  have main: "ws_ok n p (s\<lparr>ws_main := m\<rparr>)" if "ws_control_ok n p (s\<lparr>ws_main := m\<rparr>)" "m \<noteq> WM_Reset" "m \<noteq> WM_Done" for m
    using S that by (simp add: ws_ok_def ws_idle_def ws_main_frame)
  show ?thesis
  proof (cases "ws_main s")
    case (WM_Growing k)
    then have "length (ws_pcs s) = length (g_local_queues s)" using S(3) by (simp add: ws_control_ok_def)
    note G = grown_ok [OF S(1,2) this]
    have "ws_control_ok n p (s\<lparr>g_local_queues := g_local_queues s @ [new_WorkerQueue], ws_main := WM_Create k\<rparr>)"
      using WM_Growing S(3) by (auto simp: ws_control_ok_def)
    then show ?thesis using G WM_Growing by (simp add: ws_RunTasks_def ws_ok_def ws_idle_def ws_main_frame)
  next
    case (WM_Create k)
    then have l: "length (g_local_queues s) = length (ws_pcs s) + 1" using S(3) by (simp add: ws_control_ok_def)
    have "ws_control_ok n p (s\<lparr>ws_pcs := ws_pcs s @ [W_Start], ws_main := WM_Spawn (k + 1)\<rparr>)"
      using WM_Create S(3) by (auto simp: ws_control_ok_def nth_append less_Suc_eq)
    then show ?thesis using created_ok [OF S(1,2) l] WM_Create by (simp add: ws_RunTasks_def ws_ok_def ws_idle_def ws_main_frame)
  next
    case WM_Fill
    let ?t = "ws_RunTasks fl n p s"
    have c: "ws_created s = []" "g_pending_tasks s = 0" using S(3) WM_Fill by (simp_all add: ws_control_ok_def)
    note A = ws_all_done [OF S(2) c(2)]
    have f: "ws_queued ?t = ws_queued s" "ws_hands ?t = ws_hands s" "ws_unreported ?t = ws_unreported s"
      using WM_Fill by (simp_all add: ws_RunTasks_def ws_queued_def ws_hands_def ws_unreported_def)
    have "unat (word_of_nat (n * p) :: u32) = n * p" using np by (simp add: unat_of_nat take_bit_nat_eq_self del: of_nat_mult)
    then have "ws_tasks_ok ?t" using f A c(1) WM_Fill by (simp add: ws_tasks_ok_def ws_RunTasks_def del: of_nat_mult)
    moreover have "ws_queues_ok ?t" using S(1) WM_Fill by (simp add: ws_RunTasks_def ws_queues_ok_def)
    moreover have "ws_control_ok n p ?t" using S(3) WM_Fill
      by (cases "n * p = 0") (auto simp: ws_RunTasks_def ws_control_ok_def length_all_tasks [symmetric] simp del: length_all_tasks of_nat_mult)
    ultimately show ?thesis using WM_Fill by (simp add: ws_ok_def ws_idle_def ws_RunTasks_def)
  next
    case WM_Stop
    have "ws_control_ok n p (s\<lparr>g_stop := True, ws_main := WM_Join 0\<rparr>)" using S(3) WM_Stop by (simp add: ws_control_ok_def)
    then show ?thesis using S(1,2) WM_Stop by (simp add: ws_RunTasks_def ws_ok_def ws_idle_def ws_main_frame)
  next
    case (WM_Join k)
    have "g_global_queue s = []" using ws_all_done(1) [OF S(2)] S(3) WM_Join by (simp add: ws_control_ok_def)
    moreover have "\<forall>j<k + 1. ws_pcs s ! j = W_Exited" if "k < n" using S(3) WM_Join en that by (auto simp: ws_control_ok_def less_Suc_eq)
    ultimately show ?thesis using main [of "WM_Join (k + 1)"] S(3) WM_Join by (auto simp: ws_RunTasks_def ws_control_ok_def ws_ok_def ws_idle_def)
  qed (use False S(3) en main [of "WM_Growing _"] main [of WM_Fill] main [of WM_Check] main [of WM_Stop] main [of WM_Wait] main [of WM_Blocked] in
      \<open>auto simp: ws_RunTasks_def ws_control_ok_def ws_idle_def\<close>)
qed

section \<open>Reachable states\<close>

lemma ws_step_ok:
  assumes "n * p < 2 ^ 31" "ws_ok n p s" "ws_enabled n e s"
  shows "ws_outcome n p s (ws_step fl n p e s)"
proof (cases e)
  case (Ws_worker i v)
  have i: "i < length (ws_pcs s)" and x: "ws_pcs s ! i \<noteq> W_Exited" using assms(3) Ws_worker by auto
  have a: "\<not> ws_idle s" using assms(2) i x by (auto simp: ws_ok_def)
  have "i < length (g_local_queues s)" using ws_okD(1) [OF assms(2) a] i by (simp add: ws_queues_ok_def)
  then show ?thesis using ws_Worker_ok [OF assms(2) a i] assms(3) Ws_worker i by simp
next
  case Ws_main
  then show ?thesis using ws_RunTasks_ok [OF assms(1,2)] assms(3) by simp
next
  case Ws_wakes
  then show ?thesis using ws_notify_ok [OF assms(2)] assms(3) by (simp add: ws_notify_def)
qed

interpretation wsi: event_system "\<lambda>s. s = new_ws fl" "ws_enabled n" "ws_step fl n p" "\<lambda>s. n * p < 2 ^ 31 \<longrightarrow> ws_ok n p s"
  for fl :: "'d floats" and n p
proof
  fix s t :: "'d ws" and e
  show "n * p < 2 ^ 31 \<longrightarrow> ws_ok n p s" if "s = new_ws fl" by (simp add: that new_ws_def ws_ok_def ws_idle_def)
  show "n * p < 2 ^ 31 \<longrightarrow> ws_ok n p t" if "n * p < 2 ^ 31 \<longrightarrow> ws_ok n p s" "ws_enabled n e s" "ws_step fl n p e s = Inr t"
    using that ws_step_ok [of n p s e fl] by auto
qed

lemma ws_reached_ok: "n * p < 2 ^ 31 \<Longrightarrow> ws_reaches fl n p s \<Longrightarrow> ws_ok n p s"
  using wsi.reach_I by blast

end
