(* ===== verification/Task_Steps.thy ===== *)
theory Task_Steps
  imports Task_Invariant
begin

text \<open>
  Every step of a worker and of the main thread succeeds and keeps the invariant.
\<close>

section \<open>Moving the program counter\<close>

lemma goto_simps [simp]:
  "heap (goto i pc s) = heap s" "global_queue (goto i pc s) = global_queue s" "pending_tasks (goto i pc s) = pending_tasks s"
  "stop (goto i pc s) = stop s" "workers (goto i pc s) = workers s" "pcs (goto i pc s) = (pcs s)[i := pc]"
  "main_at (goto i pc s) = main_at s" "iteration (goto i pc s) = iteration s" "totals (goto i pc s) = totals s"
  "executed (goto i pc s) = executed s"
  by (simp_all add: goto_def)

lemma goto_ok:
  assumes ok: "sched_ok fl cf s" "\<not> idle s" and i: "i < num_threads cf"
    and pc: "pcs s ! i \<noteq> Unstarted" "pcs s ! i \<noteq> Exited" "pc' = Exited \<longrightarrow> stop s"
    and w: "pc_ok cf (workers s ! i) pc'" "in_hand pc' = in_hand (pcs s ! i)" "pc' = S_Sub \<longleftrightarrow> pcs s ! i = S_Sub"
  shows "sched_ok fl cf (goto i pc' s)"
  using worker_okD(3) [OF ok i] w
  by (intro own_step [OF ok i pc, where w' = "workers s ! i"]) (simp_all add: held_def unreported_def)

lemma notify_ok: "sched_ok fl cf s \<Longrightarrow> sched_ok fl cf (notify_one s)"
  by (auto simp: sched_ok_def notify_one_def shape_def work_ok_def control_ok_def idle_def all_held_def all_unreported_def
      batch_def batch_start_def)

lemma goto_notify: "goto i pc (notify_one s) = notify_one (goto i pc s)"
  by (simp add: goto_def notify_one_def)

section \<open>Running a task\<close>

lemma task_known:
  assumes ok: "sched_ok fl cf s" "\<not> idle s" "i < num_threads cf" and t: "t \<in># held (workers s ! i) (pcs s ! i)"
  shows "t < length (heap s)" "heap s ! t < num_threads cf"
proof -
  note W = sched_okD(2) [OF ok(1,2)]
  have "t \<in># all_held s" using worker_share(1) [of i s] worker_okD(1) [OF ok] ok(3) t by (auto dest: mset_subset_eqD)
  then have "t \<in># mset (batch cf s)" using W by (metis (no_types) work_ok_def union_iff)
  then have b: "batch_start cf s \<le> t" "t < length (heap s)" by (simp_all add: batch_def)
  then show "t < length (heap s)" by simp
  let ?k = "t - batch_start cf s"
  have k: "?k < num_threads cf * tasks_per_thread cf" using b by (auto simp: batch_start_def)
  then have "heap s ! (batch_start cf s + ?k) = ?k div tasks_per_thread cf" using W by (simp add: work_ok_def)
  then show "heap s ! t < num_threads cf" using b(1) k by (simp add: less_mult_imp_div_less)
qed

lemma run_task_ok:
  assumes "t < length hp" "hp ! t < length ws"
  shows "\<exists>ws'. run_task fl hp t ws = Inr ws' \<and> length ws' = length ws \<and>
    (\<forall>j<length ws. same_tasks (ws ! j) (ws' ! j) \<and>
       w_sum (ws' ! j) = ((\<lambda>x. f_add fl x (workload fl j)) ^^ runs_for hp j [t]) (w_sum (ws ! j)))"
  using assms
  by (auto simp: run_task_def same_tasks_def DummyTask_def workload_def runs_for_def nth_list_update)

lemma executed_step:
  assumes ok: "sched_ok fl cf s" "\<not> idle s" and i: "i < num_threads cf"
    and pc: "pcs s ! i \<noteq> Unstarted" "pcs s ! i \<noteq> Exited" "pc' \<noteq> Exited"
    and w: "w_ok w" "w_sum w = w_sum (workers s ! i)" "held (workers s ! i) (pcs s ! i) = add_mset t (held w pc')"
    and did: "\<And>w'. same_tasks w w' \<Longrightarrow> pc_ok cf (f w') pc' \<and> unreported (f w') pc' = unreported (workers s ! i) (pcs s ! i) + 1"
    and f: "\<And>w'. w_queue (f w') = w_queue w' \<and> w_buffer (f w') = w_buffer w' \<and> w_sum (f w') = w_sum w'"
  shows "\<exists>s'. execute fl t (s\<lparr>workers := (workers s)[i := w]\<rparr>) = Inr s' \<and> length (workers s') = num_threads cf \<and>
    sched_ok fl cf (goto i pc' (s'\<lparr>workers := (workers s')[i := f (workers s' ! i)]\<rparr>))"
proof -
  note D = worker_okD [OF ok]
  let ?ws = "(workers s)[i := w]"
  note T = task_known [OF ok i, of t]
  obtain ws where ws: "run_task fl (heap s) t ?ws = Inr ws" "length ws = num_threads cf"
    "\<And>j. j < num_threads cf \<Longrightarrow> same_tasks (?ws ! j) (ws ! j)"
    "\<And>j. j < num_threads cf \<Longrightarrow> w_sum (ws ! j) = ((\<lambda>x. f_add fl x (workload fl j)) ^^ runs_for (heap s) j [t]) (w_sum (?ws ! j))"
    using run_task_ok [of t "heap s" ?ws fl] T D(1) [OF i] w(3) by auto
  let ?s = "s\<lparr>workers := ws, executed := executed s @ [t]\<rparr>"
  let ?s' = "goto i pc' (?s\<lparr>workers := ws[i := f (ws ! i)]\<rparr>)"
  have wi: "same_tasks w (ws ! i)" using ws(3) [OF i] D(1) [OF i] i by simp
  have hi: "held (f (ws ! i)) pc' = held w pc'" using same_tasksD(1) [OF wi] f by (simp add: held_def)
  have st: "same_tasks (workers s ! j) (ws ! j)" if "j < num_threads cf" "j \<noteq> i" for j using ws(3) [OF that(1)] that(2) by simp
  have b: "all_held ?s' + held (workers s ! i) (pcs s ! i) = all_held s + held w pc'"
    "all_unreported ?s' + unreported (workers s ! i) (pcs s ! i) = all_unreported s + unreported (f (ws ! i)) pc'"
    using one_worker [of i s ?s' pc'] st D [OF i] i ws(2) hi by simp_all
  have "sched_ok fl cf ?s'"
  proof (rule balanced_step [OF ok i pc(1,2), where ex = "[t]"])
    show "w_ok (workers ?s' ! j)" if "j < num_threads cf" for j
      using that w(1) f same_tasksD(3) [OF wi] same_tasksD(3) [OF st] D(3) ws(2) by (cases "j = i") (auto simp: w_ok_def)
    show "pc_ok cf (workers ?s' ! j) (pcs ?s' ! j)" if "j < num_threads cf" for j
      using that did [OF wi] same_tasksD(4) [OF st] D(2,4) ws(2) by (cases "j = i") simp_all
    show "w_sum (workers ?s' ! j) = ((\<lambda>x. f_add fl x (workload fl j)) ^^ runs_for (heap s) j [t]) (w_sum (workers s ! j))"
      if "j < num_threads cf" for j using that ws(2,4) f w(2) D(1) [OF i] by (cases "j = i") simp_all
    have "(all_held ?s' + {#t#}) + held w pc' = all_held s + held w pc'" using b(1) w(3) by simp
    then show "mset (global_queue ?s') + all_held ?s' + mset [t] = mset (global_queue s) + all_held s" by simp
    show "unat (pending_tasks ?s') + all_unreported s + length [t] = unat (pending_tasks s) + all_unreported ?s'"
      using b(2) did [OF wi] by simp
  qed (use pc D(1) [OF i] ws(2) in simp_all)
  then show ?thesis using ws(1,2) by (simp add: execute_def)
qed

section \<open>The counter of pending tasks\<close>

lemma unreported_le:
  assumes "sched_ok fl cf s" "\<not> idle s" "i < num_threads cf"
  shows "unreported (workers s ! i) (pcs s ! i) \<le> unat (pending_tasks s)"
  using sched_okD(2) [OF assms(1,2)] worker_share(2) [of i s] worker_okD(1) [OF assms] assms(3) by (simp add: work_ok_def)

lemma fetch_sub_count:
  assumes "unat k \<le> unat (pending_tasks s)"
  shows "unat (pending_tasks (snd (fetch_sub k s))) + unat k = unat (pending_tasks s)"
proof -
  have "unat (ucast k :: u32) = unat k" using assms unat_lt_u32 [of "pending_tasks s"] by (intro unat_ucast_u64_u32) linarith
  moreover from this have "(ucast k :: u32) \<le> pending_tasks s" using assms by (simp add: word_le_nat_alt)
  ultimately show ?thesis using assms by (simp add: fetch_sub_def unat_sub)
qed

lemma fetch_sub_simps [simp]:
  "heap (snd (fetch_sub k s)) = heap s" "global_queue (snd (fetch_sub k s)) = global_queue s"
  "stop (snd (fetch_sub k s)) = stop s" "workers (snd (fetch_sub k s)) = workers s" "pcs (snd (fetch_sub k s)) = pcs s"
  "main_at (snd (fetch_sub k s)) = main_at s" "iteration (snd (fetch_sub k s)) = iteration s"
  "totals (snd (fetch_sub k s)) = totals s" "executed (snd (fetch_sub k s)) = executed s"
  by (simp_all add: fetch_sub_def)

text \<open>The subtraction of \<open>k\<close> reported tasks of worker \<open>i\<close>.\<close>

lemma report_ok:
  assumes ok: "sched_ok fl cf s" "\<not> idle s" and i: "i < num_threads cf"
    and pc: "pcs s ! i \<noteq> Unstarted" "pcs s ! i \<noteq> Exited" "pc' \<noteq> Exited"
    and k: "unreported (workers s ! i) (pcs s ! i) = unat k"
    and w: "pc_ok cf ((workers s ! i)\<lparr>task_did := 0\<rparr>) pc'" "in_hand pc' = in_hand (pcs s ! i)" "pc' \<noteq> S_Sub"
  shows "sched_ok fl cf (goto i pc' ((snd (fetch_sub k s))\<lparr>workers := (workers s)[i := (workers s ! i)\<lparr>task_did := 0\<rparr>]\<rparr>))"
proof -
  have c: "unat (pending_tasks (snd (fetch_sub k s))) + unat k = unat (pending_tasks s)"
    using fetch_sub_count unreported_le [OF ok i] k by simp
  show ?thesis
    using worker_okD(3) [OF ok i] w c k
    by (intro own_step [OF ok i pc(1,2), where w' = "(workers s ! i)\<lparr>task_did := 0\<rparr>"])
      (simp_all add: pc held_def unreported_def w_ok_def)
qed

section \<open>Steps of the complex worker\<close>

lemma C_Top_ok:
  assumes ok: "sched_ok fl cf s" "\<not> idle s" and i: "i < num_threads cf" and pc: "pcs s ! i = C_Top"
  shows "\<exists>t. RunComplex fl cf l1 l2 v i (workers s ! i) C_Top s = Inr t \<and> sched_ok fl cf t"
proof -
  let ?w = "workers s ! i"
  note D = worker_okD [OF ok i]
  note G = GetNextTask_ok [OF D(3)]
  show ?thesis
  proof (cases "buffered ?w")
    case Nil
    have "sched_ok fl cf (goto i C_Fill s)"
      using goto_ok [OF ok i, of C_Fill] D(4) pc Nil by (simp add: pc_ok_def in_hand_def)
    then show ?thesis using G Nil by (simp add: RunComplex_def)
  next
    case (Cons t ts)
    then obtain w where w: "GetNextTask ?w = Inr (Some t, w)" "w_ok w" "queued_tasks w = queued_tasks ?w" "buffered w = ts"
      "task_did w = task_did ?w" "w_sum w = w_sum ?w" using G by blast
    let ?f = "\<lambda>w. w\<lparr>task_did := task_did w + 1\<rparr>"
    have "unat (task_did ?w) < 2 ^ 32" using unreported_le [OF ok i] unat_lt_u32 [of "pending_tasks s"] by (simp add: unreported_def)
    then have "unat (task_did ?w + 1) = unat (task_did ?w) + 1" by (simp add: unat_word_ariths)
    then have "\<exists>s'. execute fl t (s\<lparr>workers := (workers s)[i := w]\<rparr>) = Inr s' \<and> length (workers s') = num_threads cf \<and>
        sched_ok fl cf (goto i C_Top (s'\<lparr>workers := (workers s')[i := ?f (workers s' ! i)]\<rparr>))"
      using D(4) pc w(2-6) Cons
      by (intro executed_step [OF ok i]) (auto simp: held_def same_tasks_def pc_ok_def unreported_def)
    then obtain s' where s': "execute fl t (s\<lparr>workers := (workers s)[i := w]\<rparr>) = Inr s'" "length (workers s') = num_threads cf"
      "sched_ok fl cf (goto i C_Top (s'\<lparr>workers := (workers s')[i := ?f (workers s' ! i)]\<rparr>))" by blast
    have "pcs s' ! i = C_Top" using s'(1) pc by (auto simp: execute_def rbind_eq_Inr_iff)
    then have "goto i C_Top (s'\<lparr>workers := ws\<rparr>) = s'\<lparr>workers := ws\<rparr>" for ws
      using list_update_id [of "pcs s'" i] by (simp add: goto_def)
    then show ?thesis using w(1) s' i by (simp add: RunComplex_def)
  qed
qed

lemma C_Fill_ok:
  assumes ok: "sched_ok fl cf s" "\<not> idle s" and i: "i < num_threads cf" and pc: "pcs s ! i = C_Fill"
  shows "\<exists>t. RunComplex fl cf l1 l2 v i (workers s ! i) C_Fill s = Inr t \<and> sched_ok fl cf t"
proof -
  let ?w = "workers s ! i" let ?n = "min (length (queued_tasks ?w)) 64"
  note D = worker_okD [OF ok i]
  have b: "buffered ?w = []" "use_complex_worker cf" using D(4) pc by (simp_all add: pc_ok_def)
  obtain w where w: "FillBuffer 64 ?w = Inr (?n, w)" "w_ok w" "queued_tasks w = drop 64 (queued_tasks ?w)"
    "buffered w = take 64 (queued_tasks ?w)" "task_did w = task_did ?w" "w_sum w = w_sum ?w"
    using FillBuffer_ok [OF D(3) b(1), of 64] by auto
  let ?pc = "if 0 < ?n then C_Top else C_Fetch"
  have "mset (drop 64 (queued_tasks ?w)) + mset (take 64 (queued_tasks ?w)) = mset (queued_tasks ?w)"
    by (metis append_take_drop_id mset_append union_commute)
  then have "sched_ok fl cf (goto i ?pc (s\<lparr>workers := (workers s)[i := w]\<rparr>))"
    using w pc b by (intro own_step [OF ok i, where w' = w and pc' = ?pc])
      (auto simp: held_def unreported_def pc_ok_def in_hand_def simp del: length_ring_list)
  then show ?thesis using w(1) by (simp add: RunComplex_def)
qed

lemma C_Fetch_ok:
  assumes ok: "sched_ok fl cf s" "\<not> idle s" and i: "i < num_threads cf" and pc: "pcs s ! i = C_Fetch"
    and cf: "config_ok cf"
  shows "\<exists>t. RunComplex fl cf l1 l2 v i (workers s ! i) C_Fetch s = Inr t \<and> sched_ok fl cf t"
proof -
  let ?w = "workers s ! i" and ?g = "global_queue s"
  note D = worker_okD [OF ok i]
  have b: "buffered ?w = []" "queued_tasks ?w = []" "use_complex_worker cf" using D(4) pc by (simp_all add: pc_ok_def)
  then have "2 \<le> num_threads cf" using cf by (simp add: config_ok_def)
  then obtain k w where w: "TryFetchGlobal 256 (num_threads cf) (l1 \<and> \<not> main_holds s) l2 ?g ?w = Inr (k, drop k ?g, w)" "w_ok w"
    "queued_tasks w = take k ?g" "buffered w = []" "task_did w = task_did ?w" "w_sum w = w_sum ?w"
    using TryFetchGlobal_ok [OF D(3), of "num_threads cf" 256 "l1 \<and> \<not> main_holds s" l2 ?g] b by auto
  let ?pc = "if 0 < k then C_Top else C_Steal (steal_attempts cf)"
  have "mset (drop k ?g) + mset (take k ?g) = mset ?g" by (metis append_take_drop_id mset_append union_commute)
  then have "sched_ok fl cf (goto i ?pc (s\<lparr>workers := (workers s)[i := w], global_queue := drop k ?g\<rparr>))"
    using w pc b by (intro own_step [OF ok i, where w' = w and pc' = ?pc])
      (auto simp: held_def unreported_def pc_ok_def in_hand_def)
  then show ?thesis using w(1) by (simp add: RunComplex_def)
qed

lemma stolen_ok:
  assumes ok: "sched_ok fl cf s" "\<not> idle s" and i: "i < num_threads cf" "v < num_threads cf" "v \<noteq> i"
    and pc: "pcs s ! i = C_Steal k" "pc' = C_Top \<or> c = 0 \<and> (\<exists>m. pc' = C_Steal m)"
    and x: "w_ok x" "queued_tasks x = drop c (queued_tasks (workers s ! v))" "buffered x = buffered (workers s ! v)"
      "task_did x = task_did (workers s ! v)" "w_sum x = w_sum (workers s ! v)"
    and w: "w_ok w" "queued_tasks w = take c (queued_tasks (workers s ! v))" "buffered w = []"
      "task_did w = task_did (workers s ! i)" "w_sum w = w_sum (workers s ! i)"
  shows "sched_ok fl cf (goto i pc' (s\<lparr>workers := (workers s)[v := x, i := w]\<rparr>))" (is "sched_ok fl cf ?s'")
proof -
  note D = worker_okD [OF ok i(1)] and V = worker_okD [OF ok i(2)]
  have b: "buffered (workers s ! i) = []" "queued_tasks (workers s ! i) = []" "use_complex_worker cf"
    using D(4) pc(1) by (simp_all add: pc_ok_def)
  let ?s1 = "s\<lparr>workers := (workers s)[v := x]\<rparr>"
  have b1: "all_held ?s1 + held (workers s ! v) (pcs s ! v) = all_held s + held x (pcs s ! v)"
    "all_unreported ?s1 + unreported (workers s ! v) (pcs s ! v) = all_unreported s + unreported x (pcs s ! v)"
    using one_worker [of v s ?s1 "pcs s ! v"] D V i by (simp_all add: same_tasks_def)
  have b2: "all_held ?s' + held (workers s ! i) (pcs s ! i) = all_held ?s1 + held w pc'"
    "all_unreported ?s' + unreported (workers s ! i) (pcs s ! i) = all_unreported ?s1 + unreported w pc'"
    using one_worker [of i ?s1 ?s' pc'] D i by (simp_all add: same_tasks_def)
  have n: "in_hand pc' = {#}" "pc' \<noteq> S_Sub" "pc' \<noteq> Exited" using pc(2) by (auto simp: in_hand_def)
  have "mset (drop c (queued_tasks (workers s ! v))) + mset (take c (queued_tasks (workers s ! v))) =
      mset (queued_tasks (workers s ! v))" by (metis append_take_drop_id mset_append union_commute)
  then have hv: "held (workers s ! v) (pcs s ! v) = held x (pcs s ! v) + held w pc'" and hi: "held (workers s ! i) (pcs s ! i) = {#}"
    using x(2,3) w(2,3) b(1,2) pc(1) n by (simp_all add: held_def in_hand_def ac_simps)
  have "(all_held ?s' + held x (pcs s ! v)) + held w pc' = (all_held s + held x (pcs s ! v)) + held w pc'"
    using b1(1) b2(1) hv hi by (simp add: ac_simps)
  then have h: "all_held ?s' = all_held s" by simp
  have u: "all_unreported ?s' = all_unreported s" using b1(2) b2(2) x(4) w(4) pc(1) n by (simp add: unreported_def)
  show ?thesis
  proof (rule balanced_step [OF ok i(1), where ex = "[]"])
    have "queued_tasks (workers s ! v) = [] \<longrightarrow> queued_tasks x = []" using x(2) by simp
    then have "pc_ok cf x (pcs s ! v)" using V(4) x(3,4) by (auto simp: pc_ok_def no_tasks_def split: if_splits)
    moreover have "pc_ok cf w pc'" using b(3) w(2,3) pc(2) by (auto simp: pc_ok_def)
    ultimately show "pc_ok cf (workers ?s' ! j) (pcs ?s' ! j)" "w_ok (workers ?s' ! j)"
      "w_sum (workers ?s' ! j) = ((\<lambda>x. f_add fl x (workload fl j)) ^^ runs_for (heap s) j []) (w_sum (workers s ! j))"
      if "j < num_threads cf" for j
      using that worker_okD [OF ok that] i(3) x w by (cases "j = i"; cases "j = v"; simp add: runs_for_def)+
  qed (use pc(1) n D(1) h u in simp_all)
qed

lemma C_Steal_ok:
  assumes ok: "sched_ok fl cf s" "\<not> idle s" and i: "i < num_threads cf" "v < num_threads cf" and pc: "pcs s ! i = C_Steal k"
  shows "\<exists>t. TryStealAny k l1 l2 v i s = Inr t \<and> sched_ok fl cf t"
proof -
  note D = worker_okD [OF ok i(1)] and V = worker_okD [OF ok i(2)]
  have b: "buffered (workers s ! i) = []" "queued_tasks (workers s ! i) = []" using D(4) pc by (simp_all add: pc_ok_def)
  have go: "sched_ok fl cf (goto i pc' s)" if "pc' = C_Stop \<or> pc' = C_Steal m" for pc' m
    using that D(4) pc by (intro goto_ok [OF ok i(1)]) (auto simp: pc_ok_def in_hand_def)
  show ?thesis
  proof (cases k)
    case (Suc m)
    show ?thesis
    proof (cases "v = i")
      case True
      then show ?thesis using Suc go [of "C_Steal m"] b(2) TryStealFrom_empty [of i "workers s" 256 l1 l2 i] D(1) i(1) by simp
    next
      case False
      obtain c x w where t: "TryStealFrom 256 l1 l2 i v (workers s) = Inr (c, (workers s)[v := x, i := w])" "w_ok x" "w_ok w"
        "queued_tasks x = drop c (queued_tasks (workers s ! v))" "queued_tasks w = take c (queued_tasks (workers s ! v))"
        "buffered x = buffered (workers s ! v)" "buffered w = []" "task_did x = task_did (workers s ! v)"
        "task_did w = task_did (workers s ! i)" "w_sum x = w_sum (workers s ! v)" "w_sum w = w_sum (workers s ! i)"
        using TryStealFrom_other [of v "workers s" i 256 l1 l2] D V i False b by auto
      have "sched_ok fl cf (goto i (if 0 < c then C_Top else C_Steal m) (s\<lparr>workers := (workers s)[v := x, i := w]\<rparr>))"
        by (rule stolen_ok [OF ok i False pc _ t(2,4,6,8,10,3,5,7,9,11)]) simp
      then show ?thesis using Suc t(1) by simp
    qed
  qed (use go in simp)
qed

lemma C_control_ok:
  assumes ok: "sched_ok fl cf s" "\<not> idle s" and i: "i < num_threads cf"
    and pc: "pcs s ! i = pc" "pc = C_Stop \<or> pc = C_Report \<or> pc = C_Notify"
  shows "\<exists>t. RunComplex fl cf l1 l2 v i (workers s ! i) pc s = Inr t \<and> sched_ok fl cf t"
proof -
  let ?w = "workers s ! i"
  note D = worker_okD [OF ok i]
  have b: "buffered ?w = []" "queued_tasks ?w = []" "use_complex_worker cf" using D(4) pc by (auto simp: pc_ok_def)
  have stopped: "task_did ?w = 0" if "stop s"
  proof -
    have "pending_tasks s = 0" using sched_okD(3) [OF ok] that by (simp add: control_ok_def)
    then show ?thesis using unreported_le [OF ok i] by (simp add: unreported_def unsigned_eq_0_iff)
  qed
  have go: "sched_ok fl cf (goto i pc' s)" if "pc' \<in> {C_Top, C_Report} \<or> pc' = Exited \<and> stop s" for pc'
    using that pc b stopped by (intro goto_ok [OF ok i]) (auto simp: pc_ok_def no_tasks_def in_hand_def)
  have "sched_ok fl cf (goto i pc' ((snd (fetch_sub (task_did ?w) s))\<lparr>workers := (workers s)[i := ?w\<lparr>task_did := 0\<rparr>]\<rparr>))"
    if "pc = C_Report" "0 < task_did ?w" "pc' = C_Top \<or> pc' = C_Notify" for pc'
    using that pc b by (intro report_ok [OF ok i]) (auto simp: pc_ok_def in_hand_def unreported_def)
  then show ?thesis using pc(2) go notify_ok [OF go [of C_Top]]
    by (auto simp: RunComplex_def fetch_sub_def Let_def goto_notify)
qed

section \<open>Steps of the simple worker\<close>

lemma RunSimple_ok:
  assumes ok: "sched_ok fl cf s" "\<not> idle s" and i: "i < num_threads cf"
    and pc: "pcs s ! i = pc" "\<not> complex_pc pc" "pc \<noteq> Unstarted" "pc \<noteq> Exited"
  shows "\<exists>t. RunSimple fl i pc s = Inr t \<and> sched_ok fl cf t"
proof -
  let ?w = "workers s ! i"
  note D = worker_okD [OF ok i]
  have b: "no_tasks ?w" "task_did ?w = 0" using D(4) pc by (simp_all add: pc_ok_def)
  have go: "sched_ok fl cf (goto i pc' s)" if "pc \<in> {S_Top, S_Notify, S_Stop}" "pc' \<in> {S_Top, S_Stop} \<or> pc' = Exited \<and> stop s" for pc'
    using that pc b by (intro goto_ok [OF ok i]) (auto simp: pc_ok_def in_hand_def)
  show ?thesis
  proof (cases pc)
    case S_Top
    show ?thesis
    proof (cases "global_queue s")
      case (Cons t g)
      have "sched_ok fl cf (goto i (S_Run t) (s\<lparr>global_queue := g\<rparr>))"
        using pc S_Top b D(3) Cons by (intro own_step [OF ok i, where w' = ?w])
          (auto simp: held_def unreported_def pc_ok_def in_hand_def no_tasks_def)
      then show ?thesis using S_Top Cons by (simp add: RunSimple_def)
    qed (use go [of S_Stop] S_Top in \<open>simp add: RunSimple_def\<close>)
  next
    case (S_Run t)
    have "\<exists>s'. execute fl t (s\<lparr>workers := (workers s)[i := ?w]\<rparr>) = Inr s' \<and> length (workers s') = num_threads cf \<and>
        sched_ok fl cf (goto i S_Sub (s'\<lparr>workers := (workers s')[i := id (workers s' ! i)]\<rparr>))"
      using pc S_Run b D(3)
      by (intro executed_step [OF ok i]) (auto simp: held_def same_tasks_def pc_ok_def unreported_def in_hand_def no_tasks_def)
    then show ?thesis using S_Run by (auto simp: RunSimple_def)
  next
    case S_Sub
    have "sched_ok fl cf (goto i pc' ((snd (fetch_sub 1 s))\<lparr>workers := (workers s)[i := ?w\<lparr>task_did := 0\<rparr>]\<rparr>))"
      if "pc' = S_Top \<or> pc' = S_Notify" for pc'
      using that pc b S_Sub by (intro report_ok [OF ok i]) (auto simp: pc_ok_def no_tasks_def in_hand_def unreported_def)
    moreover have "?w\<lparr>task_did := 0\<rparr> = ?w" using b(2) by simp
    ultimately show ?thesis using S_Sub by (auto simp: RunSimple_def fetch_sub_def Let_def)
  next
    case S_Notify
    then show ?thesis using notify_ok [OF go [of S_Top]] by (auto simp: RunSimple_def goto_notify)
  next
    case S_Stop
    then show ?thesis using go by (auto simp: RunSimple_def)
  qed (use pc in auto)
qed

lemma worker_step_ok:
  assumes cf: "config_ok cf" and ok: "sched_ok fl cf s" and en: "sched_enabled cf (Worker_runs i l1 l2 v) s"
  shows "\<exists>t. worker_step fl cf l1 l2 v i s = Inr t \<and> sched_ok fl cf t"
proof -
  have i: "i < num_threads cf" "v < num_threads cf" and pc: "pcs s ! i \<noteq> Unstarted" "pcs s ! i \<noteq> Exited" using en by auto
  have a: "\<not> idle s" using ok pc i(1) by (auto simp: sched_ok_def)
  note D = worker_okD [OF ok a i(1)]
  have "\<exists>t. RunComplex fl cf l1 l2 v i (workers s ! i) (pcs s ! i) s = Inr t \<and> sched_ok fl cf t" if "complex_pc (pcs s ! i)"
  proof (cases "pcs s ! i")
    case (C_Steal k)
    then show ?thesis using C_Steal_ok [OF ok a i C_Steal] by (simp add: RunComplex_def)
  qed (use that C_Top_ok [OF ok a i(1)] C_Fill_ok [OF ok a i(1)] C_Fetch_ok [OF ok a i(1) _ cf] C_control_ok [OF ok a i(1) refl]
    in simp_all)
  then show ?thesis using RunSimple_ok [OF ok a i(1) refl _ pc] D(1,2) i(1) by (simp add: worker_step_def)
qed

section \<open>Steps of the main thread\<close>

definition captured :: "nat \<Rightarrow> nat \<Rightarrow> nat list" where
  "captured p n = concat (map (\<lambda>i. replicate p i) [0..<n])"

lemma captured_Suc: "captured p (Suc n) = captured p n @ replicate p n"
  by (simp add: captured_def)

lemma length_captured [simp]: "length (captured p n) = n * p"
  by (induction n) (simp_all add: captured_Suc, simp add: captured_def)

lemma nth_captured: "k < n * p \<Longrightarrow> captured p n ! k = k div p"
proof (induction n)
  case (Suc n)
  have "k div p = n" if "n * p \<le> k" using that Suc.prems by (intro div_nat_eqI) (simp_all add: mult.commute add.commute)
  then show ?case using Suc by (auto simp: captured_Suc nth_append)
qed simp

lemma count_captured: "j < n \<Longrightarrow> length (filter (\<lambda>i. i = j) (captured p n)) = p"
proof (induction n)
  case (Suc n)
  have "filter (\<lambda>i. i = n) (captured p n) = []" by (auto simp: filter_empty_conv captured_def)
  then show ?case using Suc by (cases "j = n") (auto simp: captured_Suc filter_replicate less_Suc_eq)
qed simp

lemma runs_for_batch:
  assumes "work_ok fl cf s" "j < num_threads cf"
  shows "runs_for (heap s) j (batch cf s) = tasks_per_thread cf"
proof -
  have "map ((!) (heap s)) (batch cf s) = captured (tasks_per_thread cf) (num_threads cf)"
    using assms(1) by (intro nth_equalityI) (auto simp: batch_def batch_start_def nth_captured work_ok_def)
  moreover have "runs_for (heap s) j (batch cf s) = length (filter (\<lambda>i. i = j) (map ((!) (heap s)) (batch cf s)))"
    by (simp add: runs_for_def filter_map comp_def)
  ultimately show ?thesis using count_captured [OF assms(2)] by simp
qed

lemma runs_for_mset: "mset ts = mset us \<Longrightarrow> runs_for hp j ts = runs_for hp j us"
  unfolding runs_for_def by (metis mset_filter size_mset)

text \<open>No pending task means no task left.\<close>

lemma all_done:
  assumes "work_ok fl cf s" "pending_tasks s = 0"
  shows "global_queue s = []" "all_held s = {#}" "all_unreported s = 0" "mset (executed s) = mset (batch cf s)"
proof -
  have c: "length (global_queue s) + size (all_held s) + all_unreported s = 0" using assms by (simp add: work_ok_def)
  then show "global_queue s = []" "all_held s = {#}" "all_unreported s = 0" by simp_all
  then show "mset (executed s) = mset (batch cf s)" using assms(1) by (simp add: work_ok_def)
qed

lemma total_expected:
  assumes "shape fl cf s" "work_ok fl cf s" "pending_tasks s = 0"
  shows "total_sum fl (workers s) = expected_total fl cf"
proof -
  have "w_sum (workers s ! j) = worker_total fl (tasks_per_thread cf) j" if "j < num_threads cf" for j
    using assms(2) that runs_for_mset [OF all_done(4) [OF assms(2,3)]] runs_for_batch [OF assms(2) that] by (simp add: work_ok_def)
  then have "map w_sum (workers s) = map (worker_total fl (tasks_per_thread cf)) [0..<num_threads cf]"
    using assms(1) by (intro nth_equalityI) (simp_all add: shape_def)
  moreover have "total_sum fl (workers s) = foldl (f_add fl) (f_of_int fl 0) (map w_sum (workers s))"
    by (simp add: total_sum_def foldl_map)
  ultimately show ?thesis by (simp add: expected_total_def)
qed

lemma reset_Worker_simps [simp]:
  "w_ok w \<Longrightarrow> w_ok (reset_Worker fl w)" "queued_tasks (reset_Worker fl w) = []" "buffered (reset_Worker fl w) = []"
  "task_did (reset_Worker fl w) = 0" "w_sum (reset_Worker fl w) = f_of_int fl 0"
  by (simp_all add: w_ok_def reset_Worker_def ring_ok_def ring_size_def ring_list_empty)

lemma begin_iteration_ok:
  assumes cf: "config_ok cf" and s: "shape fl cf s"
  shows "sched_ok fl cf (begin_iteration fl cf s)"
proof -
  let ?n = "num_threads cf" and ?p = "tasks_per_thread cf" and ?t = "begin_iteration fl cf s"
  have f: "workers ?t = map (reset_Worker fl) (workers s)" "pcs ?t = replicate ?n Unstarted" "executed ?t = []" "stop ?t = False"
    "main_at ?t = M_Spawn 0" "heap ?t = heap s @ captured ?p ?n" "pending_tasks ?t = word_of_nat (?n * ?p)"
    "global_queue ?t = [length (heap s)..<length (heap s) + ?n * ?p]" "totals ?t = totals s" "iteration ?t = iteration s"
    by (simp_all add: begin_iteration_def MakeTask_def Let_def captured_def [symmetric])
  have sh: "shape fl cf ?t" using s f by (simp add: shape_def)
  have "all_held ?t = {#}" "all_unreported ?t = 0"
    using s f by (auto simp: all_held_def all_unreported_def held_def unreported_def in_hand_def shape_def)
  moreover have "unat (word_of_nat (?n * ?p) :: u32) = ?n * ?p"
    using cf by (simp add: config_ok_def unat_of_nat take_bit_nat_eq_self del: of_nat_mult)
  ultimately have "work_ok fl cf ?t"
    using s f by (auto simp: work_ok_def shape_def pc_ok_def no_tasks_def worker_total_def runs_for_def batch_def batch_start_def
        nth_append nth_captured simp del: of_nat_mult)
  then show ?thesis using sh f by (simp add: sched_ok_def control_ok_def idle_def)
qed

lemma work_ok_main: "work_ok fl cf (s\<lparr>main_at := m\<rparr>) = work_ok fl cf s" "work_ok fl cf (s\<lparr>stop := b\<rparr>) = work_ok fl cf s"
  by (simp_all add: work_ok_def all_held_def all_unreported_def batch_def batch_start_def)

lemma shape_main: "shape fl cf (s\<lparr>main_at := m\<rparr>) = shape fl cf s" "shape fl cf (s\<lparr>stop := b\<rparr>) = shape fl cf s"
  by (simp_all add: shape_def)

lemma spawn_ok:
  assumes ok: "sched_ok fl cf s" and m: "main_at s = M_Spawn k" and k: "k < num_threads cf"
  shows "sched_ok fl cf (goto k (Run cf) (s\<lparr>main_at := M_Spawn (k + 1)\<rparr>))"
proof -
  let ?t = "goto k (Run cf) (s\<lparr>main_at := M_Spawn (k + 1)\<rparr>)"
  have a: "\<not> idle s" using m by (simp add: idle_def)
  note D = worker_okD [OF ok a] and W = sched_okD(2) [OF ok a] and K = sched_okD(3) [OF ok a]
  have u: "pcs s ! k = Unstarted" using K m k by (simp add: control_ok_def)
  have r: "Run cf \<noteq> Unstarted" "Run cf \<noteq> Exited" "Run cf \<noteq> S_Sub" "in_hand (Run cf) = {#}" by (simp_all add: Run_def in_hand_def)
  have "held (workers s ! k) (Run cf) = held (workers s ! k) (pcs s ! k)"
    "unreported (workers s ! k) (Run cf) = unreported (workers s ! k) (pcs s ! k)"
    using u r by (simp_all add: held_def unreported_def in_hand_def)
  then have e: "all_held ?t = all_held s" "all_unreported ?t = all_unreported s"
    using one_worker [of k s ?t "Run cf"] D [OF k] k by (simp_all add: same_tasks_def)
  have "pc_ok cf (workers s ! k) (Run cf)" using D(4) [OF k] u by (simp add: pc_ok_def Run_def no_tasks_def)
  then have "pc_ok cf (workers ?t ! j) (pcs ?t ! j)" if "j < num_threads cf" for j
    using that D(2,4) by (cases "j = k") simp_all
  moreover have "batch cf ?t = batch cf s" "batch_start cf ?t = batch_start cf s" by (simp_all add: batch_def batch_start_def)
  ultimately have "work_ok fl cf ?t" using W e by (simp add: work_ok_def)
  moreover have "control_ok cf ?t"
    using K m r k D(2) [OF k] by (simp add: control_ok_def nth_list_update) (metis)
  moreover have "shape fl cf ?t" using sched_okD(1) [OF ok a] by (simp add: shape_def)
  ultimately show ?thesis by (simp add: sched_ok_def idle_def)
qed

lemma RunTasks_ok:
  assumes cf: "config_ok cf" and ok: "sched_ok fl cf s" and en: "sched_enabled cf Main_runs s"
  shows "sched_ok fl cf (RunTasks fl cf s)"
proof (cases "idle s")
  case True
  then have "main_at s = M_Reset" "shape fl cf s" using en ok by (auto simp: idle_def sched_ok_def)
  then show ?thesis using begin_iteration_ok [OF cf] by (simp add: RunTasks_def)
next
  case False
  note S = sched_okD [OF ok False]
  have K: "sched_ok fl cf (s\<lparr>main_at := m\<rparr>)" if "control_ok cf (s\<lparr>main_at := m\<rparr>)" "m \<noteq> M_Reset" "m \<noteq> M_Done" for m
    using S that by (simp add: sched_ok_def idle_def work_ok_main shape_main)
  show ?thesis
  proof (cases "main_at s")
    case (M_Spawn k)
    then show ?thesis using spawn_ok [OF ok M_Spawn] K [of M_Lock] S(3) by (auto simp: RunTasks_def control_ok_def)
  next
    case M_Stop
    have "control_ok cf (s\<lparr>stop := True, main_at := M_Join 0\<rparr>)" using S(3) M_Stop by (simp add: control_ok_def)
    then show ?thesis using S(1,2) M_Stop by (simp add: RunTasks_def sched_ok_def idle_def work_ok_main shape_main)
  next
    case (M_Join k)
    have "\<forall>j<k + 1. pcs s ! j = Exited" if "k < num_threads cf" using S(3) M_Join en that by (auto simp: control_ok_def less_Suc_eq)
    then show ?thesis using K [of "M_Join (k + 1)"] K [of M_Total] S(3) M_Join by (auto simp: RunTasks_def control_ok_def)
  next
    case M_Total
    have e: "\<forall>j<num_threads cf. pcs s ! j = Exited" and z: "pending_tasks s = 0" using S(3) M_Total by (auto simp: control_ok_def)
    have t: "totals s @ [expected_total fl cf] = replicate (Suc (iteration s)) (expected_total fl cf)"
      using S(1) by (simp add: shape_def replicate_append_same)
    then show ?thesis using S(1) e total_expected [OF S(1,2) z] M_Total
      by (simp add: RunTasks_def sched_ok_def idle_def shape_def)
  qed (use False S(3) K [of M_Check] K [of M_Stop] K [of M_Wait] K [of M_Blocked] en in
      \<open>auto simp: RunTasks_def control_ok_def idle_def\<close>)
qed

end
