(* ===== verification/Task_Properties.thy ===== *)
theory Task_Properties
  imports Task_Steps
begin

text \<open>
  What the task scheduler guarantees in every interleaving, and the two situations in which it fails: a single thread, and
  a notification that arrives between the test of the condition and the wait.
\<close>

section \<open>Reachable states\<close>

lemma sched_step_ok:
  assumes "config_ok cf" "sched_ok fl cf s" "sched_enabled cf e s"
  shows "\<exists>t. sched_step fl cf e s = Inr t \<and> sched_ok fl cf t"
proof (cases e)
  case (Worker_runs i l1 l2 v)
  then show ?thesis using worker_step_ok [OF assms(1,2)] assms(3) by simp
next
  case Main_runs
  then show ?thesis using RunTasks_ok [OF assms(1,2)] assms(3) by simp
next
  case Main_wakes
  then show ?thesis using notify_ok [OF assms(2)] assms(3) by (simp add: notify_one_def)
qed

lemma new_sched_ok: "sched_ok fl cf (new_sched fl cf)"
  by (simp add: sched_ok_def new_sched_def shape_def idle_def)

interpretation ts: event_system "\<lambda>s. s = new_sched fl cf" "sched_enabled cf" "sched_step fl cf" "\<lambda>s. config_ok cf \<longrightarrow> sched_ok fl cf s"
  for fl :: "'d floats" and cf
proof
  fix s t :: "'d sched" and e
  show "config_ok cf \<longrightarrow> sched_ok fl cf s" if "s = new_sched fl cf" by (simp add: that new_sched_ok)
  show "config_ok cf \<longrightarrow> sched_ok fl cf t" if "config_ok cf \<longrightarrow> sched_ok fl cf s" "sched_enabled cf e s" "sched_step fl cf e s = Inr t"
    using that sched_step_ok [of cf fl s e] by fastforce
qed

lemma reached_ok: "config_ok cf \<Longrightarrow> sched_reaches fl cf s \<Longrightarrow> sched_ok fl cf s"
  using ts.reach_I by blast

section \<open>A sample run\<close>

definition small :: config where
  "small = \<lparr>num_threads = 2, tasks_per_thread = 1, steal_attempts = 1, use_complex_worker = True\<rparr>"

text \<open>Worker 0 fetches and runs both tasks and stops before its report.\<close>

definition both_tasks :: "sched_event list" where
  "both_tasks = (let w = Worker_runs 0 True True 1 in
     [Main_runs, Main_runs, Main_runs, Main_runs, w, w, w, w, w, w, w, w, w, w, w, w])"

lemma small_ok: "config_ok small"
  by (simp add: small_def config_ok_def)

definition sample_floats :: "int floats" where
  "sample_floats = \<lparr>f_of_int = id, f_add = (+), f_sub = (-), f_sin = uminus, f_cos = id\<rparr>"

definition small_state :: "sched_event list \<Rightarrow> int sched" where
  "small_state es =
     (case sched_run sample_floats small es (new_sched sample_floats small) of
        Inr s \<Rightarrow> s | Inl _ \<Rightarrow> new_sched sample_floats small)"

lemma small_reached: "sched_reaches sample_floats small (small_state es)"
proof (cases "sched_run sample_floats small es (new_sched sample_floats small)")
  case (Inr s)
  then show ?thesis using ts.run_reach [OF reach_init Inr] by (simp add: small_state_def)
qed (simp add: small_state_def reach_init)


lemma ring_move_numeral: "ring_move (numeral k) src dst =
    rbind (ring_take src) (\<lambda>(x, src). rbind (ring_put x dst) (\<lambda>dst. ring_move (pred_numeral k) src dst))"
  by (simp only: numeral_eq_Suc ring_move.simps)

lemma deque_move_numeral: "deque_move (numeral k) src dst =
    (case src of [] \<Rightarrow> Inl Out_of_bounds | x # src \<Rightarrow> rbind (ring_put x dst) (\<lambda>dst. deque_move (pred_numeral k) src dst))"
  by (simp only: numeral_eq_Suc deque_move.simps)

lemma replicate_two: "replicate 2 x = [x, x]"
  by (simp add: numeral_2_eq_2)


lemmas sched_eval = small_state_def both_tasks_def new_sched_def small_def RunTasks_def begin_iteration_def MakeTask_def Let_def
  new_Worker_def worker_consts reset_Worker_def Run_def goto_def worker_step_def RunComplex_def main_holds_def
  GetNextTask_def FillBuffer_def TryFetchGlobal_def TryStealFrom_def ring_size_def ring_take_def ring_put_def
  execute_def run_task_def fetch_sub_def notify_one_def upt_eval replicate_two DummyTask_def
  ring_move_numeral deque_move_numeral

text \<open>The report and the notification, the main thread testing its condition in time or between the two.\<close>

definition in_time :: "sched_event list" where
  "in_time = (let w = Worker_runs 0 True True 1; x = Worker_runs 1 True True 0 in
     both_tasks @ [w, w, w, Main_runs, Main_runs, Main_runs, w, w, w, w, w, w, x, x, x, x, x, x,
       Main_runs, Main_runs, Main_runs, Main_runs])"


section \<open>Safety\<close>

text \<open>
  C6: no fault. With at least two threads, in every interleaving, whatever attempts to lock fail and whichever victims
  are drawn, every step of every thread succeeds: no queue is read or written out of bounds, no thread locks its own mutex twice.
\<close>

theorem scheduler_never_faults:
  assumes "config_ok cf" "sched_reaches fl cf s" "sched_enabled cf e s"
  shows "\<exists>t. sched_step fl cf e s = Inr t"
  using sched_step_ok [OF assms(1) reached_ok [OF assms(1,2)] assms(3)] by blast

theorem scheduler_never_faults_witness:
  "config_ok (scheduler_config 8) \<and> config_ok legacy_config \<and>
   sched_enabled small (Worker_runs 0 True True 0) (small_state both_tasks) \<and>
   (\<exists>t. sched_step sample_floats small (Worker_runs 0 True True 0) (small_state both_tasks) = Inr t)"
proof -
  have "sched_enabled small (Worker_runs 0 True True 0) (small_state both_tasks)"
    by (simp add: sched_eval cong: rbind_eval let_weak_cong)
  moreover have "config_ok (scheduler_config 8)" "config_ok legacy_config"
    by (simp_all add: config_ok_def scheduler_config_def legacy_config_def)
  ultimately show ?thesis using scheduler_never_faults [OF small_ok small_reached] by blast
qed

text \<open>
  C23: no task is lost or run twice. During an iteration the tasks in the global queue, in the local queues and buffers and
  in the hands of the workers, together with those that ran, are exactly the tasks of the iteration.
\<close>

theorem tasks_conserved:
  assumes "config_ok cf" "sched_reaches fl cf s" "main_at s \<noteq> M_Reset" "main_at s \<noteq> M_Done"
  shows "mset (global_queue s) + (\<Sum>j<num_threads cf. mset (queued_tasks (workers s ! j)) + mset (buffered (workers s ! j)) +
      in_hand (pcs s ! j)) + mset (executed s) = mset (batch cf s) \<and> distinct (executed s)"
proof -
  have a: "\<not> idle s" using assms(3,4) by (simp add: idle_def)
  note S = sched_okD [OF reached_ok [OF assms(1,2)] a]
  have e: "mset (global_queue s) + all_held s + mset (executed s) = mset (batch cf s)" using S(2) by (simp add: work_ok_def)
  have "count (mset (executed s)) t \<le> count (mset (batch cf s)) t" for t using e by (metis count_union le_add2)
  moreover have "distinct (batch cf s)" by (simp add: batch_def)
  ultimately have "distinct (executed s)"
    unfolding distinct_count_atmost_1 by (metis (no_types) count_mset_0_iff le_antisym not_one_le_zero less_one not_le order_trans)
  then show ?thesis using e S(1) by (simp add: all_held_def held_def shape_def)
qed

theorem tasks_conserved_witness:
  "let s = small_state both_tasks in main_at s = M_Lock \<and> executed s = [0, 1] \<and> distinct (executed s)"
proof -
  have "let s = small_state both_tasks in main_at s = M_Lock \<and> executed s = [0, 1]"
    by (simp add: sched_eval cong: rbind_eval let_weak_cong)
  then show ?thesis using tasks_conserved [OF small_ok small_reached, of both_tasks] by (simp add: Let_def)
qed

text \<open>
  C7: completion. When the main thread has passed its condition, or a worker has left its loop, every task of the iteration has
  run exactly once and nothing is queued or unreported.
\<close>

theorem stop_means_done:
  assumes "config_ok cf" "sched_reaches fl cf s" "main_at s \<noteq> M_Reset" "main_at s \<noteq> M_Done"
    and "stop s \<or> main_at s = M_Stop \<or> (\<exists>j<num_threads cf. pcs s ! j = Exited)"
  shows "mset (executed s) = mset (batch cf s) \<and> global_queue s = [] \<and>
    (\<forall>j<num_threads cf. queued_tasks (workers s ! j) = [] \<and> buffered (workers s ! j) = [] \<and> task_did (workers s ! j) = 0)"
proof -
  have a: "\<not> idle s" using assms(3,4) by (simp add: idle_def)
  note S = sched_okD [OF reached_ok [OF assms(1,2)] a]
  have z: "pending_tasks s = 0" using S(3) assms(5) by (auto simp: control_ok_def)
  note A = all_done [OF S(2) z]
  have "held (workers s ! j) (pcs s ! j) = {#} \<and> unreported (workers s ! j) (pcs s ! j) = 0" if "j < num_threads cf" for j
    using worker_share [of j s] A(2,3) that S(1) by (simp add: shape_def)
  then show ?thesis using A(1,4) by (simp add: held_def unreported_def unsigned_eq_0_iff)
qed

theorem stop_means_done_witness:
  "let s = small_state (take 22 in_time) in stop s \<and> mset (executed s) = mset (batch small s)"
proof -
  have "let s = small_state (take 22 in_time) in stop s \<and> main_at s = M_Join 0"
    by (simp add: in_time_def sched_eval cong: rbind_eval let_weak_cong)
  then show ?thesis using stop_means_done [OF small_ok small_reached, of "take 22 in_time"] by (simp add: Let_def)
qed

text \<open>
  Determinism. The total that every iteration prints is the same, whatever the interleaving: the sum of each worker is
  changed by its own tasks only, and these all add the same value. No law of \<^verbatim>\<open>double\<close> addition is needed.
\<close>

lemma totals_deterministic:
  assumes "config_ok cf" "sched_reaches fl cf s"
  shows "totals s = replicate (iteration s) (expected_total fl cf)"
  using reached_ok [OF assms] by (simp add: sched_ok_def shape_def)

text \<open>
  The counter. \<^verbatim>\<open>pending_tasks_\<close> is the number of tasks that have not run or not been reported; it stays within the range of \<^verbatim>\<open>int\<close>.
\<close>

lemma pending_exact:
  assumes "config_ok cf" "sched_reaches fl cf s" "main_at s \<noteq> M_Reset" "main_at s \<noteq> M_Done"
  shows "unat (pending_tasks s) + length (executed s) = num_threads cf * tasks_per_thread cf + all_unreported s \<and>
    unat (pending_tasks s) \<le> num_threads cf * tasks_per_thread cf"
proof -
  have a: "\<not> idle s" using assms(3,4) by (simp add: idle_def)
  note W = sched_okD(2) [OF reached_ok [OF assms(1,2)] a]
  have "mset (global_queue s) + all_held s + mset (executed s) = mset (batch cf s)" using W by (simp add: work_ok_def)
  then have "length (global_queue s) + size (all_held s) + length (executed s) = length (batch cf s)"
    by (metis size_mset size_union)
  then show ?thesis using W by (simp add: work_ok_def batch_def batch_start_def)
qed

section \<open>Stealing\<close>

text \<open>
  Stealing. When both locks are taken, a thief with room gets the older half (rounded up, at most \<^verbatim>\<open>batch_size\<close>) of
  another worker's queue, in order; the victim keeps the rest and no other worker changes.
\<close>

lemma steal_older_half:
  assumes "w_ok (ws ! v)" "w_ok (ws ! i)" "v < length ws" "i < length ws" "v \<noteq> i" "queued_tasks (ws ! v) \<noteq> []"
  shows "let k = min ((length (queued_tasks (ws ! v)) + 1) div 2) (min (512 - length (queued_tasks (ws ! i))) batch_size) in
    \<exists>ws'. TryStealFrom batch_size True True i v ws = Inr (k, ws') \<and> length ws' = length ws \<and>
      queued_tasks (ws' ! v) = drop k (queued_tasks (ws ! v)) \<and>
      queued_tasks (ws' ! i) = queued_tasks (ws ! i) @ take k (queued_tasks (ws ! v)) \<and>
      (\<forall>j. j \<noteq> i \<longrightarrow> j \<noteq> v \<longrightarrow> ws' ! j = ws ! j)"
proof -
  let ?q = "w_queue (ws ! v)"
  obtain k v' w' where t: "TryStealFrom batch_size True True i v ws = Inr (k, ws[v := v', i := w'])"
    "queued_tasks v' = drop k (queued_tasks (ws ! v))" "queued_tasks w' = queued_tasks (ws ! i) @ take k (queued_tasks (ws ! v))"
    using TryStealFrom_other [OF assms(3,4,5,1,2), of batch_size True True] by blast
  have q: "ring_ok 512 ?q" "ring_ok 512 (w_queue (ws ! i))" using assms(1,2) by (simp_all add: w_ok_def)
  then have "unat (ring_size ?q + 1) = unat (ring_size ?q) + 1" by (simp add: ring_ok_def unat_word_ariths)
  then have "unat ((ring_size ?q + 1) div 2) = (length (queued_tasks (ws ! v)) + 1) div 2" by (simp add: unat_div)
  then have "k = min ((length (queued_tasks (ws ! v)) + 1) div 2) (min (512 - length (queued_tasks (ws ! i))) batch_size)"
    using t(1) assms(3-6) ring_size_0 [of ?q] room [OF q(2)]
    by (auto simp: TryStealFrom_def Let_def rbind_eq_Inr_iff split: prod.splits)
  then show ?thesis using t assms(3-5) by (auto simp: Let_def)
qed

section \<open>Failures\<close>

text \<open>
  One thread. With \<^verbatim>\<open>num_threads_ = 1\<close> the share \<^verbatim>\<open>size / 1 + 1\<close> exceeds the queue: as soon as fewer than \<^verbatim>\<open>batch_size\<close>
  tasks are left and the local queue has room for one more, \<^verbatim>\<open>front()\<close> is called on an empty deque.
\<close>

lemma single_thread_underflow:
  assumes "w_ok w" "g \<noteq> []" "length g < batch_size" "length (queued_tasks w) + length g < 512"
  shows "TryFetchGlobal batch_size 1 True True g w = Inl Out_of_bounds"
proof -
  have q: "ring_ok 512 (w_queue w)" using assms(1) by (simp add: w_ok_def)
  have "deque_move (Suc (length g)) g r = Inl Out_of_bounds" if "ring_ok 512 r" "length (ring_list r) + length g < 512" for r
    using that
  proof (induction g arbitrary: r)
    case (Cons x g)
    obtain r' where r': "ring_put x r = Inr r'" "ring_ok 512 r'" "ring_list r' = ring_list r @ [x]"
      using rq.put [OF Cons.prems(1), of x] Cons.prems(2) by auto
    then have "deque_move (Suc (length g)) g r' = Inl Out_of_bounds"
      using Cons.IH [OF r'(2)] Cons.prems(2) arg_cong [OF r'(3), of length] by simp
    then show ?case using r'(1) by simp
  qed simp
  moreover have "min (length g div 1 + 1) (min (512 - length (queued_tasks w)) batch_size) = Suc (length g)"
    using assms(3,4) by simp
  ultimately show ?thesis using q assms(2,4) room [OF q] by (simp add: TryFetchGlobal_def Let_def)
qed

section \<open>Waking the main thread\<close>

lemma scast_nonneg:
  assumes "unat (p :: u32) < 2 ^ 31"
  shows "(scast p :: u64) = k \<longleftrightarrow> unat p = unat k"
proof -
  have "uint p < 2 ^ 31" using assms by (metis of_nat_less_iff of_nat_numeral of_nat_power uint_nat)
  moreover have "- (2 ^ 31) \<le> uint p" by (rule order_trans [OF _ uint_ge_0]) simp
  ultimately have "signed_take_bit 31 (uint p) = uint p" by (simp only: signed_take_bit_int_eq_self)
  then have "sint p = uint p" by (simp add: sint_uint)
  then have "(scast p :: u64) = ucast p" by (simp only: scast_eq ucast_eq)
  moreover have "unat (ucast p :: u64) = unat p"
    using unat_lt_u32 [of p] by (simp add: unsigned_ucast_eq take_bit_nat_eq_self)
  ultimately show ?thesis by (metis word_unat_eq_iff)
qed

text \<open>
  The last report. A worker that reports its tasks goes on to notify the main thread exactly when its subtraction brought
  \<^verbatim>\<open>pending_tasks_\<close> to zero, although the \<^verbatim>\<open>int\<close> counter is compared with a \<^verbatim>\<open>size_t\<close>.
\<close>

lemma last_report_notifies:
  assumes "config_ok cf" "sched_reaches fl cf s" "i < num_threads cf" "pcs s ! i = C_Report" "0 < task_did (workers s ! i)"
  shows "\<exists>t. sched_step fl cf (Worker_runs i l1 l2 v) s = Inr t \<and>
    (pcs t ! i = C_Notify \<longleftrightarrow> pending_tasks t = 0) \<and> unat (pending_tasks t) + unat (task_did (workers s ! i)) = unat (pending_tasks s)"
proof -
  note ok = reached_ok [OF assms(1,2)]
  have a: "\<not> idle s" using ok assms(3,4) by (force simp: sched_ok_def)
  note D = worker_okD [OF ok a assms(3)] and W = sched_okD(2) [OF ok a]
  let ?k = "task_did (workers s ! i)" let ?t = "snd (fetch_sub ?k s)"
  have c: "unat (pending_tasks ?t) + unat ?k = unat (pending_tasks s)"
    using unreported_le [OF ok a assms(3)] by (intro fetch_sub_count) (simp add: unreported_def)
  have "unat (pending_tasks s) < 2 ^ 31" using W assms(1) by (simp add: work_ok_def config_ok_def)
  then have "fst (fetch_sub ?k s) \<longleftrightarrow> unat (pending_tasks s) = unat ?k" using scast_nonneg by (simp add: fetch_sub_def)
  then have "fst (fetch_sub ?k s) \<longleftrightarrow> pending_tasks ?t = 0" using c by (auto simp: unsigned_eq_0_iff)
  then show ?thesis using c D assms(3-5)
    by (simp add: worker_step_def RunComplex_def split_beta Let_def)
qed






end
