(* ===== verification/Work_Stealing_Properties.thy ===== *)
theory Work_Stealing_Properties
  imports Work_Stealing_Steps Task_Properties
begin

text \<open>
  What \<^verbatim>\<open>Scheduler/WorkStealing.cpp\<close> guarantees in every interleaving, and the race at its start.
\<close>

section \<open>A sample run\<close>

text \<open>Two threads with one task each; both threads are created and the tasks are published.\<close>

definition ws_sample :: "ws_event list \<Rightarrow> int ws" where
  "ws_sample es = (case ws_run sample_floats 2 1 es (new_ws sample_floats) of Inr s \<Rightarrow> s | Inl _ \<Rightarrow> new_ws sample_floats)"

definition ws_published :: "ws_event list" where
  "ws_published = [Ws_main, Ws_main, Ws_main, Ws_main, Ws_main, Ws_main, Ws_main, Ws_main, Ws_main]"

text \<open>Worker 0 runs both tasks and the main thread passes its condition.\<close>

definition ws_finished :: "ws_event list" where
  "ws_finished = (let w = Ws_worker 0 1 in
     ws_published @ [w, w, w, w, w, w, w, w, w, w, w, w, w, w, w, Ws_main, Ws_main, Ws_main])"

lemma ws_sample_reached: "ws_reaches sample_floats 2 1 (ws_sample es)"
proof (cases "ws_run sample_floats 2 1 es (new_ws sample_floats)")
  case (Inr s)
  then show ?thesis using wsi.run_reach [OF reach_init Inr] by (simp add: ws_sample_def)
qed (simp add: ws_sample_def reach_init)

lemmas ws_eval = ws_sample_def ws_published_def ws_finished_def new_ws_def ws_RunTasks_def ws_Worker_def queue_at_def Steal_def
  Try_pop_global_def Try_pop_global_loop_def try_pop_def try_steal_def push_def ring_take_def ring_take_back_def ring_put_def
  ws_goto_def put_queue_def ws_notify_def Dummy_task_def new_WorkerQueue_def CAPACITY_def all_tasks_def g_m_held_def upt_eval Let_def

section \<open>Safety\<close>

text \<open>
  C25: faults. In every interleaving a step succeeds, unless a worker reads \<^verbatim>\<open>g_local_queues\<close> while the main thread
  extends it. No queue overflows and no task is read from an empty queue.
\<close>

theorem ws_faults_only_by_race:
  assumes "n * p < 2 ^ 31" "ws_reaches fl n p s" "ws_enabled n e s"
  shows "(\<exists>t. ws_step fl n p e s = Inr t) \<or> ws_step fl n p e s = Inl Data_race \<and> (\<exists>k. ws_main s = WM_Growing k)"
  using ws_step_ok [OF assms(1) ws_reached_ok [OF assms(1,2)] assms(3), of fl] by (auto simp: ws_outcome_def)

theorem ws_faults_only_by_race_witness:
  "ws_enabled 2 (Ws_worker 1 0) (ws_sample ws_published) \<and>
   (\<exists>t. ws_step sample_floats 2 1 (Ws_worker 1 0) (ws_sample ws_published) = Inr t)"
proof -
  have "let s = ws_sample ws_published in ws_enabled 2 (Ws_worker 1 0) s \<and> ws_main s = WM_Lock"
    by (simp add: ws_eval cong: rbind_eval let_weak_cong)
  then show ?thesis using ws_faults_only_by_race [OF _ ws_sample_reached, of "Ws_worker 1 0" ws_published] by (auto simp: Let_def)
qed

text \<open>
  The race. Threads are started while \<^verbatim>\<open>g_local_queues\<close> still grows: with two threads or more, worker 0 may read the vector
  during the second \<^verbatim>\<open>push_back\<close>.
\<close>

lemma ws_race_reachable:
  assumes "2 \<le> n"
  shows "\<exists>s. ws_reaches fl n p s \<and> ws_enabled n (Ws_worker 0 0) s \<and> ws_step fl n p (Ws_worker 0 0) s = Inl Data_race"
proof -
  let ?es = "[Ws_main, Ws_main, Ws_main, Ws_main, Ws_main]"
  let ?s = "\<lparr>g_global_queue = [], g_local_queues = [new_WorkerQueue], g_pending_tasks = 0, g_stop = False, g_sum = f_of_int fl 0,
      ws_pcs = [W_Start], ws_main = WM_Growing 1, ws_iteration = 0, ws_created = [], ws_executed = []\<rparr>"
  have r: "ws_run fl n p ?es (new_ws fl) = Inr ?s" using assms by (simp add: new_ws_def ws_RunTasks_def)
  have "ws_reaches fl n p (new_ws fl)" by (rule reach_init) simp
  then have "ws_reaches fl n p ?s" by (rule wsi.run_reach [OF _ r])
  moreover have "ws_enabled n (Ws_worker 0 0) ?s" "ws_step fl n p (Ws_worker 0 0) ?s = Inl Data_race"
    by (simp_all add: ws_Worker_def queue_at_def)
  ultimately show ?thesis by blast
qed

text \<open>
  C26: completion. In every iteration the tasks that ran are among those created, each at most once; when \<^verbatim>\<open>g_stop\<close> is set, all
  of them have run exactly once and every queue is empty.
\<close>

theorem ws_runs_every_task_once:
  assumes "n * p < 2 ^ 31" "ws_reaches fl n p s" "ws_main s \<noteq> WM_Reset" "ws_main s \<noteq> WM_Done"
  shows "distinct (ws_executed s) \<and> set (ws_executed s) \<subseteq> set (all_tasks n p) \<and>
    (g_stop s \<longrightarrow> mset (ws_executed s) = mset (all_tasks n p) \<and> g_global_queue s = [] \<and>
       (\<forall>j<length (g_local_queues s). ring_list (g_local_queues s ! j) = []))"
proof -
  have a: "\<not> ws_idle s" using assms(3,4) by (simp add: ws_idle_def)
  note S = ws_okD [OF ws_reached_ok [OF assms(1,2)] a]
  have c: "ws_created s = [] \<or> ws_created s = all_tasks n p" using S(3) by (auto simp: ws_control_ok_def split: ws_main_pc.splits)
  have "distinct (all_tasks n p)" unfolding all_tasks_def
    by (induction n) (auto simp: distinct_map inj_on_def)
  then have d: "distinct (ws_created s)" using c by auto
  have e: "mset (ws_executed s) \<subseteq># mset (ws_created s)" using S(2) by (metis mset_subset_eq_add_right ws_tasks_ok_def)
  have "distinct (ws_executed s)"
    using d mset_subset_eq_count [OF e] unfolding distinct_count_atmost_1
    by (metis (no_types) count_mset_0_iff le_antisym less_one linorder_not_le order_trans)
  moreover have "set (ws_executed s) \<subseteq> set (all_tasks n p)" using set_mset_mono [OF e] c by auto
  moreover have "mset (ws_executed s) = mset (all_tasks n p) \<and> g_global_queue s = [] \<and>
       (\<forall>j<length (g_local_queues s). ring_list (g_local_queues s ! j) = [])" if "g_stop s"
  proof -
    have z: "g_pending_tasks s = 0" and "ws_created s = all_tasks n p" using S(3) that by (auto simp: ws_control_ok_def)
    moreover note A = ws_all_done [OF S(2) z]
    moreover have "mset (ring_list (g_local_queues s ! j)) \<subseteq># ws_queued s" if "j < length (g_local_queues s)" for j
      using that by (simp add: ws_queued_def sum.remove [of "{..<length (g_local_queues s)}" j])
    ultimately show ?thesis by simp
  qed
  ultimately show ?thesis by blast
qed

theorem ws_runs_every_task_once_witness:
  "let s = ws_sample ws_finished in g_stop s \<and> mset (ws_executed s) = mset (all_tasks 2 1)"
proof -
  have "let s = ws_sample ws_finished in g_stop s \<and> ws_main s = WM_Join 0"
    by (simp add: ws_eval cong: rbind_eval let_weak_cong)
  then show ?thesis using ws_runs_every_task_once [OF _ ws_sample_reached, of ws_finished] by (simp add: Let_def)
qed

text \<open>
  Capacity. \<^verbatim>\<open>push\<close> does not check for a full queue, but no local queue ever holds more than half of its 1024 cells.
\<close>

lemma ws_queues_half_full:
  assumes "n * p < 2 ^ 31" "ws_reaches fl n p s" "ws_main s \<noteq> WM_Reset" "ws_main s \<noteq> WM_Done" "j < length (g_local_queues s)"
  shows "length (ring_list (g_local_queues s ! j)) \<le> 512"
proof (cases "j < length (ws_pcs s)")
  case True
  have a: "\<not> ws_idle s" using assms(3,4) by (simp add: ws_idle_def)
  have "owner_ok (ws_pcs s ! j) (length (ring_list (g_local_queues s ! j)))"
    using ws_okD(1) [OF ws_reached_ok [OF assms(1,2)] a] True by (simp add: ws_queues_ok_def)
  then show ?thesis by (simp add: owner_ok_def split: ws_pc.splits)
next
  case False
  have a: "\<not> ws_idle s" using assms(3,4) by (simp add: ws_idle_def)
  then have "ring_list (g_local_queues s ! j) = []"
    using ws_okD(1) [OF ws_reached_ok [OF assms(1,2)] a] False assms(5) by (simp add: ws_queues_ok_def)
  then show ?thesis by (simp del: length_ring_list)
qed

text \<open>
  Order. On a queue with room the owner gets back the task it pushed last and a thief the oldest one, for all values of the
  counters, also when they wrap around at \<open>2\<^sup>6\<^sup>4\<close>.
\<close>

lemma queue_ends:
  assumes "ring_ok 1024 q" "length (ring_list q) < 1024"
  shows "\<exists>q1. push t q = Inr q1 \<and>
    (\<exists>q2. try_pop q1 = Inr (Some t, q2) \<and> ring_list q2 = ring_list q) \<and>
    (\<exists>q2. try_steal q1 = Inr (Some (hd (ring_list q @ [t])), q2) \<and> ring_list q2 = tl (ring_list q @ [t]))"
proof -
  obtain q1 where q1: "push t q = Inr q1" "ring_ok 1024 q1" "ring_list q1 = ring_list q @ [t]" using push_ok [OF assms] by blast
  have "\<exists>q2. try_pop q1 = Inr (Some t, q2) \<and> ring_list q2 = ring_list q" using try_pop_ok [OF q1(2)] q1(3) by auto
  moreover have "\<exists>q2. try_steal q1 = Inr (Some (hd (ring_list q @ [t])), q2) \<and> ring_list q2 = tl (ring_list q @ [t])"
    using try_steal_ok [OF q1(2)] q1(3) by (cases "ring_list q @ [t]") auto
  ultimately show ?thesis using q1(1) by blast
qed

end
