(* ===== verification/Legacy_Scheduler.thy ===== *)
theory Legacy_Scheduler
  imports Task_Steps
begin

text \<open>
  \<^verbatim>\<open>Scheduler/Legacy\<close>: a copy of the task scheduler with 1000 threads of 50 tasks each, five attempts to steal, and
  \<^verbatim>\<open>use_complex_worker = false\<close>. Its functions are the instances of the model for \<open>legacy_config\<close>; what is special
  about it is that only \<^verbatim>\<open>RunSimple\<close> runs, so that the local queues stay empty and the counter can be read off the
  program counters.
\<close>

section \<open>The functions of the copy\<close>

definition legacy_TryFetchGlobal :: "bool \<Rightarrow> bool \<Rightarrow> task list \<Rightarrow> 'd Worker \<Rightarrow> (nat \<times> task list \<times> 'd Worker) res" where
  "legacy_TryFetchGlobal = TryFetchGlobal 256 (num_threads legacy_config)"

definition legacy_TryStealFrom :: "bool \<Rightarrow> bool \<Rightarrow> nat \<Rightarrow> nat \<Rightarrow> 'd Worker list \<Rightarrow> (nat \<times> 'd Worker list) res" where
  "legacy_TryStealFrom = TryStealFrom 256"

definition legacy_FillBuffer :: "'d Worker \<Rightarrow> (nat \<times> 'd Worker) res" where
  "legacy_FillBuffer = FillBuffer 64"

definition legacy_GetNextTask :: "'d Worker \<Rightarrow> (task option \<times> 'd Worker) res" where
  "legacy_GetNextTask = GetNextTask"

definition legacy_RunComplex ::
  "'d floats \<Rightarrow> bool \<Rightarrow> bool \<Rightarrow> nat \<Rightarrow> nat \<Rightarrow> 'd Worker \<Rightarrow> pc \<Rightarrow> 'd sched \<Rightarrow> 'd sched res" where
  "legacy_RunComplex fl = RunComplex fl legacy_config"

definition legacy_RunSimple :: "'d floats \<Rightarrow> nat \<Rightarrow> pc \<Rightarrow> 'd sched \<Rightarrow> 'd sched res" where
  "legacy_RunSimple = RunSimple"

definition legacy_DummyTask :: "'d floats \<Rightarrow> int \<Rightarrow> 'd Worker \<Rightarrow> 'd Worker" where
  "legacy_DummyTask = DummyTask"

definition legacy_Run :: pc where
  "legacy_Run = Run legacy_config"

definition legacy_MakeTask :: "'d sched \<Rightarrow> nat \<times> 'd sched" where
  "legacy_MakeTask = MakeTask legacy_config"

definition legacy_begin_iteration :: "'d floats \<Rightarrow> 'd sched \<Rightarrow> 'd sched" where
  "legacy_begin_iteration fl = begin_iteration fl legacy_config"

definition legacy_RunTasks :: "'d floats \<Rightarrow> 'd sched \<Rightarrow> 'd sched" where
  "legacy_RunTasks fl = RunTasks fl legacy_config"

definition legacy_sched :: "'d floats \<Rightarrow> 'd sched" where
  "legacy_sched fl = new_sched fl legacy_config"

text \<open>
  One step: a worker in \<^verbatim>\<open>RunComplex\<close> or \<^verbatim>\<open>RunSimple\<close>, the main thread in \<^verbatim>\<open>RunTasks\<close>, or its spurious
  wake-up.
\<close>

fun legacy_step :: "'d floats \<Rightarrow> sched_event \<Rightarrow> 'd sched \<Rightarrow> 'd sched res" where
  "legacy_step fl (Worker_runs i l1 l2 v) s =
     rbind (aget (workers s) i) (\<lambda>w.
     rbind (aget (pcs s) i) (\<lambda>pc.
     if complex_pc pc then legacy_RunComplex fl l1 l2 v i w pc s else legacy_RunSimple fl i pc s))"
| "legacy_step fl Main_runs s = Inr (legacy_RunTasks fl s)"
| "legacy_step fl Main_wakes s = Inr (s\<lparr>main_at := M_Lock\<rparr>)"

lemmas legacy_defs = legacy_TryFetchGlobal_def legacy_TryStealFrom_def legacy_FillBuffer_def legacy_GetNextTask_def
  legacy_RunComplex_def legacy_RunSimple_def legacy_DummyTask_def legacy_Run_def legacy_MakeTask_def legacy_begin_iteration_def legacy_RunTasks_def legacy_sched_def

lemma legacy_step_instance: "legacy_step fl = sched_step fl legacy_config"
proof (intro ext)
  fix e s show "legacy_step fl e s = sched_step fl legacy_config e s"
  proof (cases e)
    case (Worker_runs i l1 l2 v)
    show ?thesis unfolding Worker_runs legacy_step.simps sched_step.simps worker_step_def legacy_defs ..
  qed (simp_all add: legacy_defs)
qed

section \<open>Only the simple worker\<close>

lemma legacy_config_ok: "config_ok legacy_config"
  by (simp add: config_ok_def legacy_config_def)

interpretation lg: event_system "\<lambda>s. s = legacy_sched fl" "sched_enabled legacy_config" "legacy_step fl" "sched_ok fl legacy_config"
  for fl :: "'d floats"
proof
  fix s t :: "'d sched" and e
  show "sched_ok fl legacy_config s" if "s = legacy_sched fl"
    by (simp add: that legacy_sched_def sched_ok_def new_sched_def shape_def idle_def)
  show "sched_ok fl legacy_config t"
    if "sched_ok fl legacy_config s" "sched_enabled legacy_config e s" "legacy_step fl e s = Inr t"
  proof (cases e)
    case (Worker_runs i l1 l2 v)
    then show ?thesis using worker_step_ok [OF legacy_config_ok that(1)] that(2,3) by (fastforce simp: legacy_step_instance)
  next
    case Main_runs
    then show ?thesis using RunTasks_ok [OF legacy_config_ok that(1)] that(2,3) by (fastforce simp: legacy_step_instance)
  next
    case Main_wakes
    then show ?thesis using notify_ok [OF that(1)] that(2,3) by (simp add: notify_one_def)
  qed
qed

abbreviation legacy_reaches :: "'d floats \<Rightarrow> 'd sched \<Rightarrow> bool" where
  "legacy_reaches fl \<equiv> reach (\<lambda>s. s = legacy_sched fl) (event_trans (sched_enabled legacy_config) (legacy_step fl))"

text \<open>A worker outside \<^verbatim>\<open>RunComplex\<close> holds the task it is running, or has one to report.\<close>

definition taken :: "'d sched \<Rightarrow> nat" where
  "taken s = length (filter (\<lambda>pc. (\<exists>t. pc = S_Run t) \<or> pc = S_Sub) (pcs s))"

lemma simple_worker:
  assumes "pc_ok legacy_config w pc"
  shows "\<not> complex_pc pc \<and> no_tasks w \<and> task_did w = 0"
  using assms by (auto simp: pc_ok_def legacy_config_def split: if_splits)

lemma simple_worth:
  assumes "pc_ok legacy_config w pc"
  shows "held w pc = in_hand pc" "unreported w pc = (if pc = S_Sub then 1 else 0)"
  using simple_worker [OF assms] by (simp_all add: held_def unreported_def no_tasks_def)

lemma count_filter: "(\<Sum>j<length xs. if P (xs ! j) then 1 else 0 :: nat) = length (filter P xs)"
  by (induction xs rule: rev_induct) (simp_all add: nth_append)

lemma taken_sum:
  assumes "\<forall>j<length (workers s). pc_ok legacy_config (workers s ! j) (pcs s ! j)" "length (pcs s) = length (workers s)"
  shows "size (all_held s) + all_unreported s = taken s"
proof -
  have one: "size (held (workers s ! j) (pcs s ! j)) + unreported (workers s ! j) (pcs s ! j) =
      (if (\<exists>t. pcs s ! j = S_Run t) \<or> pcs s ! j = S_Sub then 1 else 0)" if "j < length (pcs s)" for j
  proof -
    have ok: "pc_ok legacy_config (workers s ! j) (pcs s ! j)" using assms that by simp
    show ?thesis unfolding simple_worth [OF ok] by (cases "pcs s ! j") (simp_all add: in_hand_def)
  qed
  have "size (all_held s) + all_unreported s =
      (\<Sum>j<length (pcs s). size (held (workers s ! j) (pcs s ! j)) + unreported (workers s ! j) (pcs s ! j))"
    by (simp add: all_held_def all_unreported_def assms(2) sum.distrib size_multiset_sum)
  also have "\<dots> = taken s" using one count_filter [of "\<lambda>pc. (\<exists>t. pc = S_Run t) \<or> pc = S_Sub" "pcs s"] by (simp add: taken_def)
  finally show ?thesis .
qed

definition integer_floats :: "int floats" where
  "integer_floats = \<lparr>f_of_int = id, f_add = (+), f_sub = (-), f_sin = id, f_cos = id\<rparr>"

text \<open>
  C34: the copy in \<^verbatim>\<open>Scheduler/Legacy\<close>. During an iteration no worker enters \<^verbatim>\<open>RunComplex\<close>, all local queues and buffers stay
  empty, and \<^verbatim>\<open>pending_tasks_\<close> is exactly the number of tasks in the global queue plus the number of workers that are running or
  about to report one; it never exceeds the 50000 tasks of the iteration.
\<close>

theorem legacy_counter_exact:
  assumes "legacy_reaches fl s" "main_at s \<noteq> M_Reset" "main_at s \<noteq> M_Done"
  shows "(\<forall>j<1000. \<not> complex_pc (pcs s ! j) \<and> queued_tasks (workers s ! j) = [] \<and> buffered (workers s ! j) = [] \<and>
      task_did (workers s ! j) = 0) \<and>
    unat (pending_tasks s) = length (global_queue s) + taken s \<and> unat (pending_tasks s) \<le> 50000"
proof -
  have a: "\<not> idle s" using assms(2,3) by (simp add: idle_def)
  note S = sched_okD [OF lg.reach_I [OF assms(1)] a]
  have n: "num_threads legacy_config = 1000" "tasks_per_thread legacy_config = 50" by (simp_all add: legacy_config_def)
  have l: "length (workers s) = 1000" "length (pcs s) = 1000" using S(1) n by (simp_all add: shape_def)
  have p: "\<forall>j<1000. pc_ok legacy_config (workers s ! j) (pcs s ! j)" using S(2) n by (simp add: work_ok_def)
  have "size (all_held s) + all_unreported s = taken s" using taken_sum [of s] p l by simp
  then show ?thesis using S(2) n p simple_worker by (simp add: work_ok_def no_tasks_def) blast
qed

theorem legacy_counter_exact_witness:
  "\<exists>s. legacy_reaches integer_floats s \<and> main_at s = M_Spawn 0 \<and> unat (pending_tasks s) = length (global_queue s) + taken s"
proof -
  let ?s = "legacy_begin_iteration integer_floats (legacy_sched integer_floats)"
  have m: "main_at ?s = M_Spawn 0" by (simp add: legacy_defs begin_iteration_def Let_def split_beta)
  have i: "legacy_reaches integer_floats (legacy_sched integer_floats)" by (rule reach_init) simp
  have "event_trans (sched_enabled legacy_config) (legacy_step integer_floats) (legacy_sched integer_floats) ?s"
    unfolding event_trans_def by (intro exI [of _ Main_runs]) (simp add: legacy_defs new_sched_def RunTasks_def)
  then have "legacy_reaches integer_floats ?s" by (rule reach_step [OF i])
  then show ?thesis using legacy_counter_exact [of integer_floats ?s] m by auto
qed

end
