(* ===== verification/Legacy_Network.thy ===== *)
theory Legacy_Network
  imports Protocol
begin

text \<open>
  The programs of \<^verbatim>\<open>Network/Legacy\<close> on blocking sockets: the test client (\<^verbatim>\<open>Client/Client.cpp\<close>) and the two echo servers
  (\<^verbatim>\<open>SingleThreadEcho.cpp\<close>, \<^verbatim>\<open>MultiThreadEcho.cpp\<close>). The socket is a parameter: a state of any type with the calls
  \<^verbatim>\<open>recv\<close> and \<^verbatim>\<open>send\<close>. Setting up and closing sockets is in \<open>Legacy_Mains\<close>.
\<close>

section \<open>Sockets\<close>

text \<open>\<^verbatim>\<open>recv\<close> with result 0 is \<open>Received []\<close>; a negative result is \<^verbatim>\<open>SOCKET_ERROR\<close>.\<close>

datatype recv_result = Received "byte list" | Recv_error

datatype send_result = Sent nat | Send_error

type_synonym 's recv = "nat \<Rightarrow> 's \<Rightarrow> recv_result \<times> 's"

type_synonym 's send = "byte list \<Rightarrow> 's \<Rightarrow> send_result \<times> 's"


text \<open>
  Documented for a stream socket: while bytes of the peer are outstanding, a call returns at least one and at most the
  requested number of them, in order. \<open>unread\<close> gives the bytes the peer sends and the program has not received.
\<close>

definition stream_socket :: "'s recv \<Rightarrow> ('s \<Rightarrow> byte list) \<Rightarrow> bool" where
  "stream_socket recv unread \<longleftrightarrow>
     (\<forall>n s. 0 < n \<longrightarrow> unread s \<noteq> [] \<longrightarrow>
        (\<exists>bs s'. recv n s = (Received bs, s') \<and> bs \<noteq> [] \<and> length bs \<le> n \<and> unread s = bs @ unread s'))"

section \<open>The client\<close>

text \<open>Writing through a \<^verbatim>\<open>char*\<close> into an array.\<close>

definition put_range :: "byte list \<Rightarrow> nat \<Rightarrow> byte list \<Rightarrow> byte list res" where
  "put_range buf pos bs =
     (if pos + length bs \<le> length buf then Inr (take pos buf @ bs @ drop (pos + length bs) buf) else Inl Out_of_bounds)"

function ReceiveByte_loop :: "'s recv \<Rightarrow> nat \<Rightarrow> nat \<Rightarrow> nat \<Rightarrow> byte list \<Rightarrow> 's \<Rightarrow> (bool \<times> byte list \<times> 's) res" where
  "ReceiveByte_loop recv at len bytesReceived buf s =
     (if \<not> bytesReceived < len then Inr (True, buf, s)
      else
        case recv (len - bytesReceived) s of
          (Recv_error, s) \<Rightarrow> Inr (False, buf, s)
        | (Received bs, s) \<Rightarrow>
            if bs = [] then Inr (False, buf, s)
            else
              rbind (put_range buf (at + bytesReceived) bs) (\<lambda>buf.
              ReceiveByte_loop recv at len (bytesReceived + length bs) buf s))"
  by pat_completeness auto
termination
  by (relation "measure (\<lambda>(recv, at, len, bytesReceived, buf, s). len - bytesReceived)") (auto intro: diff_less_mono2)

declare ReceiveByte_loop.simps [simp del]

definition ReceiveByte :: "'s recv \<Rightarrow> nat \<Rightarrow> nat \<Rightarrow> byte list \<Rightarrow> 's \<Rightarrow> (bool \<times> byte list \<times> 's) res" where
  "ReceiveByte recv at len buf s = ReceiveByte_loop recv at len 0 buf s"

definition ReceivePacket :: "'s recv \<Rightarrow> byte list \<Rightarrow> 's \<Rightarrow> (PACKET_HEADER option \<times> byte list \<times> 's) res" where
  "ReceivePacket recv buf s =
     rbind (ReceiveByte recv 0 header_size buf s) (\<lambda>(ok, buf, s).
     if \<not> ok then Inr (None, buf, s)
     else
       let header = header_at buf; sz = unat (h_size header) in
       if sz < header_size \<or> unat kClientBufferSize < sz then Inr (None, buf, s)
       else
         rbind (ReceiveByte recv header_size (sz - header_size) buf s) (\<lambda>(ok, buf, s).
         Inr (if ok then Some header else None, buf, s)))"

text \<open>\<open>p\<close> is the object the header belongs to; \<^verbatim>\<open>send\<close> reads \<^verbatim>\<open>header.size\<close> bytes from its start.\<close>

function SendPacket_loop :: "'s send \<Rightarrow> nat \<Rightarrow> nat \<Rightarrow> byte list \<Rightarrow> 's \<Rightarrow> (bool \<times> 's) res" where
  "SendPacket_loop send sz bytesSent p s =
     (if \<not> bytesSent < sz then Inr (True, s)
      else if length p < sz then Inl Out_of_bounds
      else
        case send (take (sz - bytesSent) (drop bytesSent p)) s of
          (Send_error, s) \<Rightarrow> Inr (False, s)
        | (Sent n, s) \<Rightarrow> if n = 0 then Inr (False, s) else SendPacket_loop send sz (bytesSent + n) p s)"
  by pat_completeness auto
termination
  by (relation "measure (\<lambda>(send, sz, bytesSent, p, s). sz - bytesSent)") auto

declare SendPacket_loop.simps [simp del]





section \<open>The echo servers\<close>

text \<open>One round of \<^verbatim>\<open>handleClient\<close>: whether the loop goes on. A message that was sent back also ends the loop.\<close>

definition handleClient_body :: "'s recv \<Rightarrow> 's send \<Rightarrow> 's \<Rightarrow> bool \<times> 's" where
  "handleClient_body recv send s =
     (case recv 1024 s of
        (Recv_error, s) \<Rightarrow> (False, s)
      | (Received bs, s) \<Rightarrow>
          if 0 < length bs then
            (case send bs s of
               (Send_error, s) \<Rightarrow> (False, s)
             | (Sent n, s) \<Rightarrow> if length bs = 0 then (False, s) else (False, s))
          else if length bs = 0 then (False, s)
          else (False, s))"

partial_function (option) handleClient :: "'s recv \<Rightarrow> 's send \<Rightarrow> 's \<Rightarrow> 's option" where
  "handleClient recv send s =
     (case handleClient_body recv send s of (again, s) \<Rightarrow> if again then handleClient recv send s else Some s)"

text \<open>The loop of \<^verbatim>\<open>SingleThreadEcho.cpp\<close>; the terminating zero goes to \<^verbatim>\<open>buffer[bytesReceived]\<close>, an array of 1024.\<close>

partial_function (option) echo_loop :: "'s recv \<Rightarrow> 's send \<Rightarrow> 's \<Rightarrow> 's res option" where
  "echo_loop recv send s =
     (case recv 1023 s of
        (Recv_error, s) \<Rightarrow> Some (Inr s)
      | (Received bs, s) \<Rightarrow>
          if \<not> length bs < 1024 then Some (Inl Out_of_bounds)
          else
            (case send bs s of
               (Send_error, s) \<Rightarrow> Some (Inr s)
             | (Sent n, s) \<Rightarrow> echo_loop recv send s))"

section \<open>Receiving\<close>

lemma put_range_ok: "pos + length bs \<le> length buf \<Longrightarrow> put_range buf pos bs = Inr (take pos buf @ bs @ drop (pos + length bs) buf)"
  by (simp add: put_range_def)

lemma ReceiveByte_loop_step:
  assumes "got < len" "recv (len - got) s = (Received bs, t)" "bs \<noteq> []" "at + got + length bs \<le> length buf"
  shows "ReceiveByte_loop recv at len got buf s =
    ReceiveByte_loop recv at len (got + length bs) (take (at + got) buf @ bs @ drop (at + got + length bs) buf) t"
  using assms by (subst ReceiveByte_loop.simps) (simp add: put_range_def)


lemma ReceiveByte_loop_stream:
  assumes sock: "stream_socket recv unread" and "at + len \<le> length buf" "got \<le> len" "len - got \<le> length (unread s)"
  shows "\<exists>t. ReceiveByte_loop recv at len got buf s =
      Inr (True, take (at + got) buf @ take (len - got) (unread s) @ drop (at + len) buf, t) \<and>
    unread t = drop (len - got) (unread s)"
  using assms(2-4)
proof (induction "len - got" arbitrary: got buf s rule: less_induct)
  case less
  show ?case
  proof (cases "got < len")
    case True
    then have "unread s \<noteq> []" using less.prems(3) by auto
    then obtain bs t where r: "recv (len - got) s = (Received bs, t)" "bs \<noteq> []" "length bs \<le> len - got" "unread s = bs @ unread t"
      using sock True unfolding stream_socket_def by (metis zero_less_diff)
    let ?b = "take (at + got) buf @ bs @ drop (at + got + length bs) buf"
    have "0 < length bs" using r(2) by simp
    then have d: "len - (got + length bs) < len - got" "got + length bs \<le> len" "at + got + length bs \<le> length buf"
      using r(3) True less.prems(1) by linarith+
    moreover have "len - (got + length bs) \<le> length (unread t)" using less.prems(3) r(4) by simp
    ultimately obtain u where u: "ReceiveByte_loop recv at len (got + length bs) ?b t =
        Inr (True, take (at + (got + length bs)) ?b @ take (len - (got + length bs)) (unread t) @ drop (at + len) ?b, u)"
      "unread u = drop (len - (got + length bs)) (unread t)"
      using less.hyps [of "got + length bs" ?b t] less.prems(1) by auto
    have "take (at + (got + length bs)) ?b = take (at + got) buf @ bs" "drop (at + len) ?b = drop (at + len) buf"
      using less.prems(1) r(3) True by (auto simp: add.commute)
    then show ?thesis
      using u ReceiveByte_loop_step [of got len recv s bs t at buf] True r d by auto
  next
    case False
    then show ?thesis using less.prems(2) by (subst ReceiveByte_loop.simps) simp
  qed
qed

lemma header_within: "4 \<le> length p \<Longrightarrow> take 4 buf = take 4 p \<Longrightarrow> header_at buf = header_at p"
  by (metis header_at_take order_refl)

lemma ReceivePacket_stream:
  assumes sock: "stream_socket recv unread" and buf: "length buf = unat kClientBufferSize" and s: "unread s = p @ rest"
    and p: "header_size \<le> length p" "unat (h_size (header_at p)) = length p"
  shows "\<exists>buf' t. ReceivePacket recv buf s = Inr (Some (header_at p), buf', t) \<and> length buf' = length buf \<and>
    take (length p) buf' = p \<and> unread t = rest"
proof -
  have n: "length p < 65536" using p(2) unat_lt_u16 [of "h_size (header_at p)"] by simp
  have k: "unat kClientBufferSize = 65536" by (simp add: kClientBufferSize_def)
  let ?b = "take 4 p @ drop 4 buf" and ?c = "p @ drop (length p) buf"
  obtain t where t: "ReceiveByte recv 0 4 buf s = Inr (True, ?b, t)" "unread t = drop 4 p @ rest"
    using ReceiveByte_loop_stream [OF sock, of 0 4 buf 0 s] s p(1) buf k by (auto simp: ReceiveByte_def header_size_def)
  have h: "header_at ?b = header_at p" using p(1) by (intro header_within) (simp_all add: header_size_def)
  have l: "length p - 4 \<le> 65532" using n by linarith
  obtain u where u: "ReceiveByte recv 4 (length p - 4) ?b t = Inr (True, take 4 ?b @ drop 4 p @ drop (length p) ?b, u)" "unread u = rest"
    using ReceiveByte_loop_stream [OF sock, of 4 "length p - 4" ?b 0 t] t(2) p(1) buf k l by (auto simp: ReceiveByte_def header_size_def)
  have "take 4 ?b @ drop 4 p @ drop (length p) ?b = ?c" using p(1) n buf k by (simp add: header_size_def)
  then have "ReceivePacket recv buf s = Inr (Some (header_at p), ?c, u)"
    using t(1) u(1) h p n k by (simp add: ReceivePacket_def header_size_def Let_def)
  then show ?thesis using u(2) n buf k by (intro exI [of _ ?c]) simp
qed

text \<open>The packets a client reads with \<open>n\<close> calls.\<close>

fun receive_packets :: "'s recv \<Rightarrow> nat \<Rightarrow> byte list \<Rightarrow> 's \<Rightarrow> (byte list list \<times> 's) res" where
  "receive_packets recv 0 buf s = Inr ([], s)"
| "receive_packets recv (Suc n) buf s =
     rbind (ReceivePacket recv buf s) (\<lambda>(header, buf, s).
     case header of
       None \<Rightarrow> Inr ([], s)
     | Some h \<Rightarrow>
         rbind (receive_packets recv n buf s) (\<lambda>(ps, s). Inr (take (unat (h_size h)) buf # ps, s)))"

section \<open>Sending\<close>

text \<open>Documented: \<^verbatim>\<open>send\<close> on a connected socket accepts at least one byte and a prefix of what it is given.\<close>

definition stream_sender :: "'s send \<Rightarrow> ('s \<Rightarrow> byte list) \<Rightarrow> bool" where
  "stream_sender send sent \<longleftrightarrow>
     (\<forall>bs s. bs \<noteq> [] \<longrightarrow> (\<exists>n t. send bs s = (Sent n, t) \<and> 0 < n \<and> n \<le> length bs \<and> sent t = sent s @ take n bs))"

lemma SendPacket_loop_exact:
  assumes sock: "stream_sender send sent" and "sz \<le> length p" "k \<le> sz"
  shows "\<exists>t. SendPacket_loop send sz k p s = Inr (True, t) \<and> sent t = sent s @ take (sz - k) (drop k p)"
  using assms(2,3)
proof (induction "sz - k" arbitrary: k s rule: less_induct)
  case less
  show ?case
  proof (cases "k < sz")
    case True
    let ?bs = "take (sz - k) (drop k p)"
    have "?bs \<noteq> []" using True less.prems(1) by simp
    then obtain n t where n: "send ?bs s = (Sent n, t)" "0 < n" "n \<le> length ?bs" "sent t = sent s @ take n ?bs"
      using sock unfolding stream_sender_def by blast
    have d: "sz - (k + n) < sz - k" "k + n \<le> sz" using True n(2,3) less.prems(1) by auto
    obtain u where u: "SendPacket_loop send sz (k + n) p t = Inr (True, u)" "sent u = sent t @ take (sz - (k + n)) (drop (k + n) p)"
      using less.hyps [OF d(1) less.prems(1) d(2)] by blast
    have "take n ?bs @ take (sz - (k + n)) (drop (k + n) p) = ?bs"
      using n(3) less.prems(1) by (metis (no_types, lifting) add.commute append_take_drop_id diff_diff_left drop_drop drop_take)
    then show ?thesis using u n True less.prems(1) by (subst SendPacket_loop.simps) simp
  next
    case False
    then show ?thesis using less.prems by (subst SendPacket_loop.simps) simp
  qed
qed

section \<open>Properties\<close>

text \<open>A socket for the instances: the pieces in which the bytes of the peer arrive, and the bytes sent.\<close>

fun chunk_recv :: "(byte list list \<times> byte list) recv" where
  "chunk_recv n ([], out) = (Received [], ([], out))"
| "chunk_recv n (c # cs, out) =
     (if c = [] then chunk_recv n (cs, out)
      else (Received (take n c), ((if n < length c then drop n c # cs else cs), out)))"



lemma chunk_recv_stream: "stream_socket chunk_recv (\<lambda>s. concat (fst s))"
proof -
  have "\<exists>bs t. chunk_recv n s = (Received bs, t) \<and> bs \<noteq> [] \<and> length bs \<le> n \<and> concat (fst s) = bs @ concat (fst t)"
    if "0 < n" "concat (fst s) \<noteq> []" for n s
    using that by (induction n s rule: chunk_recv.induct) (auto simp: append_take_drop_id [symmetric] simp del: append_take_drop_id)
  then show ?thesis by (simp add: stream_socket_def)
qed

text \<open>
  C27: receiving. However the network cuts the stream, a client that calls \<^verbatim>\<open>ReceivePacket\<close> once per packet gets exactly the packets
  the server sent, in order, and nothing of what follows them.
\<close>

theorem client_receives_packets:
  assumes "stream_socket recv unread" "length buf = unat kClientBufferSize" "unread s = concat ps @ rest"
    and "\<forall>p\<in>set ps. header_size \<le> length p \<and> unat (h_size (header_at p)) = length p"
  shows "\<exists>t. receive_packets recv (length ps) buf s = Inr (ps, t) \<and> unread t = rest"
  using assms(2-4)
proof (induction ps arbitrary: buf s)
  case (Cons p ps)
  obtain buf' t where t: "ReceivePacket recv buf s = Inr (Some (header_at p), buf', t)" "length buf' = length buf"
    "take (length p) buf' = p" "unread t = concat ps @ rest"
    using ReceivePacket_stream [OF assms(1) Cons.prems(1), of s p "concat ps @ rest"] Cons.prems(2,3) by auto
  then show ?case using Cons.IH [of buf' t] Cons.prems(1,3) by auto
qed simp

theorem client_receives_packets_witness:
  "let ps = [[5, 0, 2, 0, 65], [6, 0, 2, 0, 66, 67]] in
   \<exists>t. receive_packets chunk_recv (length ps) (replicate 65536 0) ([[5, 0, 2], [0, 65, 6, 0], [2, 0, 66, 67, 9]], []) = Inr (ps, t) \<and>
     concat (fst t) = [9]"
proof -
  let ?ps = "[[5, 0, 2, 0, 65], [6, 0, 2, 0, 66, 67]] :: byte list list"
  have "\<forall>p\<in>set ?ps. header_size \<le> length p \<and> unat (h_size (header_at p)) = length p"
    by (simp add: header_at_def u16_at_def header_size_def)
  moreover have "length (replicate 65536 (0 :: byte)) = unat kClientBufferSize" by (simp add: kClientBufferSize_def)
  moreover have "concat (fst ([[5, 0, 2], [0, 65, 6, 0], [2, 0, 66, 67, 9]], [] :: byte list)) = concat ?ps @ [9]" by simp
  ultimately show ?thesis unfolding Let_def by (intro client_receives_packets [OF chunk_recv_stream])
qed





text \<open>
  One echo per connection. In \<^verbatim>\<open>handleClient\<close> of \<^verbatim>\<open>MultiThreadEcho.cpp\<close> the branch that follows a successful \<^verbatim>\<open>send\<close> also leaves
  the loop: the server sends the first message back, reports a failed \<^verbatim>\<open>recv\<close> and closes the connection.
\<close>

lemma multi_echo_once:
  assumes "recv 1024 s = (Received bs, t)" "bs \<noteq> []" "send bs t = (Sent n, u)"
  shows "handleClient recv send s = Some u"
  using assms by (subst handleClient.simps) (simp add: handleClient_body_def)

text \<open>
  In \<^verbatim>\<open>SingleThreadEcho.cpp\<close> the result 0 of \<^verbatim>\<open>recv\<close> is not tested: once the client has closed the connection the loop goes round
  for ever, as long as sending no bytes succeeds.
\<close>

lemma echo_loop_spins:
  assumes "\<And>s. closed s \<Longrightarrow> recv 1023 s = (Received [], s) \<and> send [] s = (Sent 0, s)" "closed s"
  shows "echo_loop recv send s = None"
proof -
  have "\<not> (r = recv \<and> k = send \<and> closed s)" if "echo_loop r k s = Some y" for r k s y
  proof (rule echo_loop.raw_induct [where P = "\<lambda>r k s y. \<not> (r = recv \<and> k = send \<and> closed s)", OF _ that])
    fix f r k s y
    assume IH: "\<And>r k s y. f r k s = Some y \<Longrightarrow> \<not> (r = recv \<and> k = send \<and> closed s)"
      and y: "(case r 1023 s of (Recv_error, s) \<Rightarrow> Some (Inr s)
        | (Received bs, s) \<Rightarrow> if \<not> length bs < 1024 then Some (Inl Out_of_bounds)
            else (case k bs s of (Send_error, s) \<Rightarrow> Some (Inr s) | (Sent n, s) \<Rightarrow> f r k s)) = Some y"
    show "\<not> (r = recv \<and> k = send \<and> closed s)"
    proof
      assume c: "r = recv \<and> k = send \<and> closed s"
      then have "f r k s = Some y" using y assms(1) by simp
      then show False using IH c by blast
    qed
  qed
  then show ?thesis using assms(2) by (cases "echo_loop recv send s") auto
qed

end
