(* ===== verification/Legacy_Mains.thy ===== *)
theory Legacy_Mains
  imports Server_Lifecycle
begin

text \<open>
  The \<^verbatim>\<open>main\<close> functions of \<^verbatim>\<open>Network/Legacy\<close> and the constructor of its client, as sequences of system calls
  (\<^verbatim>\<open>SingleThreadEcho.cpp\<close>, \<^verbatim>\<open>MultiThreadEcho.cpp\<close>, \<^verbatim>\<open>Client/Client.cpp\<close>, \<^verbatim>\<open>Client/Main.cpp\<close>). The loops that
  transfer data are in \<open>Legacy_Network\<close>; here they are a parameter \<open>serve\<close>, of which it is used that it neither opens nor closes.
\<close>

definition keeps_open :: "(nat \<Rightarrow> unit act) \<Rightarrow> bool" where
  "keeps_open serve \<longleftrightarrow> (\<forall>c A. Sock c \<in># A \<longrightarrow> triple A (serve c) (\<lambda>_. A) {})"

section \<open>SingleThreadEcho\<close>

text \<open>The exit code; \<open>fail_closed\<close> is the tail of every error branch after the first two.\<close>

definition fail_closed :: "nat \<Rightarrow> nat \<Rightarrow> int act" where
  "fail_closed w listenSocket =
     abind (release closesocket (Sock listenSocket)) (\<lambda>_.
     abind (release WSACleanup (Winsock w)) (\<lambda>_. ret 1))"

definition single_main :: "decide \<Rightarrow> (nat \<Rightarrow> unit act) \<Rightarrow> int act" where
  "single_main os serve =
     abind (acquire os WSAStartup [] Winsock) (\<lambda>wsa. case wsa of None \<Rightarrow> ret 1 | Some w \<Rightarrow>
     abind (acquire os socket [] Sock) (\<lambda>listenSocket. case listenSocket of
         None \<Rightarrow> abind (release WSACleanup (Winsock w)) (\<lambda>_. ret 1)
       | Some l \<Rightarrow>
     abind (request os bind [Sock l]) (\<lambda>ok. if \<not> ok then fail_closed w l else
     abind (request os listen [Sock l]) (\<lambda>ok. if \<not> ok then fail_closed w l else
     abind (acquire os accept [Sock l] Sock) (\<lambda>clientSocket. case clientSocket of
         None \<Rightarrow> fail_closed w l
       | Some c \<Rightarrow>
     abind (serve c) (\<lambda>_.
     abind (release closesocket (Sock c)) (\<lambda>_.
     abind (release closesocket (Sock l)) (\<lambda>_.
     abind (release WSACleanup (Winsock w)) (\<lambda>_. ret 0)))))))))"

lemma vc_serve:
  assumes "keeps_open serve" "Sock c \<in># A" "triple A (f ()) Q E"
  shows "triple A (abind (serve c) f) Q E"
proof (rule triple_bind)
  show "triple A (serve c) (\<lambda>_. A) E"
    using assms(1,2) triple_weaken [of A "serve c" "\<lambda>_. A" "{}" E] by (auto simp: keeps_open_def)
qed (use assms(3) in simp)

lemma single_main_triple: "keeps_open serve \<Longrightarrow> triple {#} (single_main os serve) (\<lambda>_. {#}) {}"
  unfolding single_main_def fail_closed_def by (intro vc vc_serve) auto

section \<open>MultiThreadEcho\<close>

text \<open>The destructor of a \<^verbatim>\<open>std::thread\<close> that was neither joined nor detached calls \<^verbatim>\<open>std::terminate\<close>.\<close>

definition thread_dtor :: "bool \<Rightarrow> unit act" where
  "thread_dtor joinable s = (if joinable then (Inl Terminated, s) else (Inr (), s))"

definition multi_main :: "decide \<Rightarrow> int act" where
  "multi_main os =
     local_object (WSAManager_open os) WSAManager_close (\<lambda>_.
     abind (acquire os socket [] Sock) (\<lambda>listenSocket. case listenSocket of None \<Rightarrow> LOG_FATAL | Some l \<Rightarrow>
     abind (request os setsockopt [Sock l]) (\<lambda>_.
     abind (request os bind [Sock l]) (\<lambda>ok.
     abind (fatal_if (\<not> ok)) (\<lambda>_.
     abind (request os listen [Sock l]) (\<lambda>ok.
     abind (fatal_if (\<not> ok)) (\<lambda>_.
     abind (acquire os thread_start [] Thread) (\<lambda>serverThread. case serverThread of None \<Rightarrow> system_error | Some t \<Rightarrow>
     abind (release closesocket (Sock l)) (\<lambda>_.
     abind (thread_dtor True) (\<lambda>_. ret 0))))))))))"

text \<open>One round of the accepting thread: a client thread is started for whatever \<^verbatim>\<open>accept\<close> returned.\<close>

definition accept_round :: "decide \<Rightarrow> nat \<Rightarrow> nat option act" where
  "accept_round os listenSocket =
     abind (acquire os accept [Sock listenSocket] Sock) (\<lambda>clientSocket.
     abind (acquire os thread_start [] Thread) (\<lambda>clientThread. case clientThread of None \<Rightarrow> system_error | Some t \<Rightarrow>
     ret clientSocket))"

text \<open>The client thread; on \<^verbatim>\<open>INVALID_SOCKET\<close> both \<^verbatim>\<open>recv\<close> and \<^verbatim>\<open>closesocket\<close> only fail.\<close>

definition client_thread :: "(nat \<Rightarrow> unit act) \<Rightarrow> nat option \<Rightarrow> unit act" where
  "client_thread serve clientSocket =
     (case clientSocket of None \<Rightarrow> ret ()
      | Some c \<Rightarrow> abind (serve c) (\<lambda>_. abind (release closesocket (Sock c)) ret))"

definition never_returns :: "'a act \<Rightarrow> bool" where
  "never_returns m \<longleftrightarrow> (\<forall>s x s'. m s \<noteq> (Inr x, s'))"

named_theorems never "actions that do not return"

lemma never_rules [never]:
  "never_returns LOG_FATAL" "never_returns system_error"
  "(\<And>x. never_returns (f x)) \<Longrightarrow> never_returns (abind m f)"
  "never_returns (abind (thread_dtor True) g)"
  "never_returns a \<Longrightarrow> (\<And>n. never_returns (b n)) \<Longrightarrow> never_returns (case v of None \<Rightarrow> a | Some n \<Rightarrow> b n)"
  by (auto simp: never_returns_def LOG_FATAL_def system_error_def abind_def thread_dtor_def split: prod.splits sum.splits option.splits)

lemma never_unwind: "never_returns m \<Longrightarrow> never_returns (abind (unwind m c) f)"
  unfolding never_returns_def unwind_def abind_def by (auto split: prod.splits sum.splits if_splits)

lemma multi_main_never: "never_returns (multi_main os)"
  unfolding multi_main_def local_object_def by (rule never(3), rule never_unwind) (intro never)

section \<open>The client\<close>

definition Client_open :: "decide \<Rightarrow> nat act" where
  "Client_open os =
     abind (acquire os socket [] Sock) (\<lambda>sock. case sock of None \<Rightarrow> LOG_FATAL | Some s \<Rightarrow>
     abind (request os setsockopt [Sock s]) (\<lambda>_.
     abind (request os setsockopt [Sock s]) (\<lambda>_.
     abind (request os connect [Sock s]) (\<lambda>ok.
     if \<not> ok then abind (release closesocket (Sock s)) (\<lambda>_. LOG_FATAL) else ret s))))"

definition Client_close :: "nat \<Rightarrow> unit act" where
  "Client_close s = abind (release closesocket (Sock s)) ret"

interpretation cl: raii "Client_open os" Client_close "\<lambda>s. {#Sock s#}" "\<lambda>_. {#}" "{{#}}" for os
proof
  show "triple {#} (Client_open os) (\<lambda>s. {#Sock s#}) {{#}}"
    unfolding Client_open_def by (intro vc) auto
  show "triple {#Sock x#} (Client_close x) (\<lambda>_. {#}) {}" for x
    unfolding Client_close_def by (intro vc) simp_all
qed

text \<open>\<^verbatim>\<open>Client/Main.cpp\<close>. Creating clients stops at the first exception.\<close>

definition try_catch :: "'a act \<Rightarrow> 'a act \<Rightarrow> 'a act" where
  "try_catch m h s =
     (case m s of
        (Inr x, s) \<Rightarrow> (Inr x, s)
      | (Inl e, s) \<Rightarrow> if e = Runtime_error then h s else (Inl e, s))"

fun create_clients :: "decide \<Rightarrow> nat \<Rightarrow> nat list \<Rightarrow> nat list act" where
  "create_clients os 0 clients = ret clients"
| "create_clients os (Suc n) clients =
     abind (try_catch (abind (Client_open os) (\<lambda>c. ret (Some c))) (ret None)) (\<lambda>created. case created of
         None \<Rightarrow> ret clients
       | Some c \<Rightarrow> create_clients os n (clients @ [c]))"

definition out_of_bounds_if :: "bool \<Rightarrow> unit act" where
  "out_of_bounds_if bad s = (if bad then (Inl Out_of_bounds, s) else (Inr (), s))"

text \<open>Threads are started for all indices below \<^verbatim>\<open>clientCount\<close>, whether or not the client exists. A thread that cannot be started ends the program.\<close>

fun start_threads :: "decide \<Rightarrow> nat list \<Rightarrow> nat list \<Rightarrow> nat list \<Rightarrow> nat list act" where
  "start_threads os clients [] ts = ret ts"
| "start_threads os clients (i # is) ts =
     abind (out_of_bounds_if (\<not> i < length clients)) (\<lambda>_.
     abind (acquire os thread_start [] Thread) (\<lambda>t. case t of
         None \<Rightarrow> abind (thread_dtor True) (\<lambda>_. ret ts)
       | Some t \<Rightarrow> start_threads os clients is (ts @ [t])))"

definition client_main :: "decide \<Rightarrow> nat \<Rightarrow> int act" where
  "client_main os clientCount =
     local_object (WSAManager_open os) WSAManager_close (\<lambda>_.
     abind (create_clients os clientCount []) (\<lambda>clients.
     abind (start_threads os clients [0..<clientCount] []) (\<lambda>ts.
     abind (for_each (\<lambda>t. abind (release thread_join (Thread t)) ret) ts) (\<lambda>_.
     abind (for_each Client_close clients) (\<lambda>_. ret 0)))))"

text \<open>What an action exchanges when it returns; nothing is said of the way it fails.\<close>

definition returns :: "resource multiset \<Rightarrow> 'a act \<Rightarrow> ('a \<Rightarrow> resource multiset) \<Rightarrow> bool" where
  "returns A m Q \<longleftrightarrow> (\<forall>s F x s'. opened s = A + F \<longrightarrow> m s = (Inr x, s') \<longrightarrow> opened s' = Q x + F)"

lemma returns_bind: "returns A m B \<Longrightarrow> (\<And>x. returns (B x) (f x) Q) \<Longrightarrow> returns A (abind m f) Q"
  unfolding returns_def
proof (intro allI impI)
  fix s :: sys and F x s'
  assume m: "\<forall>s F x s'. opened s = A + F \<longrightarrow> m s = (Inr x, s') \<longrightarrow> opened s' = B x + F"
    and f: "\<And>x. \<forall>s F y s'. opened s = B x + F \<longrightarrow> f x s = (Inr y, s') \<longrightarrow> opened s' = Q y + F"
    and s: "opened s = A + F" "abind m f s = (Inr x, s')"
  obtain y u where "m s = (Inr y, u)" "f y u = (Inr x, s')"
    using s(2) by (auto simp: abind_def split: prod.splits sum.splits)
  then show "opened s' = Q x + F" using m f s(1) by blast
qed

lemma returns_triple: "triple A m Q E \<Longrightarrow> returns A m Q"
  unfolding returns_def
proof (intro allI impI)
  fix s :: sys and F x s'
  assume t: "triple A m Q E" and s: "opened s = A + F" "m s = (Inr x, s')"
  show "opened s' = Q x + F" by (rule tripleD(1) [OF t s])
qed

lemma returns_unwind: "returns A m Q \<Longrightarrow> returns A (unwind m c) Q"
  unfolding returns_def
proof (intro allI impI)
  fix s :: sys and F x s'
  assume m: "\<forall>s F x s'. opened s = A + F \<longrightarrow> m s = (Inr x, s') \<longrightarrow> opened s' = Q x + F"
    and s: "opened s = A + F" "unwind m c s = (Inr x, s')"
  obtain q u where q: "m s = (q, u)" by (cases "m s")
  have "m s = (Inr x, s')"
  proof (cases q)
    case (Inl e)
    then show ?thesis using s(2) q by (simp add: unwind_def split: prod.splits sum.splits if_splits)
  qed (use s(2) q in \<open>simp add: unwind_def\<close>)
  then show "opened s' = Q x + F" using m s(1) by blast
qed

lemma returns_ret: "Q x = A \<Longrightarrow> returns A (ret x) Q"
  by (simp add: returns_def ret_def)

lemma returns_acquire: "returns A (acquire os c [] mk) (\<lambda>x. case x of None \<Rightarrow> A | Some n \<Rightarrow> add_mset (mk n) A)"
  by (rule returns_triple [where E = "{}"], rule tripleI) (auto simp: acquire_def tick_def split: if_splits)

definition socks :: "nat list \<Rightarrow> resource multiset" where
  "socks cs = mset (map Sock cs)"

definition thrs :: "nat list \<Rightarrow> resource multiset" where
  "thrs ts = mset (map Thread ts)"

lemma returns_try_client:
  "returns A (try_catch (abind (Client_open os) (\<lambda>c. ret (Some c))) (ret None)) (\<lambda>r. case r of None \<Rightarrow> A | Some c \<Rightarrow> add_mset (Sock c) A)"
  unfolding returns_def
proof (intro allI impI)
  fix s :: sys and F r s'
  assume s: "opened s = A + F" "try_catch (abind (Client_open os) (\<lambda>c. ret (Some c))) (ret None) s = (Inr r, s')"
  have t: "opened s = {#} + (A + F)" using s(1) by simp
  obtain q u where q: "Client_open os s = (q, u)" by (cases "Client_open os s")
  show "opened s' = (case r of None \<Rightarrow> A | Some c \<Rightarrow> add_mset (Sock c) A) + F"
  proof (cases q)
    case (Inl e)
    then show ?thesis using tripleD(2) [OF cl.ctor_opens t, of os e u] q s(2) by (auto simp: try_catch_def abind_def ret_def)
  next
    case (Inr c)
    then show ?thesis using tripleD(1) [OF cl.ctor_opens t, of os c u] q s(2) by (auto simp: try_catch_def abind_def ret_def)
  qed
qed

lemma returns_create: "returns (socks cs + A) (create_clients os n cs) (\<lambda>cs. socks cs + A)"
proof (induction n arbitrary: cs)
  case 0
  then show ?case by (simp add: returns_def ret_def)
next
  case (Suc n)
  show ?case unfolding create_clients.simps
  proof (rule returns_bind [OF returns_try_client])
    fix r show "returns (case r of None \<Rightarrow> socks cs + A | Some c \<Rightarrow> add_mset (Sock c) (socks cs + A))
        (case r of None \<Rightarrow> ret cs | Some c \<Rightarrow> create_clients os n (cs @ [c])) (\<lambda>cs. socks cs + A)"
    proof (cases r)
      case (Some c)
      have eq: "add_mset (Sock c) (socks cs + A) = socks (cs @ [c]) + A" by (simp add: socks_def)
      show ?thesis unfolding Some option.case eq by (rule Suc.IH)
    qed (simp add: returns_def ret_def)
  qed
qed

lemma returns_start: "returns (thrs ts + A) (start_threads os cs is ts) (\<lambda>ts. thrs ts + A)"
proof (induction "is" arbitrary: ts)
  case Nil
  then show ?case by (simp add: returns_def ret_def)
next
  case (Cons i "is")
  have more: "thrs (ts @ [t]) + A = add_mset (Thread t) (thrs ts + A)" for t by (simp add: thrs_def)
  show ?case unfolding start_threads.simps
  proof (rule returns_bind)
    show "returns (thrs ts + A) (out_of_bounds_if (\<not> i < length cs)) (\<lambda>_. thrs ts + A)"
      by (auto simp: returns_def out_of_bounds_if_def split: if_splits)
    show "returns (thrs ts + A) (abind (acquire os thread_start [] Thread) (\<lambda>t. case t of
         None \<Rightarrow> abind (thread_dtor True) (\<lambda>_. ret ts)
       | Some t \<Rightarrow> start_threads os cs is (ts @ [t]))) (\<lambda>ts. thrs ts + A)"
    proof (rule returns_bind)
      show "returns (thrs ts + A) (acquire os thread_start [] Thread)
          (\<lambda>t. case t of None \<Rightarrow> thrs ts + A | Some t \<Rightarrow> thrs (ts @ [t]) + A)"
        unfolding more by (rule returns_acquire)
      show "returns (case t of None \<Rightarrow> thrs ts + A | Some t \<Rightarrow> thrs (ts @ [t]) + A)
          (case t of None \<Rightarrow> abind (thread_dtor True) (\<lambda>_. ret ts) | Some t \<Rightarrow> start_threads os cs is (ts @ [t]))
          (\<lambda>ts. thrs ts + A)" for t
      proof (cases t)
        case None
        then show ?thesis by (simp add: returns_def thread_dtor_def abind_def)
      next
        case (Some n)
        then show ?thesis using Cons.IH [of "ts @ [n]"] by simp
      qed
    qed
  qed
qed

lemma sum_singles: "sum_list (map (\<lambda>x. {#f x#}) xs) = mset (map f xs)"
  by (induction xs) simp_all

lemma client_main_returns: "returns {#} (client_main os n) (\<lambda>_. {#})"
  unfolding client_main_def local_object_def
proof (rule returns_bind [OF returns_triple [OF wsa.ctor_opens]], rule returns_bind [OF returns_unwind])
  fix w
  let ?W = "{#Winsock w#}"
  show "returns ?W (abind (create_clients os n []) (\<lambda>clients. abind (start_threads os clients [0..<n] []) (\<lambda>ts.
      abind (for_each (\<lambda>t. abind (release thread_join (Thread t)) ret) ts) (\<lambda>_. abind (for_each Client_close clients) (\<lambda>_. ret 0)))))
      (\<lambda>_. ?W)"
  proof (rule returns_bind)
    show "returns ?W (create_clients os n []) (\<lambda>cs. socks cs + ?W)" using returns_create [of "[]" ?W os n] by (simp add: socks_def)
    fix cs
    show "returns (socks cs + ?W) (abind (start_threads os cs [0..<n] []) (\<lambda>ts.
      abind (for_each (\<lambda>t. abind (release thread_join (Thread t)) ret) ts) (\<lambda>_. abind (for_each Client_close cs) (\<lambda>_. ret 0))))
      (\<lambda>_. ?W)"
    proof (rule returns_bind)
      show "returns (socks cs + ?W) (start_threads os cs [0..<n] []) (\<lambda>ts. thrs ts + (socks cs + ?W))"
        using returns_start [of "[]" "socks cs + ?W"] by (simp add: thrs_def)
      fix ts
      have join: "triple (thrs ts + (socks cs + ?W)) (for_each (\<lambda>t. abind (release thread_join (Thread t)) ret) ts)
          (\<lambda>_. socks cs + ?W) {}"
        using vc_for_each [of ts "\<lambda>t. {#Thread t#}" "\<lambda>t. abind (release thread_join (Thread t)) ret" "\<lambda>_. {#}" "{}" "socks cs + ?W"]
        by (simp add: sum_singles thrs_def vc)
      have close: "triple (socks cs + ?W) (for_each Client_close cs) (\<lambda>_. ?W) {}"
        using vc_for_each [of cs "\<lambda>s. {#Sock s#}" Client_close "\<lambda>_. {#}" "{}" ?W] cl.destroy
        by (simp add: sum_singles socks_def)
      show "returns (thrs ts + (socks cs + ?W)) (abind (for_each (\<lambda>t. abind (release thread_join (Thread t)) ret) ts)
          (\<lambda>_. abind (for_each Client_close cs) (\<lambda>_. ret 0))) (\<lambda>_. ?W)"
        by (rule returns_triple [OF triple_bind [OF join triple_bind [OF close]]]) (rule triple_ret, simp)
    qed
  qed
  show "returns ?W (abind (WSAManager_close w) (\<lambda>_. ret r)) (\<lambda>_. {#})" for r
    by (rule returns_triple [OF triple_bind [OF wsa.dtor_closes]]) (rule triple_ret, simp)
qed

text \<open>When every connection is refused, no client exists, and the first thread is started on none.\<close>

definition no_server :: decide where
  "no_server c k \<longleftrightarrow> c \<noteq> connect"

lemma Client_open_refused: "\<exists>s'. Client_open no_server s = (Inl Runtime_error, s')"
  by (simp add: Client_open_def abind_def acquire_def request_def release_def tick_def no_server_def LOG_FATAL_def)

text \<open>
  The test client does not survive a missing server. If every connection is refused, \<^verbatim>\<open>main\<close> logs the failure of the first
  client, goes on, and starts its first thread on \<^verbatim>\<open>clients[0]\<close> of an empty vector, for any positive number of clients.
\<close>

lemma client_main_refused: "fst (client_main no_server (Suc n) s) = Inl Out_of_bounds"
proof -
  obtain w v where w: "WSAManager_open no_server s = (Inr w, v)"
    by (simp add: WSAManager_open_def abind_def acquire_def tick_def no_server_def ret_def)
  obtain u where u: "create_clients no_server (Suc n) [] v = (Inr [], u)"
    using Client_open_refused [of v] by (auto simp: try_catch_def abind_def ret_def)
  have start: "start_threads no_server [] [0..<Suc n] [] u = (Inl Out_of_bounds, u)"
    by (simp add: upt_rec [of 0] abind_def out_of_bounds_if_def del: upt_Suc)
  show ?thesis
    unfolding client_main_def local_object_def
    by (simp add: abind_def w u start unwind_def del: create_clients.simps upt_Suc)
qed

section \<open>Properties\<close>

text \<open>
  \<^verbatim>\<open>SingleThreadEcho\<close> closes what it opens. Whatever calls fail, its \<^verbatim>\<open>main\<close> does not throw, names only open objects, and
  on its exit, with either code, no socket and no Winsock session is left.
\<close>

lemma single_main_closes_all:
  assumes "keeps_open serve" and "single_main os serve s = (r, s')"
  shows "(\<exists>code. r = Inr code) \<and> opened s' = opened s"
  using tripleD [OF single_main_triple [OF assms(1)], of s "opened s"] assms(2) by (cases r) auto

text \<open>
  \<^verbatim>\<open>MultiThreadEcho\<close> never exits normally. Its accepting thread is neither joined nor detached, so that leaving \<^verbatim>\<open>main\<close>
  destroys a joinable thread; every other path throws.
\<close>

lemma multi_main_terminates_abnormally:
  "(\<exists>e s'. multi_main os s = (Inl e, s')) \<and> fst (multi_main (\<lambda>_ _. True) s) = Inl Terminated"
proof -
  have "\<exists>e s'. multi_main os s = (Inl e, s')"
    using multi_main_never [of os] by (cases "multi_main os s"; cases "fst (multi_main os s)") (auto simp: never_returns_def)
  moreover have "fst (multi_main (\<lambda>_ _. True) s) = Inl Terminated"
    by (simp add: multi_main_def local_object_def WSAManager_open_def abind_def acquire_def request_def release_def fatal_if_def
        thread_dtor_def unwind_def ret_def tick_def)
  ultimately show ?thesis by blast
qed

text \<open>
  The test client gives back what it opened. Whenever its \<^verbatim>\<open>main\<close> returns, whatever calls failed in between, all threads
  have been joined and no socket and no Winsock session of it is left open.
\<close>

lemma client_main_closes_all:
  assumes "client_main os n s = (Inr code, s')"
  shows "opened s' = opened s"
  using client_main_returns [of os n] assms by (simp add: returns_def)

end
