(* ===== verification/Test_Client.thy ===== *)
theory Test_Client
  imports Legacy_Network Legacy_Mains
begin

text \<open>
  The client of the integration tests (\<^verbatim>\<open>Tests/Base/Client.hpp\<close>, \<^verbatim>\<open>Tests/Base/Client.cpp\<close>) and the connection
  stress test (\<^verbatim>\<open>Tests/Integration/03_ConnectionStress.cpp\<close>). Transfers use the blocking socket of
  \<open>Legacy_Network\<close>, opening and closing the system calls of \<open>Os_Resources\<close>.
\<close>

section \<open>Transfers\<close>

definition SendByte :: "'s send \<Rightarrow> byte list \<Rightarrow> nat \<Rightarrow> 's \<Rightarrow> (bool \<times> 's) res" where
  "SendByte send buffer len s = SendPacket_loop send len 0 buffer s"

text \<open>\<^verbatim>\<open>len\<close> is an \<^verbatim>\<open>int\<close>: for a negative one the loop is not entered.\<close>

definition test_ReceiveByte :: "'s recv \<Rightarrow> nat \<Rightarrow> int \<Rightarrow> byte list \<Rightarrow> 's \<Rightarrow> (bool \<times> byte list \<times> 's) res" where
  "test_ReceiveByte recv at len buf s = ReceiveByte_loop recv at (nat len) 0 buf s"

text \<open>\<^verbatim>\<open>header->size - sizeof(PACKET_HEADER)\<close> in \<^verbatim>\<open>size_t\<close>, converted to \<^verbatim>\<open>int\<close>; there is no test of the size.\<close>

definition body_length :: "u16 \<Rightarrow> int" where
  "body_length sz = sint (ucast ((ucast sz :: u64) - 4) :: u32)"

definition test_ReceivePacket :: "'s recv \<Rightarrow> byte list \<Rightarrow> 's \<Rightarrow> (PACKET_HEADER option \<times> byte list \<times> 's) res" where
  "test_ReceivePacket recv buf s =
     rbind (test_ReceiveByte recv 0 4 buf s) (\<lambda>(ok, buf, s).
     if \<not> ok then Inr (None, buf, s)
     else
       let header = header_at buf in
       rbind (test_ReceiveByte recv 4 (body_length (h_size header)) buf s) (\<lambda>(ok, buf, s).
       Inr (if ok then Some header else None, buf, s)))"

definition test_SendPacket :: "'s send \<Rightarrow> byte list \<Rightarrow> 's \<Rightarrow> (bool \<times> 's) res" where
  "test_SendPacket send p s = SendByte send p (unat (h_size (header_at p))) s"

definition test_HandlePacket :: "PACKET_HEADER \<Rightarrow> bool" where
  "test_HandlePacket header \<longleftrightarrow> h_id header = c2s_value c2s_Move \<or> h_id header = c2s_value c2s_Chat"

text \<open>\<^verbatim>\<open>sessionHandle_\<close> keeps its value when the packet cannot be received.\<close>

definition ReceiveWelcomePacket :: "'s recv \<Rightarrow> u64 \<Rightarrow> 's \<Rightarrow> (u64 \<times> 's) res" where
  "ReceiveWelcomePacket recv sessionHandle s =
     rbind (test_ReceivePacket recv (replicate S2C_CHAT_size 0) s) (\<lambda>(header, welcomePacket, s).
     Inr (case header of None \<Rightarrow> sessionHandle | Some _ \<Rightarrow> u64_at welcomePacket 4, s))"

lemma body_length_wide: "4 \<le> unat sz \<Longrightarrow> body_length sz = int (unat sz) - 4"
proof -
  assume a: "4 \<le> unat sz"
  let ?x = "(ucast sz :: u64) - 4"
  have n: "unat sz < 65536" by (rule unat_lt_u16)
  have "unat ?x = unat sz - 4" using a by (subst unat_sub) (simp_all add: word_le_nat_alt)
  then have u: "unat (ucast ?x :: u32) = unat sz - 4" using n by (subst unat_ucast_u64_u32) simp_all
  have w: "sint w = int (unat w)" if "unat w < 2 ^ 31" for w :: u32
  proof -
    have "uint w < 2 ^ 31" using that by (metis of_nat_less_iff of_nat_numeral of_nat_power uint_nat)
    moreover have "- (2 ^ 31) \<le> uint w" by (rule order_trans [OF _ uint_ge_0]) simp
    ultimately have "signed_take_bit 31 (uint w) = uint w" by (simp only: signed_take_bit_int_eq_self)
    then show ?thesis by (simp add: sint_uint)
  qed
  have "body_length sz = int (unat (ucast ?x :: u32))" unfolding body_length_def using n by (intro w) (simp add: u)
  then show ?thesis unfolding u using a by (simp only: of_nat_diff of_nat_numeral)
qed

text \<open>A loop that is asked for more than the buffer holds writes behind it, once enough bytes have arrived.\<close>

lemma ReceiveByte_loop_overrun:
  assumes sock: "stream_socket recv unread" and "at + got \<le> length buf" "length buf < at + len" "len - got \<le> length (unread s)"
  shows "ReceiveByte_loop recv at len got buf s = Inl Out_of_bounds"
  using assms(2-4)
proof (induction "len - got" arbitrary: got buf s rule: less_induct)
  case less
  then have g: "got < len" by linarith
  then have "unread s \<noteq> []" using less.prems(3) by auto
  then obtain bs t where r: "recv (len - got) s = (Received bs, t)" "bs \<noteq> []" "length bs \<le> len - got" "unread s = bs @ unread t"
    using sock g unfolding stream_socket_def by (metis zero_less_diff)
  show ?case
  proof (cases "at + got + length bs \<le> length buf")
    case True
    let ?b = "take (at + got) buf @ bs @ drop (at + got + length bs) buf"
    have "0 < length bs" using r(2) by simp
    then have "len - (got + length bs) < len - got" using g by linarith
    moreover have "len - (got + length bs) \<le> length (unread t)" using less.prems(3) r(4) by simp
    moreover have "length ?b = length buf" using True by simp
    ultimately have "ReceiveByte_loop recv at len (got + length bs) ?b t = Inl Out_of_bounds"
      using less.hyps [of "got + length bs" ?b t] less.prems(2) True by simp
    then show ?thesis using ReceiveByte_loop_step [of got len recv s bs t at buf] g r(1,2) True by simp
  next
    case False
    then show ?thesis using g r by (subst ReceiveByte_loop.simps) (simp add: put_range_def)
  qed
qed

lemma test_ReceivePacket_stream:
  assumes sock: "stream_socket recv unread" and s: "unread s = p @ rest"
    and p: "4 \<le> length p" "unat (h_size (header_at p)) = length p"
  shows "length p \<le> length buf \<Longrightarrow> \<exists>t. test_ReceivePacket recv buf s = Inr (Some (header_at p), p @ drop (length p) buf, t) \<and> unread t = rest"
    and "4 \<le> length buf \<Longrightarrow> length buf < length p \<Longrightarrow> test_ReceivePacket recv buf s = Inl Out_of_bounds"
proof -
  let ?b = "take 4 p @ drop 4 buf"
  have first: "\<exists>t. test_ReceiveByte recv 0 4 buf s = Inr (True, ?b, t) \<and> unread t = drop 4 p @ rest" if "4 \<le> length buf"
    using ReceiveByte_loop_stream [OF sock, of 0 4 buf 0 s] s p(1) that by (simp add: test_ReceiveByte_def)
  have h: "header_at ?b = header_at p" using p(1) by (intro header_within) simp_all
  have l: "nat (body_length (h_size (header_at p))) = length p - 4" using p by (simp add: body_length_wide)
  show "\<exists>t. test_ReceivePacket recv buf s = Inr (Some (header_at p), p @ drop (length p) buf, t) \<and> unread t = rest" if b: "length p \<le> length buf"
  proof -
    obtain t where t: "test_ReceiveByte recv 0 4 buf s = Inr (True, ?b, t)" "unread t = drop 4 p @ rest" using first p(1) b by auto
    have "length p - 4 \<le> length (drop 4 p @ rest)" by simp
    then have "length p - 4 - 0 \<le> length (unread t)" unfolding t(2) by simp
    then obtain u where u: "ReceiveByte_loop recv 4 (length p - 4) 0 ?b t = Inr (True, take 4 ?b @ drop 4 p @ drop (length p) ?b, u)" "unread u = rest"
      using ReceiveByte_loop_stream [OF sock, of 4 "length p - 4" ?b 0 t] t(2) p(1) b by fastforce
    have "take 4 ?b @ drop 4 p @ drop (length p) ?b = p @ drop (length p) buf" using p(1) by simp
    then show ?thesis using t(1) u h l by (simp add: test_ReceivePacket_def test_ReceiveByte_def [of recv 4])
  qed
  show "test_ReceivePacket recv buf s = Inl Out_of_bounds" if b: "4 \<le> length buf" "length buf < length p"
  proof -
    obtain t where t: "test_ReceiveByte recv 0 4 buf s = Inr (True, ?b, t)" "unread t = drop 4 p @ rest" using first b by auto
    have "ReceiveByte_loop recv 4 (length p - 4) 0 ?b t = Inl Out_of_bounds"
      using ReceiveByte_loop_overrun [OF sock, of 4 0 ?b "length p - 4" t] t(2) p(1) b by simp
    then show ?thesis using t(1) h l by (simp add: test_ReceivePacket_def test_ReceiveByte_def [of recv 4])
  qed
qed

section \<open>Connecting\<close>

text \<open>
  \<open>code\<close> is what \<^verbatim>\<open>WSAGetLastError\<close> answers, and \<^verbatim>\<open>AdditionalSockOpt\<close> the virtual function. When \<^verbatim>\<open>Connect\<close>
  fails it closes the socket and leaves its number in \<^verbatim>\<open>socket_\<close>. Results are the value of \<^verbatim>\<open>Init\<close> and of \<^verbatim>\<open>socket_\<close>;
  receiving the welcome packet opens nothing.
\<close>

definition WSAECONNREFUSED :: int where "WSAECONNREFUSED = 10061"

definition WSAGetLastError :: "(nat \<Rightarrow> int) \<Rightarrow> int act" where
  "WSAGetLastError code s = (Inr (code (call_count s)), s)"

definition CreateSocket :: "decide \<Rightarrow> nat act" where
  "CreateSocket os = abind (acquire os socket [] Sock) (\<lambda>sock. case sock of None \<Rightarrow> LOG_FATAL | Some s \<Rightarrow> ret s)"

definition DefaultSockOpt :: "decide \<Rightarrow> nat \<Rightarrow> unit act" where
  "DefaultSockOpt os s =
     abind (request os setsockopt [Sock s]) (\<lambda>_. abind (request os setsockopt [Sock s]) (\<lambda>_. ret ()))"

definition Test_Connect :: "decide \<Rightarrow> (nat \<Rightarrow> int) \<Rightarrow> nat \<Rightarrow> int act" where
  "Test_Connect os code s =
     abind (request os connect [Sock s]) (\<lambda>ok.
     if ok then ret 0
     else abind (WSAGetLastError code) (\<lambda>errorCode. abind (release closesocket (Sock s)) (\<lambda>_. ret errorCode)))"

definition Test_Init :: "decide \<Rightarrow> (nat \<Rightarrow> int) \<Rightarrow> (nat \<Rightarrow> unit act) \<Rightarrow> (int \<times> nat) act" where
  "Test_Init os code AdditionalSockOpt =
     abind (CreateSocket os) (\<lambda>s.
     abind (DefaultSockOpt os s) (\<lambda>_.
     abind (AdditionalSockOpt s) (\<lambda>_.
     abind (Test_Connect os code s) (\<lambda>result. ret (result, s)))))"

definition Test_dtor :: "nat option \<Rightarrow> nat \<Rightarrow> unit act" where
  "Test_dtor sock w =
     abind (case sock of None \<Rightarrow> ret () | Some s \<Rightarrow> release closesocket (Sock s)) (\<lambda>_. WSAManager_close w)"

text \<open>\<^verbatim>\<open>StressClient\<close>, and the loops of \<^verbatim>\<open>ConnectionStressTest::ThreadFunc\<close>: whether the thread goes on with the next client.\<close>

definition StressClient_AdditionalSockOpt :: "decide \<Rightarrow> nat \<Rightarrow> unit act" where
  "StressClient_AdditionalSockOpt os s = abind (request os setsockopt [Sock s]) (\<lambda>_. ret ())"

fun stress_attempts :: "decide \<Rightarrow> (nat \<Rightarrow> int) \<Rightarrow> nat \<Rightarrow> nat option \<Rightarrow> (bool \<times> nat option) act" where
  "stress_attempts os code 0 sock = ret (True, sock)"
| "stress_attempts os code (Suc n) sock =
     abind (Test_Init os code (StressClient_AdditionalSockOpt os)) (\<lambda>(result, s).
     if result = 0 then ret (True, Some s)
     else if result = WSAECONNREFUSED then stress_attempts os code n (Some s)
     else ret (False, Some s))"

text \<open>An exception leaves \<^verbatim>\<open>socket_\<close> invalid, since only \<^verbatim>\<open>CreateSocket\<close> throws.\<close>

definition stress_client :: "decide \<Rightarrow> (nat \<Rightarrow> int) \<Rightarrow> bool act" where
  "stress_client os code =
     abind (WSAManager_open os) (\<lambda>w.
     abind (unwind (stress_attempts os code 32 None) (Test_dtor None w)) (\<lambda>(goes_on, sock).
     abind (Test_dtor sock w) (\<lambda>_. ret goes_on)))"

fun stress_ThreadFunc :: "decide \<Rightarrow> (nat \<Rightarrow> int) \<Rightarrow> nat \<Rightarrow> unit act" where
  "stress_ThreadFunc os code 0 = ret ()"
| "stress_ThreadFunc os code (Suc n) =
     abind (stress_client os code) (\<lambda>goes_on. if goes_on then stress_ThreadFunc os code n else ret ())"

text \<open>New sockets get numbers that are not in use.\<close>

definition fresh :: "sys \<Rightarrow> bool" where
  "fresh s \<longleftrightarrow> (\<forall>k\<ge>next_id s. Sock k \<notin># opened s)"

definition refusing :: decide where
  "refusing c k \<longleftrightarrow> c \<noteq> connect"

lemma Test_Init_refused:
  assumes "fresh s" "\<forall>k. code k \<noteq> 0"
  shows "\<exists>result k s'. Test_Init refusing code (StressClient_AdditionalSockOpt refusing) s = (Inr (result, k), s') \<and> result \<noteq> 0 \<and>
    opened s' = opened s \<and> fresh s' \<and> Sock k \<notin># opened s'"
  using assms
  by (simp add: Test_Init_def CreateSocket_def DefaultSockOpt_def StressClient_AdditionalSockOpt_def Test_Connect_def WSAGetLastError_def
      abind_def acquire_def request_def release_def tick_def ret_def refusing_def fresh_def)

lemma stress_attempts_refused:
  assumes "fresh s" "\<forall>k. code k \<noteq> 0"
  shows "\<exists>b k s'. stress_attempts refusing code (Suc n) sock s = (Inr (b, Some k), s') \<and> opened s' = opened s \<and> Sock k \<notin># opened s'"
  using assms(1)
proof (induction n arbitrary: s sock)
  case 0
  obtain result k s' where "Test_Init refusing code (StressClient_AdditionalSockOpt refusing) s = (Inr (result, k), s')" "result \<noteq> 0"
    "opened s' = opened s" "Sock k \<notin># opened s'" using Test_Init_refused [OF 0 assms(2)] by blast
  then show ?case by (cases "result = WSAECONNREFUSED") (auto simp: abind_def ret_def)
next
  case (Suc n)
  obtain result k s' where i: "Test_Init refusing code (StressClient_AdditionalSockOpt refusing) s = (Inr (result, k), s')" "result \<noteq> 0"
    "opened s' = opened s" "fresh s'" "Sock k \<notin># opened s'" using Test_Init_refused [OF Suc.prems assms(2)] by blast
  have "stress_attempts refusing code (Suc (Suc n)) sock s =
      (if result = WSAECONNREFUSED then stress_attempts refusing code (Suc n) (Some k) s' else (Inr (False, Some k), s'))"
    unfolding stress_attempts.simps(2) [of refusing code "Suc n"] using i(1,2) by (simp add: abind_def ret_def)
  then show ?case using Suc.IH [OF i(4), of "Some k"] i(3,5) by (metis (no_types))
qed

text \<open>
  The stress test closes sockets twice. When no attempt of a client connects, \<^verbatim>\<open>Connect\<close> has closed the socket of the last
  attempt, and the destructor closes the same number again. By then Windows may have given it to another of the hundred threads.
\<close>

lemma stress_client_closes_twice:
  assumes "fresh s" and "\<forall>k. code k \<noteq> 0"
  shows "fst (stress_ThreadFunc refusing code (Suc n) s) = Inl Not_open"
proof -
  obtain w v where w: "WSAManager_open refusing s = (Inr w, v)" "opened v = add_mset (Winsock w) (opened s)" "fresh v"
    using assms(1) by (simp add: WSAManager_open_def abind_def acquire_def tick_def refusing_def ret_def fresh_def)
  obtain b k u where u: "stress_attempts refusing code 32 None v = (Inr (b, Some k), u)" "Sock k \<notin># opened u"
    using stress_attempts_refused [OF w(3) assms(2), of 31 None] by (auto simp: eval_nat_numeral(3) [of "num.Bit1 num.One"] simp del: stress_attempts.simps)
  have "stress_client refusing code s = (Inl Not_open, u)"
    unfolding stress_client_def using w(1) u by (simp add: abind_def unwind_def Test_dtor_def release_def)
  then show ?thesis by (simp add: abind_def)
qed

text \<open>
  Receiving in the tests. From a stream that starts with a packet, \<^verbatim>\<open>ReceivePacket\<close> gets exactly this packet into any buffer
  that holds it, but it never asks how large the buffer is: into a smaller one it writes past the end,
  as \<^verbatim>\<open>FragmentationTest\<close> does with its 412 bytes and an \<^verbatim>\<open>S2C_CHAT\<close> of 268.
\<close>

lemma test_ReceivePacket_overruns:
  assumes "stream_socket recv unread" "unread s = p @ rest" "4 \<le> length p" "unat (h_size (header_at p)) = length p" "4 \<le> length buf"
  shows "if length p \<le> length buf
    then \<exists>t. test_ReceivePacket recv buf s = Inr (Some (header_at p), p @ drop (length p) buf, t) \<and> unread t = rest
    else test_ReceivePacket recv buf s = Inl Out_of_bounds"
  using test_ReceivePacket_stream [OF assms(1-4), of buf] assms(5) by auto

end
