(* ===== verification/Test_Properties.thy ===== *)
theory Test_Properties
  imports Test_Client Server_Errors
begin

text \<open>
  The integration tests (\<^verbatim>\<open>Tests/Integration\<close>) against the server: the buffers they send, what the server's framing and
  handlers make of them, and what the tests' client (\<open>Test_Client\<close>) gets back.
\<close>

section \<open>The welcome packet at the client\<close>

text \<open>
  The handle never arrives. Whatever handle the server gives a session, a test client that receives the bytes of its
  welcome packet ends with \<^verbatim>\<open>sessionHandle_ = 0\<close>: the field is never set, and the decimal handle is cut off by the size.
\<close>

lemma welcome_handle_lost:
  assumes "stream_socket recv unread" "unread s = take (packet_size (welcomePacket h)) (welcomePacket h) @ rest"
  shows "\<exists>t. ReceiveWelcomePacket recv old s = Inr (0, t) \<and> unread t = rest"
proof -
  let ?p = "take (packet_size (welcomePacket h)) (welcomePacket h)"
  have z: "u64_bytes 0 = replicate 8 0" by (simp add: u64_bytes_def le_bytes_numeral replicate_eval)
  note w = welcomePacket_wf [of h]
  have l: "length ?p = packet_size (welcomePacket h)" "4 \<le> length ?p" "length ?p \<le> 25" using w length_lld [of h] by simp_all
  have hd: "header_at ?p = header_at (welcomePacket h)" using l by (intro header_at_take) simp
  have "unat (h_size (header_at ?p)) = length ?p" unfolding hd l(1) by (simp add: packet_size_def)
  then obtain t where t: "test_ReceivePacket recv (replicate S2C_CHAT_size 0) s =
      Inr (Some (header_at ?p), ?p @ drop (length ?p) (replicate S2C_CHAT_size 0), t)" "unread t = rest"
    using test_ReceivePacket_stream(1) [OF assms l(2), of "replicate S2C_CHAT_size 0"] l(3) by (auto simp: S2C_CHAT_size_def)
  let ?b = "?p @ replicate (268 - length ?p) 0"
  have "take 8 (drop 4 ?b) = replicate 8 0"
  proof (rule nth_equalityI)
    show "length (take 8 (drop 4 ?b)) = length (replicate 8 0)" using l by simp
    fix k assume "k < length (take 8 (drop 4 ?b))"
    then have k: "k < 8" by simp
    then have "welcomePacket h ! (4 + k) = 0" by (simp add: welcomePacket_def z nth_append)
    then show "take 8 (drop 4 ?b) ! k = replicate 8 0 ! k" using k l by (simp add: nth_append)
  qed
  then have "u64_at ?b 4 = 0" by (simp add: u64_at_def replicate_eval)
  then show ?thesis using t by (simp add: ReceiveWelcomePacket_def S2C_CHAT_size_def)
qed

section \<open>The buffers of the tests\<close>

text \<open>\<^verbatim>\<open>sprintf\<close> with \<^verbatim>\<open>"%03d "\<close> or \<^verbatim>\<open>"%04d "\<close>, and the loops that print one number after the other behind the header.\<close>

definition pad_decimal :: "nat \<Rightarrow> nat \<Rightarrow> byte list" where
  "pad_decimal k i = map (\<lambda>j. word_of_nat (48 + i div 10 ^ (k - 1 - j) mod 10)) [0..<k] @ [32]"

fun sprintf_loop :: "nat \<Rightarrow> nat list \<Rightarrow> byte list \<Rightarrow> byte list res" where
  "sprintf_loop k [] buf = Inr buf"
| "sprintf_loop k (i # is) buf =
     rbind (put_range buf (header_size + i * (k + 1)) (pad_decimal k i @ [0])) (\<lambda>buf. sprintf_loop k is buf)"

definition fragmentation_sendBuf :: "byte list res" where
  "fragmentation_sendBuf =
     sprintf_loop 3 [0..<100] (header_bytes \<lparr>h_size = 404, h_id = c2s_value c2s_Chat\<rparr> @ replicate (404 - header_size) 0)"

definition sticky_sendBuf :: "byte list res" where
  "sticky_sendBuf =
     rbind (sprintf_loop 4 [0..<5000]
       (header_bytes \<lparr>h_size = 25004, h_id = c2s_value c2s_Chat\<rparr> @ replicate (76000 - header_size) 0)) (\<lambda>buf.
     rbind (put_range buf 25004 (take 25004 buf)) (\<lambda>buf.
     put_range buf 50008 (take 25004 buf)))"

lemma length_pad_decimal [simp]: "length (pad_decimal k i) = k + 1"
  by (simp add: pad_decimal_def)

lemma sprintf_loop_ok:
  "\<forall>i\<in>set is. 4 + i * (k + 1) + (k + 2) \<le> length buf \<Longrightarrow>
   \<exists>buf'. sprintf_loop k is buf = Inr buf' \<and> length buf' = length buf \<and> take 4 buf' = take 4 buf"
proof (induction "is" arbitrary: buf)
  case (Cons i "is")
  let ?at = "4 + i * (k + 1)"
  let ?b = "take ?at buf @ (pad_decimal k i @ [0]) @ drop (?at + (k + 2)) buf"
  have fits: "?at + (k + 2) \<le> length buf" using Cons.prems by simp
  then have p: "put_range buf ?at (pad_decimal k i @ [0]) = Inr ?b" by (simp add: put_range_def)
  have b: "length ?b = length buf" using fits by simp
  then have l: "\<forall>j\<in>set is. 4 + j * (k + 1) + (k + 2) \<le> length ?b" using Cons.prems by (metis list.set_intros(2))
  have "take 4 ?b = take 4 buf" using fits by simp
  then show ?case using Cons.IH [OF l] p b by (auto simp: header_size_def simp del: append_assoc)
qed simp

lemma sprintf_loop_append:
  "sprintf_loop k (is @ js) buf = rbind (sprintf_loop k is buf) (\<lambda>buf. sprintf_loop k js buf)"
proof (induction "is" arbitrary: buf)
  case (Cons i "is")
  have "sprintf_loop k (is @ js) = (\<lambda>buf. rbind (sprintf_loop k is buf) (\<lambda>buf. sprintf_loop k js buf))"
    by (rule ext) (rule Cons.IH)
  then show ?case by (simp add: rbind_assoc)
qed simp

text \<open>
  The fragmentation test writes past its array. The hundredth \<^verbatim>\<open>sprintf_s\<close> fills the last four bytes of \<^verbatim>\<open>sendBuf\<close> and puts its
  terminating zero behind them.
\<close>

lemma fragmentation_test_overruns: "fragmentation_sendBuf = Inl Out_of_bounds"
proof -
  let ?b = "header_bytes \<lparr>h_size = 404, h_id = c2s_value c2s_Chat\<rparr> @ replicate (404 - header_size) 0"
  have l: "length ?b = 404" by (simp add: header_size_def)
  have "[0..<100] = [0..<99] @ [99 :: nat]" by (simp add: upt_eval)
  moreover obtain b where "sprintf_loop 3 [0..<99] ?b = Inr b" "length b = 404"
    using sprintf_loop_ok [of "[0..<99]" 3 ?b] unfolding l by auto
  ultimately show ?thesis unfolding fragmentation_sendBuf_def
    by (simp add: sprintf_loop_append put_range_def header_size_def del: upt_Suc)
qed

text \<open>
  The sticky packets test. Its buffer is filled without overruns and begins with three copies of one chat packet of 25004 bytes.
  The server's framing cuts the 75012 bytes back into these three, in however many receives they arrive, and the replies to
  them are the 75036 bytes the test waits for, each with the size, the identifier and the message it compares.
\<close>

lemma sticky_test_consistent:
  "\<exists>buf p. sticky_sendBuf = Inr buf \<and> take 75012 buf = p @ p @ p \<and> length p = 25004 \<and>
     frames 65536 (take 75012 buf) = ([p, p, p], [], True) \<and> length (concat (map (reply h) [p, p, p])) = 75036 \<and>
     header_at (reply h p) = \<lparr>h_size = 25012, h_id = 2\<rparr> \<and> drop 12 (reply h p) = drop 4 p"
proof -
  let ?hd = "header_bytes \<lparr>h_size = 25004, h_id = c2s_value c2s_Chat\<rparr>"
  let ?b = "?hd @ replicate (76000 - header_size) 0"
  have l: "length ?b = 76000" by (simp add: header_size_def)
  obtain b where b: "sprintf_loop 4 [0..<5000] ?b = Inr b" "length b = 76000" "take 4 b = ?hd"
    using sprintf_loop_ok [of "[0..<5000]" 4 ?b] unfolding l by auto
  let ?p = "take 25004 b"
  let ?b2 = "?p @ ?p @ drop 50008 b" and ?b3 = "?p @ ?p @ ?p @ drop 75012 b"
  have p: "length ?p = 25004" using b(2) by simp
  have put1: "put_range b 25004 ?p = Inr ?b2" using b(2) by (simp add: put_range_def)
  have again: "take 25004 ?b2 = ?p" and put2: "put_range ?b2 50008 ?p = Inr ?b3" using b(2) p by (simp_all add: put_range_def)
  have s: "sticky_sendBuf = Inr ?b3" unfolding sticky_sendBuf_def b(1) rbind_Inr put1 again by (rule put2)
  have t: "take 75012 ?b3 = ?p @ ?p @ ?p" using p by simp
  have "take 4 ?p = ?hd" using b(3) by simp
  then have h: "header_at ?p = \<lparr>h_size = 25004, h_id = c2s_value c2s_Chat\<rparr>"
    using header_at_take [of 4 ?p] header_at_bytes [of _ "[]"] by simp
  then have "frames 65536 (concat [?p, ?p, ?p]) = ([?p, ?p, ?p], [], True)"
    using p by (intro frames_of_packets) (simp add: packet_size_def)
  moreover have r: "reply h ?p = header_bytes \<lparr>h_size = 25012, h_id = 2\<rparr> @ u64_bytes h @ drop 4 ?p"
    using h by (simp add: reply_def)
  ultimately show ?thesis using s t p by (intro exI [of _ ?b3] exI [of _ ?p]) simp
qed

text \<open>
  What it relies on: that the kernel sends fast enough. While the first two replies, which one receive can trigger, wait in the write
  buffer of the receiving session, the third does not fit; \<^verbatim>\<open>SendPacket\<close> drops it, \<^verbatim>\<open>Broadcast\<close> ignores the result, and the test
  waits for bytes that never come.
\<close>

lemma sticky_reply_dropped:
  assumes "ov_wf ov" "mb_size (ov_buffer ov) = 65536" "window ov = reply h p @ reply h p" "length (reply h p) = 25012"
    and "packet_size (reply h p) = 25012"
  shows "SendPacket_store (reply h p) ov = Inr (False, ov)"
  using SendPacket_store_ok [of ov "reply h p"] assms by auto

section \<open>The test of invalid packets\<close>

text \<open>The two headers that the test sends: a size below that of a header, and an identifier that no handler has.\<close>

definition invalid_size_header :: "byte list" where
  "invalid_size_header = header_bytes \<lparr>h_size = word_of_nat header_size - 1, h_id = 0\<rparr>"

definition invalid_id_header :: "byte list" where
  "invalid_id_header = header_bytes \<lparr>h_size = word_of_nat header_size, h_id = - 1\<rparr>"

text \<open>
  The server rejects the first however its bytes arrive, which makes \<^verbatim>\<open>HandleIO\<close> fail and the session disconnect, as the test
  expects. The second would pass the framing and reach \<^verbatim>\<open>Execute\<close>, which indexes the handlers with 65535; the test sends it on
  the connection it expects to be closed, so it does not test what its comment says.
\<close>

lemma invalid_size_rejected:
  assumes "ov_wf ov" "window ov = []" "mb_size (ov_buffer ov) = 65536" "admissible 65536 [] cs" "concat cs = invalid_size_header @ rest"
  shows "\<exists>ov'. deliver log_packet cs ov [] = Inr (False, ov', [])"
proof -
  let ?bs = "invalid_size_header @ rest"
  have "packet_size ?bs = 3" "4 \<le> length ?bs" by (simp_all add: invalid_size_header_def header_size_def packet_size_def)
  then have "frames 65536 (concat cs) = ([], ?bs, False)" using assms(5) by (simp add: frames.simps [of _ ?bs])
  moreover have "frames 65536 [] = ([], [], True)" by (simp add: frames.simps)
  ultimately show ?thesis using deliver_frames [OF assms(1), of cs "[]" ?bs False "[]"] assms(2-4) by auto
qed

lemma invalid_id_accepted:
  "frames 65536 invalid_id_header = ([invalid_id_header], [], True) \<and>
   (mb_read pos header_size b = Inr invalid_id_header \<longrightarrow> Execute cb os i b pos w = Inl Out_of_bounds)"
proof -
  have "packet_size invalid_id_header = 4" "length invalid_id_header = 4" "header_at invalid_id_header = \<lparr>h_size = 4, h_id = - 1\<rparr>"
    using header_at_bytes [of _ "[]"] by (simp_all add: invalid_id_header_def header_size_def packet_size_def)
  moreover from this have "frames 65536 (concat [invalid_id_header]) = ([invalid_id_header], [], True)"
    by (intro frames_of_packets) simp
  moreover have "\<not> unat (- 1 :: u16) < 3" by (simp add: unsigned_minus_1_eq_mask mask_eq_exp_minus_1)
  ultimately show ?thesis by (auto simp: Execute_def handlers_def c2s_count_def aget_def)
qed

section \<open>The broadcast test\<close>





end
