(* ===== verification/Write_Threads.thy ===== *)
theory Write_Threads
  imports Session_Life
begin

text \<open>
  \<^verbatim>\<open>Session::SendPacket\<close>, \<^verbatim>\<open>RegisterWriteInternal\<close> and \<^verbatim>\<open>OnWrite\<close> under several threads. Any thread may send a packet to a
  session, a worker thread handles the completed send, and the kernel reads the region it was given byte by byte while
  threads store behind it. The functions are cut at every statement that reads or writes a member; \<^verbatim>\<open>writeMtx_\<close> is explicit, and what
  it protects and what it does not is a theorem.
\<close>

section \<open>State\<close>

text \<open>
  Where a thread is: the statement of \<^verbatim>\<open>SendPacket\<close>, \<^verbatim>\<open>RegisterWriteInternal\<close> or \<^verbatim>\<open>OnWrite\<close> that comes next. \<open>Send_lock\<close>, \<open>Write_lock\<close>:
  before \<^verbatim>\<open>lock_guard\<close>; \<open>Unlock b\<close>: the function returns \<open>b\<close> and releases the mutex; \<open>Dispatch\<close>: a worker has taken a completion,
  \<open>None\<close> one that reports an error, and has not entered \<^verbatim>\<open>OnWrite\<close>.
\<close>

datatype wr_pc =
    Outside
  | Send_lock "byte list"
  | Send_room "byte list"
  | Send_copy "byte list"
  | Send_advance "byte list"
  | Send_flag
  | Post_prepare
  | Post_call
  | Unlock bool
  | Dispatch "nat option"
  | Write_lock nat
  | Write_advance nat
  | Write_rewind
  | Write_test

text \<open>
  The members of the session, its mutex with the thread that holds it, the send the kernel works on (offset, length and how many
  bytes it has read), the completions it has queued, and what has been accepted from the program and taken by the kernel so far.
\<close>

record writer =
  wr_ov :: OverlappedEx
  wr_isSending :: bool
  wr_mtx :: "nat option"
  wr_flying :: "(nat \<times> nat \<times> nat) option"
  wr_queue :: "nat option list"
  wr_pcs :: "nat \<Rightarrow> wr_pc"
  wr_accepted :: "byte list"
  wr_taken :: "byte list"

definition wr_goto :: "nat \<Rightarrow> wr_pc \<Rightarrow> writer \<Rightarrow> writer" where
  "wr_goto t p s = s\<lparr>wr_pcs := (wr_pcs s)(t := p)\<rparr>"

section \<open>Steps\<close>

definition wr_lock :: "nat \<Rightarrow> wr_pc \<Rightarrow> writer \<Rightarrow> writer" where
  "wr_lock t p s = wr_goto t p (s\<lparr>wr_mtx := Some t\<rparr>)"

definition wr_unlock :: "nat \<Rightarrow> writer \<Rightarrow> writer" where
  "wr_unlock t s = wr_goto t Outside (s\<lparr>wr_mtx := None\<rparr>)"

text \<open>\<^verbatim>\<open>SendPacket\<close>, statement by statement.\<close>

definition wr_room :: "nat \<Rightarrow> byte list \<Rightarrow> writer \<Rightarrow> writer res" where
  "wr_room t packet s =
     (if length packet < header_size then Inl Out_of_bounds
      else
        let n = h_size (header_at packet); ov = wr_ov s in
        if writePos ov - readPos ov + ucast n > ov_size ov then Inr (wr_goto t (Unlock False) s)
        else Inr (wr_goto t (Send_copy packet) s))"

definition wr_copy :: "nat \<Rightarrow> byte list \<Rightarrow> writer \<Rightarrow> writer res" where
  "wr_copy t packet s =
     (if length packet < packet_size packet then Inl Out_of_bounds
      else
        rbind (ov_store (take (packet_size packet) packet) (wr_ov s)) (\<lambda>ov.
        Inr (wr_goto t (Send_advance packet) (s\<lparr>wr_ov := ov\<rparr>))))"

definition wr_advance :: "nat \<Rightarrow> byte list \<Rightarrow> writer \<Rightarrow> writer" where
  "wr_advance t packet s =
     wr_goto t Send_flag
       (s\<lparr>wr_ov := ov_advance_write (packet_size packet) (wr_ov s),
          wr_accepted := wr_accepted s @ take (packet_size packet) packet\<rparr>)"

definition wr_flag :: "nat \<Rightarrow> writer \<Rightarrow> writer" where
  "wr_flag t s =
     (if wr_isSending s then wr_goto t (Unlock True) s
      else wr_goto t Post_prepare (s\<lparr>wr_isSending := True\<rparr>))"

text \<open>\<^verbatim>\<open>RegisterWriteInternal\<close>; \<open>result\<close> and \<open>errorCode\<close> are the outcome of \<^verbatim>\<open>WSASend\<close>.\<close>

definition wr_prepare :: "nat \<Rightarrow> writer \<Rightarrow> writer res" where
  "wr_prepare t s =
     (if \<not> wr_isSending s then Inl Assertion_failed
      else Inr (wr_goto t Post_call (s\<lparr>wr_ov := RegisterWrite_prepare (wr_ov s)\<rparr>)))"

definition wr_post :: "nat \<Rightarrow> int \<Rightarrow> int \<Rightarrow> writer \<Rightarrow> writer res" where
  "wr_post t result errorCode s =
     (if wr_flying s \<noteq> None \<or> wr_queue s \<noteq> [] then Inl Overlapped_busy
      else if result = SOCKET_ERROR \<and> errorCode \<noteq> WSA_IO_PENDING then Inr (wr_goto t (Unlock False) s)
      else Inr (wr_goto t (Unlock True)
        (s\<lparr>wr_flying := Some (unat (wsa_buf (wr_ov s)), unat (wsa_len (wr_ov s)), 0)\<rparr>)))"

text \<open>
  \<^verbatim>\<open>WorkerThread\<close> and \<^verbatim>\<open>Dispatch\<close>: an error or a completion of no bytes disconnects the session, otherwise \<^verbatim>\<open>HandleIO\<close> chooses the
  function by \<^verbatim>\<open>ioType_\<close>.
\<close>

definition wr_dispatch :: "nat \<Rightarrow> nat option \<Rightarrow> writer \<Rightarrow> writer" where
  "wr_dispatch t c s =
     (case c of
        None \<Rightarrow> wr_goto t Outside s
      | Some n \<Rightarrow>
          if n = 0 \<or> ioType (wr_ov s) \<noteq> io_Send then wr_goto t Outside s
          else wr_goto t (Write_lock n) s)"

text \<open>\<^verbatim>\<open>OnWrite\<close>, statement by statement.\<close>

definition wr_completed :: "nat \<Rightarrow> nat \<Rightarrow> writer \<Rightarrow> writer res" where
  "wr_completed t bytesTransferred s =
     (if \<not> wr_isSending s then Inl Assertion_failed
      else Inr (wr_goto t Write_rewind (s\<lparr>wr_ov := ov_advance_read bytesTransferred (wr_ov s)\<rparr>)))"

definition wr_test :: "nat \<Rightarrow> writer \<Rightarrow> writer" where
  "wr_test t s =
     (if readPos (wr_ov s) = writePos (wr_ov s) then wr_goto t (Unlock True) (s\<lparr>wr_isSending := False\<rparr>)
      else wr_goto t Post_prepare s)"

definition wr_go :: "nat \<Rightarrow> int \<Rightarrow> int \<Rightarrow> writer \<Rightarrow> writer res" where
  "wr_go t result errorCode s =
     (case wr_pcs s t of
        Outside \<Rightarrow> Inr s
      | Send_lock packet \<Rightarrow> Inr (wr_lock t (Send_room packet) s)
      | Send_room packet \<Rightarrow> wr_room t packet s
      | Send_copy packet \<Rightarrow> wr_copy t packet s
      | Send_advance packet \<Rightarrow> Inr (wr_advance t packet s)
      | Send_flag \<Rightarrow> Inr (wr_flag t s)
      | Post_prepare \<Rightarrow> wr_prepare t s
      | Post_call \<Rightarrow> wr_post t result errorCode s
      | Unlock b \<Rightarrow> Inr (wr_unlock t s)
      | Dispatch c \<Rightarrow> Inr (wr_dispatch t c s)
      | Write_lock n \<Rightarrow> Inr (wr_lock t (Write_advance n) s)
      | Write_advance n \<Rightarrow> wr_completed t n s
      | Write_rewind \<Rightarrow> Inr (wr_goto t Write_test (s\<lparr>wr_ov := ov_rewind (wr_ov s)\<rparr>))
      | Write_test \<Rightarrow> Inr (wr_test t s))"

text \<open>The kernel reads a byte of the region it was given, from the memory as it is then; it may end early or fail.\<close>

definition kernel_copy :: "writer \<Rightarrow> writer res" where
  "kernel_copy s =
     (case wr_flying s of
        None \<Rightarrow> Inr s
      | Some (buf, len, k) \<Rightarrow>
          rbind (mb_read (buf + k) 1 (ov_buffer (wr_ov s))) (\<lambda>bs.
          Inr (s\<lparr>wr_taken := wr_taken s @ bs, wr_flying := Some (buf, len, Suc k)\<rparr>)))"

definition kernel_ends :: "bool \<Rightarrow> writer \<Rightarrow> writer" where
  "kernel_ends ok s =
     (case wr_flying s of
        None \<Rightarrow> s
      | Some (buf, len, k) \<Rightarrow> s\<lparr>wr_flying := None, wr_queue := wr_queue s @ [if ok then Some k else None]\<rparr>)"

datatype wr_event =
    Call_SendPacket nat "byte list"
  | Run nat int int
  | Kernel_copies
  | Kernel_ends bool
  | Dequeue nat

definition whole_packet :: "byte list \<Rightarrow> bool" where
  "whole_packet packet \<longleftrightarrow> header_size \<le> length packet \<and> 0 < packet_size packet \<and> packet_size packet \<le> length packet"

text \<open>A thread waits for the mutex, the kernel takes no more than it was given.\<close>

definition wr_can :: "wr_event \<Rightarrow> writer \<Rightarrow> bool" where
  "wr_can e s \<longleftrightarrow>
     (case e of
        Call_SendPacket t packet \<Rightarrow> wr_pcs s t = Outside \<and> whole_packet packet
      | Run t _ _ \<Rightarrow>
          (case wr_pcs s t of
             Outside \<Rightarrow> False | Send_lock _ \<Rightarrow> wr_mtx s = None | Write_lock _ \<Rightarrow> wr_mtx s = None | _ \<Rightarrow> True)
      | Kernel_copies \<Rightarrow> (case wr_flying s of None \<Rightarrow> False | Some (buf, len, k) \<Rightarrow> k < len)
      | Kernel_ends _ \<Rightarrow> wr_flying s \<noteq> None
      | Dequeue t \<Rightarrow> wr_pcs s t = Outside \<and> wr_queue s \<noteq> [])"

fun wr_step :: "wr_event \<Rightarrow> writer \<Rightarrow> writer res" where
  "wr_step (Call_SendPacket t packet) s = Inr (wr_goto t (Send_lock packet) s)"
| "wr_step (Run t result errorCode) s = wr_go t result errorCode s"
| "wr_step Kernel_copies s = kernel_copy s"
| "wr_step (Kernel_ends ok) s = Inr (kernel_ends ok s)"
| "wr_step (Dequeue t) s =
     (case wr_queue s of
        [] \<Rightarrow> Inr s
      | c # q \<Rightarrow> Inr (wr_goto t (Dispatch c) (s\<lparr>wr_queue := q\<rparr>)))"

text \<open>A session that has just been connected.\<close>

definition wr_init :: "writer \<Rightarrow> bool" where
  "wr_init s \<longleftrightarrow>
     ov_wf (wr_ov s) \<and> window (wr_ov s) = [] \<and> \<not> wr_isSending s \<and> wr_mtx s = None \<and> wr_flying s = None \<and>
     wr_queue s = [] \<and> (\<forall>t. wr_pcs s t = Outside) \<and> wr_accepted s = [] \<and> wr_taken s = []"

section \<open>Invariant\<close>

text \<open>Who is in charge of the structure \<^verbatim>\<open>writeOv_\<close>; nobody is after a send has failed (\<open>Dropped\<close>).\<close>

datatype baton = Free | Held nat | In_kernel | Queued "nat option" | Dropped

fun locked :: "wr_pc \<Rightarrow> bool" where
  "locked Outside = False"
| "locked (Send_lock _) = False"
| "locked (Dispatch _) = False"
| "locked (Write_lock _) = False"
| "locked _ = True"

fun charged :: "wr_pc \<Rightarrow> bool" where
  "charged Post_prepare = True"
| "charged Post_call = True"
| "charged (Dispatch _) = True"
| "charged (Write_lock _) = True"
| "charged (Write_advance _) = True"
| "charged Write_rewind = True"
| "charged Write_test = True"
| "charged _ = False"

text \<open>What holds where a thread is; \<open>a\<close> is the number of bytes the kernel has taken that are still in the window.\<close>

fun pc_fact :: "OverlappedEx \<Rightarrow> nat \<Rightarrow> wr_pc \<Rightarrow> bool" where
  "pc_fact ov a (Send_lock packet) = whole_packet packet"
| "pc_fact ov a (Send_room packet) = whole_packet packet"
| "pc_fact ov a (Send_copy packet) =
     (whole_packet packet \<and> length (window ov) + packet_size packet \<le> mb_size (ov_buffer ov))"
| "pc_fact ov a (Send_advance packet) =
     (whole_packet packet \<and> ov_wf (ov_advance_write (packet_size packet) ov) \<and>
      window (ov_advance_write (packet_size packet) ov) = window ov @ take (packet_size packet) packet)"
| "pc_fact ov a Send_flag = (window ov \<noteq> [])"
| "pc_fact ov a Post_prepare = (a = 0 \<and> window ov \<noteq> [])"
| "pc_fact ov a Post_call =
     (a = 0 \<and> window ov \<noteq> [] \<and> ioType ov = io_Send \<and> wsa_buf ov = readPos ov \<and> unat (wsa_len ov) = length (window ov))"
| "pc_fact ov a (Dispatch c) = (ioType ov = io_Send \<and> c \<in> {None, Some a})"
| "pc_fact ov a (Write_lock n) = (n = a)"
| "pc_fact ov a (Write_advance n) = (n = a)"
| "pc_fact ov a Write_rewind = (a = 0)"
| "pc_fact ov a Write_test = (a = 0)"
| "pc_fact ov a _ = True"

definition wr_wf :: "writer \<Rightarrow> bool" where
  "wr_wf s \<longleftrightarrow> (if \<exists>t. wr_pcs s t = Write_rewind then ov_loose (wr_ov s) else ov_wf (wr_ov s))"

text \<open>Where the operation handed to the kernel is.\<close>

definition kernel_fact :: "baton \<Rightarrow> nat \<Rightarrow> writer \<Rightarrow> bool" where
  "kernel_fact b a s \<longleftrightarrow>
     (case b of
        In_kernel \<Rightarrow> ioType (wr_ov s) = io_Send \<and> wr_queue s = [] \<and>
          (\<exists>len. wr_flying s = Some (unat (readPos (wr_ov s)), len, a) \<and> a \<le> len \<and> len \<le> length (window (wr_ov s)))
      | Queued c \<Rightarrow> ioType (wr_ov s) = io_Send \<and> wr_flying s = None \<and> wr_queue s = [c] \<and> c \<in> {None, Some a}
      | _ \<Rightarrow> wr_flying s = None \<and> wr_queue s = [])"

definition wr_core :: "baton \<Rightarrow> nat \<Rightarrow> writer \<Rightarrow> bool" where
  "wr_core b a s \<longleftrightarrow>
     wr_wf s \<and>
     (\<forall>t. locked (wr_pcs s t) \<longleftrightarrow> wr_mtx s = Some t) \<and>
     (\<forall>t. charged (wr_pcs s t) \<longleftrightarrow> b = Held t) \<and>
     (\<forall>t. pc_fact (wr_ov s) a (wr_pcs s t)) \<and>
     (wr_isSending s \<longleftrightarrow> b \<noteq> Free) \<and>
     (b = Free \<longrightarrow> a = 0 \<and> (window (wr_ov s) = [] \<or> (\<exists>t. wr_pcs s t = Send_flag))) \<and>
     a \<le> length (window (wr_ov s)) \<and> wr_taken s @ drop a (window (wr_ov s)) = wr_accepted s \<and>
     kernel_fact b a s"

definition wr_inv :: "writer \<Rightarrow> bool" where
  "wr_inv s \<longleftrightarrow> (\<exists>b a. wr_core b a s)"

lemma wr_coreD:
  assumes "wr_core b a s"
  shows "wr_wf s" "\<And>t. locked (wr_pcs s t) \<longleftrightarrow> wr_mtx s = Some t" "\<And>t. charged (wr_pcs s t) \<longleftrightarrow> b = Held t"
    "\<And>t. pc_fact (wr_ov s) a (wr_pcs s t)" "wr_isSending s \<longleftrightarrow> b \<noteq> Free"
    "b = Free \<Longrightarrow> a = 0" "b = Free \<Longrightarrow> window (wr_ov s) = [] \<or> (\<exists>t. wr_pcs s t = Send_flag)"
    "a \<le> length (window (wr_ov s))" "wr_taken s @ drop a (window (wr_ov s)) = wr_accepted s" "kernel_fact b a s"
  using assms by (simp_all add: wr_core_def)

lemma wr_goto_simps [simp]:
  "wr_ov (wr_goto t p s) = wr_ov s" "wr_isSending (wr_goto t p s) = wr_isSending s" "wr_mtx (wr_goto t p s) = wr_mtx s"
  "wr_flying (wr_goto t p s) = wr_flying s" "wr_queue (wr_goto t p s) = wr_queue s"
  "wr_pcs (wr_goto t p s) = (wr_pcs s)(t := p)" "wr_accepted (wr_goto t p s) = wr_accepted s"
  "wr_taken (wr_goto t p s) = wr_taken s"
  by (simp_all add: wr_goto_def)

lemma wr_init_core: "wr_init s \<Longrightarrow> wr_core Free 0 s"
  by (auto simp: wr_init_def wr_core_def wr_wf_def kernel_fact_def)

text \<open>Only the thread that holds the mutex can be at a statement that changes the structure.\<close>

lemma wr_alone:
  assumes "wr_core b a s" "locked (wr_pcs s t)" "u \<noteq> t"
  shows "\<not> locked (wr_pcs s u)"
  using wr_coreD(2) [OF assms(1)] assms(2,3) by auto

lemma wr_wf_ov:
  assumes "wr_core b a s" "locked (wr_pcs s t)" "wr_pcs s t \<noteq> Write_rewind"
  shows "ov_wf (wr_ov s)"
proof -
  have "wr_pcs s u \<noteq> Write_rewind" for u using wr_alone [OF assms(1,2), of u] assms(3) by (cases "u = t") auto
  then show ?thesis using wr_coreD(1) [OF assms(1)] by (simp add: wr_wf_def)
qed

text \<open>
  Threads without the mutex do not mind what becomes of the structure as long as what they are in charge of stays.
\<close>

lemma pc_fact_other:
  assumes "pc_fact ov a p" "\<not> locked p" "charged p \<Longrightarrow> ioType ov' = ioType ov \<and> a' = a"
  shows "pc_fact ov' a' p"
  using assms by (cases p) auto

text \<open>
  A step of the thread \<open>t\<close>, which holds the mutex before or after it: what has to be shown of the new state.
\<close>

lemma wr_step_core:
  assumes I: "wr_core b a s" and pcs: "wr_pcs s' = (wr_pcs s)(t := p)"
    and mtx: "\<And>u. u \<noteq> t \<Longrightarrow> wr_mtx s' = Some u \<longleftrightarrow> wr_mtx s = Some u" "locked p \<longleftrightarrow> wr_mtx s' = Some t"
    and charge: "\<And>u. u \<noteq> t \<Longrightarrow> b' = Held u \<longleftrightarrow> b = Held u" "charged p \<longleftrightarrow> b' = Held t"
    and wf: "if p = Write_rewind then ov_loose (wr_ov s') else ov_wf (wr_ov s')"
    and alone: "\<And>u. u \<noteq> t \<Longrightarrow> \<not> locked (wr_pcs s u)"
    and fact: "pc_fact (wr_ov s') a' p"
    and others: "b' = b \<or> b = Held t \<or> b = Free" "b \<noteq> Held t \<Longrightarrow> ioType (wr_ov s') = ioType (wr_ov s) \<and> a' = a"
    and sending: "wr_isSending s' \<longleftrightarrow> b' \<noteq> Free"
    and free: "b' = Free \<Longrightarrow> a' = 0 \<and> (window (wr_ov s') = [] \<or> p = Send_flag)"
    and data: "a' \<le> length (window (wr_ov s'))" "wr_taken s' @ drop a' (window (wr_ov s')) = wr_accepted s'"
    and kernel: "kernel_fact b' a' s'"
  shows "wr_core b' a' s'"
proof -
  note D = wr_coreD [OF I]
  have "pc_fact (wr_ov s') a' (wr_pcs s' u)" for u
  proof (cases "u = t")
    case False
    have "charged (wr_pcs s u) \<Longrightarrow> b \<noteq> Held t" using D(3) [of u] False by auto
    then show ?thesis using pc_fact_other [OF D(4) alone [OF False]] others(2) False pcs by auto
  qed (use fact pcs in simp)
  moreover have "wr_wf s'"
  proof (cases "\<exists>u. wr_pcs s' u = Write_rewind")
    case True
    then have "p = Write_rewind" using alone pcs by (metis fun_upd_apply locked.simps(13))
    then show ?thesis using wf True by (simp add: wr_wf_def)
  next
    case False
    then have "p \<noteq> Write_rewind" using pcs by (metis fun_upd_same)
    then show ?thesis using wf False by (simp add: wr_wf_def)
  qed
  moreover have "locked (wr_pcs s' u) \<longleftrightarrow> wr_mtx s' = Some u" "charged (wr_pcs s' u) \<longleftrightarrow> b' = Held u" for u
    using mtx charge pcs D(2,3) by (cases "u = t"; simp)+
  ultimately show ?thesis using sending free data kernel pcs unfolding wr_core_def by (metis fun_upd_same)
qed

text \<open>A step of a thread that does not hold the mutex, or of the kernel, leaves the structure alone.\<close>

lemma pc_fact_uncharged: "pc_fact ov a p \<Longrightarrow> \<not> charged p \<Longrightarrow> pc_fact ov a' p"
  by (cases p) auto

lemma wr_outside_core:
  assumes I: "wr_core b a s" and pcs: "wr_pcs s' = (wr_pcs s)(t := p)" "\<not> locked (wr_pcs s t)" "\<not> locked p"
    and same: "wr_ov s' = wr_ov s" "wr_mtx s' = wr_mtx s" "wr_isSending s' = wr_isSending s"
      "wr_taken s' = wr_taken s" "wr_accepted s' = wr_accepted s"
    and charge: "\<And>u. u \<noteq> t \<Longrightarrow> b' = Held u \<longleftrightarrow> b = Held u" "charged p \<longleftrightarrow> b' = Held t" "b' = Free \<longleftrightarrow> b = Free"
    and fact: "pc_fact (wr_ov s) a p" and kernel: "kernel_fact b' a s'"
  shows "wr_core b' a s'"
proof -
  note D = wr_coreD [OF I]
  have rewind: "wr_pcs s' u = q \<longleftrightarrow> wr_pcs s u = q" if "locked q" for u q
    using pcs that by (cases "u = t") auto
  have "locked (wr_pcs s' u) \<longleftrightarrow> wr_mtx s' = Some u" "charged (wr_pcs s' u) \<longleftrightarrow> b' = Held u"
    "pc_fact (wr_ov s') a (wr_pcs s' u)" for u
    using D(2-4) [of u] pcs same charge fact by (cases "u = t"; auto)+
  moreover have "wr_wf s'" using D(1) same rewind [of Write_rewind] by (simp add: wr_wf_def)
  moreover have "b' = Free \<Longrightarrow> window (wr_ov s') = [] \<or> (\<exists>t. wr_pcs s' t = Send_flag)"
    using D(7) charge(3) same rewind [of Send_flag] by auto
  ultimately show ?thesis using D(5,6,8,9) same charge(3) kernel unfolding wr_core_def by (simp del: fun_upd_apply)
qed

lemma wr_kernel_core:
  assumes I: "wr_core b a s" and b: "b = In_kernel" "\<And>u. b' \<noteq> Held u" "b' \<noteq> Free"
    and same: "wr_pcs s' = wr_pcs s" "wr_ov s' = wr_ov s" "wr_mtx s' = wr_mtx s" "wr_isSending s' = wr_isSending s"
      "wr_accepted s' = wr_accepted s"
    and data: "a' \<le> length (window (wr_ov s))" "wr_taken s' @ drop a' (window (wr_ov s)) = wr_accepted s"
    and kernel: "kernel_fact b' a' s'"
  shows "wr_core b' a' s'"
proof -
  note D = wr_coreD [OF I]
  have u: "\<not> charged (wr_pcs s u)" for u using D(3) b(1) by simp
  have "pc_fact (wr_ov s') a' (wr_pcs s' u)" for u using pc_fact_uncharged [OF D(4) u] same by simp
  then show ?thesis using D(1,2,5) u same b data kernel unfolding wr_core_def wr_wf_def by simp
qed

lemma wr_free_mutex:
  assumes "wr_core b a s" "wr_mtx s = None"
  shows "\<not> locked (wr_pcs s u)" "ov_wf (wr_ov s)" "b = Free \<Longrightarrow> window (wr_ov s) = []"
proof -
  note D = wr_coreD [OF assms(1)]
  show n: "\<not> locked (wr_pcs s u)" for u using D(2) assms(2) by simp
  show "ov_wf (wr_ov s)" using D(1) n by (metis locked.simps(13) wr_wf_def)
  show "window (wr_ov s) = []" if "b = Free" using D(7) [OF that] n by (metis locked.simps(8))
qed

lemma kernel_fact_frame:
  assumes "kernel_fact b a s" "readPos (wr_ov s') = readPos (wr_ov s)" "ioType (wr_ov s') = ioType (wr_ov s)"
    "length (window (wr_ov s)) \<le> length (window (wr_ov s'))" "wr_flying s' = wr_flying s" "wr_queue s' = wr_queue s"
  shows "kernel_fact b a s'"
  using assms by (auto simp: kernel_fact_def split: baton.splits)

lemma kernel_fact_idle:
  assumes "kernel_fact b a s" "b = Held t \<or> b = Free" "wr_flying s' = wr_flying s" "wr_queue s' = wr_queue s"
    "b' = Held u \<or> b' = Free \<or> b' = Dropped"
  shows "kernel_fact b' a' s'"
  using assms by (auto simp: kernel_fact_def)

lemma wr_lockedD:
  assumes I: "wr_core b a s" and p: "wr_pcs s t = p" "locked p"
  shows "wr_mtx s = Some t" "\<And>u. u \<noteq> t \<Longrightarrow> \<not> locked (wr_pcs s u)" "p \<noteq> Write_rewind \<Longrightarrow> ov_wf (wr_ov s)"
    "p \<noteq> Send_flag \<Longrightarrow> b = Free \<Longrightarrow> window (wr_ov s) = []" "charged p \<longleftrightarrow> b = Held t" "pc_fact (wr_ov s) a p"
proof -
  note D = wr_coreD [OF I]
  have l: "locked (wr_pcs s t)" using p by simp
  show "wr_mtx s = Some t" "charged p \<longleftrightarrow> b = Held t" "pc_fact (wr_ov s) a p" using D(2-4) [of t] p by simp_all
  show alone: "\<not> locked (wr_pcs s u)" if "u \<noteq> t" for u by (rule wr_alone [OF I l that])
  show "ov_wf (wr_ov s)" if "p \<noteq> Write_rewind" by (rule wr_wf_ov [OF I l]) (use that p in simp)
  have "wr_pcs s u \<noteq> Send_flag" if "p \<noteq> Send_flag" for u using alone [of u] that p by (cases "u = t") auto
  then show "window (wr_ov s) = []" if "p \<noteq> Send_flag" "b = Free" using D(7) that by blast
qed

section \<open>Every step keeps the invariant\<close>

lemma lock_core:
  assumes I: "wr_core b a s" and t: "wr_mtx s = None" "\<not> locked (wr_pcs s t)" "locked p" "p \<noteq> Write_rewind" "p \<noteq> Send_flag"
    "charged p \<longleftrightarrow> charged (wr_pcs s t)" "pc_fact (wr_ov s) a p"
  shows "wr_core b a (wr_lock t p s)"
proof -
  note D = wr_coreD [OF I] and F = wr_free_mutex [OF I t(1)]
  show ?thesis
    by (rule wr_step_core [OF I, where t = t and p = p])
      (use t D F in \<open>simp_all add: wr_lock_def kernel_fact_frame [OF D(10)]\<close>)
qed

lemma unlock_core:
  assumes I: "wr_core b a s" and t: "wr_pcs s t = Unlock x"
  shows "wr_core b a (wr_unlock t s)"
proof -
  note D = wr_coreD [OF I] and L = wr_lockedD [OF I t, simplified]
  show ?thesis
    by (rule wr_step_core [OF I, where t = t and p = Outside])
      (use D L in \<open>simp_all add: wr_unlock_def kernel_fact_frame [OF D(10)]\<close>)
qed

lemma store_window:
  assumes wf: "ov_wf ov" and fits: "length (window ov) + length xs \<le> mb_size (ov_buffer ov)"
  shows "\<exists>ov'. ov_store xs ov = Inr ov' \<and> ov_wf ov' \<and> window ov' = window ov \<and> readPos ov' = readPos ov \<and>
    ioType ov' = ioType ov \<and> wsa_buf ov' = wsa_buf ov \<and> wsa_len ov' = wsa_len ov \<and>
    ov_wf (ov_advance_write (length xs) ov') \<and> window (ov_advance_write (length xs) ov') = window ov @ xs"
proof -
  obtain ov' where o: "ov_store xs ov = Inr ov'" "ov_wf (ov_advance_write (length xs) ov')"
    "window (ov_advance_write (length xs) ov') = window ov @ xs" "readPos ov' = readPos ov" "writePos ov' = writePos ov"
    "mb_size (ov_buffer ov') = mb_size (ov_buffer ov)" "ioType ov' = ioType ov" "wsa_buf ov' = wsa_buf ov"
    "wsa_len ov' = wsa_len ov" using window_store [OF wf fits] by blast
  have len: "length (window ov') = length (window ov)" using o by (simp add: length_window)
  have "ov_wf ov'" using wf o(2,4,5,6) by (auto simp: ov_wf_def ov_advance_write_def)
  moreover have "window ov' = window ov"
  proof (rule nth_equalityI [OF len])
    fix k assume k: "k < length (window ov')"
    then have k': "k < length (window (ov_advance_write (length xs) ov'))" using len o(3) by simp
    have "window ov' ! k = window (ov_advance_write (length xs) ov') ! k"
      using window_nth [OF k] window_nth [OF k'] by (simp add: ov_advance_write_def)
    then show "window ov' ! k = window ov ! k" using o(3) k len by (simp add: nth_append)
  qed
  ultimately show ?thesis using o by blast
qed

lemma room_core:
  assumes I: "wr_core b a s" and t: "wr_pcs s t = Send_room packet"
  shows "\<exists>s'. wr_room t packet s = Inr s' \<and> wr_core b a s'"
proof -
  note D = wr_coreD [OF I] and L = wr_lockedD [OF I t, simplified]
  note W = ov_wfD [OF L(3)] and A = available_data [OF L(3)]
  let ?n = "h_size (header_at packet)"
  have n: "packet_size packet = unat ?n" by (simp add: packet_size_def)
  have "unat (writePos (wr_ov s) - readPos (wr_ov s) + ucast ?n) = length (window (wr_ov s)) + unat ?n"
    using W A unat_lt_u16 [of ?n] by (subst unat_plus_small64) simp_all
  then have full: "ov_size (wr_ov s) < writePos (wr_ov s) - readPos (wr_ov s) + ucast ?n \<longleftrightarrow>
      mb_size (ov_buffer (wr_ov s)) < length (window (wr_ov s)) + packet_size packet"
    using W(9) n by (simp add: word_less_nat_alt)
  have "wr_core b a (wr_goto t q s)" if "q = Unlock False \<or> q = Send_copy packet \<and> pc_fact (wr_ov s) a q" for q
    by (rule wr_step_core [OF I, where t = t and p = q])
      (use that D L in \<open>auto simp: kernel_fact_frame [OF D(10)]\<close>)
  then show ?thesis using L(6) full by (auto simp: wr_room_def whole_packet_def Let_def)
qed

lemma copy_core:
  assumes I: "wr_core b a s" and t: "wr_pcs s t = Send_copy packet"
  shows "\<exists>s'. wr_copy t packet s = Inr s' \<and> wr_core b a s'"
proof -
  note D = wr_coreD [OF I] and L = wr_lockedD [OF I t, simplified]
  let ?xs = "take (packet_size packet) packet"
  have len: "length ?xs = packet_size packet" using L(6) by (simp add: whole_packet_def)
  obtain ov where o: "ov_store ?xs (wr_ov s) = Inr ov" "ov_wf ov" "window ov = window (wr_ov s)" "readPos ov = readPos (wr_ov s)"
    "ioType ov = ioType (wr_ov s)" "ov_wf (ov_advance_write (packet_size packet) ov)"
    "window (ov_advance_write (packet_size packet) ov) = window (wr_ov s) @ ?xs"
    using store_window [OF L(3), of ?xs] L(6) len by auto
  have "wr_core b a (wr_goto t (Send_advance packet) (s\<lparr>wr_ov := ov\<rparr>))"
    by (rule wr_step_core [OF I, where t = t and p = "Send_advance packet"])
      (use D L o in \<open>simp_all add: kernel_fact_frame [OF D(10)]\<close>)
  then show ?thesis using L(6) o by (simp add: wr_copy_def whole_packet_def)
qed

lemma advance_core:
  assumes I: "wr_core b a s" and t: "wr_pcs s t = Send_advance packet"
  shows "wr_core b a (wr_advance t packet s)"
proof -
  note D = wr_coreD [OF I] and L = wr_lockedD [OF I t, simplified]
  have "packet \<noteq> []" using L(6) by (auto simp: whole_packet_def)
  show ?thesis
    by (rule wr_step_core [OF I, where t = t and p = Send_flag])
      (use D L \<open>packet \<noteq> []\<close> in \<open>simp_all add: wr_advance_def whole_packet_def kernel_fact_frame [OF D(10)] ov_advance_write_def
        flip: append_assoc\<close>)
qed

lemma flag_core:
  assumes I: "wr_core b a s" and t: "wr_pcs s t = Send_flag"
  shows "\<exists>b'. wr_core b' a (wr_flag t s)"
proof -
  note D = wr_coreD [OF I] and L = wr_lockedD [OF I t, simplified]
  show ?thesis
  proof (cases "wr_isSending s")
    case True
    have "wr_core b a (wr_flag t s)"
      by (rule wr_step_core [OF I, where t = t and p = "Unlock True"])
        (use D L True in \<open>simp_all add: wr_flag_def kernel_fact_frame [OF D(10)]\<close>)
    then show ?thesis ..
  next
    case False
    then have b: "b = Free" using D(5) by simp
    have "wr_core (Held t) a (wr_flag t s)"
      by (rule wr_step_core [OF I, where t = t and p = Post_prepare])
        (use D L False b in \<open>simp_all add: wr_flag_def kernel_fact_idle [OF D(10)]\<close>)
    then show ?thesis ..
  qed
qed

lemma prepare_core:
  assumes I: "wr_core b a s" and t: "wr_pcs s t = Post_prepare"
  shows "\<exists>s'. wr_prepare t s = Inr s' \<and> wr_core b a s'"
proof -
  note D = wr_coreD [OF I] and L = wr_lockedD [OF I t, simplified]
  note W = ov_wfD [OF L(3)] and A = available_data [OF L(3)]
  define ov where "ov = RegisterWrite_prepare (wr_ov s)"
  have "unat (ucast (writePos (wr_ov s) - readPos (wr_ov s)) :: u32) = length (window (wr_ov s))"
    using W(4,8) A by (subst unat_ucast_u64_u32) simp_all
  then have same: "readPos ov = readPos (wr_ov s)" "window ov = window (wr_ov s)" "ov_wf ov" "ioType ov = io_Send"
    "wsa_buf ov = readPos (wr_ov s)" "unat (wsa_len ov) = length (window (wr_ov s))"
    using L(3) by (simp_all add: ov_def RegisterWrite_prepare_def window_def ov_wf_def)
  have "wr_core b a (wr_goto t Post_call (s\<lparr>wr_ov := ov\<rparr>))"
    by (rule wr_step_core [OF I, where t = t and p = Post_call])
      (use D L same in \<open>simp_all add: kernel_fact_idle [OF D(10)]\<close>)
  then show ?thesis using D(5) L(5) by (simp add: wr_prepare_def ov_def)
qed

lemma post_core:
  assumes I: "wr_core b a s" and t: "wr_pcs s t = Post_call"
  shows "\<exists>s' b'. wr_post t result errorCode s = Inr s' \<and> wr_core b' a s'"
proof -
  note D = wr_coreD [OF I] and L = wr_lockedD [OF I t, simplified]
  have idle: "wr_flying s = None" "wr_queue s = []" using D(10) L(5) by (simp_all add: kernel_fact_def)
  have "wr_core Dropped a (wr_goto t (Unlock False) s)"
    by (rule wr_step_core [OF I, where t = t and p = "Unlock False"])
      (use D L in \<open>simp_all add: kernel_fact_idle [OF D(10)]\<close>)
  moreover have "wr_core In_kernel a (wr_goto t (Unlock True)
      (s\<lparr>wr_flying := Some (unat (wsa_buf (wr_ov s)), unat (wsa_len (wr_ov s)), 0)\<rparr>))"
    by (rule wr_step_core [OF I, where t = t and p = "Unlock True"])
      (use D L idle in \<open>simp_all add: kernel_fact_def\<close>)
  ultimately show ?thesis using idle by (auto simp: wr_post_def)
qed

lemma completed_core:
  assumes I: "wr_core b a s" and t: "wr_pcs s t = Write_advance n"
  shows "\<exists>s'. wr_completed t n s = Inr s' \<and> wr_core b 0 s'"
proof -
  note D = wr_coreD [OF I] and L = wr_lockedD [OF I t, simplified]
  note R = loose_advance_read [OF ov_wf_loose [OF L(3)] D(8)]
  have "wr_core b 0 (wr_goto t Write_rewind (s\<lparr>wr_ov := ov_advance_read n (wr_ov s)\<rparr>))"
    by (rule wr_step_core [OF I, where t = t and p = Write_rewind])
      (use D L R in \<open>simp_all add: kernel_fact_idle [OF D(10)]\<close>)
  then show ?thesis using D(5) L(5) by (simp add: wr_completed_def)
qed

lemma rewind_core:
  assumes I: "wr_core b a s" and t: "wr_pcs s t = Write_rewind"
  shows "wr_core b a (wr_goto t Write_test (s\<lparr>wr_ov := ov_rewind (wr_ov s)\<rparr>))"
proof -
  note D = wr_coreD [OF I] and L = wr_lockedD [OF I t, simplified]
  have "ov_loose (wr_ov s)" using D(1) t by (auto simp: wr_wf_def split: if_splits)
  note R = rewind_restores [OF this]
  show ?thesis
    by (rule wr_step_core [OF I, where t = t and p = Write_test])
      (use D L R in \<open>simp_all add: kernel_fact_idle [OF D(10)]\<close>)
qed

lemma test_core:
  assumes I: "wr_core b a s" and t: "wr_pcs s t = Write_test"
  shows "\<exists>b'. wr_core b' a (wr_test t s)"
proof -
  note D = wr_coreD [OF I] and L = wr_lockedD [OF I t, simplified]
  note E = window_empty_iff [OF L(3)]
  show ?thesis
  proof (cases "window (wr_ov s) = []")
    case True
    have "wr_core Free a (wr_test t s)"
      by (rule wr_step_core [OF I, where t = t and p = "Unlock True"])
        (use D L E True in \<open>simp_all add: wr_test_def kernel_fact_idle [OF D(10)]\<close>)
    then show ?thesis ..
  next
    case False
    have "wr_core b a (wr_test t s)"
      by (rule wr_step_core [OF I, where t = t and p = Post_prepare])
        (use D L E False in \<open>simp_all add: wr_test_def kernel_fact_idle [OF D(10)]\<close>)
    then show ?thesis ..
  qed
qed

lemma call_core:
  assumes I: "wr_core b a s" and t: "wr_pcs s t = Outside" "whole_packet packet"
  shows "wr_core b a (wr_goto t (Send_lock packet) s)"
proof -
  note D = wr_coreD [OF I]
  have "b \<noteq> Held t" using D(3) [of t] t(1) by simp
  then show ?thesis
    by (intro wr_outside_core [OF I, where t = t and p = "Send_lock packet"])
      (use D t in \<open>simp_all add: kernel_fact_frame [OF D(10)]\<close>)
qed

lemma dispatch_core:
  assumes I: "wr_core b a s" and t: "wr_pcs s t = Dispatch c"
  shows "\<exists>b'. wr_core b' a (wr_dispatch t c s)"
proof -
  note D = wr_coreD [OF I]
  have b: "b = Held t" and c: "ioType (wr_ov s) = io_Send" "c = None \<or> c = Some a" using D(3,4) [of t] t by auto
  have "wr_core Dropped a (wr_goto t Outside s)"
    by (rule wr_outside_core [OF I, where t = t and p = Outside])
      (use D t b in \<open>simp_all add: kernel_fact_idle [OF D(10)]\<close>)
  moreover have "wr_core b a (wr_goto t (Write_lock a) s)"
    by (rule wr_outside_core [OF I, where t = t and p = "Write_lock a"])
      (use D t b in \<open>simp_all add: kernel_fact_idle [OF D(10)]\<close>)
  ultimately show ?thesis using c by (auto simp: wr_dispatch_def)
qed

lemma dequeue_core:
  assumes I: "wr_core b a s" and t: "wr_pcs s t = Outside" "wr_queue s = c # q"
  shows "wr_core (Held t) a (wr_goto t (Dispatch c) (s\<lparr>wr_queue := q\<rparr>))"
proof -
  note D = wr_coreD [OF I]
  have b: "b = Queued c" "ioType (wr_ov s) = io_Send" "c \<in> {None, Some a}" "q = []" "wr_flying s = None"
    using D(10) t(2) by (auto simp: kernel_fact_def split: baton.splits)
  show ?thesis
    by (rule wr_outside_core [OF I, where t = t and p = "Dispatch c"])
      (use D t b in \<open>simp_all add: kernel_fact_def\<close>)
qed

lemma ends_core:
  assumes I: "wr_core b a s" and k: "wr_flying s \<noteq> None"
  shows "\<exists>b'. wr_core b' a (kernel_ends ok s)"
proof -
  note D = wr_coreD [OF I]
  obtain len where b: "b = In_kernel" "wr_flying s = Some (unat (readPos (wr_ov s)), len, a)" "wr_queue s = []"
    "ioType (wr_ov s) = io_Send"
    using D(10) k by (auto simp: kernel_fact_def split: baton.splits)
  have "wr_core (Queued (if ok then Some a else None)) a (kernel_ends ok s)"
    by (rule wr_kernel_core [OF I b(1)])
      (use D b in \<open>simp_all add: kernel_ends_def kernel_fact_def\<close>)
  then show ?thesis ..
qed

lemma kernel_copy_core:
  assumes I: "wr_core b a s" and k: "wr_flying s = Some (buf, len, k)" "k < len"
  shows "\<exists>s'. kernel_copy s = Inr s' \<and> wr_core b (Suc a) s'"
proof -
  note D = wr_coreD [OF I]
  have b: "b = In_kernel" "buf = unat (readPos (wr_ov s))" "k = a" "len \<le> length (window (wr_ov s))" "wr_queue s = []"
    "ioType (wr_ov s) = io_Send"
    using D(10) k by (auto simp: kernel_fact_def split: baton.splits)
  have a: "a < length (window (wr_ov s))" using b k by simp
  have "ov_loose (wr_ov s)" using D(1) ov_wf_loose by (auto simp: wr_wf_def split: if_splits)
  note L = ov_looseD [OF this]
  have r: "mb_read (buf + k) 1 (ov_buffer (wr_ov s)) = Inr [window (wr_ov s) ! a]"
    using L(4,5) a b window_nth [OF a] by (simp add: mb_read_def)
  let ?s = "s\<lparr>wr_taken := wr_taken s @ [window (wr_ov s) ! a], wr_flying := Some (buf, len, Suc k)\<rparr>"
  have "wr_taken ?s @ drop (Suc a) (window (wr_ov s)) = wr_accepted s"
    using D(9) Cons_nth_drop_Suc [OF a] by simp
  then have "wr_core b (Suc a) ?s"
    by (intro wr_kernel_core [OF I b(1)]) (use D b k a in \<open>simp_all add: kernel_fact_def\<close>)
  then show ?thesis using k r by (simp add: kernel_copy_def)
qed

text \<open>No step faults.\<close>

lemma wr_invI: "wr_core b a s \<Longrightarrow> wr_inv s"
  by (auto simp: wr_inv_def)

lemma wr_go_ok:
  assumes I: "wr_core b a s" and e: "wr_can (Run t result errorCode) s"
  shows "\<exists>s'. wr_go t result errorCode s = Inr s' \<and> wr_inv s'"
proof (cases "wr_pcs s t")
  case (Send_lock packet)
  then have "wr_core b a (wr_lock t (Send_room packet) s)"
    using lock_core [OF I] wr_coreD(4) [OF I, of t] e by (simp add: wr_can_def)
  then show ?thesis using Send_lock by (auto simp: wr_go_def intro: wr_invI)
next
  case (Write_lock n)
  then have "wr_core b a (wr_lock t (Write_advance n) s)"
    using lock_core [OF I] wr_coreD(4) [OF I, of t] e by (simp add: wr_can_def)
  then show ?thesis using Write_lock by (auto simp: wr_go_def intro: wr_invI)
next
  case (Send_room packet)
  then show ?thesis using room_core [OF I Send_room] by (auto simp: wr_go_def intro: wr_invI)
next
  case (Send_copy packet)
  then show ?thesis using copy_core [OF I Send_copy] by (auto simp: wr_go_def intro: wr_invI)
next
  case Post_prepare
  then show ?thesis using prepare_core [OF I Post_prepare] by (auto simp: wr_go_def intro: wr_invI)
next
  case Post_call
  then show ?thesis using post_core [OF I Post_call, of result errorCode] by (auto simp: wr_go_def intro: wr_invI)
next
  case (Write_advance n)
  then show ?thesis using completed_core [OF I Write_advance] by (auto simp: wr_go_def intro: wr_invI)
next
  case Outside
  then show ?thesis using e by (simp add: wr_can_def)
next
  case (Send_advance packet)
  then show ?thesis using advance_core [OF I Send_advance] by (simp add: wr_go_def wr_invI)
next
  case Send_flag
  then show ?thesis using flag_core [OF I Send_flag] by (auto simp: wr_go_def intro: wr_invI)
next
  case (Unlock x)
  then show ?thesis using unlock_core [OF I Unlock] by (simp add: wr_go_def wr_invI)
next
  case (Dispatch c)
  then show ?thesis using dispatch_core [OF I Dispatch] by (auto simp: wr_go_def intro: wr_invI)
next
  case Write_rewind
  then show ?thesis using rewind_core [OF I Write_rewind] by (simp add: wr_go_def wr_invI)
next
  case Write_test
  then show ?thesis using test_core [OF I Write_test] by (auto simp: wr_go_def intro: wr_invI)
qed

lemma wr_event_ok:
  assumes "wr_inv s" "wr_can e s"
  shows "\<exists>s'. wr_step e s = Inr s' \<and> wr_inv s'"
proof -
  obtain b a where I: "wr_core b a s" using assms(1) by (auto simp: wr_inv_def)
  show ?thesis
  proof (cases e)
    case (Call_SendPacket t packet)
    then show ?thesis using assms(2) wr_invI [OF call_core [OF I]] by (simp add: wr_can_def)
  next
    case (Run t result errorCode)
    then show ?thesis using wr_go_ok [OF I] assms(2) by simp
  next
    case Kernel_copies
    then show ?thesis using assms(2) kernel_copy_core [OF I]
      by (fastforce simp: wr_can_def intro: wr_invI split: option.splits)
  next
    case (Kernel_ends ok)
    then show ?thesis using assms(2) ends_core [OF I] by (auto simp: wr_can_def intro: wr_invI)
  next
    case (Dequeue t)
    then show ?thesis using assms(2) dequeue_core [OF I, of t]
      by (auto simp: wr_can_def neq_Nil_conv intro: wr_invI)
  qed
qed

interpretation wr: event_system wr_init wr_can wr_step wr_inv
proof
  show "wr_inv s" if "wr_init s" for s using wr_init_core [OF that] by (auto simp: wr_inv_def)
  show "wr_inv t" if "wr_inv s" "wr_can e s" "wr_step e s = Inr t" for s e t
    using wr_event_ok [OF that(1,2)] that(3) by auto
qed

end
