(* ===== verification/Write_Properties.thy ===== *)
theory Write_Properties
  imports Write_Threads
begin

text \<open>
  What holds of the sending side of a session in every interleaving of threads and kernel: the theorems rest on the interpretation
  \<open>wr\<close> of the contract of event systems.
\<close>

section \<open>A small run for the witnesses\<close>

definition wr_sample :: writer where
  "wr_sample = \<lparr>wr_ov = sample_ov, wr_isSending = False, wr_mtx = None, wr_flying = None, wr_queue = [],
     wr_pcs = (\<lambda>_. Outside), wr_accepted = [], wr_taken = []\<rparr>"

lemma wr_sample_init: "wr_init wr_sample"
  by (simp add: wr_init_def wr_sample_def sample_ov_wf)

text \<open>Two packets are sent by two threads; the second is stored while the kernel reads the first.\<close>

definition wr_two_packets :: "wr_event list" where
  "wr_two_packets =
     [Call_SendPacket 0 [4, 0, 2, 0], Call_SendPacket 1 [4, 0, 1, 0]] @ replicate 8 (Run 0 0 0) @
     [Run 1 0 0, Kernel_copies, Run 1 0 0, Run 1 0 0, Kernel_copies, Run 1 0 0]"

lemma wr_sample_reached:
  assumes "run_events wr_can wr_step es wr_sample = Inr s"
  shows "reach wr_init (event_trans wr_can wr_step) s"
  by (rule wr.run_reach [OF reach.reach_init assms]) (rule wr_sample_init)

lemma wr_core_reached:
  assumes "reach wr_init (event_trans wr_can wr_step) s"
  obtains b a where "wr_core b a s"
  using wr.reach_I [OF assms] by (auto simp: wr_inv_def)




lemma wr_two_packets_run:
  obtains s where "run_events wr_can wr_step wr_two_packets wr_sample = Inr s" "wr_taken s = [4, 0]"
    "wr_accepted s = [4, 0, 2, 0, 4, 0, 1, 0]" "wr_pcs s 0 = Outside" "wr_pcs s 1 = Send_flag" "wr_flying s = Some (0, 4, 2)"
proof -
  have "map_sum id (\<lambda>s. (wr_taken s, wr_accepted s, wr_pcs s 0, wr_pcs s 1, wr_flying s))
      (run_events wr_can wr_step wr_two_packets wr_sample) =
    Inr ([4, 0], [4, 0, 2, 0, 4, 0, 1, 0], Outside, Send_flag, Some (0, 4, 2))" by code_simp
  then show ?thesis using that by (cases "run_events wr_can wr_step wr_two_packets wr_sample") auto
qed

section \<open>Properties\<close>

text \<open>
  C9: concurrent sends. Whatever threads call \<^verbatim>\<open>SendPacket\<close> on a session, however their statements interleave with the completions
  handled by the worker threads, and whenever the kernel reads the bytes of the region it was given: no statement
  faults (no assertion fails, no copy leaves the buffer, \<^verbatim>\<open>WSASend\<close> is never called on a structure in use), and the bytes the
  kernel has taken followed by the rest of the write buffer are the bytes of the accepted packets in the order in which their
  \<^verbatim>\<open>SendPacket\<close> had the mutex.
\<close>

theorem concurrent_writes_fifo:
  assumes "reach wr_init (event_trans wr_can wr_step) s"
  shows "(\<forall>e. wr_can e s \<longrightarrow> (\<exists>s'. wr_step e s = Inr s')) \<and>
    (\<exists>a\<le>length (window (wr_ov s)). wr_taken s @ drop a (window (wr_ov s)) = wr_accepted s)"
proof -
  have I: "wr_inv s" by (rule wr.reach_I [OF assms])
  obtain b a where c: "wr_core b a s" by (rule wr_core_reached [OF assms])
  have "\<exists>s'. wr_step e s = Inr s'" if "wr_can e s" for e using wr_event_ok [OF I that] by blast
  then show ?thesis using wr_coreD(8,9) [OF c] by blast
qed

theorem concurrent_writes_fifo_witness:
  "\<exists>s a. run_events wr_can wr_step wr_two_packets wr_sample = Inr s \<and>
     [4, 0] @ drop a (window (wr_ov s)) = [4, 0, 2, 0, 4, 0, 1, 0]"
proof -
  obtain s where s: "run_events wr_can wr_step wr_two_packets wr_sample = Inr s" "wr_taken s = [4, 0]"
    "wr_accepted s = [4, 0, 2, 0, 4, 0, 1, 0]" by (rule wr_two_packets_run)
  show ?thesis using concurrent_writes_fifo [OF wr_sample_reached [OF s(1)]] s by metis
qed

text \<open>
  C12: who has \<^verbatim>\<open>writeOv_\<close>. At any moment at most one of these uses the overlapped structure, and none while \<^verbatim>\<open>isSending_\<close> is false: a
  thread between its decision to send and \<^verbatim>\<open>WSASend\<close>, the kernel, the completion queue, and the worker that handles the
  completion. The worker reads and clears members of the structure before it locks \<^verbatim>\<open>writeMtx_\<close>; the flag is what makes that safe.
\<close>

theorem overlapped_has_one_user:
  assumes "reach wr_init (event_trans wr_can wr_step) s"
  shows "finite {t. charged (wr_pcs s t)} \<and>
    length (wr_queue s) + (if wr_flying s = None then 0 else 1) + card {t. charged (wr_pcs s t)} \<le> (if wr_isSending s then 1 else 0)"
proof -
  obtain b a where c: "wr_core b a s" by (rule wr_core_reached [OF assms])
  note D = wr_coreD [OF c]
  have "{t. charged (wr_pcs s t)} = (case b of Held t \<Rightarrow> {t} | _ \<Rightarrow> {})" using D(3) by (auto split: baton.splits)
  then show ?thesis using D(5,10) by (auto simp: kernel_fact_def split: baton.splits)
qed

theorem overlapped_has_one_user_witness:
  "\<exists>s. run_events wr_can wr_step wr_two_packets wr_sample = Inr s \<and> wr_isSending s \<and> card {t. charged (wr_pcs s t)} = 0"
proof -
  obtain s where s: "run_events wr_can wr_step wr_two_packets wr_sample = Inr s" "wr_flying s = Some (0, 4, 2)"
    by (rule wr_two_packets_run)
  then show ?thesis using overlapped_has_one_user [OF wr_sample_reached [OF s(1)]] by (auto split: if_splits)
qed

text \<open>A state in which \<^verbatim>\<open>isSending_\<close> is set and nobody is sending.\<close>

definition wr_dropped :: "writer \<Rightarrow> bool" where
  "wr_dropped s \<longleftrightarrow> wr_isSending s \<and> wr_flying s = None \<and> wr_queue s = [] \<and> (\<forall>t. \<not> charged (wr_pcs s t))"

lemma dropped_core: "wr_core b a s \<Longrightarrow> wr_dropped s \<longleftrightarrow> b = Dropped"
  using wr_coreD(3,5,10) [of b a s] by (auto simp: wr_dropped_def kernel_fact_def split: baton.splits)














section \<open>The steps put together\<close>






lemma wr_goto_goto: "wr_goto t p (wr_goto t q s) = wr_goto t p s"
  by (simp add: wr_goto_def)

lemma wr_back: "wr_pcs s t = Outside \<Longrightarrow> wr_mtx s = None \<Longrightarrow> s\<lparr>wr_mtx := None, wr_pcs := (wr_pcs s)(t := Outside)\<rparr> = s"
  by (cases s) (auto simp: fun_eq_iff)







end
