(* ===== verification/Accept_Threads.thy ===== *)
theory Accept_Threads
  imports Server_World
begin

text \<open>
  \<^verbatim>\<open>Listener::PostAccept\<close>, \<^verbatim>\<open>RegisterAccept\<close> and \<^verbatim>\<open>DecrementPendingAccepts\<close> under several threads. \<^verbatim>\<open>PostAccept\<close> is called by the
  main thread, by every worker that takes a completed accept, and by every thread that lets go of the last reference to a session;
  there is no mutex, only the atomic counter \<^verbatim>\<open>pendingAccepts_\<close> with its loop of compare and exchange.
\<close>

section \<open>State\<close>

text \<open>Where the session of a slot is: in the pool, with a thread, with the kernel, in the completion queue, in use, or lost.\<close>

datatype place = Absent | In_pool | With nat | Posted | Completed | In_use | Leaked

text \<open>
  The next access of a thread. \<open>c\<close> is what it does when \<^verbatim>\<open>PostAccept\<close> returns: nothing, or handle the accept of a session.
  \<open>Get_listener i\<close>: a worker has taken the completed accept of session \<open>i\<close>.
\<close>

datatype ac_pc =
    Resting
  | Load_pending "nat option"
  | Exchange "nat option" u64
  | Create_session "nat option"
  | Undo_create "nat option"
  | Post_accept "nat option" nat
  | Undo_accept "nat option" nat
  | Set_listener "nat option" nat
  | Get_listener nat
  | Decrement_pending nat
  | Handle_accept nat

text \<open>\<open>ac_size\<close>: the number of slots; \<open>ac_listener\<close>: the sessions whose \<^verbatim>\<open>listener_\<close> has been set; it is never reset.\<close>

record acceptor =
  ac_size :: nat
  ac_pending :: u64
  ac_place :: "nat \<Rightarrow> place"
  ac_listener :: "nat set"
  ac_queue :: "nat list"
  ac_pcs :: "nat \<Rightarrow> ac_pc"

definition ac_goto :: "nat \<Rightarrow> ac_pc \<Rightarrow> acceptor \<Rightarrow> acceptor" where
  "ac_goto t p s = s\<lparr>ac_pcs := (ac_pcs s)(t := p)\<rparr>"

definition ac_put :: "nat \<Rightarrow> place \<Rightarrow> acceptor \<Rightarrow> acceptor" where
  "ac_put i p s = s\<lparr>ac_place := (ac_place s)(i := p)\<rparr>"

section \<open>Steps\<close>

text \<open>\<^verbatim>\<open>PostAccept\<close> returns; its result is not used.\<close>

definition ac_return :: "nat \<Rightarrow> nat option \<Rightarrow> acceptor \<Rightarrow> acceptor" where
  "ac_return t c s = ac_goto t (case c of None \<Rightarrow> Resting | Some i \<Rightarrow> Handle_accept i) s"

definition ac_load :: "u64 \<Rightarrow> nat \<Rightarrow> nat option \<Rightarrow> acceptor \<Rightarrow> acceptor" where
  "ac_load limit t c s =
     (let current = ac_pending s in
      if current \<ge> limit then ac_return t c s else ac_goto t (Exchange c current) s)"

definition ac_exchange :: "nat \<Rightarrow> nat option \<Rightarrow> u64 \<Rightarrow> acceptor \<Rightarrow> acceptor" where
  "ac_exchange t c current s =
     (if ac_pending s = current then ac_goto t (Create_session c) (s\<lparr>ac_pending := current + 1\<rparr>)
      else ac_goto t (Load_pending c) s)"

definition ac_exhausted :: "acceptor \<Rightarrow> bool" where
  "ac_exhausted s \<longleftrightarrow> (\<forall>j\<in>set [0..<ac_size s]. ac_place s j \<noteq> In_pool)"

text \<open>\<^verbatim>\<open>CreateSession\<close>; \<open>i\<close> is the slot the pool chooses.\<close>

definition ac_create :: "nat \<Rightarrow> nat option \<Rightarrow> nat \<Rightarrow> acceptor \<Rightarrow> acceptor" where
  "ac_create t c i s =
     (if ac_exhausted s then ac_goto t (Undo_create c) s
      else ac_goto t (Post_accept c i) (ac_put i (With t) s))"

text \<open>
  \<^verbatim>\<open>RegisterAccept\<close> with the outcome of \<^verbatim>\<open>AcceptEx\<close>. The result is compared with \<^verbatim>\<open>SOCKET_ERROR\<close>, not with \<^verbatim>\<open>FALSE\<close>, so a
  call that failed is taken for one that was posted; the session is then lost.
\<close>

definition ac_post :: "nat \<Rightarrow> nat option \<Rightarrow> nat \<Rightarrow> int \<Rightarrow> int \<Rightarrow> acceptor \<Rightarrow> acceptor" where
  "ac_post t c i result errorCode s =
     (let s = ac_put i (if accepted (AcceptEx i) result errorCode then Posted else Leaked) s in
      if result = SOCKET_ERROR \<and> errorCode \<noteq> WSA_IO_PENDING then ac_goto t (Undo_accept c i) s
      else ac_goto t (Set_listener c i) s)"

text \<open>\<open>sessionPtr->GetListener()->DecrementPendingAccepts()\<close> in the worker, and \<open>GetListener()->HandleAccept()\<close> after it.\<close>

definition ac_deref :: "nat \<Rightarrow> nat \<Rightarrow> acceptor \<Rightarrow> acceptor res" where
  "ac_deref t i s =
     (if i \<in> ac_listener s then Inr (ac_goto t (Decrement_pending i) s) else Inl Null_deref)"

definition ac_handle :: "nat \<Rightarrow> nat \<Rightarrow> acceptor \<Rightarrow> acceptor res" where
  "ac_handle t i s =
     (if i \<in> ac_listener s then Inr (ac_goto t Resting (ac_put i In_use s)) else Inl Null_deref)"

definition ac_go :: "u64 \<Rightarrow> nat \<Rightarrow> nat \<Rightarrow> int \<Rightarrow> int \<Rightarrow> acceptor \<Rightarrow> acceptor res" where
  "ac_go limit t slot result errorCode s =
     (case ac_pcs s t of
        Resting \<Rightarrow> Inr s
      | Load_pending c \<Rightarrow> Inr (ac_load limit t c s)
      | Exchange c current \<Rightarrow> Inr (ac_exchange t c current s)
      | Create_session c \<Rightarrow> Inr (ac_create t c slot s)
      | Undo_create c \<Rightarrow> Inr (ac_return t c (s\<lparr>ac_pending := ac_pending s - 1\<rparr>))
      | Post_accept c i \<Rightarrow> Inr (ac_post t c i result errorCode s)
      | Undo_accept c i \<Rightarrow> Inr (ac_return t c (ac_put i In_use (s\<lparr>ac_pending := ac_pending s - 1\<rparr>)))
      | Set_listener c i \<Rightarrow> Inr (ac_goto t (Load_pending c) (s\<lparr>ac_listener := insert i (ac_listener s)\<rparr>))
      | Get_listener i \<Rightarrow> ac_deref t i s
      | Decrement_pending i \<Rightarrow> Inr (ac_goto t (Load_pending (Some i)) (s\<lparr>ac_pending := ac_pending s - 1\<rparr>))
      | Handle_accept i \<Rightarrow> ac_handle t i s)"

text \<open>
  \<open>Release t i\<close>: the thread gives session \<open>i\<close> back to the pool, whose post-release function is \<^verbatim>\<open>PostAccept\<close>. \<open>Accept_done i\<close>: the
  kernel queues the completion of an accept.
\<close>

datatype ac_event =
    Call_PostAccept nat
  | Release nat nat
  | Advance nat nat int int
  | Accept_done nat
  | Take_accept nat

text \<open>\<^verbatim>\<open>AcceptEx\<close> returns a \<^verbatim>\<open>BOOL\<close>; the pool chooses an idle slot if there is one.\<close>

definition ac_can :: "ac_event \<Rightarrow> acceptor \<Rightarrow> bool" where
  "ac_can e s \<longleftrightarrow>
     (case e of
        Call_PostAccept t \<Rightarrow> ac_pcs s t = Resting
      | Release t i \<Rightarrow> ac_pcs s t = Resting \<and> ac_place s i = In_use
      | Advance t i result _ \<Rightarrow> result \<in> {0, 1} \<and>
          (case ac_pcs s t of
             Resting \<Rightarrow> False | Create_session _ \<Rightarrow> ac_exhausted s \<or> ac_place s i = In_pool | _ \<Rightarrow> True)
      | Accept_done i \<Rightarrow> ac_place s i = Posted
      | Take_accept t \<Rightarrow> ac_pcs s t = Resting \<and> ac_queue s \<noteq> [])"

fun ac_step :: "u64 \<Rightarrow> ac_event \<Rightarrow> acceptor \<Rightarrow> acceptor res" where
  "ac_step limit (Call_PostAccept t) s = Inr (ac_goto t (Load_pending None) s)"
| "ac_step limit (Release t i) s = Inr (ac_goto t (Load_pending None) (ac_put i In_pool s))"
| "ac_step limit (Advance t i result errorCode) s = ac_go limit t i result errorCode s"
| "ac_step limit (Accept_done i) s = Inr (ac_put i Completed (s\<lparr>ac_queue := ac_queue s @ [i]\<rparr>))"
| "ac_step limit (Take_accept t) s =
     (case ac_queue s of
        [] \<Rightarrow> Inr s
      | i # q \<Rightarrow> Inr (ac_goto t (Get_listener i) (ac_put i (With t) (s\<lparr>ac_queue := q\<rparr>))))"

text \<open>A server with \<open>n\<close> idle sessions.\<close>

definition ac_start :: "nat \<Rightarrow> acceptor" where
  "ac_start n = \<lparr>ac_size = n, ac_pending = 0, ac_place = (\<lambda>i. if i < n then In_pool else Absent), ac_listener = {}, ac_queue = [],
     ac_pcs = (\<lambda>_. Resting)\<rparr>"

definition ac_init :: "acceptor \<Rightarrow> bool" where
  "ac_init s \<longleftrightarrow> (\<exists>n. s = ac_start n)"

section \<open>Invariant\<close>

text \<open>What the counter counts: slots the code believes the kernel has, and threads between the exchange and the end of their accept.\<close>

fun counted_place :: "place \<Rightarrow> bool" where
  "counted_place Posted = True"
| "counted_place Completed = True"
| "counted_place Leaked = True"
| "counted_place _ = False"

fun counted_pc :: "ac_pc \<Rightarrow> bool" where
  "counted_pc (Create_session _) = True"
| "counted_pc (Undo_create _) = True"
| "counted_pc (Post_accept _ _) = True"
| "counted_pc (Undo_accept _ _) = True"
| "counted_pc (Get_listener _) = True"
| "counted_pc (Decrement_pending _) = True"
| "counted_pc _ = False"

definition ac_counted :: "acceptor \<Rightarrow> nat" where
  "ac_counted s = card {i. counted_place (ac_place s i)} + card {t. counted_pc (ac_pcs s t)}"

text \<open>The sessions a thread has.\<close>

fun ac_has :: "ac_pc \<Rightarrow> nat set" where
  "ac_has Resting = {}"
| "ac_has (Load_pending c) = set_option c"
| "ac_has (Exchange c _) = set_option c"
| "ac_has (Create_session c) = set_option c"
| "ac_has (Undo_create c) = set_option c"
| "ac_has (Post_accept c i) = insert i (set_option c)"
| "ac_has (Undo_accept c i) = insert i (set_option c)"
| "ac_has (Set_listener c i) = set_option c"
| "ac_has (Get_listener i) = {i}"
| "ac_has (Decrement_pending i) = {i}"
| "ac_has (Handle_accept i) = {i}"

text \<open>Sessions whose accept a thread handles know their listener; those whose accept has been posted know it, or the thread that posted it will say.\<close>

fun ac_served :: "ac_pc \<Rightarrow> nat set" where
  "ac_served (Get_listener i) = {}"
| "ac_served (Post_accept c i) = set_option c"
| "ac_served (Undo_accept c i) = set_option c"
| "ac_served p = ac_has p"

text \<open>What a thread has read of the counter; the session it accepts with is not the one whose accept it handles next.\<close>

fun ac_fact :: "u64 \<Rightarrow> ac_pc \<Rightarrow> bool" where
  "ac_fact limit (Exchange _ current) = (current < limit)"
| "ac_fact limit (Post_accept c i) = (c \<noteq> Some i)"
| "ac_fact limit (Undo_accept c i) = (c \<noteq> Some i)"
| "ac_fact limit _ = True"

definition ac_told :: "nat \<Rightarrow> acceptor \<Rightarrow> bool" where
  "ac_told i s \<longleftrightarrow> i \<in> ac_listener s \<or> (\<exists>u c. ac_pcs s u = Set_listener c i)"

definition ac_inv :: "u64 \<Rightarrow> acceptor \<Rightarrow> bool" where
  "ac_inv limit s \<longleftrightarrow>
     (\<forall>i. ac_place s i \<noteq> Absent \<longrightarrow> i < ac_size s) \<and>
     finite {t. counted_pc (ac_pcs s t)} \<and>
     unat (ac_pending s) = ac_counted s \<and> ac_pending s \<le> limit \<and>
     (\<forall>t. ac_has (ac_pcs s t) \<subseteq> {i. ac_place s i = With t}) \<and>
     (\<forall>t. ac_served (ac_pcs s t) \<subseteq> ac_listener s) \<and>
     (\<forall>t. ac_fact limit (ac_pcs s t)) \<and>
     distinct (ac_queue s) \<and> (\<forall>i. ac_place s i = Completed \<longleftrightarrow> i \<in> set (ac_queue s)) \<and>
     (\<forall>i. ac_place s i \<in> {Posted, Completed} \<longrightarrow> ac_told i s) \<and>
     (\<forall>t i. ac_pcs s t = Get_listener i \<longrightarrow> ac_told i s)"

lemma ac_simps [simp]:
  "ac_size (ac_goto t p s) = ac_size s" "ac_size (ac_put i q s) = ac_size s"
  "ac_pending (ac_goto t p s) = ac_pending s" "ac_pending (ac_put i q s) = ac_pending s"
  "ac_place (ac_goto t p s) = ac_place s" "ac_place (ac_put i q s) = (ac_place s)(i := q)"
  "ac_listener (ac_goto t p s) = ac_listener s" "ac_listener (ac_put i q s) = ac_listener s"
  "ac_queue (ac_goto t p s) = ac_queue s" "ac_queue (ac_put i q s) = ac_queue s"
  "ac_pcs (ac_goto t p s) = (ac_pcs s)(t := p)" "ac_pcs (ac_put i q s) = ac_pcs s"
  by (simp_all add: ac_goto_def ac_put_def)

lemma ac_invD:
  assumes "ac_inv limit s"
  shows "ac_place s i \<noteq> Absent \<Longrightarrow> i < ac_size s" "finite {t. counted_pc (ac_pcs s t)}"
    "unat (ac_pending s) = ac_counted s" "ac_pending s \<le> limit"
    "i \<in> ac_has (ac_pcs s t) \<Longrightarrow> ac_place s i = With t" "i \<in> ac_served (ac_pcs s t) \<Longrightarrow> i \<in> ac_listener s"
    "ac_fact limit (ac_pcs s t)" "distinct (ac_queue s)"
    "ac_place s i = Completed \<longleftrightarrow> i \<in> set (ac_queue s)" "ac_place s i = Posted \<or> ac_place s i = Completed \<Longrightarrow> ac_told i s"
    "ac_pcs s t = Get_listener i \<Longrightarrow> ac_told i s"
  using assms unfolding ac_inv_def subset_iff by auto

lemma finite_places:
  assumes "ac_inv limit s"
  shows "finite {i. counted_place (ac_place s i)}"
proof -
  have "i < ac_size s" if "counted_place (ac_place s i)" for i
    using ac_invD(1) [OF assms, of i] that by (cases "ac_place s i") auto
  then have "{i. counted_place (ac_place s i)} \<subseteq> {..<ac_size s}" by blast
  then show ?thesis by (rule finite_subset) simp
qed

text \<open>
  A thread goes on, one session changes its place, and the other members become what the step makes of them: what has to be
  shown of the new state.
\<close>

lemma ac_move:
  assumes I: "ac_inv limit s"
    and s': "s' = ac_goto t p (ac_put i q (s\<lparr>ac_pending := n, ac_listener := L, ac_queue := Q\<rparr>))"
    and q: "q = ac_place s i \<or> ac_place s i \<noteq> Absent \<and> (\<forall>u. ac_place s i = With u \<longrightarrow> u = t)"
    and n: "unat n + of_bool (counted_place (ac_place s i)) + of_bool (counted_pc (ac_pcs s t)) =
      unat (ac_pending s) + of_bool (counted_place q) + of_bool (counted_pc p)" "n \<le> limit"
    and p: "\<And>j. j \<in> ac_has p \<Longrightarrow> (if j = i then q else ac_place s j) = With t" "ac_served p \<subseteq> L"
      "ac_fact limit p" "\<And>j. p = Get_listener j \<Longrightarrow> ac_told j s"
    and L: "ac_listener s \<subseteq> L" "\<And>c j. ac_pcs s t = Set_listener c j \<Longrightarrow> j \<in> L \<or> p = ac_pcs s t"
    and Q: "distinct Q" "\<And>j. (if j = i then q else ac_place s j) = Completed \<longleftrightarrow> j \<in> set Q"
    and told: "q = Posted \<or> q = Completed \<Longrightarrow> q = ac_place s i \<or> ac_told i s \<or> (\<exists>c. p = Set_listener c i)"
  shows "ac_inv limit s'"
proof -
  note D = ac_invD [OF I]
  have f: "ac_size s' = ac_size s" "ac_pending s' = n" "ac_listener s' = L" "ac_queue s' = Q"
    "ac_place s' = (ac_place s)(i := q)" "ac_pcs s' = (ac_pcs s)(t := p)" by (simp_all add: s')
  have told': "ac_told j s'" if "ac_told j s" for j
  proof -
    consider "j \<in> ac_listener s" | u c where "ac_pcs s u = Set_listener c j" using \<open>ac_told j s\<close> by (auto simp: ac_told_def)
    then show ?thesis
    proof cases
      case (2 u c)
      then have "j \<in> L \<or> ac_pcs s' u = Set_listener c j" using L(2) f(6) by (cases "u = t") auto
      then show ?thesis using f(3) by (auto simp: ac_told_def)
    qed (use L(1) f in \<open>auto simp: ac_told_def\<close>)
  qed
  have "unat (ac_pending s') = ac_counted s'"
    using n(1) D(3) card_update(1) [where P = counted_place and f = "ac_place s" and a = i and v = q, OF finite_places [OF I]]
      card_update(1) [where P = counted_pc and f = "ac_pcs s" and a = t and v = p, OF D(2)] f
    by (simp add: ac_counted_def)
  moreover have "finite {u. counted_pc (ac_pcs s' u)}" 
    using card_update(2) [where P = counted_pc and f = "ac_pcs s" and a = t and v = p, OF D(2)] f by simp
  moreover have "ac_place s' j \<noteq> Absent \<Longrightarrow> j < ac_size s'" for j using D(1) q f by (auto split: if_splits)
  moreover have "ac_has (ac_pcs s' u) \<subseteq> {j. ac_place s' j = With u}" for u
  proof (cases "u = t")
    case False
    then show ?thesis using D(5) [of _ u] q f by auto
  next
    case True
    then show ?thesis using p(1) unfolding f by (simp add: subset_iff)
  qed
  moreover have "ac_served (ac_pcs s' u) \<subseteq> ac_listener s'" for u using D(6) [of _ u] p(2) L(1) f by auto
  moreover have "ac_fact limit (ac_pcs s' u)" for u using D(7) p(3) f by simp
  moreover have "ac_told j s'" if "ac_place s' j \<in> {Posted, Completed}" for j
  proof (cases "j = i")
    case True
    then have qq: "q = Posted \<or> q = Completed" using that unfolding f by simp
    then have "ac_told i s \<or> (\<exists>c. p = Set_listener c i)" using told D(10) [of i] by metis
    moreover have "ac_told i s'" if "p = Set_listener c i" for c
      unfolding ac_told_def f using that by (metis fun_upd_same)
    ultimately show ?thesis using told' True by blast
  qed (use told' D(10) that f in auto)
  moreover have "ac_told j s'" if "ac_pcs s' u = Get_listener j" for u j
    using told' D(11) p(4) that f by (auto split: if_splits)
  ultimately show ?thesis using n(2) Q f unfolding ac_inv_def by auto
qed

lemma ac_stay:
  assumes I: "ac_inv limit s"
    and s': "s' = ac_goto t p (s\<lparr>ac_pending := n, ac_listener := L\<rparr>)"
    and n: "unat n + of_bool (counted_pc (ac_pcs s t)) = unat (ac_pending s) + of_bool (counted_pc p)" "n \<le> limit"
    and p: "ac_has p \<subseteq> ac_has (ac_pcs s t)" "ac_served p \<subseteq> L"
      "ac_fact limit p" "\<And>j. p \<noteq> Get_listener j"
    and L: "ac_listener s \<subseteq> L" "\<And>c j. ac_pcs s t = Set_listener c j \<Longrightarrow> j \<in> L"
  shows "ac_inv limit s'"
proof (rule ac_move [OF I, where i = 0 and q = "ac_place s 0" and Q = "ac_queue s"])
  show "s' = ac_goto t p (ac_put 0 (ac_place s 0) (s\<lparr>ac_pending := n, ac_listener := L, ac_queue := ac_queue s\<rparr>))"
    by (cases s) (simp add: s' ac_goto_def ac_put_def)
  show "(if j = 0 then ac_place s 0 else ac_place s j) = With t" if "j \<in> ac_has p" for j
    using ac_invD(5) [OF I, of j t] p(1) that by auto
qed (use ac_invD(8,9) [OF I] n p L in auto)

lemma ac_load_inv:
  assumes I: "ac_inv limit s" and t: "ac_pcs s t = Load_pending c"
  shows "ac_inv limit (ac_load limit t c s)"
proof (cases "limit \<le> ac_pending s")
  case True
  then show ?thesis using ac_invD(4) [OF I] ac_invD(6) [OF I, of _ t] t
    by (intro ac_stay [OF I, where t = t and p = "case c of None \<Rightarrow> Resting | Some i \<Rightarrow> Handle_accept i"
          and n = "ac_pending s" and L = "ac_listener s"])
      (auto simp: ac_load_def ac_return_def split: option.splits)
next
  case False
  then show ?thesis using ac_invD(4) [OF I] ac_invD(6) [OF I, of _ t] t
    by (intro ac_stay [OF I, where t = t and p = "Exchange c (ac_pending s)" and n = "ac_pending s" and L = "ac_listener s"])
      (auto simp: ac_load_def)
qed

lemma ac_exchange_inv:
  assumes I: "ac_inv limit s" and t: "ac_pcs s t = Exchange c current"
  shows "ac_inv limit (ac_exchange t c current s)"
proof (cases "ac_pending s = current")
  case True
  have lt: "current < limit" using ac_invD(7) [OF I, of t] t by simp
  have "unat current + unat (1 :: u64) < 2 ^ 64" using lt unsigned_less [of limit, where ?'a = nat] by (simp add: word_less_nat_alt)
  then have "unat (current + 1) = unat current + 1" using unat_plus_small64 [of current 1] by simp
  moreover from this have "current + 1 \<le> limit" using lt by (simp add: word_le_nat_alt word_less_nat_alt)
  ultimately show ?thesis using ac_invD(6) [OF I, of _ t] t True
    by (intro ac_stay [OF I, where t = t and p = "Create_session c" and n = "current + 1" and L = "ac_listener s"])
      (auto simp: ac_exchange_def)
next
  case False
  then show ?thesis using ac_invD(4) [OF I] ac_invD(6) [OF I, of _ t] t
    by (intro ac_stay [OF I, where t = t and p = "Load_pending c" and n = "ac_pending s" and L = "ac_listener s"])
      (auto simp: ac_exchange_def)
qed

text \<open>The counter is not zero where the code decrements it.\<close>

lemma pending_minus_one:
  assumes I: "ac_inv limit s" and t: "counted_pc (ac_pcs s t)"
  shows "unat (ac_pending s - 1) + 1 = unat (ac_pending s)" "ac_pending s - 1 \<le> limit"
proof -
  have "0 < card {u. counted_pc (ac_pcs s u)}" using ac_invD(2) [OF I] t by (auto simp: card_gt_0_iff)
  then have "0 < unat (ac_pending s)" using ac_invD(3) [OF I] by (simp add: ac_counted_def)
  then show m: "unat (ac_pending s - 1) + 1 = unat (ac_pending s)" by (metis Suc_eq_plus1 Suc_pred' neq0_conv unat_0 unat_minus_one)
  then show "ac_pending s - 1 \<le> limit" using ac_invD(4) [OF I] by (simp add: word_le_nat_alt)
qed

lemma ac_create_inv:
  assumes I: "ac_inv limit s" and t: "ac_pcs s t = Create_session c" and i: "ac_exhausted s \<or> ac_place s i = In_pool"
  shows "ac_inv limit (ac_create t c i s)"
proof (cases "ac_exhausted s")
  case True
  then show ?thesis using ac_invD(4) [OF I] ac_invD(6) [OF I, of _ t] t
    by (intro ac_stay [OF I, where t = t and p = "Undo_create c" and n = "ac_pending s" and L = "ac_listener s"])
      (auto simp: ac_create_def)
next
  case False
  then have i: "ac_place s i = In_pool" using i by simp
  have q: "j \<in> set (ac_queue s) \<longleftrightarrow> ac_place s j = Completed" for j using ac_invD(9) [OF I] by simp
  have h: "j \<in> set_option c \<Longrightarrow> ac_place s j = With t" for j using ac_invD(5) [OF I, of j t] t by simp
  then have "c \<noteq> Some i" using i by auto
  show ?thesis
    by (rule ac_move [OF I, where t = t and p = "Post_accept c i" and i = i and q = "With t" and n = "ac_pending s"
          and L = "ac_listener s" and Q = "ac_queue s"])
      (use False i q h \<open>c \<noteq> Some i\<close> ac_invD(4,8) [OF I] ac_invD(6) [OF I, of _ t] t in \<open>auto simp: ac_create_def\<close>)
qed

lemma ac_post_inv:
  assumes I: "ac_inv limit s" and t: "ac_pcs s t = Post_accept c i" and r: "result \<in> {0, 1}"
  shows "ac_inv limit (ac_post t c i result errorCode s)"
proof -
  have p: "ac_place s i = With t" and h: "\<And>j. j \<in> set_option c \<Longrightarrow> ac_place s j = With t"
    using ac_invD(5) [OF I, of _ t] t by simp_all
  have q: "j \<in> set (ac_queue s) \<longleftrightarrow> ac_place s j = Completed" for j using ac_invD(9) [OF I] by simp
  have "c \<noteq> Some i" using ac_invD(7) [OF I, of t] t by simp
  have e: "result \<noteq> SOCKET_ERROR" using r by (auto simp: SOCKET_ERROR_def)
  show ?thesis
    by (rule ac_move [OF I, where t = t and p = "Set_listener c i" and i = i
          and q = "if accepted (AcceptEx i) result errorCode then Posted else Leaked" and n = "ac_pending s"
          and L = "ac_listener s" and Q = "ac_queue s"])
      (use p q h e \<open>c \<noteq> Some i\<close> ac_invD(4,8) [OF I] ac_invD(6) [OF I, of _ t] t in \<open>auto simp: ac_post_def Let_def\<close>)
qed

abbreviation after_post :: "nat option \<Rightarrow> ac_pc" where
  "after_post c \<equiv> (case c of None \<Rightarrow> Resting | Some i \<Rightarrow> Handle_accept i)"

lemma after_post_facts:
  "ac_has (after_post c) = set_option c" "ac_served (after_post c) = set_option c" "\<not> counted_pc (after_post c)"
  "ac_fact limit (after_post c)" "after_post c \<noteq> Get_listener j" "after_post c \<noteq> Set_listener d j"
  by (cases c; simp)+

lemma ac_undo_create_inv:
  assumes I: "ac_inv limit s" and t: "ac_pcs s t = Undo_create c"
  shows "ac_inv limit (ac_return t c (s\<lparr>ac_pending := ac_pending s - 1\<rparr>))"
  using pending_minus_one [OF I, of t] ac_invD(6) [OF I, of _ t] t
  by (intro ac_stay [OF I, where t = t and p = "after_post c" and n = "ac_pending s - 1" and L = "ac_listener s"])
    (auto simp: ac_return_def after_post_facts)

lemma ac_undo_accept_inv:
  assumes I: "ac_inv limit s" and t: "ac_pcs s t = Undo_accept c i"
  shows "ac_inv limit (ac_return t c (ac_put i In_use (s\<lparr>ac_pending := ac_pending s - 1\<rparr>)))"
proof -
  have p: "ac_place s i = With t" and h: "\<And>j. j \<in> set_option c \<Longrightarrow> ac_place s j = With t"
    using ac_invD(5) [OF I, of _ t] t by simp_all
  have q: "j \<in> set (ac_queue s) \<longleftrightarrow> ac_place s j = Completed" for j using ac_invD(9) [OF I] by simp
  have "c \<noteq> Some i" using ac_invD(7) [OF I, of t] t by simp
  then have d: "j \<in> set_option c \<Longrightarrow> j \<noteq> i" for j by auto
  show ?thesis
    by (rule ac_move [OF I, where t = t and p = "after_post c" and i = i and q = In_use and n = "ac_pending s - 1"
          and L = "ac_listener s" and Q = "ac_queue s"])
      (use p q h d pending_minus_one [OF I, of t] ac_invD(8) [OF I] ac_invD(6) [OF I, of _ t] t in
        \<open>simp_all add: ac_return_def after_post_facts subset_iff\<close>)
qed

lemma ac_set_listener_inv:
  assumes I: "ac_inv limit s" and t: "ac_pcs s t = Set_listener c i"
  shows "ac_inv limit (ac_goto t (Load_pending c) (s\<lparr>ac_listener := insert i (ac_listener s)\<rparr>))"
  using ac_invD(4) [OF I] ac_invD(6) [OF I, of _ t] t
  by (intro ac_stay [OF I, where t = t and p = "Load_pending c" and n = "ac_pending s" and L = "insert i (ac_listener s)"]) auto

lemma ac_decrement_inv:
  assumes I: "ac_inv limit s" and t: "ac_pcs s t = Decrement_pending i"
  shows "ac_inv limit (ac_goto t (Load_pending (Some i)) (s\<lparr>ac_pending := ac_pending s - 1\<rparr>))"
  using pending_minus_one [OF I, of t] ac_invD(6) [OF I, of _ t] t
  by (intro ac_stay [OF I, where t = t and p = "Load_pending (Some i)" and n = "ac_pending s - 1" and L = "ac_listener s"]) auto

lemma ac_deref_inv:
  assumes I: "ac_inv limit s" and t: "ac_pcs s t = Get_listener i" "i \<in> ac_listener s"
  shows "ac_inv limit (ac_goto t (Decrement_pending i) s)"
  using ac_invD(4) [OF I] t
  by (intro ac_stay [OF I, where t = t and p = "Decrement_pending i" and n = "ac_pending s" and L = "ac_listener s"]) auto

lemma ac_handle_inv:
  assumes I: "ac_inv limit s" and t: "ac_pcs s t = Handle_accept i"
  shows "\<exists>s'. ac_handle t i s = Inr s' \<and> ac_inv limit s'"
proof -
  have p: "ac_place s i = With t" "i \<in> ac_listener s" using ac_invD(5,6) [OF I, of i t] t by simp_all
  have q: "j \<in> set (ac_queue s) \<longleftrightarrow> ac_place s j = Completed" for j using ac_invD(9) [OF I] by simp
  have "ac_inv limit (ac_goto t Resting (ac_put i In_use s))"
    by (rule ac_move [OF I, where t = t and p = Resting and i = i and q = In_use and n = "ac_pending s"
          and L = "ac_listener s" and Q = "ac_queue s"])
      (use p q ac_invD(4,8) [OF I] t in auto)
  then show ?thesis using p by (simp add: ac_handle_def)
qed

lemma ac_call_inv:
  assumes I: "ac_inv limit s" and t: "ac_pcs s t = Resting"
  shows "ac_inv limit (ac_goto t (Load_pending None) s)"
  using ac_invD(4) [OF I] t
  by (intro ac_stay [OF I, where t = t and p = "Load_pending None" and n = "ac_pending s" and L = "ac_listener s"]) auto

lemma ac_release_inv:
  assumes I: "ac_inv limit s" and t: "ac_pcs s t = Resting" "ac_place s i = In_use"
  shows "ac_inv limit (ac_goto t (Load_pending None) (ac_put i In_pool s))"
proof -
  have q: "j \<in> set (ac_queue s) \<longleftrightarrow> ac_place s j = Completed" for j using ac_invD(9) [OF I] by simp
  show ?thesis
    by (rule ac_move [OF I, where t = t and p = "Load_pending None" and i = i and q = In_pool and n = "ac_pending s"
          and L = "ac_listener s" and Q = "ac_queue s"])
      (use q ac_invD(4,8) [OF I] t in auto)
qed

lemma ac_done_inv:
  assumes I: "ac_inv limit s" and i: "ac_place s i = Posted"
  shows "ac_inv limit (ac_put i Completed (s\<lparr>ac_queue := ac_queue s @ [i]\<rparr>))"
proof -
  have q: "j \<in> set (ac_queue s) \<longleftrightarrow> ac_place s j = Completed" for j using ac_invD(9) [OF I] by simp
  define t where "t = (0 :: nat)"
  have g: "ac_pcs s t = Get_listener j \<Longrightarrow> ac_told j s" for j by (rule ac_invD(11) [OF I])
  have h: "j \<in> ac_has (ac_pcs s t) \<Longrightarrow> ac_place s j = With t" for j by (rule ac_invD(5) [OF I])
  have "ac_inv limit (ac_goto t (ac_pcs s t) (ac_put i Completed (s\<lparr>ac_queue := ac_queue s @ [i]\<rparr>)))"
    by (rule ac_move [OF I, where t = t and p = "ac_pcs s t" and i = i and q = Completed and n = "ac_pending s"
          and L = "ac_listener s" and Q = "ac_queue s @ [i]"])
      (use q g h i ac_invD(4,7,8,10) [OF I] ac_invD(6) [OF I, of _ t] in auto)
  then show ?thesis by (simp add: ac_goto_def ac_put_def)
qed

lemma ac_take_inv:
  assumes I: "ac_inv limit s" and t: "ac_pcs s t = Resting" "ac_queue s = i # q"
  shows "ac_inv limit (ac_goto t (Get_listener i) (ac_put i (With t) (s\<lparr>ac_queue := q\<rparr>)))"
proof -
  have q: "j = i \<or> j \<in> set q \<longleftrightarrow> ac_place s j = Completed" for j using ac_invD(9) [OF I, of j] t(2) by auto
  have d: "i \<notin> set q" "distinct q" using ac_invD(8) [OF I] t(2) by simp_all
  have p: "ac_place s i = Completed" using q [of i] by simp
  show ?thesis
    by (rule ac_move [OF I, where t = t and p = "Get_listener i" and i = i and q = "With t" and n = "ac_pending s"
          and L = "ac_listener s" and Q = q])
      (use q d p ac_invD(4,10) [OF I] t in auto)
qed

text \<open>A step keeps the invariant, or it is the null dereference of a session without listener.\<close>

lemma ac_go_ok:
  assumes I: "ac_inv limit s" and e: "ac_can (Advance t i result errorCode) s"
  shows "(\<exists>s'. ac_go limit t i result errorCode s = Inr s' \<and> ac_inv limit s') \<or>
    (\<exists>j. ac_pcs s t = Get_listener j \<and> j \<notin> ac_listener s \<and> ac_go limit t i result errorCode s = Inl Null_deref)"
proof (cases "ac_pcs s t")
  case Resting
  then show ?thesis using e by (simp add: ac_can_def)
next
  case (Load_pending c)
  then show ?thesis using ac_load_inv [OF I Load_pending] by (simp add: ac_go_def)
next
  case (Exchange c current)
  then show ?thesis using ac_exchange_inv [OF I Exchange] by (simp add: ac_go_def)
next
  case (Create_session c)
  then show ?thesis using ac_create_inv [OF I Create_session, of i] e by (simp add: ac_go_def ac_can_def)
next
  case (Undo_create c)
  then show ?thesis using ac_undo_create_inv [OF I Undo_create] by (simp add: ac_go_def)
next
  case (Post_accept c j)
  then show ?thesis using ac_post_inv [OF I Post_accept, of result errorCode] e by (simp add: ac_go_def ac_can_def)
next
  case (Undo_accept c j)
  then show ?thesis using ac_undo_accept_inv [OF I Undo_accept] by (simp add: ac_go_def)
next
  case (Set_listener c j)
  then show ?thesis using ac_set_listener_inv [OF I Set_listener] by (simp add: ac_go_def)
next
  case (Get_listener j)
  then show ?thesis using ac_deref_inv [OF I Get_listener] by (auto simp: ac_go_def ac_deref_def)
next
  case (Decrement_pending j)
  then show ?thesis using ac_decrement_inv [OF I Decrement_pending] by (simp add: ac_go_def)
next
  case (Handle_accept j)
  then show ?thesis using ac_handle_inv [OF I Handle_accept] by (simp add: ac_go_def)
qed

lemma ac_event_ok:
  assumes I: "ac_inv limit s" and e: "ac_can e s"
  shows "(\<exists>s'. ac_step limit e s = Inr s' \<and> ac_inv limit s') \<or>
    (\<exists>t j i r x. e = Advance t i r x \<and> ac_pcs s t = Get_listener j \<and> j \<notin> ac_listener s \<and> ac_step limit e s = Inl Null_deref)"
proof (cases e)
  case (Call_PostAccept t)
  then show ?thesis using ac_call_inv [OF I] e by (simp add: ac_can_def)
next
  case (Release t i)
  then show ?thesis using ac_release_inv [OF I] e by (simp add: ac_can_def)
next
  case (Advance t i result errorCode)
  then show ?thesis using ac_go_ok [OF I] e by simp
next
  case (Accept_done i)
  then show ?thesis using ac_done_inv [OF I] e by (simp add: ac_can_def)
next
  case (Take_accept t)
  then show ?thesis using ac_take_inv [OF I, of t] e by (auto simp: ac_can_def neq_Nil_conv)
qed

lemma ac_start_inv: "ac_inv limit (ac_start n)"
  by (auto simp: ac_inv_def ac_start_def ac_counted_def)

interpretation ac: event_system ac_init ac_can "ac_step limit" "ac_inv limit" for limit
proof
  show "ac_inv limit s" if "ac_init s" for s using that ac_start_inv by (auto simp: ac_init_def)
  show "ac_inv limit t" if "ac_inv limit s" "ac_can e s" "ac_step limit e s = Inr t" for s e t
    using ac_event_ok [OF that(1,2)] that(3) by auto
qed

end
