(* ===== verification/Accept_Properties.thy ===== *)
theory Accept_Properties
  imports Accept_Threads
begin

text \<open>
  What holds of the pending accepts in every interleaving, for every number of sessions and every limit (\<open>kAcceptCount\<close> in the
  code); and what goes wrong. The theorems rest on the interpretation \<open>ac\<close>.
\<close>

section \<open>Runs for the witnesses\<close>

lemma ac_start_reached:
  assumes "run_events ac_can (ac_step limit) es (ac_start n) = Inr s"
  shows "reach ac_init (event_trans ac_can (ac_step limit)) s"
  by (rule ac.run_reach [OF reach.reach_init assms]) (auto simp: ac_init_def)

lemma ac_reached_inv: "reach ac_init (event_trans ac_can (ac_step limit)) s \<Longrightarrow> ac_inv limit s"
  by (rule ac.reach_I)

text \<open>A thread posts an accept up to and including \<^verbatim>\<open>AcceptEx\<close>, for the session in slot \<open>i\<close>.\<close>

definition ac_posting :: "nat \<Rightarrow> nat \<Rightarrow> int \<Rightarrow> int \<Rightarrow> ac_event list" where
  "ac_posting t i result errorCode =
     Call_PostAccept t # [Advance t i 1 0, Advance t i 1 0, Advance t i 1 0, Advance t i result errorCode]"

section \<open>Properties\<close>

text \<open>
  C10: the counter of pending accepts. In every interleaving \<^verbatim>\<open>pendingAccepts_\<close> is exactly the number of accepts that the kernel has or
  has completed, of threads between the exchange and the end of their accept or between a completion and its decrement, and of
  sessions lost by a failed \<^verbatim>\<open>AcceptEx\<close>; it never exceeds the limit, so the kernel never has more accepts than that.
\<close>

theorem pending_accepts_exact:
  assumes "reach ac_init (event_trans ac_can (ac_step limit)) s"
  shows "finite {i. counted_place (ac_place s i)} \<and> finite {t. counted_pc (ac_pcs s t)} \<and>
    unat (ac_pending s) = card {i. counted_place (ac_place s i)} + card {t. counted_pc (ac_pcs s t)} \<and>
    unat (ac_pending s) \<le> unat limit \<and> card {i. ac_place s i = Posted} \<le> unat limit"
proof -
  note I = ac_reached_inv [OF assms]
  note D = ac_invD(3,4) [OF I]
  have "card {i. ac_place s i = Posted} \<le> card {i. counted_place (ac_place s i)}"
    by (rule card_mono [OF finite_places [OF I]]) auto
  then show ?thesis using D finite_places [OF I] ac_invD(2) [OF I] by (simp add: ac_counted_def word_le_nat_alt)
qed

theorem pending_accepts_exact_witness:
  "\<exists>s. run_events ac_can (ac_step 2) (ac_posting 0 1 1 0) (ac_start 3) = Inr s \<and> ac_pending s = 1 \<and>
     card {i. counted_place (ac_place s i)} + card {t. counted_pc (ac_pcs s t)} = 1"
proof -
  let ?r = "run_events ac_can (ac_step 2) (ac_posting 0 1 1 0) (ac_start 3)"
  have "map_sum id ac_pending ?r = Inr 1" by code_simp
  then obtain s where s: "?r = Inr s" "ac_pending s = 1" by (cases ?r) auto
  then show ?thesis using pending_accepts_exact [OF ac_start_reached [OF s(1)]] by simp
qed

text \<open>
  C13: the only fault. Whatever the interleaving, the only step that can go wrong is a worker that asks a session for its listener
  before the thread that posted the accept has executed \<^verbatim>\<open>SetListener\<close>.
\<close>

theorem accept_faults_only_by_race:
  assumes "reach ac_init (event_trans ac_can (ac_step limit)) s" and "ac_can e s" and "ac_step limit e s = Inl f"
  shows "f = Null_deref \<and> (\<exists>t i u c. ac_pcs s t = Get_listener i \<and> i \<notin> ac_listener s \<and> ac_pcs s u = Set_listener c i)"
proof -
  note I = ac_reached_inv [OF assms(1)]
  from ac_event_ok [OF I assms(2)] assms(3) obtain t j where
    t: "ac_pcs s t = Get_listener j" "j \<notin> ac_listener s" "f = Null_deref" by auto
  then show ?thesis using ac_invD(11) [OF I t(1)] by (auto simp: ac_told_def)
qed

theorem accept_faults_only_by_race_witness:
  "\<exists>s. run_events ac_can (ac_step 1) (ac_posting 0 0 1 0 @ [Accept_done 0, Take_accept 1]) (ac_start 1) = Inr s \<and>
     ac_step 1 (Advance 1 0 1 0) s = Inl Null_deref \<and> (\<exists>u c i. ac_pcs s u = Set_listener c i)"
proof -
  let ?r = "run_events ac_can (ac_step 1) (ac_posting 0 0 1 0 @ [Accept_done 0, Take_accept 1]) (ac_start 1)"
  have "map_sum id (\<lambda>s. (ac_pcs s 1, case_sum Some (\<lambda>_. None) (ac_step 1 (Advance 1 0 1 0) s))) ?r =
      Inr (Get_listener 0, Some Null_deref)" by code_simp
  then obtain s where s: "?r = Inr s" "ac_pcs s 1 = Get_listener 0" "ac_step 1 (Advance 1 0 1 0) s = Inl Null_deref"
    by (cases ?r) (auto split: sum.splits)
  have "ac_can (Advance 1 0 1 0) s" using s(2) by (simp add: ac_can_def)
  from accept_faults_only_by_race [OF ac_start_reached [OF s(1)] this s(3)]
  show ?thesis using s(1,3) by blast
qed

text \<open>The race: the accept completes, and a worker takes it, between \<^verbatim>\<open>AcceptEx\<close> and \<^verbatim>\<open>SetListener\<close>.\<close>

lemma not_exhausted: "i < ac_size s \<Longrightarrow> ac_place s i = In_pool \<Longrightarrow> \<not> ac_exhausted s"
  by (auto simp: ac_exhausted_def)

lemma accept_race_reachable:
  assumes "0 < limit" "i < n"
  shows "\<exists>es s. run_events ac_can (ac_step limit) es (ac_start n) = Inr s \<and> ac_can (Advance 1 i 1 0) s \<and>
    ac_step limit (Advance 1 i 1 0) s = Inl Null_deref"
proof -
  have "\<not> limit \<le> 0" using assms(1) by simp
  then show ?thesis using assms
    by (intro exI [of _ "ac_posting 0 i 1 0 @ [Accept_done i, Take_accept 1]"])
      (simp add: ac_posting_def ac_can_def ac_go_def ac_load_def not_exhausted [of i] ac_exchange_def ac_create_def ac_post_def
        ac_deref_def ac_start_def SOCKET_ERROR_def Let_def)
qed

text \<open>A session lost by an accept that failed unnoticed stays lost.\<close>

lemma leaked_stays:
  assumes I: "ac_inv limit s" and i: "ac_place s i = Leaked" and e: "ac_can e s" "ac_step limit e s = Inr s'"
  shows "ac_place s' i = Leaked"
proof (cases e)
  case (Advance t j result errorCode)
  have "i \<notin> ac_has (ac_pcs s t)" using ac_invD(5) [OF I, of i t] i by auto
  then show ?thesis using Advance e i not_exhausted [of j s]
    by (cases "ac_pcs s t")
      (auto simp: ac_can_def ac_go_def ac_load_def ac_exchange_def ac_create_def ac_return_def ac_post_def ac_deref_def
        ac_handle_def Let_def split: if_splits)
next
  case (Take_accept t)
  then obtain j q where "ac_queue s = j # q" "ac_pcs s t = Resting" using e(1) by (auto simp: ac_can_def neq_Nil_conv)
  then show ?thesis using Take_accept e(2) i ac_invD(9) [OF I, of j] by auto
qed (use e i in \<open>auto simp: ac_can_def\<close>)

text \<open>
  C39: failures that are not noticed. \<^verbatim>\<open>AcceptEx\<close> returns \<^verbatim>\<open>FALSE\<close> when it fails, but the code tests for \<^verbatim>\<open>SOCKET_ERROR\<close>. Once as many
  accepts have failed as the limit allows, the counter stays at the limit and no accept is posted or completed ever again, whatever
  happens.
\<close>

theorem unnoticed_failures_stop_accepting:
  assumes "reach ac_init (event_trans ac_can (ac_step limit)) s" and "unat limit \<le> card {i. ac_place s i = Leaked}"
    and "run_events ac_can (ac_step limit) es s = Inr s'"
  shows "ac_pending s' = limit \<and> (\<forall>i. ac_place s' i \<noteq> Posted \<and> ac_place s' i \<noteq> Completed)"
proof -
  let ?L = "{i. ac_place s i = Leaked}"
  have L: "?L \<subseteq> {i. ac_place s' i = Leaked}"
  proof (rule ac.run_stays [OF assms(1) _ subset_UNIV assms(3)])
    show "?L \<subseteq> {i. ac_place v i = Leaked}"
      if "ac_inv limit u" "?L \<subseteq> {i. ac_place u i = Leaked}" "ac_can e u" "ac_step limit e u = Inr v" for u e v
      using leaked_stays [OF that(1) _ that(3,4)] that(2) by blast
  qed simp
  have I: "ac_inv limit s'" by (rule ac_reached_inv [OF ac.run_reach [OF assms(1,3)]])
  let ?C = "{i. counted_place (ac_place s' i)}"
  have sub: "?L \<subseteq> ?C" using L by auto
  have "card ?L \<le> card ?C" by (rule card_mono [OF finite_places [OF I] sub])
  moreover have "card ?C \<le> unat (ac_pending s')" "unat (ac_pending s') \<le> unat limit"
    using ac_invD(3,4) [OF I] by (simp_all add: ac_counted_def word_le_nat_alt)
  ultimately have eq: "card ?L = card ?C" "unat (ac_pending s') = unat limit" using assms(2) by linarith+
  have "?L = ?C" by (rule card_subset_eq [OF finite_places [OF I] sub eq(1)])
  then have leaked: "ac_place s' i = Leaked" if "counted_place (ac_place s' i)" for i using L that by blast
  have "ac_place s' i \<noteq> Posted \<and> ac_place s' i \<noteq> Completed" for i
    using leaked [of i] by (cases "ac_place s' i") simp_all
  then show ?thesis using eq(2) by (simp add: word_unat_eq_iff)
qed

theorem unnoticed_failures_stop_accepting_witness:
  "\<exists>s s'. run_events ac_can (ac_step 1) (ac_posting 0 0 0 10038) (ac_start 2) = Inr s \<and>
     run_events ac_can (ac_step 1) (replicate 2 (Advance 0 1 1 0) @ Call_PostAccept 1 # replicate 4 (Advance 1 1 1 0)) s = Inr s' \<and>
     ac_pending s' = 1 \<and> ac_place s' 1 = In_pool \<and> (\<forall>i. ac_place s' i \<noteq> Posted)"
proof -
  let ?es = "replicate 2 (Advance 0 1 1 0) @ Call_PostAccept 1 # replicate 4 (Advance 1 1 1 0)"
  let ?r = "run_events ac_can (ac_step 1) (ac_posting 0 0 0 10038) (ac_start 2)"
  have "map_sum id (\<lambda>s. ac_place s 0) ?r = Inr Leaked" by code_simp
  then obtain s where s: "?r = Inr s" "ac_place s 0 = Leaked" by (cases ?r) auto
  have "map_sum id (\<lambda>s. ac_place s 1) (rbind ?r (run_events ac_can (ac_step 1) ?es)) = Inr In_pool" by code_simp
  then obtain s' where s': "run_events ac_can (ac_step 1) ?es s = Inr s'" "ac_place s' 1 = In_pool"
    using s(1) by (cases "run_events ac_can (ac_step 1) ?es s") auto
  have I: "ac_inv 1 s" by (rule ac_reached_inv [OF ac_start_reached [OF s(1)]])
  have "finite {i. ac_place s i = Leaked}" by (rule finite_subset [OF _ finite_places [OF I]]) auto
  then have "unat (1 :: u64) \<le> card {i. ac_place s i = Leaked}" using s(2) by (auto simp: Suc_le_eq card_gt_0_iff)
  then show ?thesis using unnoticed_failures_stop_accepting [OF ac_start_reached [OF s(1)] _ s'(1)] s s' by blast
qed

text \<open>
  With one pending accept allowed: a worker has taken it, raises the counter for the next one and finds no idle session; before it
  lowers the counter again, another thread returns a session, and its \<^verbatim>\<open>PostAccept\<close> finds the limit reached. In the end a session is idle
  and nobody posts an accept, although the sequential \<^verbatim>\<open>PostAccept\<close> only stops when the limit is reached or no session is idle.
\<close>

definition missed_accept_run :: "ac_event list" where
  "missed_accept_run =
     ac_posting 0 0 1 0 @ replicate 2 (Advance 0 1 1 0) @ [Accept_done 0, Take_accept 1] @ replicate 5 (Advance 1 1 1 0) @
     replicate 4 (Advance 1 1 1 0) @ [Accept_done 1, Take_accept 2] @ replicate 4 (Advance 2 0 1 0) @
     [Advance 2 0 1 0, Release 3 0, Advance 3 0 1 0, Advance 2 0 1 0, Advance 2 0 1 0]"

lemma missed_accept:
  "map_sum id (\<lambda>s. (ac_pending s, map (ac_place s) [0, 1], map (ac_pcs s) [0, 1, 2, 3], ac_queue s))
     (run_events ac_can (ac_step 1) missed_accept_run (ac_start 2)) =
   Inr (0, [In_pool, In_use], [Resting, Resting, Resting, Resting], [])"
  by code_simp

end
