(* ===== verification/Connection_Threads.thy ===== *)
theory Connection_Threads
  imports Server_World
begin

text \<open>
  \<^verbatim>\<open>Session::Connect\<close>, \<^verbatim>\<open>Session::Disconnect\<close> and the part of \<^verbatim>\<open>SessionManager::Broadcast\<close> that concerns one session, under
  several threads. \<^verbatim>\<open>connectMtx_\<close> protects the two functions' look at the state and their change of it, not what they do afterwards.
  \<^verbatim>\<open>SendPacket\<close> is one step here: by \<open>Write_Threads\<close> the packets of a session are sent in the order in which it locks \<^verbatim>\<open>writeMtx_\<close>.
\<close>

section \<open>State\<close>

text \<open>What becomes visible outside, in order: a packet queued by a broadcast or by \<^verbatim>\<open>Connect\<close>, the first receive, \<^verbatim>\<open>DisconnectEx\<close>.\<close>

datatype cn_effect = Broadcast_queued nat | Welcome_queued | Receive_posted | Disconnect_posted

datatype cn_pc =
    Idle_thread
  | Connect_lock
  | Connect_test
  | Connect_move
  | Connect_unlock bool
  | Connect_welcome
  | Connect_read
  | Disconnect_lock
  | Disconnect_switch
  | Disconnect_unlock bool
  | Disconnect_post
  | Broadcast_test
  | Broadcast_send

record connection =
  cn_state :: SessionState
  cn_mtx :: "nat option"
  cn_pcs :: "nat \<Rightarrow> cn_pc"
  cn_log :: "cn_effect list"

definition cn_goto :: "nat \<Rightarrow> cn_pc \<Rightarrow> connection \<Rightarrow> connection" where
  "cn_goto t p s = s\<lparr>cn_pcs := (cn_pcs s)(t := p)\<rparr>"

definition cn_emit :: "cn_effect \<Rightarrow> connection \<Rightarrow> connection" where
  "cn_emit e s = s\<lparr>cn_log := cn_log s @ [e]\<rparr>"

section \<open>Steps\<close>

definition cn_lock :: "nat \<Rightarrow> cn_pc \<Rightarrow> connection \<Rightarrow> connection" where
  "cn_lock t p s = cn_goto t p (s\<lparr>cn_mtx := Some t\<rparr>)"

definition cn_unlock :: "nat \<Rightarrow> cn_pc \<Rightarrow> connection \<Rightarrow> connection" where
  "cn_unlock t p s = cn_goto t p (s\<lparr>cn_mtx := None\<rparr>)"

text \<open>\<^verbatim>\<open>Connect\<close>; \<open>ok\<close> is the result of the function called at the step.\<close>

definition cn_connect_test :: "nat \<Rightarrow> connection \<Rightarrow> connection" where
  "cn_connect_test t s = cn_goto t (if cn_state s \<noteq> kPending then Connect_unlock False else Connect_move) s"

definition cn_connect_move :: "nat \<Rightarrow> bool \<Rightarrow> connection \<Rightarrow> connection" where
  "cn_connect_move t ok s =
     (if ok then cn_goto t (Connect_unlock True) (s\<lparr>cn_state := kConnected\<rparr>) else cn_goto t (Connect_unlock False) s)"

definition cn_connect_welcome :: "nat \<Rightarrow> bool \<Rightarrow> connection \<Rightarrow> connection" where
  "cn_connect_welcome t ok s =
     (if ok then cn_goto t Connect_read (cn_emit Welcome_queued s) else cn_goto t Idle_thread s)"

definition cn_connect_read :: "nat \<Rightarrow> bool \<Rightarrow> connection \<Rightarrow> connection" where
  "cn_connect_read t ok s = cn_goto t Idle_thread (if ok then cn_emit Receive_posted s else s)"

text \<open>\<^verbatim>\<open>Disconnect\<close>.\<close>

definition cn_disconnect_switch :: "nat \<Rightarrow> bool \<Rightarrow> connection \<Rightarrow> connection" where
  "cn_disconnect_switch t ok s =
     (case cn_state s of
        kPending \<Rightarrow>
          if ok then cn_goto t (Disconnect_unlock True) (s\<lparr>cn_state := kDisconnecting\<rparr>)
          else cn_goto t (Disconnect_unlock False) s
      | kConnected \<Rightarrow>
          if ok then cn_goto t (Disconnect_unlock True) (s\<lparr>cn_state := kDisconnecting\<rparr>)
          else cn_goto t (Disconnect_unlock False) s
      | kDisconnecting \<Rightarrow> cn_goto t (Disconnect_unlock False) s
      | kIdle \<Rightarrow> cn_goto t (Disconnect_unlock False) s)"

text \<open>\<^verbatim>\<open>Broadcast\<close> collects the connected sessions first and sends to each of them later.\<close>

definition cn_broadcast_test :: "nat \<Rightarrow> connection \<Rightarrow> connection" where
  "cn_broadcast_test t s = cn_goto t (if cn_state s = kConnected then Broadcast_send else Idle_thread) s"

definition cn_broadcast_send :: "nat \<Rightarrow> bool \<Rightarrow> connection \<Rightarrow> connection" where
  "cn_broadcast_send t ok s = cn_goto t Idle_thread (if ok then cn_emit (Broadcast_queued t) s else s)"

definition cn_go :: "nat \<Rightarrow> bool \<Rightarrow> connection \<Rightarrow> connection" where
  "cn_go t ok s =
     (case cn_pcs s t of
        Idle_thread \<Rightarrow> s
      | Connect_lock \<Rightarrow> cn_lock t Connect_test s
      | Connect_test \<Rightarrow> cn_connect_test t s
      | Connect_move \<Rightarrow> cn_connect_move t ok s
      | Connect_unlock b \<Rightarrow> cn_unlock t (if b then Connect_welcome else Idle_thread) s
      | Connect_welcome \<Rightarrow> cn_connect_welcome t ok s
      | Connect_read \<Rightarrow> cn_connect_read t ok s
      | Disconnect_lock \<Rightarrow> cn_lock t Disconnect_switch s
      | Disconnect_switch \<Rightarrow> cn_disconnect_switch t ok s
      | Disconnect_unlock b \<Rightarrow> cn_unlock t (if b then Disconnect_post else Idle_thread) s
      | Disconnect_post \<Rightarrow> cn_goto t Idle_thread (cn_emit Disconnect_posted s)
      | Broadcast_test \<Rightarrow> cn_broadcast_test t s
      | Broadcast_send \<Rightarrow> cn_broadcast_send t ok s)"

datatype cn_event = Call_Connect nat | Call_Disconnect nat | Call_Broadcast nat | Proceed nat bool

definition cn_can :: "cn_event \<Rightarrow> connection \<Rightarrow> bool" where
  "cn_can e s \<longleftrightarrow>
     (case e of
        Proceed t _ \<Rightarrow>
          (case cn_pcs s t of
             Idle_thread \<Rightarrow> False | Connect_lock \<Rightarrow> cn_mtx s = None | Disconnect_lock \<Rightarrow> cn_mtx s = None | _ \<Rightarrow> True)
      | Call_Connect t \<Rightarrow> cn_pcs s t = Idle_thread
      | Call_Disconnect t \<Rightarrow> cn_pcs s t = Idle_thread
      | Call_Broadcast t \<Rightarrow> cn_pcs s t = Idle_thread)"

fun cn_step :: "cn_event \<Rightarrow> connection \<Rightarrow> connection res" where
  "cn_step (Call_Connect t) s = Inr (cn_goto t Connect_lock s)"
| "cn_step (Call_Disconnect t) s = Inr (cn_goto t Disconnect_lock s)"
| "cn_step (Call_Broadcast t) s = Inr (cn_goto t Broadcast_test s)"
| "cn_step (Proceed t ok) s = Inr (cn_go t ok s)"

text \<open>A session whose accept has completed.\<close>

definition cn_start :: connection where
  "cn_start = \<lparr>cn_state = kPending, cn_mtx = None, cn_pcs = (\<lambda>_. Idle_thread), cn_log = []\<rparr>"

section \<open>Invariant\<close>

fun cn_locked :: "cn_pc \<Rightarrow> bool" where
  "cn_locked Connect_test = True"
| "cn_locked Connect_move = True"
| "cn_locked (Connect_unlock _) = True"
| "cn_locked Disconnect_switch = True"
| "cn_locked (Disconnect_unlock _) = True"
| "cn_locked _ = False"

text \<open>Threads that have decided to connect, to post the first receive, to disconnect.\<close>

fun connecting :: "cn_pc \<Rightarrow> bool" where
  "connecting (Connect_unlock b) = b"
| "connecting Connect_welcome = True"
| "connecting _ = False"

fun receiving :: "cn_pc \<Rightarrow> bool" where
  "receiving Connect_read = True"
| "receiving p = connecting p"

fun disconnecting :: "cn_pc \<Rightarrow> bool" where
  "disconnecting (Disconnect_unlock b) = b"
| "disconnecting Disconnect_post = True"
| "disconnecting _ = False"

definition cn_total :: "cn_effect \<Rightarrow> (cn_pc \<Rightarrow> bool) \<Rightarrow> connection \<Rightarrow> nat" where
  "cn_total e P s = count_list (cn_log s) e + card {t. P (cn_pcs s t)}"

definition cn_inv :: "connection \<Rightarrow> bool" where
  "cn_inv s \<longleftrightarrow>
     (\<forall>t. cn_locked (cn_pcs s t) \<longleftrightarrow> cn_mtx s = Some t) \<and>
     finite {t. receiving (cn_pcs s t)} \<and> finite {t. disconnecting (cn_pcs s t)} \<and>
     (\<forall>t. cn_pcs s t = Connect_move \<longrightarrow> cn_state s = kPending) \<and>
     cn_state s \<noteq> kIdle \<and>
     cn_total Welcome_queued connecting s \<le> (if cn_state s = kPending then 0 else 1) \<and>
     cn_total Receive_posted receiving s \<le> (if cn_state s = kPending then 0 else 1) \<and>
     cn_total Disconnect_posted disconnecting s = (if cn_state s = kDisconnecting then 1 else 0)"

lemma cn_simps [simp]:
  "cn_state (cn_goto t p s) = cn_state s" "cn_state (cn_emit e s) = cn_state s"
  "cn_mtx (cn_goto t p s) = cn_mtx s" "cn_mtx (cn_emit e s) = cn_mtx s"
  "cn_pcs (cn_goto t p s) = (cn_pcs s)(t := p)" "cn_pcs (cn_emit e s) = cn_pcs s"
  "cn_log (cn_goto t p s) = cn_log s" "cn_log (cn_emit e s) = cn_log s @ [e]"
  by (simp_all add: cn_goto_def cn_emit_def)

lemma cn_invD:
  assumes "cn_inv s"
  shows "cn_locked (cn_pcs s t) \<longleftrightarrow> cn_mtx s = Some t" "finite {t. receiving (cn_pcs s t)}"
    "finite {t. connecting (cn_pcs s t)}" "finite {t. disconnecting (cn_pcs s t)}"
    "cn_pcs s t = Connect_move \<Longrightarrow> cn_state s = kPending" "cn_state s \<noteq> kIdle"
    "cn_total Welcome_queued connecting s \<le> (if cn_state s = kPending then 0 else 1)"
    "cn_total Receive_posted receiving s \<le> (if cn_state s = kPending then 0 else 1)"
    "cn_total Disconnect_posted disconnecting s = (if cn_state s = kDisconnecting then 1 else 0)"
proof -
  have "receiving p" if "connecting p" for p using that by (cases p) auto
  then have "{t. connecting (cn_pcs s t)} \<subseteq> {t. receiving (cn_pcs s t)}" by blast
  then show "finite {t. connecting (cn_pcs s t)}" by (rule finite_subset) (use assms in \<open>simp add: cn_inv_def\<close>)
qed (use assms in \<open>auto simp: cn_inv_def\<close>)

lemma cn_total_step:
  assumes "cn_pcs s' = (cn_pcs s)(t := p)" "cn_log s' = cn_log s @ es" "finite {u. P (cn_pcs s u)}"
  shows "cn_total e P s' + of_bool (P (cn_pcs s t)) = cn_total e P s + count_list es e + of_bool (P p)"
  using card_update(1) [where P = P and f = "cn_pcs s" and a = t and v = p, OF assms(3)] assms(1,2)
  by (simp add: cn_total_def)

text \<open>A step of the thread \<open>t\<close> with the effects \<open>es\<close>: what has to be shown of the new state.\<close>

lemma cn_move:
  assumes I: "cn_inv s" and pcs: "cn_pcs s' = (cn_pcs s)(t := p)" and log: "cn_log s' = cn_log s @ es"
    and mtx: "\<And>u. u \<noteq> t \<Longrightarrow> cn_mtx s' = Some u \<longleftrightarrow> cn_mtx s = Some u" "cn_locked p \<longleftrightarrow> cn_mtx s' = Some t"
    and state: "cn_state s' = cn_state s \<or> cn_locked (cn_pcs s t)" "p = Connect_move \<Longrightarrow> cn_state s' = kPending"
      "cn_state s' \<noteq> kIdle"
    and totals:
      "cn_total Welcome_queued connecting s + count_list es Welcome_queued + of_bool (connecting p) \<le>
        of_bool (connecting (cn_pcs s t)) + (if cn_state s' = kPending then 0 else 1)"
      "cn_total Receive_posted receiving s + count_list es Receive_posted + of_bool (receiving p) \<le>
        of_bool (receiving (cn_pcs s t)) + (if cn_state s' = kPending then 0 else 1)"
      "cn_total Disconnect_posted disconnecting s + count_list es Disconnect_posted + of_bool (disconnecting p) =
        of_bool (disconnecting (cn_pcs s t)) + (if cn_state s' = kDisconnecting then 1 else 0)"
  shows "cn_inv s'"
proof -
  note D = cn_invD [OF I]
  have "cn_locked (cn_pcs s' u) \<longleftrightarrow> cn_mtx s' = Some u" for u using mtx D(1) pcs by (cases "u = t") auto
  moreover have "cn_state s' = kPending" if u: "cn_pcs s' u = Connect_move" for u
  proof (cases "u = t")
    case False
    then have c: "cn_pcs s u = Connect_move" using u pcs by simp
    then have "cn_mtx s = Some u" using D(1) [of u] by simp
    then have "\<not> cn_locked (cn_pcs s t)" using D(1) [of t] False by simp
    then show ?thesis using state(1) D(5) [OF c] by simp
  qed (use u pcs state(2) in simp)
  moreover have "finite {u. receiving (cn_pcs s' u)}" "finite {u. disconnecting (cn_pcs s' u)}"
    unfolding pcs using card_update(2) [where P = receiving and f = "cn_pcs s", OF D(2)]
      card_update(2) [where P = disconnecting and f = "cn_pcs s", OF D(4)] by blast+
  ultimately show ?thesis
    using totals state(3) cn_total_step [OF pcs log D(3), of Welcome_queued] cn_total_step [OF pcs log D(2), of Receive_posted]
      cn_total_step [OF pcs log D(4), of Disconnect_posted]
    unfolding cn_inv_def by (auto split: if_splits)
qed

lemmas cn_defs = cn_go_def cn_lock_def cn_unlock_def cn_connect_test_def cn_connect_move_def cn_connect_welcome_def
  cn_connect_read_def cn_disconnect_switch_def cn_broadcast_test_def cn_broadcast_send_def

lemma cn_go_inv:
  assumes I: "cn_inv s" and e: "cn_can (Proceed t ok) s"
  shows "cn_inv (cn_go t ok s)"
proof (rule cn_move [OF I, where t = t and p = "cn_pcs (cn_go t ok s) t"
      and es = "drop (length (cn_log s)) (cn_log (cn_go t ok s))"])
  note D = cn_invD [OF I]
  have m: "cn_locked (cn_pcs s t) \<Longrightarrow> cn_mtx s = Some t" "\<not> cn_locked (cn_pcs s t) \<Longrightarrow> cn_mtx s \<noteq> Some t" using D(1) [of t] by simp_all
  show "cn_pcs (cn_go t ok s) = (cn_pcs s)(t := cn_pcs (cn_go t ok s) t)"
    using e by (cases "cn_pcs s t"; cases "cn_state s") (simp_all add: cn_defs cn_can_def)
  show "cn_log (cn_go t ok s) = cn_log s @ drop (length (cn_log s)) (cn_log (cn_go t ok s))"
    by (cases "cn_pcs s t"; cases "cn_state s") (simp_all add: cn_defs)
  show "cn_mtx (cn_go t ok s) = Some u \<longleftrightarrow> cn_mtx s = Some u" if "u \<noteq> t" for u
    using m e that by (cases "cn_pcs s t"; cases "cn_state s") (auto simp: cn_defs cn_can_def)
  show "cn_locked (cn_pcs (cn_go t ok s) t) \<longleftrightarrow> cn_mtx (cn_go t ok s) = Some t"
    using m e by (cases "cn_pcs s t"; cases "cn_state s") (auto simp: cn_defs cn_can_def)
  show "cn_state (cn_go t ok s) = cn_state s \<or> cn_locked (cn_pcs s t)"
    by (cases "cn_pcs s t"; cases "cn_state s") (simp_all add: cn_defs)
  show "cn_state (cn_go t ok s) = kPending" if "cn_pcs (cn_go t ok s) t = Connect_move"
    using that by (cases "cn_pcs s t"; cases "cn_state s") (auto simp: cn_defs split: if_splits)
  show "cn_state (cn_go t ok s) \<noteq> kIdle"
    using D(6) by (cases "cn_pcs s t"; cases "cn_state s") (auto simp: cn_defs)
  show "cn_total Welcome_queued connecting s +
      count_list (drop (length (cn_log s)) (cn_log (cn_go t ok s))) Welcome_queued + of_bool (connecting (cn_pcs (cn_go t ok s) t))
    \<le> of_bool (connecting (cn_pcs s t)) + (if cn_state (cn_go t ok s) = kPending then 0 else 1)"
    using D(5) [of t] D(6,7) by (cases "cn_pcs s t"; cases "cn_state s") (auto simp: cn_defs)
  show "cn_total Receive_posted receiving s +
      count_list (drop (length (cn_log s)) (cn_log (cn_go t ok s))) Receive_posted + of_bool (receiving (cn_pcs (cn_go t ok s) t))
    \<le> of_bool (receiving (cn_pcs s t)) + (if cn_state (cn_go t ok s) = kPending then 0 else 1)"
    using D(5) [of t] D(6,8) by (cases "cn_pcs s t"; cases "cn_state s") (auto simp: cn_defs)
  show "cn_total Disconnect_posted disconnecting s +
      count_list (drop (length (cn_log s)) (cn_log (cn_go t ok s))) Disconnect_posted + of_bool (disconnecting (cn_pcs (cn_go t ok s) t))
    = of_bool (disconnecting (cn_pcs s t)) + (if cn_state (cn_go t ok s) = kDisconnecting then 1 else 0)"
    using D(5) [of t] D(6,9) by (cases "cn_pcs s t"; cases "cn_state s") (auto simp: cn_defs)
qed

lemma cn_event_inv:
  assumes I: "cn_inv s" and e: "cn_can e s" "cn_step e s = Inr s'"
  shows "cn_inv s'"
proof -
  note D = cn_invD [OF I]
  have call: "cn_inv (cn_goto t p s)"
    if "cn_pcs s t = Idle_thread" "p = Connect_lock \<or> p = Disconnect_lock \<or> p = Broadcast_test" for t p
    using D(1) [of t] D(6-9) that by (intro cn_move [OF I, where t = t and p = p and es = "[]"]) auto
  show ?thesis using e call cn_go_inv [OF I] by (cases e) (auto simp: cn_can_def)
qed

interpretation cn: event_system "\<lambda>s. s = cn_start" cn_can cn_step cn_inv
proof
  show "cn_inv s" if "s = cn_start" for s using that by (simp add: cn_inv_def cn_start_def cn_total_def)
qed (rule cn_event_inv)

section \<open>Properties\<close>

text \<open>
  C14: a session is connected and disconnected once. Whatever threads call \<^verbatim>\<open>Connect\<close>, \<^verbatim>\<open>Disconnect\<close> and \<^verbatim>\<open>Broadcast\<close>, and however
  they interleave, at most one welcome packet is queued, at most one first receive is posted and at most one
  \<^verbatim>\<open>DisconnectEx\<close> is called, and exactly one thread calls or has called it when the state is \<^verbatim>\<open>kDisconnecting\<close>.
\<close>

theorem connected_once:
  assumes "reach (\<lambda>s. s = cn_start) (event_trans cn_can cn_step) s"
  shows "count_list (cn_log s) Welcome_queued \<le> 1 \<and> count_list (cn_log s) Receive_posted \<le> 1 \<and>
    finite {t. disconnecting (cn_pcs s t)} \<and>
    count_list (cn_log s) Disconnect_posted + card {t. disconnecting (cn_pcs s t)} = (if cn_state s = kDisconnecting then 1 else 0)"
  using cn_invD(4,7-9) [OF cn.reach_I [OF assms]] by (auto simp: cn_total_def split: if_splits)

text \<open>A run in which a broadcast and a disconnect slip into \<^verbatim>\<open>Connect\<close>.\<close>

definition cn_overtaken :: "cn_event list" where
  "cn_overtaken =
     Call_Connect 0 # replicate 4 (Proceed 0 True) @ Call_Broadcast 1 # replicate 2 (Proceed 1 True) @
     [Proceed 0 True] @ Call_Disconnect 2 # replicate 4 (Proceed 2 True) @ [Proceed 0 True]"

theorem connected_once_witness:
  "\<exists>s. run_events cn_can cn_step cn_overtaken cn_start = Inr s \<and> cn_state s = kDisconnecting \<and>
     count_list (cn_log s) Disconnect_posted + card {t. disconnecting (cn_pcs s t)} = 1"
proof -
  have "map_sum id cn_state (run_events cn_can cn_step cn_overtaken cn_start) = Inr kDisconnecting" by code_simp
  then obtain s where s: "run_events cn_can cn_step cn_overtaken cn_start = Inr s" "cn_state s = kDisconnecting"
    by (cases "run_events cn_can cn_step cn_overtaken cn_start") auto
  have "reach (\<lambda>s. s = cn_start) (event_trans cn_can cn_step) s"
    by (rule cn.run_reach [OF reach.reach_init s(1)]) (rule refl)
  then show ?thesis using connected_once s by auto
qed

text \<open>
  What \<^verbatim>\<open>connectMtx_\<close> does not order. The session is connected before the welcome packet is queued, so a client may receive a
  broadcast before its welcome, which the test client takes for the welcome; and \<^verbatim>\<open>Connect\<close> may post the first receive
  on a socket on which another thread has called \<^verbatim>\<open>DisconnectEx\<close> already.
\<close>

lemma connect_is_overtaken:
  "map_sum id cn_log (run_events cn_can cn_step cn_overtaken cn_start) =
     Inr [Broadcast_queued 1, Welcome_queued, Disconnect_posted, Receive_posted]"
  by code_simp

end
