(* ===== verification/Mutex_Order.thy ===== *)
theory Mutex_Order
  imports Server_Prelude
begin

text \<open>
  The mutexes of the server put together: \<^verbatim>\<open>writeMtx_\<close> and \<^verbatim>\<open>connectMtx_\<close> of every session and \<^verbatim>\<open>mutex_\<close> of the pool. Here a
  function is what it locks: which calls it makes while it holds which mutex, with every branch possible. Functions call each other
  through the whole server; a send that fails under \<^verbatim>\<open>writeMtx_\<close> may drop the last reference to a session, whose release posts an
  accept, which may disconnect another session.
\<close>

section \<open>Programs that lock\<close>

datatype mutex = Write_mtx nat | Connect_mtx nat | Pool_mtx

text \<open>
  \<open>Under m c\<close>: a block with a \<^verbatim>\<open>lock_guard\<close> of \<open>m\<close>; \<open>Either\<close>: a condition, an early return or the outcome of a call; \<open>Loop\<close>: any number
  of rounds; \<open>Some_session\<close>: a session that is only known when the program runs.
\<close>

datatype code =
    Nothing
  | Under mutex code
  | Then code code
  | Either code code
  | Loop code
  | Some_session "nat \<Rightarrow> code"

definition optional :: "code \<Rightarrow> code" where
  "optional c = Either Nothing c"

fun steps :: "code list \<Rightarrow> code" where
  "steps [] = Nothing"
| "steps (c # cs) = Then c (steps cs)"

section \<open>The functions of the server\<close>

text \<open>
  \<open>rel\<close> is what dropping a reference runs: \<^verbatim>\<open>ReleaseRef\<close>, when the pointer was not null. Assigning to a pointer, resetting and
  destroying it drop the reference it held; copying a pointer only counts.
\<close>

definition drop_ptr :: "code \<Rightarrow> code" where
  "drop_ptr rel = optional rel"

definition deleter_code :: "code \<Rightarrow> code" where
  "deleter_code rel = steps [drop_ptr rel, drop_ptr rel]"

definition MoveToState_code :: code where
  "MoveToState_code = Under Pool_mtx Nothing"

definition Acquire_code :: code where
  "Acquire_code = Under Pool_mtx Nothing"

text \<open>Taking a slot, storing the pointer in \<^verbatim>\<open>sessionPtrs_\<close> over the one that was there, destroying the local one.\<close>

definition CreateSession_code :: "code \<Rightarrow> code" where
  "CreateSession_code rel = steps [Acquire_code, drop_ptr rel, drop_ptr rel]"

text \<open>The state is looked at and changed under the mutex; the rest, which replaces \<^verbatim>\<open>disconnectOv_.sessionPtr_\<close>, is not.\<close>

definition Disconnect_code :: "code \<Rightarrow> nat \<Rightarrow> code" where
  "Disconnect_code rel i = steps [Under (Connect_mtx i) (optional MoveToState_code), drop_ptr rel]"

definition RegisterAccept_code :: "code \<Rightarrow> code" where
  "RegisterAccept_code rel = drop_ptr rel"

definition PostAccept_code :: "code \<Rightarrow> code" where
  "PostAccept_code rel =
     Loop (steps [CreateSession_code rel,
       optional (steps [RegisterAccept_code rel, optional (Some_session (Disconnect_code rel))]),
       drop_ptr rel])"

text \<open>
  Releasing the last reference runs the deleter, gives the slot back, and posts an accept; all of these may release references. \<open>n\<close>
  bounds how deep that goes; what is shown holds for every \<open>n\<close>.
\<close>

fun ReleaseRef_code :: "nat \<Rightarrow> code" where
  "ReleaseRef_code 0 = Nothing"
| "ReleaseRef_code (Suc n) =
     optional (steps [deleter_code (ReleaseRef_code n), Under Pool_mtx Nothing, optional (PostAccept_code (ReleaseRef_code n))])"

text \<open>Storing the session pointer and, when the call fails, dropping it again.\<close>

definition RegisterWriteInternal_code :: "code \<Rightarrow> code" where
  "RegisterWriteInternal_code rel = steps [drop_ptr rel, drop_ptr rel]"

definition RegisterRead_code :: "code \<Rightarrow> code" where
  "RegisterRead_code rel = optional (steps [drop_ptr rel, drop_ptr rel])"

definition SendPacket_code :: "code \<Rightarrow> nat \<Rightarrow> code" where
  "SendPacket_code rel i = Under (Write_mtx i) (optional (RegisterWriteInternal_code rel))"

definition OnWrite_code :: "code \<Rightarrow> nat \<Rightarrow> code" where
  "OnWrite_code rel i = Under (Write_mtx i) (optional (RegisterWriteInternal_code rel))"

definition Broadcast_code :: "code \<Rightarrow> code" where
  "Broadcast_code rel = Loop (Some_session (SendPacket_code rel))"

text \<open>Both handlers that \<^verbatim>\<open>Execute\<close> may call do one broadcast.\<close>

definition Execute_code :: "code \<Rightarrow> code" where
  "Execute_code rel = Broadcast_code rel"

definition OnRead_code :: "code \<Rightarrow> code" where
  "OnRead_code rel = steps [Loop (Execute_code rel), optional (RegisterRead_code rel)]"

definition HandleIO_code :: "code \<Rightarrow> nat \<Rightarrow> code" where
  "HandleIO_code rel i = optional (Either (OnRead_code rel) (OnWrite_code rel i))"

definition Connect_code :: "code \<Rightarrow> nat \<Rightarrow> code" where
  "Connect_code rel i =
     steps [Under (Connect_mtx i) (optional MoveToState_code),
       optional (steps [SendPacket_code rel i, optional (RegisterRead_code rel)])]"

definition HandleAccept_code :: "code \<Rightarrow> nat \<Rightarrow> code" where
  "HandleAccept_code rel i = optional (Connect_code rel i)"

definition Clear_code :: "code \<Rightarrow> code" where
  "Clear_code rel = optional (drop_ptr rel)"

definition HandleError_code :: "code \<Rightarrow> nat \<Rightarrow> code" where
  "HandleError_code rel i =
     steps [Either (Clear_code rel) (steps [drop_ptr rel, Disconnect_code rel i]), drop_ptr rel]"

definition Dispatch_code :: "code \<Rightarrow> nat \<Rightarrow> code" where
  "Dispatch_code rel i =
     steps [drop_ptr rel,
       Either (steps [HandleAccept_code rel i, optional (Disconnect_code rel i)])
        (Either (Clear_code rel)
         (Either (Disconnect_code rel i)
          (steps [HandleIO_code rel i, optional (Disconnect_code rel i)]))),
       drop_ptr rel]"

definition DecrementPendingAccepts_code :: "code \<Rightarrow> code" where
  "DecrementPendingAccepts_code rel = PostAccept_code rel"

definition WorkerThread_code :: "code \<Rightarrow> nat \<Rightarrow> code" where
  "WorkerThread_code rel i =
     steps [optional (DecrementPendingAccepts_code rel), Either (HandleError_code rel i) (Dispatch_code rel i), drop_ptr rel]"

section \<open>Threads\<close>

text \<open>What a thread still has to do: run a piece of code, or leave a block and release its mutex.\<close>

datatype item = Todo code | Release mutex

record mutexes =
  owner_of :: "mutex \<Rightarrow> nat option"
  todo :: "nat \<Rightarrow> item list"

definition mx_goto :: "nat \<Rightarrow> item list \<Rightarrow> mutexes \<Rightarrow> mutexes" where
  "mx_goto t k s = s\<lparr>todo := (todo s)(t := k)\<rparr>"

text \<open>
  One step of a thread. \<open>b\<close> and \<open>i\<close> decide the branch and the session. Locking a mutex that the thread has, and releasing one
  that it does not have, is undefined for \<^verbatim>\<open>std::mutex\<close>.
\<close>

fun mx_run :: "nat \<Rightarrow> bool \<Rightarrow> nat \<Rightarrow> code \<Rightarrow> item list \<Rightarrow> mutexes \<Rightarrow> mutexes res" where
  "mx_run t b i Nothing k s = Inr (mx_goto t k s)"
| "mx_run t b i (Under m c) k s =
     (if owner_of s m = Some t then Inl Mutex_relocked
      else Inr (mx_goto t (Todo c # Release m # k) (s\<lparr>owner_of := (owner_of s)(m := Some t)\<rparr>)))"
| "mx_run t b i (Then c d) k s = Inr (mx_goto t (Todo c # Todo d # k) s)"
| "mx_run t b i (Either c d) k s = Inr (mx_goto t (Todo (if b then c else d) # k) s)"
| "mx_run t b i (Loop c) k s = Inr (mx_goto t (if b then Todo c # Todo (Loop c) # k else k) s)"
| "mx_run t b i (Some_session f) k s = Inr (mx_goto t (Todo (f i) # k) s)"

definition mx_go :: "nat \<Rightarrow> bool \<Rightarrow> nat \<Rightarrow> mutexes \<Rightarrow> mutexes res" where
  "mx_go t b i s =
     (case todo s t of
        [] \<Rightarrow> Inr s
      | Todo c # k \<Rightarrow> mx_run t b i c k s
      | Release m # k \<Rightarrow>
          if owner_of s m = Some t then Inr (mx_goto t k (s\<lparr>owner_of := (owner_of s)(m := None)\<rparr>)) else Inl Mutex_relocked)"

text \<open>
  \<open>Handle_completion t n i\<close>: a worker takes a completion of session \<open>i\<close>; \<open>Start_accepting t n\<close>: \<^verbatim>\<open>ServerService::Start\<close> posts the
  first accepts.
\<close>

datatype mx_event =
    Handle_completion nat nat nat
  | Start_accepting nat nat
  | Go nat bool nat

text \<open>Whether a thread waits for a mutex of another.\<close>

definition mx_waits :: "nat \<Rightarrow> mutexes \<Rightarrow> bool" where
  "mx_waits t s \<longleftrightarrow>
     (case todo s t of
        Todo (Under m c) # k \<Rightarrow> (case owner_of s m of None \<Rightarrow> False | Some u \<Rightarrow> u \<noteq> t)
      | _ \<Rightarrow> False)"

definition mx_can :: "mx_event \<Rightarrow> mutexes \<Rightarrow> bool" where
  "mx_can e s \<longleftrightarrow>
     (case e of
        Handle_completion t n i \<Rightarrow> todo s t = []
      | Start_accepting t n \<Rightarrow> todo s t = []
      | Go t b i \<Rightarrow> todo s t \<noteq> [] \<and> \<not> mx_waits t s)"

fun mx_step :: "mx_event \<Rightarrow> mutexes \<Rightarrow> mutexes res" where
  "mx_step (Handle_completion t n i) s = Inr (mx_goto t [Todo (WorkerThread_code (ReleaseRef_code n) i)] s)"
| "mx_step (Start_accepting t n) s = Inr (mx_goto t [Todo (PostAccept_code (ReleaseRef_code n))] s)"
| "mx_step (Go t b i) s = mx_go t b i s"

definition mx_start :: mutexes where
  "mx_start = \<lparr>owner_of = (\<lambda>_. None), todo = (\<lambda>_. [])\<rparr>"

section \<open>The order of the mutexes\<close>

fun rank :: "mutex \<Rightarrow> nat" where
  "rank (Write_mtx _) = 1"
| "rank (Connect_mtx _) = 2"
| "rank Pool_mtx = 3"

text \<open>Code that locks only mutexes above \<open>r\<close>, in ascending order.\<close>

primrec ascending :: "code \<Rightarrow> nat \<Rightarrow> bool" where
  "ascending Nothing r = True"
| "ascending (Under m c) r = (r < rank m \<and> ascending c (rank m))"
| "ascending (Then c d) r = (ascending c r \<and> ascending d r)"
| "ascending (Either c d) r = (ascending c r \<and> ascending d r)"
| "ascending (Loop c) r = ascending c r"
| "ascending (Some_session f) r = (\<forall>i. ascending (f i) r)"

lemma ascending_mono: "ascending c r \<Longrightarrow> q \<le> r \<Longrightarrow> ascending c q"
proof (induction c arbitrary: r q)
  case (Some_session f)
  then show ?case by (metis ascending.simps(6) rangeI)
qed (auto intro: le_less_trans)

lemmas code_defs = optional_def drop_ptr_def deleter_code_def MoveToState_code_def Acquire_code_def CreateSession_code_def
  Disconnect_code_def RegisterAccept_code_def PostAccept_code_def

lemma ReleaseRef_ascending: "ascending (ReleaseRef_code n) 1"
  by (induction n) (simp_all add: code_defs)

lemma drop_ascending [simp]: "ascending (ReleaseRef_code n) 0" "ascending (ReleaseRef_code n) (Suc 0)"
  using ReleaseRef_ascending [of n] ascending_mono [of _ 1 0] by auto

lemma PostAccept_ascending: "ascending (PostAccept_code (ReleaseRef_code n)) 0"
  by (simp add: code_defs)

lemma WorkerThread_ascending: "ascending (WorkerThread_code (ReleaseRef_code n) i) 0"
  by (simp add: code_defs WorkerThread_code_def DecrementPendingAccepts_code_def HandleError_code_def Dispatch_code_def Clear_code_def
    HandleAccept_code_def Connect_code_def HandleIO_code_def OnRead_code_def OnWrite_code_def Execute_code_def Broadcast_code_def
    SendPacket_code_def RegisterRead_code_def RegisterWriteInternal_code_def)

section \<open>Invariant\<close>

text \<open>The highest mutex that a thread has: that of the innermost block it is in.\<close>

fun level :: "item list \<Rightarrow> nat" where
  "level [] = 0"
| "level (Todo c # k) = level k"
| "level (Release m # k) = rank m"

fun nested :: "item list \<Rightarrow> bool" where
  "nested [] = True"
| "nested (Todo c # k) = (ascending c (level k) \<and> nested k)"
| "nested (Release m # k) = (level k < rank m \<and> nested k)"

definition mx_inv :: "mutexes \<Rightarrow> bool" where
  "mx_inv s \<longleftrightarrow> (\<forall>t. nested (todo s t)) \<and> (\<forall>m t. owner_of s m = Some t \<longleftrightarrow> Release m \<in> set (todo s t))"

lemma mx_invD:
  assumes "mx_inv s"
  shows "nested (todo s t)" "owner_of s m = Some t \<longleftrightarrow> Release m \<in> set (todo s t)"
  using assms by (simp_all add: mx_inv_def)

lemma nested_rank: "nested k \<Longrightarrow> Release m \<in> set k \<Longrightarrow> rank m \<le> level k"
  by (induction k rule: nested.induct) auto

lemma level_le: "level k \<le> 3"
proof (induction k rule: level.induct)
  case (3 m k)
  show ?case by (cases m) simp_all
qed simp_all

text \<open>A thread that goes on with other code under the mutexes it has.\<close>

lemma mx_same_mutexes:
  assumes "mx_inv s" "nested k" "\<And>m. Release m \<in> set k \<longleftrightarrow> Release m \<in> set (todo s t)"
  shows "mx_inv (mx_goto t k s)"
  using assms by (simp add: mx_inv_def mx_goto_def)

lemma mx_lock_inv:
  assumes I: "mx_inv s" and t: "todo s t = Todo (Under m c) # k" and m: "owner_of s m = None"
  shows "mx_inv (mx_goto t (Todo c # Release m # k) (s\<lparr>owner_of := (owner_of s)(m := Some t)\<rparr>))"
proof -
  have n: "level k < rank m" "ascending c (rank m)" "nested k" using mx_invD(1) [OF I, of t] t by simp_all
  have "Release m \<notin> set (todo s u)" for u using mx_invD(2) [OF I, of m u] m by simp
  moreover have "owner_of s l = Some t \<longleftrightarrow> Release l \<in> set k" for l using mx_invD(2) [OF I, of l t] t by simp
  ultimately show ?thesis using I n t by (auto simp: mx_inv_def mx_goto_def)
qed

lemma mx_unlock_inv:
  assumes I: "mx_inv s" and t: "todo s t = Release m # k"
  shows "mx_inv (mx_goto t k (s\<lparr>owner_of := (owner_of s)(m := None)\<rparr>))"
proof -
  have n: "level k < rank m" "nested k" using mx_invD(1) [OF I, of t] t by simp_all
  then have "Release m \<notin> set k" using nested_rank [of k m] by auto
  moreover have "owner_of s m = Some t" using mx_invD(2) [OF I, of m t] t by simp
  then have "Release m \<notin> set (todo s u)" if "u \<noteq> t" for u using mx_invD(2) [OF I, of m u] that by simp
  moreover have "owner_of s l = Some t \<longleftrightarrow> Release l \<in> set (Release m # k)" for l using mx_invD(2) [OF I, of l t] t by simp
  ultimately show ?thesis using I n t by (auto simp: mx_inv_def mx_goto_def)
qed

text \<open>No step locks a mutex twice or releases one that the thread does not have.\<close>

lemma mx_go_ok:
  assumes I: "mx_inv s" and "todo s t \<noteq> []" "\<not> mx_waits t s"
  shows "\<exists>s'. mx_go t b i s = Inr s' \<and> mx_inv s'"
proof -
  obtain x k where t: "todo s t = x # k" using assms(2) by (cases "todo s t") auto
  note N = mx_invD(1) [OF I, of t]
  show ?thesis
  proof (cases x)
    case (Release m)
    then have "owner_of s m = Some t" using mx_invD(2) [OF I, of m t] t by simp
    then show ?thesis using mx_unlock_inv [OF I] t Release by (simp add: mx_go_def)
  next
    case (Todo c)
    have go: "mx_go t b i s = mx_run t b i c k s" using t Todo by (simp add: mx_go_def)
    show ?thesis
    proof (cases c)
      case (Under m d)
      have "owner_of s m \<noteq> Some t"
        using mx_invD(2) [OF I, of m t] N nested_rank [of k m] t Todo Under by auto
      moreover from this have "owner_of s m = None"
        using assms(3) t Todo Under by (auto simp: mx_waits_def split: option.splits)
      ultimately show ?thesis using mx_lock_inv [OF I, of t m d k] t Todo Under go by simp
    qed (use N t Todo in \<open>auto simp: go intro!: mx_same_mutexes [OF I]\<close>)
  qed
qed

interpretation mx: event_system "\<lambda>s. s = mx_start" mx_can mx_step mx_inv
proof
  fix s s' :: mutexes and e
  show "mx_inv s" if "s = mx_start" by (simp add: that mx_inv_def mx_start_def)
  show "mx_inv s'" if I: "mx_inv s" and e: "mx_can e s" "mx_step e s = Inr s'"
  proof (cases e)
    case (Go t b i)
    then show ?thesis using mx_go_ok [OF I, of t b i] e by (auto simp: mx_can_def)
  qed (use I e WorkerThread_ascending PostAccept_ascending in \<open>auto simp: mx_can_def intro!: mx_same_mutexes\<close>)
qed

section \<open>Properties\<close>

text \<open>Among the threads that have something to do, one with the highest mutex can go on.\<close>

lemma mx_progress:
  assumes I: "mx_inv s" and "todo s t \<noteq> []"
  shows "\<exists>u. todo s u \<noteq> [] \<and> \<not> mx_waits u s"
  using assms(2)
proof (induction "3 - level (todo s t)" arbitrary: t rule: less_induct)
  case less
  show ?case
  proof (cases "mx_waits t s")
    case True
    then obtain m c k u where t: "todo s t = Todo (Under m c) # k" and u: "owner_of s m = Some u"
      by (auto simp: mx_waits_def split: list.splits item.splits code.splits option.splits)
    have "level (todo s t) < rank m" using mx_invD(1) [OF I, of t] t by simp
    moreover have r: "Release m \<in> set (todo s u)" using mx_invD(2) [OF I] u by simp
    then have "rank m \<le> level (todo s u)" using nested_rank mx_invD(1) [OF I] by blast
    ultimately have "3 - level (todo s u) < 3 - level (todo s t)" using level_le [of "todo s u"] by linarith
    then show ?thesis using less.hyps [of u] r by fastforce
  qed (use less.prems in blast)
qed

text \<open>
  C16: the mutexes of the server. Whatever completions any number of worker threads handle at the same time, through whatever branches, no
  thread locks a mutex that it has, and as long as a thread has something to do, one of them can go on: the threads never wait
  for each other in a circle, since every call chain locks in the order \<^verbatim>\<open>writeMtx_\<close>, \<^verbatim>\<open>connectMtx_\<close>, \<^verbatim>\<open>mutex_\<close>.
\<close>

theorem mutexes_never_deadlock:
  assumes "reach (\<lambda>s. s = mx_start) (event_trans mx_can mx_step) s"
  shows "(\<forall>e. mx_can e s \<longrightarrow> (\<exists>s'. mx_step e s = Inr s')) \<and>
    ((\<exists>t. todo s t \<noteq> []) \<longrightarrow> (\<exists>u. \<forall>b i. mx_can (Go u b i) s))"
proof -
  have I: "mx_inv s" by (rule mx.reach_I [OF assms])
  have "\<exists>s'. mx_step e s = Inr s'" if "mx_can e s" for e
  proof (cases e)
    case (Go t b i)
    then show ?thesis using mx_go_ok [OF I, of t b i] that by (auto simp: mx_can_def)
  qed simp_all
  then show ?thesis using mx_progress [OF I] by (auto simp: mx_can_def)
qed

text \<open>Two workers handle completed sends of the same session; the second waits for \<^verbatim>\<open>writeMtx_\<close>.\<close>

definition into_OnWrite :: "nat \<Rightarrow> mx_event list" where
  "into_OnWrite t =
     Handle_completion t 1 7 # map (\<lambda>b. Go t b 0)
       [True, True, True, True, False, True, True, True, True, False, False, False, True, False, False]"

theorem mutexes_never_deadlock_witness:
  "\<exists>s. run_events mx_can mx_step (into_OnWrite 0 @ [Go 0 True 0] @ into_OnWrite 1) mx_start = Inr s \<and>
     owner_of s (Write_mtx 7) = Some 0 \<and> mx_waits 1 s \<and> (\<exists>u. \<forall>b i. mx_can (Go u b i) s)"
proof -
  let ?r = "run_events mx_can mx_step (into_OnWrite 0 @ [Go 0 True 0] @ into_OnWrite 1) mx_start"
  have "map_sum id (\<lambda>s. (owner_of s (Write_mtx 7), mx_waits 1 s)) ?r = Inr (Some 0, True)" by code_simp
  then obtain s where s: "?r = Inr s" "owner_of s (Write_mtx 7) = Some 0" "mx_waits 1 s" by (cases ?r) auto
  have "reach (\<lambda>s. s = mx_start) (event_trans mx_can mx_step) s" by (rule mx.run_reach [OF reach_init s(1)]) simp
  moreover have "todo s 1 \<noteq> []" using s(3) by (auto simp: mx_waits_def)
  ultimately show ?thesis using mutexes_never_deadlock [of s] s by blast
qed

end
