(* ===== verification/Benchmark.thy ===== *)
theory Benchmark
  imports Task_Properties Work_Stealing
begin

text \<open>
  The measurements of the three programs (\<^verbatim>\<open>main\<close> of \<^verbatim>\<open>Scheduler/Main.cpp\<close>, of \<^verbatim>\<open>Scheduler/Legacy/Main.cpp\<close> and of
  \<^verbatim>\<open>Scheduler/WorkStealing.cpp\<close>): eleven iterations, the first of which is not measured, what is printed, the average and the minimum. The
  elapsed time of each iteration is a parameter, as are the quotient and the order of \<^verbatim>\<open>double\<close>. Printed text is a list of
  items: texts, the number of an iteration, and values of type \<^verbatim>\<open>double\<close>, which the stream formats.
\<close>

section \<open>The programs\<close>

datatype 'd shown = Text string | Count nat | Number 'd

definition endl :: "'d shown" where
  "endl = Text [CHR 0x0A]"

record 'd bench =
  elapsedTimes :: "'d list"
  cout :: "'d shown list"

definition iterations :: nat where
  "iterations = 11"

text \<open>The end of an iteration: \<open>elapsed\<close> is \<^verbatim>\<open>end - start\<close>, \<open>tot\<close> the value that is printed behind \<open>label\<close>.\<close>

definition report_iteration :: "string \<Rightarrow> nat \<Rightarrow> 'd \<Rightarrow> 'd \<Rightarrow> 'd bench \<Rightarrow> 'd bench" where
  "report_iteration label i elapsed tot b =
     (let b = (if i = 0 then b\<lparr>cout := cout b @ [Text ''Warm-up: '', Number elapsed, Text ''ms (Discarded) '']\<rparr>
               else b\<lparr>elapsedTimes := elapsedTimes b @ [elapsed],
                      cout := cout b @ [Text ''Iteration '', Count i, Text '': '', Number elapsed, Text ''ms '']\<rparr>) in
      b\<lparr>cout := cout b @ [Text label, Number tot, endl]\<rparr>)"

text \<open>\<^verbatim>\<open>std::min_element\<close>, as a position; the position of an empty sequence is its end.\<close>

definition min_element :: "('d \<Rightarrow> 'd \<Rightarrow> bool) \<Rightarrow> 'd list \<Rightarrow> nat" where
  "min_element lt xs = foldl (\<lambda>m j. if lt (xs ! j) (xs ! m) then j else m) 0 [1..<length xs]"

definition accumulate :: "'d floats \<Rightarrow> 'd list \<Rightarrow> 'd" where
  "accumulate fl xs = foldl (f_add fl) (f_of_int fl 0) xs"

definition final_result :: "'d floats \<Rightarrow> ('d \<Rightarrow> 'd \<Rightarrow> 'd) \<Rightarrow> ('d \<Rightarrow> 'd \<Rightarrow> bool) \<Rightarrow> 'd bench \<Rightarrow> 'd shown list res" where
  "final_result fl quot lt b =
     (let avg = quot (accumulate fl (elapsedTimes b)) (f_of_int fl (int (length (elapsedTimes b)))) in
      rbind (aget (elapsedTimes b) (min_element lt (elapsedTimes b))) (\<lambda>min_val.
      Inr (cout b @ [endl, Text ''=== Final Benchmark Result ==='', endl, Text ''Average: '', Number avg, Text ''ms'', endl,
        Text ''Minimum: '', Number min_val, Text ''ms'', endl])))"

definition measure_all :: "string \<Rightarrow> (nat \<Rightarrow> 'd) \<Rightarrow> (nat \<Rightarrow> 'd) \<Rightarrow> nat \<Rightarrow> 'd bench" where
  "measure_all label elapsed tot n =
     foldl (\<lambda>b i. report_iteration label i (elapsed i) (tot i) b) \<lparr>elapsedTimes = [], cout = []\<rparr> [0..<n]"

definition benchmark_main ::
  "string \<Rightarrow> 'd floats \<Rightarrow> ('d \<Rightarrow> 'd \<Rightarrow> 'd) \<Rightarrow> ('d \<Rightarrow> 'd \<Rightarrow> bool) \<Rightarrow> (nat \<Rightarrow> 'd) \<Rightarrow> (nat \<Rightarrow> 'd) \<Rightarrow> 'd shown list res" where
  "benchmark_main label fl quot lt elapsed tot =
     final_result fl quot lt (measure_all label elapsed tot iterations)"

text \<open>The mains: the totals are those the model of the scheduler collected, or the value of \<^verbatim>\<open>g_sum\<close> at the end of each iteration.\<close>

definition scheduler_main ::
  "'d floats \<Rightarrow> ('d \<Rightarrow> 'd \<Rightarrow> 'd) \<Rightarrow> ('d \<Rightarrow> 'd \<Rightarrow> bool) \<Rightarrow> (nat \<Rightarrow> 'd) \<Rightarrow> 'd sched \<Rightarrow> 'd shown list res" where
  "scheduler_main fl quot lt elapsed s =
     benchmark_main ''- Total Sum: '' fl quot lt elapsed (\<lambda>i. totals s ! i)"

definition legacy_main ::
  "'d floats \<Rightarrow> ('d \<Rightarrow> 'd \<Rightarrow> 'd) \<Rightarrow> ('d \<Rightarrow> 'd \<Rightarrow> bool) \<Rightarrow> (nat \<Rightarrow> 'd) \<Rightarrow> 'd sched \<Rightarrow> 'd shown list res" where
  "legacy_main = scheduler_main"

definition ws_main_output ::
  "'d floats \<Rightarrow> ('d \<Rightarrow> 'd \<Rightarrow> 'd) \<Rightarrow> ('d \<Rightarrow> 'd \<Rightarrow> bool) \<Rightarrow> (nat \<Rightarrow> 'd) \<Rightarrow> (nat \<Rightarrow> 'd ws) \<Rightarrow> 'd shown list res" where
  "ws_main_output fl quot lt elapsed after =
     benchmark_main ''Sum: '' fl quot lt elapsed (\<lambda>i. g_sum (after i))"

section \<open>The smallest element\<close>

lemma min_scan:
  assumes "\<And>x y. lt x y \<Longrightarrow> \<not> lt y x" "\<And>x y z. lt x z \<Longrightarrow> lt x y \<or> lt y z" "0 < n" "n \<le> length xs"
  shows "let m = foldl (\<lambda>m j. if lt (xs ! j) (xs ! m) then j else m) 0 [1..<n] in m < n \<and> (\<forall>j<n. \<not> lt (xs ! j) (xs ! m))"
  using assms(3,4)
proof (induction n rule: nat_induct_non_zero)
  case 1
  show ?case using assms(1) by (auto simp: Let_def)
next
  case (Suc n)
  let ?m = "foldl (\<lambda>m j. if lt (xs ! j) (xs ! m) then j else m) 0 [1..<n]"
  have m: "?m < n" "\<forall>j<n. \<not> lt (xs ! j) (xs ! ?m)" using Suc by (simp_all add: Let_def)
  have "\<not> lt (xs ! j) (xs ! n)" if "lt (xs ! n) (xs ! ?m)" "j < n" for j
    using assms(1) [OF that(1)] assms(2) [of "xs ! j" "xs ! n" "xs ! ?m"] m(2) that(2) by blast
  moreover have "\<not> lt x x" for x using assms(1) by blast
  ultimately show ?case using m Suc.hyps by (auto simp: Let_def less_Suc_eq upt_Suc_append)
qed

lemma min_element_least:
  assumes "\<And>x y. lt x y \<Longrightarrow> \<not> lt y x" "\<And>x y z. lt x z \<Longrightarrow> lt x y \<or> lt y z" "xs \<noteq> []"
  shows "min_element lt xs < length xs" "x \<in> set xs \<Longrightarrow> \<not> lt x (xs ! min_element lt xs)"
  using min_scan [where lt = lt and n = "length xs" and xs = xs, OF assms(1,2)] assms(3) by (auto simp: Let_def min_element_def in_set_conv_nth)

section \<open>The number of iterations\<close>

definition iteration_line :: "string \<Rightarrow> (nat \<Rightarrow> 'd) \<Rightarrow> 'd \<Rightarrow> nat \<Rightarrow> 'd shown list" where
  "iteration_line label elapsed tot i =
     (if i = 0 then [Text ''Warm-up: '', Number (elapsed 0), Text ''ms (Discarded) '']
      else [Text ''Iteration '', Count i, Text '': '', Number (elapsed i), Text ''ms '']) @ [Text label, Number tot, endl]"

lemma measure_all_eq:
  "measure_all label elapsed tot n =
     \<lparr>elapsedTimes = map elapsed [1..<n], cout = concat (map (\<lambda>i. iteration_line label elapsed (tot i) i) [0..<n])\<rparr>"
proof (induction n)
  case (Suc n)
  then show ?case
    by (cases n) (simp_all add: measure_all_def report_iteration_def iteration_line_def Let_def upt_Suc_append del: upt_Suc)
qed (simp add: measure_all_def)

text \<open>The main thread counts its iterations; the workers do not touch the counter and can only wake the main thread.\<close>

definition iterations_counted :: "'d sched \<Rightarrow> bool" where
  "iterations_counted s \<longleftrightarrow> (if main_at s = M_Done then iteration s = iterations else iteration s < iterations)"

definition same_progress :: "'d sched \<Rightarrow> 'd sched \<Rightarrow> bool" where
  "same_progress s t \<longleftrightarrow> iteration t = iteration s \<and> (main_at t = main_at s \<or> main_at s = M_Blocked \<and> main_at t = M_Lock)"

lemma progress_goto [simp]: "same_progress s (goto i pc t) = same_progress s t"
  by (simp add: same_progress_def)

lemma progress_notify: "same_progress s (notify_one s)"
  by (simp add: same_progress_def notify_one_def)

lemma progress_execute: "execute fl t s = Inr s' \<Longrightarrow> same_progress s s'"
  by (auto simp: execute_def same_progress_def elim!: rbind_eq_InrE)

lemma progress_worker:
  assumes "worker_step fl cf l1 l2 v i s = Inr t"
  shows "same_progress s t"
proof -
  obtain w pc where w: "(if complex_pc pc then RunComplex fl cf l1 l2 v i w pc s else RunSimple fl i pc s) = Inr t"
    using assms by (auto simp: worker_step_def elim!: rbind_eq_InrE)
  show ?thesis
  proof (cases pc)
    case (C_Steal k)
    then show ?thesis using w by (cases k) (auto simp: RunComplex_def same_progress_def elim!: rbind_eq_InrE)
  qed (use w progress_execute progress_notify in \<open>auto simp: RunComplex_def RunSimple_def same_progress_def fetch_sub_def notify_one_def Let_def execute_def
    elim!: rbind_eq_InrE split: option.splits list.splits if_splits\<close>)
qed

interpretation bm: event_system "\<lambda>s. s = new_sched fl cf" "sched_enabled cf" "sched_step fl cf" iterations_counted
  for fl :: "'d floats" and cf
proof
  fix s t :: "'d sched" and e
  show "iterations_counted s" if "s = new_sched fl cf" by (simp add: that iterations_counted_def new_sched_def iterations_def)
  show "iterations_counted t" if "iterations_counted s" "sched_enabled cf e s" "sched_step fl cf e s = Inr t"
  proof (cases e)
    case (Worker_runs i l1 l2 v)
    then show ?thesis using that progress_worker [of fl cf l1 l2 v i s t] by (auto simp: iterations_counted_def same_progress_def)
  next
    case Main_runs
    then show ?thesis using that
      by (cases "main_at s") (auto simp: iterations_counted_def iterations_def RunTasks_def begin_iteration_def MakeTask_def goto_def Let_def split: if_splits)
  next
    case Main_wakes
    then show ?thesis using that by (auto simp: iterations_counted_def)
  qed
qed

section \<open>What is printed\<close>

text \<open>
  C40: the report. When the program of the scheduler ends it has printed eleven lines with the same total, the average of
  the last ten times, and one of these ten that no other is less than; the minimum is never taken of an empty sequence.
\<close>

theorem benchmark_report:
  assumes "config_ok cf" "sched_reaches fl cf s" "main_at s = M_Done"
    and "\<And>x y. lt x y \<Longrightarrow> \<not> lt y x" "\<And>x y z. lt x z \<Longrightarrow> lt x y \<or> lt y z"
  shows "\<exists>m\<in>{1..10}. (\<forall>i\<in>{1..10}. \<not> lt (elapsed i) (elapsed m)) \<and>
    scheduler_main fl quot lt elapsed s =
      Inr (concat (map (iteration_line ''- Total Sum: '' elapsed (expected_total fl cf)) [0..<11]) @
        [endl, Text ''=== Final Benchmark Result ==='', endl,
         Text ''Average: '', Number (quot (accumulate fl (map elapsed [1..<11])) (f_of_int fl 10)), Text ''ms'', endl,
         Text ''Minimum: '', Number (elapsed m), Text ''ms'', endl])"
proof -
  let ?xs = "map elapsed [1..<11]" and ?T = "expected_total fl cf"
  have i: "iteration s = 11" using bm.reach_I [OF assms(2)] assms(3) by (simp add: iterations_counted_def iterations_def)
  have t: "totals s = replicate 11 ?T" using totals_deterministic [OF assms(1,2)] i by simp
  note m = min_element_least [where lt = lt and xs = ?xs, OF assms(4,5)]
  let ?m = "min_element lt ?xs"
  have l: "?m < 10" "?xs ! ?m = elapsed (Suc ?m)" using m(1) by (simp_all del: upt_Suc)
  have "\<not> lt (elapsed i) (elapsed (Suc ?m))" if "i \<in> {1..10}" for i
    using m(2) [of "elapsed i"] that l by (auto simp del: upt_Suc)
  moreover have lines: "map (\<lambda>i. iteration_line ''- Total Sum: '' elapsed (totals s ! i) i) [0..<11] =
      map (iteration_line ''- Total Sum: '' elapsed ?T) [0..<11]" using t by (intro map_cong) auto
  have "scheduler_main fl quot lt elapsed s =
      Inr (concat (map (iteration_line ''- Total Sum: '' elapsed ?T) [0..<11]) @
        [endl, Text ''=== Final Benchmark Result ==='', endl,
         Text ''Average: '', Number (quot (accumulate fl ?xs) (f_of_int fl 10)), Text ''ms'', endl,
         Text ''Minimum: '', Number (elapsed (Suc ?m)), Text ''ms'', endl])"
    using m(1) l
    by (simp only: scheduler_main_def benchmark_main_def final_result_def measure_all_eq iterations_def Let_def lines) (simp del: upt_Suc)
  ultimately show ?thesis using l(1) by (intro bexI [of _ "Suc ?m"]) auto
qed

text \<open>A complete run with one simple worker and one task in every iteration.\<close>

definition tiny :: config where
  "tiny = \<lparr>num_threads = 1, tasks_per_thread = 1, steal_attempts = 1, use_complex_worker = False\<rparr>"

definition complete_run :: "sched_event list" where
  "complete_run = (let w = Worker_runs 0 True True 0 in
     concat (replicate 11 (replicate 3 Main_runs @ [w, w, w, w] @ replicate 3 Main_runs @ [w, w] @ replicate 3 Main_runs)))"

definition sample_times :: "nat \<Rightarrow> int" where
  "sample_times i = (if i = 7 then 2 else 5)"

theorem benchmark_report_witness:
  "\<exists>s out. main_at s = M_Done \<and> scheduler_main sample_floats (div) (<) sample_times s = Inr out \<and> length out = 97 \<and>
     out ! 94 = Number 2"
proof -
  let ?r = "sched_run sample_floats tiny complete_run (new_sched sample_floats tiny)"
  have "map_sum id main_at ?r = Inr M_Done" by code_simp
  then obtain s where s: "?r = Inr s" "main_at s = M_Done" by (cases ?r) auto
  have r: "sched_reaches sample_floats tiny s" by (rule ts.run_reach [OF reach_init s(1)]) simp
  have ok: "config_ok tiny" by (simp add: config_ok_def tiny_def)
  have len: "length (concat (map (iteration_line l e t) [0..<11])) = 86" for l e and t :: int
    by (simp add: iteration_line_def upt_eval)
  have less: "\<And>x y :: int. x < y \<Longrightarrow> \<not> y < x" "\<And>x y z :: int. x < z \<Longrightarrow> x < y \<or> y < z" by linarith+
  obtain m where m: "m \<in> {1..10}" "\<forall>i\<in>{1..10}. \<not> sample_times i < sample_times m"
    "scheduler_main sample_floats (div) (<) sample_times s =
      Inr (concat (map (iteration_line ''- Total Sum: '' sample_times (expected_total sample_floats tiny)) [0..<11]) @
        [endl, Text ''=== Final Benchmark Result ==='', endl,
         Text ''Average: '', Number (accumulate sample_floats (map sample_times [1..<11]) div f_of_int sample_floats 10),
         Text ''ms'', endl, Text ''Minimum: '', Number (sample_times m), Text ''ms'', endl])"
    using benchmark_report [where elapsed = sample_times and quot = "(div)" and lt = "(<)", OF ok r s(2) less] by blast
  then obtain lines avg where "scheduler_main sample_floats (div) (<) sample_times s =
      Inr (lines @ [endl, Text ''=== Final Benchmark Result ==='', endl, Text ''Average: '', Number avg, Text ''ms'', endl,
        Text ''Minimum: '', Number (sample_times m), Text ''ms'', endl])" "length lines = 86" using len by blast
  moreover have "m = 7" using m(2) by (auto simp: sample_times_def dest: bspec [of _ _ 7] split: if_splits)
  ultimately show ?thesis using s(2) by (auto simp: nth_append sample_times_def)
qed

end
