(* ===== verification/Spec2Isabelle.thy ===== *)
theory Spec2Isabelle
  imports Server_Properties Server_Errors Pool_Properties Manager_Shutdown Server_Shutdown Lifecycle_Properties
    Work_Stealing_Properties Legacy_Scheduler Test_Properties
    Write_Properties Accept_Properties Connection_Threads Mutex_Order Benchmark
begin

text \<open>
  Verification of the server study repository: a chat server on Windows I/O completion ports (\<^verbatim>\<open>Network/Server\<close> on
  \<^verbatim>\<open>Network/Common\<close>), two task schedulers (\<^verbatim>\<open>Scheduler\<close>), older network programs (\<^verbatim>\<open>Network/Legacy\<close>) and integration tests (\<^verbatim>\<open>Tests\<close>).

  \<^bold>\<open>Conventions.\<close> Integers keep their width as words (\<^verbatim>\<open>size_t\<close> is a 64-bit word, \<^verbatim>\<open>std::atomic<int>\<close> a 32-bit word), bytes are
  8-bit words, structures are records with the members of the source. A statement that the language gives no meaning to,
  that throws, or that hands the kernel a structure in use is a value of the type \<open>fault\<close>; every operation returns a fault
  or a result (\<^verbatim>\<open>Server_Prelude\<close>). So a theorem that an operation returns a result also states that it is memory safe.
  Code outside the repository is a parameter: the operating system of the server is a function \<open>os\<close> that decides the outcome of
  every call from the log of calls so far (\<open>decide\<close>, from their number, where only opening and closing matters), the socket of the older programs and the arithmetic on \<^verbatim>\<open>double\<close> are functions without
  a definition. What is assumed of them is stated as named predicates (\<open>os_respects\<close>, \<open>kernel_ok\<close>, \<open>client_ok\<close>,
  \<open>stream_socket\<close>), each with an instance in the witnesses.

  \<^bold>\<open>The server.\<close> Its parts, from the bottom.
  \<^item> \<^verbatim>\<open>Sparse_Set\<close> (\<^verbatim>\<open>Pool/SparseSet.hpp\<close>): slots in a dense and a sparse array, sorted by state; handles carry a 32-bit
    generation. All operations keep the layout, refine a map from slots to states (locale \<open>generational_set\<close>), and a released handle is
    valid again exactly when its generation has wrapped around.
  \<^item> \<^verbatim>\<open>Protocol\<close>, \<^verbatim>\<open>Magic_Buffer\<close>, \<^verbatim>\<open>Session_Stream\<close> (\<^verbatim>\<open>Protocol.hpp\<close>, \<^verbatim>\<open>MagicBuffer.cpp\<close>, \<^verbatim>\<open>OverlappedEx.hpp\<close>, the
    buffer part of \<^verbatim>\<open>Session.cpp\<close>): packet layouts, the doubly mapped ring buffer, cutting received bytes into packets, queueing packets
    to be sent. \<open>frames\<close> is the specification of the framing; \<open>OnRead\<close> implements it for every way the network cuts the stream, and the
    write path is a queue of bytes (locale \<open>byte_queue\<close>).
  \<^item> \<^verbatim>\<open>Ref_Pool\<close> (\<^verbatim>\<open>SparsePool.hpp\<close>, \<^verbatim>\<open>ObjectPool.hpp\<close>, \<^verbatim>\<open>SharedPoolPtr.hpp\<close>): reference-counted objects, pointers as cells of
    an explicit store, callbacks that may release pointers themselves. The locale \<open>pool_client\<close> states what a deleter must keep;
    counts equal the number of pointers. It is interpreted on the server's callbacks in \<^verbatim>\<open>Iocp_Core\<close>.
  \<^item> \<^verbatim>\<open>Server_World\<close>, \<^verbatim>\<open>Session_Io\<close>, \<^verbatim>\<open>Packet_Handler\<close>, \<^verbatim>\<open>Session_Life\<close>, \<^verbatim>\<open>Listener\<close>, \<^verbatim>\<open>Iocp_Core\<close> (\<^verbatim>\<open>Session.cpp\<close>,
    \<^verbatim>\<open>SessionManager.cpp\<close>, \<^verbatim>\<open>PacketHandler.cpp\<close>, \<^verbatim>\<open>Listener.cpp\<close>, \<^verbatim>\<open>IocpCore.cpp\<close>): the state of the server (\<open>world\<close>: the pool of
    sessions, all pointers to them, the counter of pending accepts, the operations in flight, the log of system calls) and
    every operation on it, with the invariant \<open>good\<close>. A local variable that holds a pointer is a numbered cell of the
    store; leaving its scope runs the destructor (\<open>scoped\<close>). Re-entrant releases are bounded by a call depth that the
    proofs show is never exceeded. Completions are handled one at a time in this model, so that the mutexes of the server do not occur; the theories
    of the next items take its parts apart.
  \<^item> \<^verbatim>\<open>Server_Run\<close>, \<^verbatim>\<open>Server_Relay\<close>, \<^verbatim>\<open>Server_Sample\<close>, \<^verbatim>\<open>Server_Properties\<close>, \<^verbatim>\<open>Server_Errors\<close> (\<^verbatim>\<open>ServerService.hpp\<close> and the whole):
    starting the server and its steps as a transition relation, the effect of a receive on all other
    sessions, a small server evaluated inside the logic, the properties of all reachable states, and the inputs and failures the
    code does not handle.
  \<^item> \<^verbatim>\<open>Pool_Threads\<close>, \<^verbatim>\<open>Pool_Interleaving\<close>, \<^verbatim>\<open>Pool_Properties\<close> (\<^verbatim>\<open>SparsePool.hpp\<close>, \<^verbatim>\<open>SharedPoolPtr.hpp\<close>): the pool used by
    any number of threads. The operations are cut at every access to shared memory, and the cuts put together are the operations of \<open>Ref_Pool\<close>
    again. As long as threads use pointers of their own (\<open>own_can\<close>), no interleaving faults or miscounts, and an object is
    cleared and given back by one thread alone; the server's \<^verbatim>\<open>Broadcast\<close> does not keep to that, and the race is exhibited.
  \<^item> \<^verbatim>\<open>Write_Threads\<close>, \<^verbatim>\<open>Write_Properties\<close> (\<^verbatim>\<open>SendPacket\<close>, \<^verbatim>\<open>RegisterWriteInternal\<close>, \<^verbatim>\<open>OnWrite\<close> of \<^verbatim>\<open>Session.cpp\<close>): the sending side of one
    session, cut at every statement, with \<^verbatim>\<open>writeMtx_\<close>, any number of senders, workers that handle completions, and a kernel that reads the
    region it was given byte by byte meanwhile. The invariant says who is in charge of the structure (\<open>baton\<close>). Bytes leave in the order of
    the accepted packets, none is forgotten while sends succeed, and a send that fails stops the session for good. Without interruption the
    statements are the operations of \<^verbatim>\<open>Session_Stream\<close>.
  \<^item> \<^verbatim>\<open>Accept_Threads\<close>, \<^verbatim>\<open>Accept_Properties\<close> (\<^verbatim>\<open>PostAccept\<close>, \<^verbatim>\<open>RegisterAccept\<close>, \<^verbatim>\<open>DecrementPendingAccepts\<close> of \<^verbatim>\<open>Listener.cpp\<close>): the atomic
    counter of pending accepts under any number of threads. It is exact in every interleaving; the one fault is a completion handled before
    \<^verbatim>\<open>SetListener\<close>, and failed accepts that go unnoticed use up the limit.
  \<^item> \<^verbatim>\<open>Connection_Threads\<close> (\<^verbatim>\<open>Connect\<close>, \<^verbatim>\<open>Disconnect\<close> of \<^verbatim>\<open>Session.cpp\<close>, one round of \<^verbatim>\<open>Broadcast\<close>): what \<^verbatim>\<open>connectMtx_\<close> orders, and
    what it does not.
  \<^item> \<^verbatim>\<open>Mutex_Order\<close> (all of the server): each function reduced to what it locks and whom it calls meanwhile, on every branch. All call chains
    lock in one order, so the worker threads cannot wait for each other in a circle, and none locks a mutex twice.
  \<^item> \<^verbatim>\<open>Os_Resources\<close>, \<^verbatim>\<open>Server_Lifecycle\<close>, \<^verbatim>\<open>Lifecycle_Properties\<close> (\<^verbatim>\<open>MagicBuffer.cpp\<close>, \<^verbatim>\<open>WSAManager.hpp\<close>, \<^verbatim>\<open>ServerUtils.cpp\<close>,
    constructors and destructors, \<^verbatim>\<open>Server/Main.cpp\<close>): what is opened and closed, with stack unwinding. A class whose destructor closes
    what its constructor opened is an instance of the locale \<open>raii\<close>; \<open>server_main\<close> leaves exactly the sockets of the sessions open.
  \<^item> \<^verbatim>\<open>Manager_Shutdown\<close>, \<^verbatim>\<open>Server_Shutdown\<close> (destructors of \<^verbatim>\<open>SessionManager\<close> and \<^verbatim>\<open>IocpCore\<close>): destroying the sessions
    works exactly when all are idle; joining the workers ends, but an accept may still reach the destroyed listener.

  \<^bold>\<open>The schedulers.\<close> Threads are program counters; a step is a section under its mutexes or one atomic operation, and the
  outcome of every attempt to lock and every random victim is part of the event. Both are instances of the locale
  \<open>event_system\<close>.
  \<^item> \<^verbatim>\<open>Ring_Buffer\<close>: arrays with free-running 64-bit counters are double-ended queues for every capacity that divides the range of
    the counters (locale \<open>ring_capacity\<close>, interpreted at 512, 64 and 1024).
  \<^item> \<^verbatim>\<open>Task_Worker\<close>, \<^verbatim>\<open>Task_Scheduler\<close>, \<^verbatim>\<open>Task_Invariant\<close>, \<^verbatim>\<open>Task_Steps\<close>, \<^verbatim>\<open>Task_Properties\<close> (\<^verbatim>\<open>Scheduler/Worker.hpp\<close>,
    \<^verbatim>\<open>Worker.cpp\<close>, \<^verbatim>\<open>SchedulerContext.hpp\<close>, \<^verbatim>\<open>Main.cpp\<close>): the operations of a worker, both worker loops and the main thread with its
    condition variable, over all eleven iterations. \<^verbatim>\<open>Legacy_Scheduler\<close>: the copy in \<^verbatim>\<open>Scheduler/Legacy\<close>, the same code with the parameters
    \<open>legacy_config\<close>, where only the simple worker loop runs. No task is lost or run twice, the main thread continues only when all have run, the printed total is
    the same in every interleaving; with one thread a fetch takes one task too many, and a notification can be lost.
  \<^item> \<^verbatim>\<open>Work_Stealing\<close>, \<^verbatim>\<open>Work_Stealing_Steps\<close>, \<^verbatim>\<open>Work_Stealing_Properties\<close> (\<^verbatim>\<open>Scheduler/WorkStealing.cpp\<close>): the same questions for the
    second scheduler, whose only fault is the race on the vector of queues during start-up.
  \<^item> \<^verbatim>\<open>Benchmark\<close> (\<^verbatim>\<open>main\<close> of the three programs): eleven iterations, what is printed for each, the average and the minimum; the elapsed
    times are a parameter.

  \<^bold>\<open>Older programs and tests.\<close>
  \<^item> \<^verbatim>\<open>Legacy_Network\<close>, \<^verbatim>\<open>Legacy_Mains\<close> (\<^verbatim>\<open>Network/Legacy\<close>): the client, which receives exactly the packets of the stream and never
    writes outside its buffer, the two echo loops, and the three \<^verbatim>\<open>main\<close> functions as sequences of system calls.
  \<^item> \<^verbatim>\<open>Test_Client\<close>, \<^verbatim>\<open>Test_Properties\<close> (\<^verbatim>\<open>Tests/Base\<close>, \<^verbatim>\<open>Tests/Integration\<close>): the client of the integration tests and what
    the tests send, put together with the framing and the replies of the server.

  \<^bold>\<open>Bounds.\<close> Pools of fewer than \<open>2\<^sup>3\<^sup>2\<close> sessions and buffers of at least four and fewer than \<open>2\<^sup>3\<^sup>2\<close> bytes are covered; the loops of the server are bounded
  by measures or by the capacity of the pool. The schedulers are covered for every number of threads and tasks whose product fits
  \<^verbatim>\<open>int\<close>, the first one from two threads on. The loops of the echo servers may not end; there the missing result is the value \<open>None\<close>.

  \<^bold>\<open>Not modelled.\<close> Two completions handled at the same time in the model of the whole server (\<open>world\<close>): threads are modelled for each part
  alone (the pool, the sending side and the connection of a session, the accepts, the shutdown), and what a part does to
  another is an outcome of its step. The receiving side has one user at a time, since a receive is posted only after the last has been handled.
  Memory ordering, and data races other than those named. The echo loop inside \<open>single_main\<close>, which may not end, is a parameter there. The text
  of log messages, and time. The order of the assertions and the runner of the integration tests, and the build files.
\<close>

end
